(* ===== verification/Prelude.thy ===== *)
theory Prelude
  imports Main "HOL-Library.Word" "HOL-Library.List_Lexorder" "HOL-Library.Char_ord"
begin

text \<open>
  Shared vocabulary of the development: the result type of fallible Rust code, bytes and the
  little- and big-endian integer encodings of the Rust standard library, Rust strings as UTF-8
  byte strings, and the generic lemmas the component theories rely on.

  A Rust \<open>Result\<close> is a sum with the error on the left. Code that may also panic (an \<open>expect\<close>,
  an \<open>assert\<close>, a slice out of range) returns a \<open>fault\<close>, so that a panic is a value of the model
  and its absence is a theorem. Messages attached to an \<open>error_stack::Report\<close> carry no control
  flow and are left out.
\<close>

named_theorems result_simps \<open>inversion of the result monad\<close>
named_theorems wire_simps \<open>forward evaluation of readers on encoded input\<close>
named_theorems wire_inv \<open>inversion of successful reads\<close>

section \<open>Results\<close>

abbreviation Ok :: "'a \<Rightarrow> 'e + 'a" where
  "Ok \<equiv> Inr"

abbreviation Err :: "'e \<Rightarrow> 'e + 'a" where
  "Err \<equiv> Inl"

datatype 'e fault = Fail 'e | Panic

definition bindR :: "'e + 'a \<Rightarrow> ('a \<Rightarrow> 'e + 'b) \<Rightarrow> 'e + 'b" where
  "bindR m f = (case m of Inl e \<Rightarrow> Inl e | Inr a \<Rightarrow> f a)"

definition requireR :: "bool \<Rightarrow> 'e \<Rightarrow> 'e + unit" where
  "requireR c e = (if c then Ok () else Err e)"

definition mapErr :: "('e \<Rightarrow> 'f) \<Rightarrow> 'e + 'a \<Rightarrow> 'f + 'a" where
  "mapErr f m = (case m of Inl e \<Rightarrow> Inl (f e) | Inr a \<Rightarrow> Inr a)"

lemma bindR_Inl [simp]: "bindR (Inl e) f = Inl e"
  and bindR_Inr [simp]: "bindR (Inr a) f = f a"
  by (simp_all add: bindR_def)

lemma bindR_cong [fundef_cong]:
  "m = m' \<Longrightarrow> (\<And>a. m' = Inr a \<Longrightarrow> f a = f' a) \<Longrightarrow> bindR m f = bindR m' f'"
  by (cases m') (auto simp: bindR_def)

lemma bindR_eq_Inr [result_simps]: "bindR m f = Inr y \<longleftrightarrow> (\<exists>a. m = Inr a \<and> f a = Inr y)"
  by (cases m) auto

lemma bindR_eq_Inl [result_simps]:
  "bindR m f = Inl e \<longleftrightarrow> m = Inl e \<or> (\<exists>a. m = Inr a \<and> f a = Inl e)"
  by (cases m) auto

lemma bindR_if: "bindR (if c then m else m') f = (if c then bindR m f else bindR m' f)"
  by simp

lemma requireR_True [simp]: "requireR True e = Inr ()"
  and requireR_False [simp]: "requireR False e = Inl e"
  by (simp_all add: requireR_def)

lemma requireR_eq_Inr [result_simps]: "requireR c e = Inr u \<longleftrightarrow> c"
  by (simp add: requireR_def)

lemma requireR_eq_Inl [result_simps]: "requireR c e = Inl e' \<longleftrightarrow> \<not> c \<and> e' = e"
  by (auto simp: requireR_def)

lemma mapErr_Inl [simp]: "mapErr f (Inl e) = Inl (f e)"
  and mapErr_Inr [simp]: "mapErr f (Inr a) = Inr a"
  by (simp_all add: mapErr_def)

lemma mapErr_eq_Inr [result_simps]: "mapErr f m = Inr a \<longleftrightarrow> m = Inr a"
  by (cases m) auto

lemma mapErr_eq_Inl [result_simps]: "mapErr f m = Inl e \<longleftrightarrow> (\<exists>e'. m = Inl e' \<and> e = f e')"
  by (cases m) auto

definition isOk :: "'e + 'a \<Rightarrow> bool" where
  "isOk m = (case m of Inl _ \<Rightarrow> False | Inr _ \<Rightarrow> True)"

lemma isOk_simps [simp]: "isOk (Inr a)" "\<not> isOk (Inl e)"
  by (simp_all add: isOk_def)

lemma isOk_iff: "isOk m \<longleftrightarrow> (\<exists>a. m = Inr a)"
  by (cases m) auto

section \<open>Machine integers and bytes\<close>

type_synonym byte = "8 word"
type_synonym u8 = "8 word"
type_synonym u16 = "16 word"
type_synonym u32 = "32 word"
type_synonym u64 = "64 word"
type_synonym u128 = "128 word"

text \<open>\<open>usize\<close> is 64 bits wide on every supported host; lengths are naturals bounded by it.\<close>

definition usize_max :: nat where
  "usize_max = 2 ^ 64 - 1"

definition u64_max :: u64 where
  "u64_max = -1"

definition u32_max :: u32 where
  "u32_max = -1"

text \<open>\<open>u32::try_from\<close> of a natural succeeds; the comparison is evaluated on binary integers.\<close>

definition fits_u32 :: "nat \<Rightarrow> bool" where
  "fits_u32 n \<longleftrightarrow> n \<le> unat u32_max"

lemma fits_u32_iff: "fits_u32 n \<longleftrightarrow> n < 2 ^ 32"
  by (auto simp: fits_u32_def u32_max_def unsigned_minus_1_eq_mask mask_eq_exp_minus_1)

lemma fits_u32_code [code]: "fits_u32 n \<longleftrightarrow> int n \<le> 4294967295"
  by (auto simp: fits_u32_iff)

text \<open>\<open>to_le_bytes\<close> and \<open>from_le_bytes\<close> of the standard library, on the value read as a natural.\<close>

fun le_bytes :: "nat \<Rightarrow> nat \<Rightarrow> byte list" where
  "le_bytes 0 n = []"
| "le_bytes (Suc k) n = word_of_nat (n mod 256) # le_bytes k (n div 256)"

fun le_val :: "byte list \<Rightarrow> nat" where
  "le_val [] = 0"
| "le_val (b # bs) = unat b + 256 * le_val bs"

definition be_bytes :: "nat \<Rightarrow> nat \<Rightarrow> byte list" where
  "be_bytes k n = rev (le_bytes k n)"

definition be_val :: "byte list \<Rightarrow> nat" where
  "be_val bs = le_val (rev bs)"

lemma length_le_bytes [simp]: "length (le_bytes k n) = k"
  by (induction k arbitrary: n) auto

lemma length_be_bytes [simp]: "length (be_bytes k n) = k"
  by (simp add: be_bytes_def)

lemma unat_byte_less: "unat (b :: byte) < 256"
  using unsigned_less [of b] by simp

lemma unat_byte_of_mod [simp]: "unat (word_of_nat (n mod 256) :: byte) = n mod 256"
  by (simp add: unat_of_nat)

lemma le_val_le_bytes: "le_val (le_bytes k n) = n mod 256 ^ k"
proof (induction k arbitrary: n)
  case 0
  then show ?case by simp
next
  case (Suc k)
  have "le_val (le_bytes (Suc k) n) = n mod 256 + 256 * (n div 256 mod 256 ^ k)"
    by (simp add: Suc)
  also have "\<dots> = n mod (256 * 256 ^ k)"
    by (simp add: mod_mult2_eq)
  finally show ?case by simp
qed

lemma le_val_less: "le_val bs < 256 ^ length bs"
proof (induction bs)
  case Nil
  then show ?case by simp
next
  case (Cons b bs)
  have "unat b < 256" by (rule unat_byte_less)
  moreover have "256 * Suc (le_val bs) \<le> 256 * 256 ^ length bs"
    using Cons by (intro mult_le_mono) auto
  ultimately show ?case by simp
qed

lemma le_bytes_le_val: "length bs = k \<Longrightarrow> le_bytes k (le_val bs) = bs"
proof (induction bs arbitrary: k)
  case Nil
  then show ?case by simp
next
  case (Cons b bs)
  have b: "unat b < 256" by (rule unat_byte_less)
  then have "(unat b + 256 * le_val bs) mod 256 = unat b"
    and "(unat b + 256 * le_val bs) div 256 = le_val bs" by simp_all
  with Cons show ?case by (cases k) simp_all
qed

lemma be_val_be_bytes: "be_val (be_bytes k n) = n mod 256 ^ k"
  by (simp add: be_val_def be_bytes_def le_val_le_bytes)

lemma be_bytes_be_val: "length bs = k \<Longrightarrow> be_bytes k (be_val bs) = bs"
  by (simp add: be_val_def be_bytes_def le_bytes_le_val)

lemma be_val_less: "be_val bs < 256 ^ length bs"
  using le_val_less [of "rev bs"] by (simp add: be_val_def)

lemma le_bytes_inj:
  assumes "le_bytes k m = le_bytes k n" "m < 256 ^ k" "n < 256 ^ k"
  shows "m = n"
proof -
  from assms(1) have "le_val (le_bytes k m) = le_val (le_bytes k n)" by simp
  with assms(2,3) show ?thesis by (simp add: le_val_le_bytes)
qed

lemma unat_le16: "unat (w :: u16) < 256 ^ 2"
  and unat_le32: "unat (x :: u32) < 256 ^ 4"
  and unat_le64: "unat (y :: u64) < 256 ^ 8"
  and unat_le128: "unat (z :: u128) < 256 ^ 16"
  using unsigned_less [of w] unsigned_less [of x] unsigned_less [of y] unsigned_less [of z] by simp_all

lemma word_of_le_val_le_bytes [simp]:
  "word_of_nat (le_val (le_bytes 2 (unat w))) = (w :: u16)"
  "word_of_nat (le_val (le_bytes 4 (unat x))) = (x :: u32)"
  "word_of_nat (le_val (le_bytes 8 (unat y))) = (y :: u64)"
  using unat_le16 [of w] unat_le32 [of x] unat_le64 [of y]
  by (simp_all add: le_val_le_bytes del: of_nat_mod)

lemma le_bytes_unat_of_le_val [simp]:
  "length bs = 2 \<Longrightarrow> le_bytes 2 (unat (word_of_nat (le_val bs) :: u16)) = bs"
  "length bs = 4 \<Longrightarrow> le_bytes 4 (unat (word_of_nat (le_val bs) :: u32)) = bs"
  "length bs = 8 \<Longrightarrow> le_bytes 8 (unat (word_of_nat (le_val bs) :: u64)) = bs"
  using le_val_less [of bs] by (simp_all add: unat_of_nat le_bytes_le_val)

lemma pred_option_code [code]:
  "pred_option P None = True" "pred_option P (Some x) = P x"
  by simp_all

section \<open>Transition systems\<close>

text \<open>Runs of a labelled step relation, and the contract of an invariant of one.\<close>

inductive runs :: "('s \<Rightarrow> 'e \<Rightarrow> 's \<Rightarrow> bool) \<Rightarrow> 's \<Rightarrow> 'e list \<Rightarrow> 's \<Rightarrow> bool" for step where
  runs_start: "runs step s [] s"
| runs_step: "runs step s es s1 \<Longrightarrow> step s1 e s2 \<Longrightarrow> runs step s (es @ [e]) s2"

locale step_invariant =
  fixes step :: "'s \<Rightarrow> 'e \<Rightarrow> 's \<Rightarrow> bool"
    and init :: "'s \<Rightarrow> bool"
    and inv :: "'s \<Rightarrow> bool"
  assumes init_inv: "init s \<Longrightarrow> inv s"
    and step_inv: "inv s \<Longrightarrow> step s e s' \<Longrightarrow> inv s'"
begin

lemma runs_inv: "runs step s es s' \<Longrightarrow> inv s \<Longrightarrow> inv s'"
  by (induction rule: runs.induct) (auto intro: step_inv)

lemma reachable_inv: "init s \<Longrightarrow> runs step s es s' \<Longrightarrow> inv s'"
  using runs_inv init_inv by blast

end

text \<open>The same for a property of a state and the events that led to it.\<close>

locale step_history =
  fixes step :: "'s \<Rightarrow> 'e \<Rightarrow> 's \<Rightarrow> bool"
    and init :: "'s \<Rightarrow> bool"
    and hist :: "'e list \<Rightarrow> 's \<Rightarrow> bool"
  assumes init_hist: "init s \<Longrightarrow> hist [] s"
    and step_hist: "hist es s \<Longrightarrow> step s e s' \<Longrightarrow> hist (es @ [e]) s'"
begin

lemma runs_hist: "runs step s es s' \<Longrightarrow> init s \<Longrightarrow> hist es s'"
  by (induction rule: runs.induct) (auto intro: init_hist step_hist)

end

text \<open>A natural number that every step decreases bounds the length of a run.\<close>

locale step_measure =
  fixes step :: "'s \<Rightarrow> 'e \<Rightarrow> 's \<Rightarrow> bool"
    and rank :: "'s \<Rightarrow> nat"
    and inv :: "'s \<Rightarrow> bool"
  assumes rank_less: "inv s \<Longrightarrow> step s e s' \<Longrightarrow> rank s' < rank s"
    and rank_inv: "inv s \<Longrightarrow> step s e s' \<Longrightarrow> inv s'"
begin

lemma runs_rank: "runs step s es s' \<Longrightarrow> inv s \<Longrightarrow> length es + rank s' \<le> rank s \<and> inv s'"
proof (induction rule: runs.induct)
  case (runs_start s)
  then show ?case by simp
next
  case (runs_step s es s1 e s2)
  then show ?case using rank_less [of s1 e s2] rank_inv [of s1 e s2] by auto
qed

end

end
