(* ===== verification/RustStr.thy ===== *)
theory RustStr
  imports Prelude "HOL-Library.Sublist"
begin

text \<open>
  The parts of \<open>std::str\<close> and \<open>String\<close> the program uses. A Rust string is a UTF-8 byte string:
  it is modelled as a \<open>string\<close>, one \<open>char\<close> per byte, and \<open>from_utf8\<close> is the only way from raw
  bytes to text. Slicing, splitting and searching in the program always use ASCII delimiters, for
  which byte and character positions agree.
\<close>

section \<open>Strings and bytes\<close>

definition char_byte :: "char \<Rightarrow> byte" where
  "char_byte c = word_of_nat (of_char c)"

definition byte_char :: "byte \<Rightarrow> char" where
  "byte_char b = char_of (unat b)"

definition str_bytes :: "string \<Rightarrow> byte list" where
  "str_bytes s = map char_byte s"

definition bytes_str :: "byte list \<Rightarrow> string" where
  "bytes_str bs = map byte_char bs"

lemma of_char_less_256 [simp]: "(of_char c :: nat) < 256"
  by (cases c) (simp add: of_char_def horner_sum_bound)

lemma byte_char_char_byte [simp]: "byte_char (char_byte c) = c"
proof -
  have "(of_char c :: nat) < 256" by simp
  then show ?thesis by (simp add: byte_char_def char_byte_def unat_of_nat)
qed

lemma char_byte_inject [simp]: "char_byte c = char_byte d \<longleftrightarrow> c = d"
  by (metis byte_char_char_byte)

lemma char_byte_byte_char [simp]: "char_byte (byte_char b) = b"
proof -
  have "unat b < 256" by (rule unat_byte_less)
  then show ?thesis by (simp add: byte_char_def char_byte_def)
qed

lemma str_bytes_bytes_str [simp]: "str_bytes (bytes_str bs) = bs"
  by (simp add: str_bytes_def bytes_str_def comp_def)

lemma bytes_str_str_bytes [simp]: "bytes_str (str_bytes s) = s"
  by (simp add: str_bytes_def bytes_str_def comp_def)

lemma length_str_bytes [simp]: "length (str_bytes s) = length s"
  and length_bytes_str [simp]: "length (bytes_str bs) = length bs"
  by (simp_all add: str_bytes_def bytes_str_def)

lemma str_bytes_inject [simp]: "str_bytes s = str_bytes t \<longleftrightarrow> s = t"
  by (metis bytes_str_str_bytes)

lemma str_bytes_append [simp]: "str_bytes (s @ t) = str_bytes s @ str_bytes t"
  by (simp add: str_bytes_def)

lemma str_bytes_Nil [simp]: "str_bytes [] = []"
  by (simp add: str_bytes_def)

section \<open>UTF-8\<close>

definition utf8_cont :: "byte \<Rightarrow> bool" where
  "utf8_cont b \<longleftrightarrow> 128 \<le> unat b \<and> unat b < 192"

text \<open>The well-formed sequences of the Unicode standard, as \<open>core::str::from_utf8\<close> checks them;
  the result is the list of scalar values \<open>chars\<close> iterates over.\<close>

fun utf8_decode :: "byte list \<Rightarrow> nat list option" where
  "utf8_decode [] = Some []"
| "utf8_decode (a # bs) =
    (if unat a < 128 then map_option (Cons (unat a)) (utf8_decode bs)
     else if 194 \<le> unat a \<and> unat a < 224 then
       (case bs of
          b # bs' \<Rightarrow>
            if utf8_cont b
            then map_option (Cons ((unat a - 192) * 64 + (unat b - 128))) (utf8_decode bs')
            else None
        | _ \<Rightarrow> None)
     else if 224 \<le> unat a \<and> unat a < 240 then
       (case bs of
          b # c # bs' \<Rightarrow>
            if utf8_cont b \<and> utf8_cont c
               \<and> (unat a = 224 \<longrightarrow> 160 \<le> unat b) \<and> (unat a = 237 \<longrightarrow> unat b < 160)
            then map_option
              (Cons ((unat a - 224) * 4096 + (unat b - 128) * 64 + (unat c - 128)))
              (utf8_decode bs')
            else None
        | _ \<Rightarrow> None)
     else if 240 \<le> unat a \<and> unat a < 245 then
       (case bs of
          b # c # d # bs' \<Rightarrow>
            if utf8_cont b \<and> utf8_cont c \<and> utf8_cont d
               \<and> (unat a = 240 \<longrightarrow> 144 \<le> unat b) \<and> (unat a = 244 \<longrightarrow> unat b < 144)
            then map_option
              (Cons ((unat a - 240) * 262144 + (unat b - 128) * 4096
                     + (unat c - 128) * 64 + (unat d - 128)))
              (utf8_decode bs')
            else None
        | _ \<Rightarrow> None)
     else None)"

definition utf8_valid :: "byte list \<Rightarrow> bool" where
  "utf8_valid bs \<longleftrightarrow> utf8_decode bs \<noteq> None"

definition from_utf8 :: "byte list \<Rightarrow> string option" where
  "from_utf8 bs = (if utf8_valid bs then Some (bytes_str bs) else None)"

definition str_chars :: "string \<Rightarrow> nat list" where
  "str_chars s = (case utf8_decode (str_bytes s) of Some cs \<Rightarrow> cs | None \<Rightarrow> [])"

definition wf_str :: "string \<Rightarrow> bool" where
  "wf_str s \<longleftrightarrow> utf8_valid (str_bytes s)"

lemma utf8_decode_ascii:
  "\<forall>b \<in> set bs. unat b < 128 \<Longrightarrow> utf8_decode bs = Some (map unat bs)"
  by (induction bs) auto

lemma utf8_valid_ascii: "\<forall>b \<in> set bs. unat b < 128 \<Longrightarrow> utf8_valid bs"
  by (simp add: utf8_valid_def utf8_decode_ascii)

lemma from_utf8_str_bytes [simp]: "wf_str s \<Longrightarrow> from_utf8 (str_bytes s) = Some s"
  by (simp add: from_utf8_def wf_str_def)

lemma from_utf8_SomeD: "from_utf8 bs = Some s \<Longrightarrow> str_bytes s = bs \<and> wf_str s"
  by (auto simp: from_utf8_def wf_str_def split: if_splits)

lemma from_utf8_eq_Some: "from_utf8 bs = Some s \<longleftrightarrow> bs = str_bytes s \<and> wf_str s"
  using from_utf8_SomeD [of bs s] from_utf8_str_bytes [of s] by auto

lemma from_utf8_length: "from_utf8 bs = Some s \<Longrightarrow> length s = length bs"
  by (auto simp: from_utf8_eq_Some)

lemma wf_str_Nil [simp]: "wf_str []"
  by (simp add: wf_str_def utf8_valid_def)

section \<open>Splitting and joining\<close>

text \<open>\<open>str::split\<close> with a one-byte pattern: always at least one segment.\<close>

fun split_on :: "'a \<Rightarrow> 'a list \<Rightarrow> 'a list list" where
  "split_on c [] = [[]]"
| "split_on c (x # xs) =
    (if x = c then [] # split_on c xs
     else case split_on c xs of [] \<Rightarrow> [[x]] | y # ys \<Rightarrow> (x # y) # ys)"

fun join_with :: "'a \<Rightarrow> 'a list list \<Rightarrow> 'a list" where
  "join_with c [] = []"
| "join_with c [x] = x"
| "join_with c (x # y # ys) = x @ c # join_with c (y # ys)"

lemma split_on_neq_Nil [simp]: "split_on c xs \<noteq> []"
  by (induction xs) (auto split: list.splits)

lemma join_with_Cons: "ys \<noteq> [] \<Longrightarrow> join_with c (x # ys) = x @ c # join_with c ys"
  by (cases ys) auto

lemma join_split_on [simp]: "join_with c (split_on c xs) = xs"
proof (induction xs)
  case Nil
  then show ?case by simp
next
  case (Cons x xs)
  obtain y ys where s: "split_on c xs = y # ys"
    using split_on_neq_Nil [of c xs] by (cases "split_on c xs") auto
  show ?case
  proof (cases "x = c")
    case True
    then show ?thesis using Cons by (simp add: join_with_Cons)
  next
    case False
    then show ?thesis using Cons s by (cases ys) auto
  qed
qed

lemma split_on_no_sep: "c \<notin> set xs \<Longrightarrow> split_on c xs = [xs]"
  by (induction xs) auto

lemma split_on_append_sep:
  "c \<notin> set xs \<Longrightarrow> split_on c (xs @ c # ys) = xs # split_on c ys"
  by (induction xs) auto

lemma split_on_join:
  "segs \<noteq> [] \<Longrightarrow> \<forall>s \<in> set segs. c \<notin> set s \<Longrightarrow> split_on c (join_with c segs) = segs"
  by (induction c segs rule: join_with.induct) (auto simp: split_on_no_sep split_on_append_sep)

lemma split_on_segments: "s \<in> set (split_on c xs) \<Longrightarrow> c \<notin> set s"
  by (induction xs arbitrary: s) (auto split: if_splits list.splits)

lemma split_on_set: "s \<in> set (split_on c xs) \<Longrightarrow> set s \<subseteq> set xs"
  by (induction xs arbitrary: s) (fastforce split: if_splits list.splits)+

lemma set_join_with:
  "set (join_with c segs) \<subseteq> insert c (\<Union>s \<in> set segs. set s)"
  by (induction c segs rule: join_with.induct) auto

text \<open>\<open>split_once\<close>: around the first occurrence of the delimiter.\<close>

fun split_once :: "'a \<Rightarrow> 'a list \<Rightarrow> ('a list \<times> 'a list) option" where
  "split_once c [] = None"
| "split_once c (x # xs) =
    (if x = c then Some ([], xs)
     else map_option (\<lambda>(a, b). (x # a, b)) (split_once c xs))"

lemma split_once_SomeD:
  "split_once c xs = Some (a, b) \<Longrightarrow> xs = a @ c # b \<and> c \<notin> set a"
  by (induction xs arbitrary: a) (auto split: if_splits)

lemma split_once_None_iff: "split_once c xs = None \<longleftrightarrow> c \<notin> set xs"
  by (induction xs) auto

lemma split_once_append: "c \<notin> set a \<Longrightarrow> split_once c (a @ c # b) = Some (a, b)"
  by (induction a) auto

lemma split_once_eq_Some: "split_once c xs = Some (a, b) \<longleftrightarrow> xs = a @ c # b \<and> c \<notin> set a"
  using split_once_SomeD [of c xs a b] split_once_append [of c a b] by auto

text \<open>\<open>rsplit_once\<close>: around the last occurrence.\<close>

definition rsplit_once :: "'a \<Rightarrow> 'a list \<Rightarrow> ('a list \<times> 'a list) option" where
  "rsplit_once c xs = map_option (\<lambda>(a, b). (rev b, rev a)) (split_once c (rev xs))"

lemma rsplit_once_eq_Some:
  "rsplit_once c xs = Some (a, b) \<longleftrightarrow> xs = a @ c # b \<and> c \<notin> set b"
proof -
  have "rsplit_once c xs = Some (a, b) \<longleftrightarrow> split_once c (rev xs) = Some (rev b, rev a)"
    by (auto simp: rsplit_once_def)
  also have "\<dots> \<longleftrightarrow> rev xs = rev b @ c # rev a \<and> c \<notin> set b"
    by (simp add: split_once_eq_Some)
  also have "\<dots> \<longleftrightarrow> xs = a @ c # b \<and> c \<notin> set b"
    by (metis append.assoc append_Cons append_Nil rev.simps(2) rev_append rev_rev_ident)
  finally show ?thesis .
qed

lemma rsplit_once_None_iff: "rsplit_once c xs = None \<longleftrightarrow> c \<notin> set xs"
  by (simp add: rsplit_once_def split_once_None_iff)

text \<open>\<open>split_once\<close> with a string pattern.\<close>

fun split_once_str :: "'a list \<Rightarrow> 'a list \<Rightarrow> ('a list \<times> 'a list) option" where
  "split_once_str p xs =
    (if prefix p xs then Some ([], drop (length p) xs)
     else case xs of
       [] \<Rightarrow> None
     | y # ys \<Rightarrow> map_option (\<lambda>(a, b). (y # a, b)) (split_once_str p ys))"

declare split_once_str.simps [simp del]

text \<open>\<open>strip_prefix\<close> and \<open>starts_with\<close>, \<open>ends_with\<close> on strings.\<close>

definition strip_prefix :: "'a list \<Rightarrow> 'a list \<Rightarrow> 'a list option" where
  "strip_prefix p xs = (if prefix p xs then Some (drop (length p) xs) else None)"

lemma strip_prefix_eq_Some: "strip_prefix p xs = Some ys \<longleftrightarrow> xs = p @ ys"
  by (auto simp: strip_prefix_def prefix_def)

section \<open>Sequences of characters\<close>

lemma utf8_valid_ascii_Cons: "unat a < 128 \<Longrightarrow> utf8_valid (a # bs) \<longleftrightarrow> utf8_valid bs"
  by (auto simp: utf8_valid_def)

definition utf8_char :: "byte list \<Rightarrow> bool" where
  "utf8_char cs \<longleftrightarrow> cs \<noteq> [] \<and> (\<forall>c \<in> set cs. \<not> unat c < 128)
     \<and> (\<forall>rest. utf8_valid (cs @ rest) \<longleftrightarrow> utf8_valid rest)"

lemma utf8_char2:
  "194 \<le> unat a \<Longrightarrow> unat a < 224 \<Longrightarrow> utf8_cont b \<Longrightarrow> utf8_char [a, b]"
  by (simp add: utf8_char_def utf8_valid_def utf8_cont_def)

lemma utf8_char3:
  "224 \<le> unat a \<Longrightarrow> unat a < 240 \<Longrightarrow> utf8_cont b \<Longrightarrow> utf8_cont c \<Longrightarrow>
   (unat a = 224 \<longrightarrow> 160 \<le> unat b) \<and> (unat a = 237 \<longrightarrow> unat b < 160) \<Longrightarrow> utf8_char [a, b, c]"
  by (simp add: utf8_char_def utf8_valid_def utf8_cont_def)

lemma utf8_char4:
  "240 \<le> unat a \<Longrightarrow> unat a < 245 \<Longrightarrow> utf8_cont b \<Longrightarrow> utf8_cont c \<Longrightarrow> utf8_cont d \<Longrightarrow>
   (unat a = 240 \<longrightarrow> 144 \<le> unat b) \<and> (unat a = 244 \<longrightarrow> unat b < 144) \<Longrightarrow> utf8_char [a, b, c, d]"
  by (simp add: utf8_char_def utf8_valid_def utf8_cont_def)

lemma utf8_valid_nonascii:
  assumes "utf8_valid (a # bs)" "\<not> unat a < 128"
  obtains cs rest where "a # bs = cs @ rest" "utf8_char cs"
proof -
  from assms consider
    (two) b r where "bs = b # r" "194 \<le> unat a" "unat a < 224" "utf8_cont b"
  | (three) b c r where "bs = b # c # r" "224 \<le> unat a" "unat a < 240" "utf8_cont b" "utf8_cont c"
      "(unat a = 224 \<longrightarrow> 160 \<le> unat b) \<and> (unat a = 237 \<longrightarrow> unat b < 160)"
  | (four) b c d r where "bs = b # c # d # r" "240 \<le> unat a" "unat a < 245" "utf8_cont b" "utf8_cont c"
      "utf8_cont d" "(unat a = 240 \<longrightarrow> 144 \<le> unat b) \<and> (unat a = 244 \<longrightarrow> unat b < 144)"
    unfolding utf8_valid_def utf8_decode.simps
    by (simp split: if_split_asm list.split_asm)
  then show ?thesis
  proof cases
    case two
    then show ?thesis using that [of "[a, b]" r] utf8_char2 by simp
  next
    case three
    then show ?thesis using that [of "[a, b, c]" r] utf8_char3 by simp
  next
    case four
    then show ?thesis using that [of "[a, b, c, d]" r] utf8_char4 by simp
  qed
qed

lemma utf8_valid_induct [consumes 1, case_names nil ascii char]:
  assumes "utf8_valid bs"
    and "P []"
    and "\<And>a bs. unat a < 128 \<Longrightarrow> utf8_valid bs \<Longrightarrow> P bs \<Longrightarrow> P (a # bs)"
    and "\<And>cs bs. utf8_char cs \<Longrightarrow> utf8_valid bs \<Longrightarrow> P bs \<Longrightarrow> P (cs @ bs)"
  shows "P bs"
  using assms(1)
proof (induction "length bs" arbitrary: bs rule: less_induct)
  case less
  show ?case
  proof (cases bs)
    case Nil
    with assms(2) show ?thesis by simp
  next
    case (Cons a bs')
    show ?thesis
    proof (cases "unat a < 128")
      case True
      with less Cons assms(3) show ?thesis using utf8_valid_ascii_Cons by auto
    next
      case False
      from less.prems Cons False obtain cs rest where c: "bs = cs @ rest" "utf8_char cs"
        using utf8_valid_nonascii [of a bs'] by metis
      with less.prems have "utf8_valid rest" "length rest < length bs" by (auto simp: utf8_char_def)
      with less.hyps c assms(4) show ?thesis by blast
    qed
  qed
qed

lemma utf8_valid_snoc_ascii:
  assumes "utf8_valid xs" "unat a < 128" "xs = bs @ [a]"
  shows "utf8_valid bs"
  using assms
proof (induction xs arbitrary: bs rule: utf8_valid_induct)
  case nil
  then show ?case by simp
next
  case (ascii b xs)
  then show ?case by (cases bs) (auto simp: utf8_valid_ascii_Cons utf8_valid_def [of "[]"])
next
  case (char cs xs)
  show ?case
  proof (cases xs rule: rev_cases)
    case Nil
    with char have "a \<in> set cs" by auto
    with char show ?thesis by (auto simp: utf8_char_def)
  next
    case (snoc ys y)
    with char have "bs = cs @ ys" "y = a" by (auto simp flip: append_assoc)
    with char snoc show ?thesis by (auto simp: utf8_char_def)
  qed
qed

lemma utf8_valid_map:
  assumes "utf8_valid xs" "\<And>b. \<not> unat b < 128 \<Longrightarrow> f b = b" "\<And>b. unat b < 128 \<Longrightarrow> unat (f b) < 128"
  shows "utf8_valid (map f xs)"
  using assms(1)
proof (induction rule: utf8_valid_induct)
  case nil
  then show ?case by (simp add: utf8_valid_def)
next
  case (ascii a bs)
  then show ?case using assms(3) by (simp add: utf8_valid_ascii_Cons)
next
  case (char cs bs)
  then have "map f cs = cs" using assms(2) by (auto simp: utf8_char_def intro: map_idI)
  with char show ?case by (simp add: utf8_char_def)
qed

lemma utf8_valid_append: "utf8_valid xs \<Longrightarrow> utf8_valid (xs @ ys) \<longleftrightarrow> utf8_valid ys"
  by (induction rule: utf8_valid_induct) (simp_all add: utf8_valid_ascii_Cons utf8_char_def)

lemma utf8_valid_before_ascii:
  assumes "utf8_valid zs" "zs = xs @ a # ys" "unat a < 128"
  shows "utf8_valid xs"
  using assms
proof (induction zs arbitrary: xs rule: utf8_valid_induct)
  case nil
  then show ?case by simp
next
  case (ascii b zs)
  then show ?case by (cases xs) (auto simp: utf8_valid_ascii_Cons utf8_valid_def [of "[]"])
next
  case (char cs zs)
  from char.prems(1) consider us where "cs = xs @ us" "us @ zs = a # ys" | us where "cs @ us = xs" "zs = us @ a # ys"
    by (auto simp: append_eq_append_conv2)
  then show ?case
  proof cases
    case (1 us)
    then show ?thesis
    proof (cases us)
      case Nil
      with 1 char.IH [of "[]"] char.prems(2) char.hyps have "utf8_valid zs \<and> cs = xs" by simp
      moreover have "utf8_valid (cs @ []) \<longleftrightarrow> utf8_valid []" using char.hyps(1) unfolding utf8_char_def by blast
      ultimately show ?thesis by (simp add: utf8_valid_def [of "[]"])
    next
      case (Cons u us')
      with 1 have "a \<in> set cs" by auto
      with char.hyps(1) char.prems(2) show ?thesis by (auto simp: utf8_char_def)
    qed
  next
    case (2 us)
    with char show ?thesis by (auto simp: utf8_char_def)
  qed
qed

lemma wf_str_append_ascii:
  assumes "unat (char_byte c) < 128"
  shows "wf_str (s @ c # t) \<longleftrightarrow> wf_str s \<and> wf_str t"
proof
  assume w: "wf_str (s @ c # t)"
  then have "utf8_valid (str_bytes s)"
    using utf8_valid_before_ascii [of "str_bytes (s @ c # t)" "str_bytes s" "char_byte c" "str_bytes t"] assms
    by (simp add: wf_str_def str_bytes_def)
  with w utf8_valid_append [of "str_bytes s" "str_bytes (c # t)"] show "wf_str s \<and> wf_str t"
    using assms by (simp add: wf_str_def str_bytes_def utf8_valid_ascii_Cons)
next
  assume "wf_str s \<and> wf_str t"
  with utf8_valid_append [of "str_bytes s" "str_bytes (c # t)"] assms show "wf_str (s @ c # t)"
    by (simp add: wf_str_def str_bytes_def utf8_valid_ascii_Cons)
qed

lemma wf_str_join_with:
  "unat (char_byte c) < 128 \<Longrightarrow> wf_str (join_with c segs) \<longleftrightarrow> list_all wf_str segs"
  by (induction c segs rule: join_with.induct) (simp_all add: wf_str_append_ascii)

lemma wf_str_split_on: "unat (char_byte c) < 128 \<Longrightarrow> list_all wf_str (split_on c s) \<longleftrightarrow> wf_str s"
  using wf_str_join_with [of c "split_on c s"] by simp

end
