(* ===== verification/Wire.thy ===== *)
theory Wire
  imports RustStr
begin

text \<open>
  The binary encoding layer of \<^verbatim>\<open>libs/protocol/src/auth.rs\<close>: the error type of the crate, the
  append-only \<open>WireWriter\<close> and the bounds-checked \<open>WireReader\<close>. Two interfaces are stated here:
  \<open>wire_field\<close>, a field encoder with the reader that undoes it, and \<open>wire_codec\<close>, a message
  encoder with the decoder that accepts exactly its output. The message theories interpret both.
\<close>

section \<open>Errors\<close>

datatype protocol_error =
    Access | Deserialize | Serialize | InvalidFrame | VersionMismatch | InvalidValue
  | Randomness | Authentication

type_synonym 'a protocol_result = "protocol_error fault + 'a"

definition invalid_frame :: "'a protocol_result" where
  "invalid_frame = Err (Fail InvalidFrame)"

definition invalid_value :: "'a protocol_result" where
  "invalid_value = Err (Fail InvalidValue)"

lemma invalid_neq_Ok [simp]:
  "invalid_frame \<noteq> Ok x" "invalid_value \<noteq> Ok y" "Ok x \<noteq> invalid_frame" "Ok y \<noteq> invalid_value"
  by (simp_all add: invalid_frame_def invalid_value_def)

lemma bindR_invalid [simp]:
  "bindR invalid_frame f = invalid_frame" "bindR invalid_value g = invalid_value"
  by (simp_all add: invalid_frame_def invalid_value_def)

section \<open>The writer\<close>

record wire_writer =
  ww_bytes :: "byte list"

definition writer_with_capacity :: "nat \<Rightarrow> wire_writer" where
  "writer_with_capacity capacity = \<lparr>ww_bytes = []\<rparr>"

definition push_u8 :: "u8 \<Rightarrow> wire_writer \<Rightarrow> wire_writer" where
  "push_u8 value w = w\<lparr>ww_bytes := ww_bytes w @ [value]\<rparr>"

definition push_u16 :: "u16 \<Rightarrow> wire_writer \<Rightarrow> wire_writer" where
  "push_u16 value w = w\<lparr>ww_bytes := ww_bytes w @ le_bytes 2 (unat value)\<rparr>"

definition push_u32 :: "u32 \<Rightarrow> wire_writer \<Rightarrow> wire_writer" where
  "push_u32 value w = w\<lparr>ww_bytes := ww_bytes w @ le_bytes 4 (unat value)\<rparr>"

definition push_u64 :: "u64 \<Rightarrow> wire_writer \<Rightarrow> wire_writer" where
  "push_u64 value w = w\<lparr>ww_bytes := ww_bytes w @ le_bytes 8 (unat value)\<rparr>"

definition push_bytes :: "byte list \<Rightarrow> wire_writer \<Rightarrow> wire_writer" where
  "push_bytes bytes w = w\<lparr>ww_bytes := ww_bytes w @ bytes\<rparr>"

text \<open>\<open>u16::try_from(\<dots>).expect(\<dots>)\<close>: a length that does not fit is a panic.\<close>

definition u16_try_from :: "nat \<Rightarrow> u16 protocol_result" where
  "u16_try_from n = (if n < 2 ^ 16 then Ok (word_of_nat n) else Err Panic)"

definition u8_try_from :: "nat \<Rightarrow> u8 protocol_result" where
  "u8_try_from n = (if n < 2 ^ 8 then Ok (word_of_nat n) else Err Panic)"

definition push_string :: "string \<Rightarrow> wire_writer \<Rightarrow> wire_writer protocol_result" where
  "push_string value w =
    bindR (u16_try_from (length value)) (\<lambda>len.
    Ok (push_bytes (str_bytes value) (push_u16 len w)))"

definition writer_finish :: "nat \<Rightarrow> wire_writer \<Rightarrow> byte list protocol_result" where
  "writer_finish maximum w =
    (if length (ww_bytes w) > maximum then invalid_frame else Ok (ww_bytes w))"

lemma ww_bytes_simps [simp]:
  "ww_bytes (writer_with_capacity n) = []"
  "ww_bytes (push_u8 a w) = ww_bytes w @ [a]"
  "ww_bytes (push_u16 b w) = ww_bytes w @ le_bytes 2 (unat b)"
  "ww_bytes (push_u32 c w) = ww_bytes w @ le_bytes 4 (unat c)"
  "ww_bytes (push_u64 d w) = ww_bytes w @ le_bytes 8 (unat d)"
  "ww_bytes (push_bytes bs w) = ww_bytes w @ bs"
  by (simp_all add: writer_with_capacity_def push_u8_def push_u16_def push_u32_def push_u64_def
      push_bytes_def)

text \<open>What \<open>push_string\<close> appends: the length prefix and the bytes.\<close>

definition string_field :: "string \<Rightarrow> byte list" where
  "string_field s = le_bytes 2 (length s) @ str_bytes s"

lemma length_string_field [simp]: "length (string_field s) = 2 + length s"
  by (simp add: string_field_def)

lemma push_string_eq:
  assumes "length s < 2 ^ 16"
  shows "push_string s w = Ok (w\<lparr>ww_bytes := ww_bytes w @ string_field s\<rparr>)"
  using assms
  by (simp add: push_string_def u16_try_from_def push_bytes_def push_u16_def string_field_def
      unat_of_nat)

section \<open>The reader\<close>

record wire_reader =
  wr_bytes :: "byte list"
  wr_offset :: nat

definition reader_new :: "byte list \<Rightarrow> wire_reader" where
  "reader_new bytes = \<lparr>wr_bytes = bytes, wr_offset = 0\<rparr>"

text \<open>\<open>checked_add\<close> on the offset, then the checked slice \<open>get(offset..end)\<close>.\<close>

definition reader_take :: "nat \<Rightarrow> wire_reader \<Rightarrow> (byte list \<times> wire_reader) protocol_result" where
  "reader_take len r =
    (let e = wr_offset r + len in
     if e > usize_max then invalid_frame
     else if e > length (wr_bytes r) then invalid_frame
     else Ok (take len (drop (wr_offset r) (wr_bytes r)), r\<lparr>wr_offset := e\<rparr>))"

definition take_u8 :: "wire_reader \<Rightarrow> (u8 \<times> wire_reader) protocol_result" where
  "take_u8 r = bindR (reader_take 1 r) (\<lambda>(bs, r). Ok (hd bs, r))"

definition take_array :: "nat \<Rightarrow> wire_reader \<Rightarrow> (byte list \<times> wire_reader) protocol_result" where
  "take_array n r = reader_take n r"

definition take_u16 :: "wire_reader \<Rightarrow> (u16 \<times> wire_reader) protocol_result" where
  "take_u16 r = bindR (take_array 2 r) (\<lambda>(bs, r). Ok (word_of_nat (le_val bs), r))"

definition take_u32 :: "wire_reader \<Rightarrow> (u32 \<times> wire_reader) protocol_result" where
  "take_u32 r = bindR (take_array 4 r) (\<lambda>(bs, r). Ok (word_of_nat (le_val bs), r))"

definition take_u64 :: "wire_reader \<Rightarrow> (u64 \<times> wire_reader) protocol_result" where
  "take_u64 r = bindR (take_array 8 r) (\<lambda>(bs, r). Ok (word_of_nat (le_val bs), r))"

definition take_string :: "nat \<Rightarrow> wire_reader \<Rightarrow> (string \<times> wire_reader) protocol_result" where
  "take_string maximum r =
    bindR (take_u16 r) (\<lambda>(len, r).
    if unat len > maximum then invalid_value
    else bindR (reader_take (unat len) r) (\<lambda>(bs, r).
      case from_utf8 bs of None \<Rightarrow> invalid_value | Some s \<Rightarrow> Ok (s, r)))"

definition reader_finish :: "wire_reader \<Rightarrow> unit protocol_result" where
  "reader_finish r = (if wr_offset r = length (wr_bytes r) then Ok () else invalid_frame)"

text \<open>The counted loops of the decoder: \<open>for _ in 0..count { v.push(get(&mut reader)?) }\<close>.\<close>

fun read_n ::
  "nat \<Rightarrow> (wire_reader \<Rightarrow> ('a \<times> wire_reader) protocol_result) \<Rightarrow> wire_reader
    \<Rightarrow> ('a list \<times> wire_reader) protocol_result" where
  "read_n 0 get r = Ok ([], r)"
| "read_n (Suc n) get r =
    bindR (get r) (\<lambda>(x, r). bindR (read_n n get r) (\<lambda>(xs, r). Ok (x # xs, r)))"

section \<open>Reading from a known position\<close>

definition reader_at :: "byte list \<Rightarrow> byte list \<Rightarrow> wire_reader" where
  "reader_at pre rest = \<lparr>wr_bytes = pre @ rest, wr_offset = length pre\<rparr>"

lemma reader_new_at: "reader_new bs = reader_at [] bs"
  by (simp add: reader_new_def reader_at_def)

lemma reader_finish_at [wire_inv]: "reader_finish (reader_at pre rest) = Ok u \<longleftrightarrow> rest = []"
  by (simp add: reader_finish_def reader_at_def)

lemma reader_finish_end [simp, wire_simps]: "reader_finish (reader_at pre []) = Ok ()"
  by (simp add: reader_finish_def reader_at_def)

lemma reader_take_at [wire_inv]:
  "reader_take n (reader_at pre rest) = Ok (xs, r) \<longleftrightarrow>
    length xs = n \<and> length pre + n \<le> usize_max \<and>
    (\<exists>rest'. rest = xs @ rest' \<and> r = reader_at (pre @ xs) rest')"
proof
  assume *: "reader_take n (reader_at pre rest) = Ok (xs, r)"
  then have "n \<le> length rest" "length pre + n \<le> usize_max" "xs = take n rest"
    and r: "r = \<lparr>wr_bytes = pre @ rest, wr_offset = length pre + n\<rparr>"
    by (auto simp: reader_take_def reader_at_def Let_def split: if_splits)
  moreover from this have r': "r = reader_at (pre @ xs) (drop n rest)"
    by (simp add: reader_at_def)
  moreover have "rest = xs @ drop n rest"
    using \<open>xs = take n rest\<close> by simp
  then have "\<exists>rest'. rest = xs @ rest' \<and> r = reader_at (pre @ xs) rest'"
    using r' by blast
  ultimately show "length xs = n \<and> length pre + n \<le> usize_max \<and>
      (\<exists>rest'. rest = xs @ rest' \<and> r = reader_at (pre @ xs) rest')"
    by simp
qed (auto simp: reader_take_def reader_at_def Let_def)

lemma take_array_at [wire_inv]:
  "take_array n (reader_at pre rest) = Ok (xs, r) \<longleftrightarrow>
    length xs = n \<and> length pre + n \<le> usize_max \<and>
    (\<exists>rest'. rest = xs @ rest' \<and> r = reader_at (pre @ xs) rest')"
  by (simp add: take_array_def reader_take_at)

lemma take_u8_at [wire_inv]:
  "take_u8 (reader_at pre rest) = Ok (b, r) \<longleftrightarrow>
    length pre + 1 \<le> usize_max \<and> (\<exists>rest'. rest = b # rest' \<and> r = reader_at (pre @ [b]) rest')"
  by (auto simp: take_u8_def bindR_eq_Inr reader_take_at length_Suc_conv)

lemma take_word_at:
  assumes "\<And>bs. length bs = k \<Longrightarrow> le_bytes k (unat (f bs :: 'a::len word)) = bs"
    and "\<And>v. f (le_bytes k (unat v)) = v"
  shows "bindR (take_array k (reader_at pre rest)) (\<lambda>(bs, r). Ok (f bs, r)) = Ok (v, r) \<longleftrightarrow>
    length pre + k \<le> usize_max \<and>
    (\<exists>rest'. rest = le_bytes k (unat v) @ rest' \<and>
             r = reader_at (pre @ le_bytes k (unat v)) rest')" (is "?L \<longleftrightarrow> ?R")
proof
  assume ?L
  then obtain bs where bs: "take_array k (reader_at pre rest) = Ok (bs, r)" and "f bs = v"
    by (auto simp: bindR_eq_Inr)
  moreover from bs have "length bs = k" by (simp add: take_array_at)
  ultimately show ?R using assms(1) [of bs] by (auto simp: take_array_at)
next
  assume ?R
  then have "take_array k (reader_at pre rest) = Ok (le_bytes k (unat v), r)"
    by (auto simp: take_array_at)
  then show ?L by (simp add: assms(2))
qed

lemma take_u16_at [wire_inv]:
  "take_u16 (reader_at pre rest) = Ok (v, r) \<longleftrightarrow>
    length pre + 2 \<le> usize_max \<and>
    (\<exists>rest'. rest = le_bytes 2 (unat v) @ rest' \<and>
             r = reader_at (pre @ le_bytes 2 (unat v)) rest')"
  unfolding take_u16_def by (rule take_word_at) (rule le_bytes_unat_of_le_val, simp_all)

lemma take_u32_at [wire_inv]:
  "take_u32 (reader_at pre rest) = Ok (v, r) \<longleftrightarrow>
    length pre + 4 \<le> usize_max \<and>
    (\<exists>rest'. rest = le_bytes 4 (unat v) @ rest' \<and>
             r = reader_at (pre @ le_bytes 4 (unat v)) rest')"
  unfolding take_u32_def by (rule take_word_at) (rule le_bytes_unat_of_le_val, simp_all)

lemma take_u64_at [wire_inv]:
  "take_u64 (reader_at pre rest) = Ok (v, r) \<longleftrightarrow>
    length pre + 8 \<le> usize_max \<and>
    (\<exists>rest'. rest = le_bytes 8 (unat v) @ rest' \<and>
             r = reader_at (pre @ le_bytes 8 (unat v)) rest')"
  unfolding take_u64_def by (rule take_word_at) (rule le_bytes_unat_of_le_val, simp_all)

section \<open>The field interface\<close>

text \<open>
  A field is an encoder and the reader for it: reading what was written gives the value back and
  stops right after it, and a successful read consumed exactly the encoding of its result.
\<close>

locale wire_field =
  fixes put :: "'a \<Rightarrow> byte list"
    and get :: "wire_reader \<Rightarrow> ('a \<times> wire_reader) protocol_result"
    and ok :: "'a \<Rightarrow> bool"
  assumes get_put:
    "ok x \<Longrightarrow> length pre + length (put x) + length rest \<le> usize_max \<Longrightarrow>
     get (reader_at pre (put x @ rest)) = Ok (x, reader_at (pre @ put x) rest)"
    and get_inv:
    "get (reader_at pre rest) = Ok (x, r) \<Longrightarrow>
     ok x \<and> (\<exists>rest'. rest = put x @ rest' \<and> r = reader_at (pre @ put x) rest')"
begin

lemma get_unique:
  assumes "get (reader_at pre (put x @ rest)) = Ok (y, r)" "ok x"
    and "length pre + length (put x) + length rest \<le> usize_max"
  shows "y = x \<and> r = reader_at (pre @ put x) rest"
  using get_put [OF assms(2,3)] assms(1) by simp

lemma put_prefix_free:
  assumes "ok x" "ok y" "put x @ r1 = put y @ r2" "length (put x @ r1) \<le> usize_max"
  shows "x = y \<and> r1 = r2"
proof -
  have "get (reader_at [] (put x @ r1)) = Ok (x, reader_at (put x) r1)"
    using get_put [OF assms(1), of "[]" r1] assms(4) by simp
  moreover have "get (reader_at [] (put y @ r2)) = Ok (y, reader_at (put y) r2)"
    using get_put [OF assms(2), of "[]" r2] assms(3,4) by simp
  ultimately show ?thesis using assms(3) by auto
qed

lemma read_n_put:
  "list_all ok xs \<Longrightarrow> length pre + length (concat (map put xs)) + length rest \<le> usize_max \<Longrightarrow>
   read_n (length xs) get (reader_at pre (concat (map put xs) @ rest)) =
     Ok (xs, reader_at (pre @ concat (map put xs)) rest)"
proof (induction xs arbitrary: pre)
  case Nil
  then show ?case by simp
next
  case (Cons x xs)
  have "get (reader_at pre (put x @ concat (map put xs) @ rest)) =
      Ok (x, reader_at (pre @ put x) (concat (map put xs) @ rest))"
    using Cons.prems by (intro get_put) auto
  moreover have "read_n (length xs) get (reader_at (pre @ put x) (concat (map put xs) @ rest)) =
      Ok (xs, reader_at ((pre @ put x) @ concat (map put xs)) rest)"
    using Cons.prems by (intro Cons.IH) auto
  ultimately show ?case by simp
qed

lemma read_n_inv:
  "read_n n get (reader_at pre rest) = Ok (xs, r) \<Longrightarrow>
   length xs = n \<and> list_all ok xs \<and>
   (\<exists>rest'. rest = concat (map put xs) @ rest' \<and> r = reader_at (pre @ concat (map put xs)) rest')"
proof (induction n arbitrary: pre rest xs)
  case 0
  then show ?case by simp
next
  case (Suc n)
  then obtain x r1 xs' where x: "get (reader_at pre rest) = Ok (x, r1)"
    and xs': "read_n n get r1 = Ok (xs', r)" and xs: "xs = x # xs'"
    by (auto simp: bindR_eq_Inr)
  from get_inv [OF x] obtain rest1 where "ok x" "rest = put x @ rest1"
    and r1: "r1 = reader_at (pre @ put x) rest1" by auto
  with Suc.IH [OF xs' [unfolded r1]] xs show ?case by auto
qed

end

text \<open>A counted repetition of a field is again a field.\<close>

lemma wire_field_read_n:
  assumes "wire_field put get ok"
  shows "wire_field (\<lambda>xs. concat (map put xs)) (read_n n get)
           (\<lambda>xs. length xs = n \<and> list_all ok xs)"
proof
  fix xs :: "'a list" and pre rest :: "byte list"
  assume "length xs = n \<and> list_all ok xs"
    and "length pre + length (concat (map put xs)) + length rest \<le> usize_max"
  then show "read_n n get (reader_at pre (concat (map put xs) @ rest)) =
      Ok (xs, reader_at (pre @ concat (map put xs)) rest)"
    using wire_field.read_n_put [OF assms, of xs pre rest] by simp
next
  fix pre rest :: "byte list" and r :: wire_reader and xs :: "'a list"
  assume "read_n n get (reader_at pre rest) = Ok (xs, r)"
  from wire_field.read_n_inv [OF assms this]
  show "(length xs = n \<and> list_all ok xs) \<and>
      (\<exists>rest'. rest = concat (map put xs) @ rest' \<and>
               r = reader_at (pre @ concat (map put xs)) rest')" by auto
qed

interpretation u8_field: wire_field "\<lambda>b. [b]" take_u8 "\<lambda>_. True"
  by unfold_locales (auto simp: take_u8_at)

interpretation u16_field: wire_field "\<lambda>v. le_bytes 2 (unat v)" take_u16 "\<lambda>_. True"
  by unfold_locales (auto simp: take_u16_at)

interpretation u32_field: wire_field "\<lambda>v. le_bytes 4 (unat v)" take_u32 "\<lambda>_. True"
  by unfold_locales (auto simp: take_u32_at)

interpretation u64_field: wire_field "\<lambda>v. le_bytes 8 (unat v)" take_u64 "\<lambda>_. True"
  by unfold_locales (auto simp: take_u64_at)

interpretation array_field: wire_field "\<lambda>bs. bs" "take_array n" "\<lambda>bs. length bs = n"
  by unfold_locales (auto simp: take_array_at)

lemma take_string_at [wire_inv]:
  assumes "maximum < 65536"
  shows "take_string maximum (reader_at pre rest) = Ok (s, r) \<longleftrightarrow>
    length pre + 2 + length s \<le> usize_max \<and> wf_str s \<and> length s \<le> maximum \<and>
    (\<exists>rest'. rest = string_field s @ rest' \<and> r = reader_at (pre @ string_field s) rest')"
    (is "?L \<longleftrightarrow> ?R")
proof
  assume ?L
  then obtain len r1 bs where len: "take_u16 (reader_at pre rest) = Ok (len, r1)"
    and le: "unat len \<le> maximum" and bs: "reader_take (unat len) r1 = Ok (bs, r)"
    and s: "from_utf8 bs = Some s"
    by (auto simp: take_string_def bindR_eq_Inr split: if_splits option.splits)
  from len obtain rest1 where rest: "rest = le_bytes 2 (unat len) @ rest1"
    and r1: "r1 = reader_at (pre @ le_bytes 2 (unat len)) rest1" by (auto simp: take_u16_at)
  from s have bs': "bs = str_bytes s" and "wf_str s" by (simp_all add: from_utf8_eq_Some)
  from bs [unfolded r1 reader_take_at] bs' obtain rest2 where "unat len = length s"
    "length pre + 2 + length s \<le> usize_max" "rest1 = str_bytes s @ rest2"
    "r = reader_at ((pre @ le_bytes 2 (unat len)) @ str_bytes s) rest2" by auto
  with \<open>wf_str s\<close> le rest show ?R by (auto simp: string_field_def)
next
  assume ?R
  then obtain rest' where rest: "rest = le_bytes 2 (length s) @ str_bytes s @ rest'"
    and r: "r = reader_at ((pre @ le_bytes 2 (length s)) @ str_bytes s) rest'"
    and le: "length s \<le> maximum" and b: "length pre + 2 + length s \<le> usize_max"
    and wf: "wf_str s"
    by (auto simp: string_field_def)
  have u: "unat (word_of_nat (length s) :: u16) = length s"
    using le assms by (simp add: unat_of_nat)
  have "take_u16 (reader_at pre rest) =
      Ok (word_of_nat (length s), reader_at (pre @ le_bytes 2 (length s)) (str_bytes s @ rest'))"
    unfolding take_u16_at u using b rest by simp
  moreover have "reader_take (length s)
      (reader_at (pre @ le_bytes 2 (length s)) (str_bytes s @ rest')) = Ok (str_bytes s, r)"
    unfolding reader_take_at using b r by simp
  ultimately show ?L using le wf by (simp add: take_string_def u)
qed

text \<open>The same facts as rewrite rules that run a decoder over an encoding.\<close>

lemma reader_take_fwd [wire_simps]:
  "length xs = n \<Longrightarrow> length pre + n \<le> usize_max \<Longrightarrow>
   reader_take n (reader_at pre (xs @ rest)) = Ok (xs, reader_at (pre @ xs) rest)"
  by (auto simp: reader_take_at)

lemma take_array_fwd [wire_simps]:
  "length xs = n \<Longrightarrow> length pre + n \<le> usize_max \<Longrightarrow>
   take_array n (reader_at pre (xs @ rest)) = Ok (xs, reader_at (pre @ xs) rest)"
  by (auto simp: take_array_at)

lemma take_u8_fwd [wire_simps]:
  "length pre + 1 \<le> usize_max \<Longrightarrow>
   take_u8 (reader_at pre (b # rest)) = Ok (b, reader_at (pre @ [b]) rest)"
  by (auto simp: take_u8_at)

lemma take_u16_fwd [wire_simps]:
  "n < 65536 \<Longrightarrow> length pre + 2 \<le> usize_max \<Longrightarrow>
   take_u16 (reader_at pre (le_bytes 2 n @ rest)) =
     Ok (word_of_nat n, reader_at (pre @ le_bytes 2 n) rest)"
  using take_u16_at [of pre "le_bytes 2 n @ rest" "word_of_nat n"] by (simp add: unat_of_nat)

lemma take_u32_fwd [wire_simps]:
  "n < 2 ^ 32 \<Longrightarrow> length pre + 4 \<le> usize_max \<Longrightarrow>
   take_u32 (reader_at pre (le_bytes 4 n @ rest)) =
     Ok (word_of_nat n, reader_at (pre @ le_bytes 4 n) rest)"
  using take_u32_at [of pre "le_bytes 4 n @ rest" "word_of_nat n"] by (simp add: unat_of_nat)

lemma take_u64_fwd [wire_simps]:
  "n < 2 ^ 64 \<Longrightarrow> length pre + 8 \<le> usize_max \<Longrightarrow>
   take_u64 (reader_at pre (le_bytes 8 n @ rest)) =
     Ok (word_of_nat n, reader_at (pre @ le_bytes 8 n) rest)"
  using take_u64_at [of pre "le_bytes 8 n @ rest" "word_of_nat n"] by (simp add: unat_of_nat)

lemma take_string_fwd [wire_simps]:
  "maximum < 65536 \<Longrightarrow> wf_str s \<Longrightarrow> length s \<le> maximum \<Longrightarrow>
   length pre + 2 + length s \<le> usize_max \<Longrightarrow>
   take_string maximum (reader_at pre (string_field s @ rest)) =
     Ok (s, reader_at (pre @ string_field s) rest)"
  by (auto simp: take_string_at)

lemma take_last [wire_simps]:
  "length xs = k \<Longrightarrow> length pre + k \<le> usize_max \<Longrightarrow>
   take_array k (reader_at pre xs) = Ok (xs, reader_at (pre @ xs) [])"
  "n < 65536 \<Longrightarrow> length pre + 2 \<le> usize_max \<Longrightarrow>
   take_u16 (reader_at pre (le_bytes 2 n)) = Ok (word_of_nat n, reader_at (pre @ le_bytes 2 n) [])"
  using take_array_fwd [of xs k pre "[]"] take_u16_fwd [of n pre "[]"] by simp_all

lemma unat_u16_less [simp]: "unat (v :: u16) < 65536"
  and unat_u32_less [simp]: "unat (x :: u32) < 4294967296"
  and unat_u64_less [simp]: "unat (y :: u64) < 18446744073709551616"
  using unat_le16 [of v] unat_le32 [of x] unat_le64 [of y] by simp_all

lemma string_list_field:
  "maximum < 65536 \<Longrightarrow>
   wire_field string_field (take_string maximum) (\<lambda>s. wf_str s \<and> length s \<le> maximum)"
  by unfold_locales (auto simp: take_string_at)

text \<open>Inversion of one read at the head of a decoder, in the form the decoders are written.\<close>

lemma bindR_prod_Ok: "bindR m f = Ok y \<longleftrightarrow> (\<exists>a b. m = Ok (a, b) \<and> f (a, b) = Ok y)"
  by (auto simp: bindR_eq_Inr)

lemma bind_take_u8 [wire_inv]:
  "bindR (take_u8 (reader_at pre rest)) f = Ok y \<longleftrightarrow>
    length pre + 1 \<le> usize_max \<and>
    (\<exists>b rest'. rest = b # rest' \<and> f (b, reader_at (pre @ [b]) rest') = Ok y)"
  by (auto simp: bindR_prod_Ok take_u8_at)

lemma bind_take_u16 [wire_inv]:
  "bindR (take_u16 (reader_at pre rest)) f = Ok y \<longleftrightarrow>
    length pre + 2 \<le> usize_max \<and>
    (\<exists>v rest'. rest = le_bytes 2 (unat v) @ rest' \<and>
               f (v, reader_at (pre @ le_bytes 2 (unat v)) rest') = Ok y)"
  by (auto simp: bindR_prod_Ok take_u16_at)

lemma bind_take_u32 [wire_inv]:
  "bindR (take_u32 (reader_at pre rest)) f = Ok y \<longleftrightarrow>
    length pre + 4 \<le> usize_max \<and>
    (\<exists>v rest'. rest = le_bytes 4 (unat v) @ rest' \<and>
               f (v, reader_at (pre @ le_bytes 4 (unat v)) rest') = Ok y)"
  by (auto simp: bindR_prod_Ok take_u32_at)

lemma bind_take_u64 [wire_inv]:
  "bindR (take_u64 (reader_at pre rest)) f = Ok y \<longleftrightarrow>
    length pre + 8 \<le> usize_max \<and>
    (\<exists>v rest'. rest = le_bytes 8 (unat v) @ rest' \<and>
               f (v, reader_at (pre @ le_bytes 8 (unat v)) rest') = Ok y)"
  by (auto simp: bindR_prod_Ok take_u64_at)

lemma bind_take_array [wire_inv]:
  "bindR (take_array n (reader_at pre rest)) f = Ok y \<longleftrightarrow>
    length pre + n \<le> usize_max \<and>
    (\<exists>xs rest'. rest = xs @ rest' \<and> length xs = n \<and> f (xs, reader_at (pre @ xs) rest') = Ok y)"
  by (auto simp: bindR_prod_Ok take_array_at)

lemma bind_reader_take [wire_inv]:
  "bindR (reader_take n (reader_at pre rest)) f = Ok y \<longleftrightarrow>
    length pre + n \<le> usize_max \<and>
    (\<exists>xs rest'. rest = xs @ rest' \<and> length xs = n \<and> f (xs, reader_at (pre @ xs) rest') = Ok y)"
  by (auto simp: bindR_prod_Ok reader_take_at)

lemma bind_take_string [wire_inv]:
  "maximum < 65536 \<Longrightarrow>
   bindR (take_string maximum (reader_at pre rest)) f = Ok y \<longleftrightarrow>
    (\<exists>s rest'. length pre + 2 + length s \<le> usize_max \<and> wf_str s \<and> length s \<le> maximum \<and>
       rest = string_field s @ rest' \<and> f (s, reader_at (pre @ string_field s) rest') = Ok y)"
  by (auto simp: bindR_prod_Ok take_string_at)

lemma bind_reader_finish [wire_inv]:
  "bindR (reader_finish (reader_at pre rest)) f = Ok y \<longleftrightarrow> rest = [] \<and> f () = Ok y"
  by (auto simp: bindR_eq_Inr reader_finish_at)

context wire_field
begin

lemma bind_get:
  "bindR (get (reader_at pre rest)) f = Ok y \<Longrightarrow>
   \<exists>x rest'. ok x \<and> rest = put x @ rest' \<and> f (x, reader_at (pre @ put x) rest') = Ok y"
  using get_inv by (fastforce simp: bindR_prod_Ok)

lemma bind_read_n:
  "bindR (read_n n get (reader_at pre rest)) f = Ok y \<Longrightarrow>
   \<exists>xs rest'. length xs = n \<and> list_all ok xs \<and> rest = concat (map put xs) @ rest' \<and>
              f (xs, reader_at (pre @ concat (map put xs)) rest') = Ok y"
  using read_n_inv by (fastforce simp: bindR_prod_Ok)

end

section \<open>The message interface\<close>

text \<open>
  A codec accepts exactly what it produces: decoding an encoding gives the value back, and every
  accepted input is the encoding of its result. The second law makes the wire format canonical:
  no two byte strings decode to the same message, so a proof computed over the bytes is a proof
  over the message.
\<close>

locale wire_codec =
  fixes enc :: "'a \<Rightarrow> byte list protocol_result"
    and dec :: "byte list \<Rightarrow> 'a protocol_result"
    and ok :: "'a \<Rightarrow> bool"
  assumes dec_enc: "ok x \<Longrightarrow> enc x = Ok b \<Longrightarrow> dec b = Ok x"
    and enc_dec: "dec b = Ok x \<Longrightarrow> ok x \<and> enc x = Ok b"
begin

lemma dec_iff: "dec b = Ok x \<longleftrightarrow> ok x \<and> enc x = Ok b"
  using dec_enc enc_dec by blast

lemma dec_canonical: "dec b = Ok x \<Longrightarrow> dec b' = Ok x \<Longrightarrow> b = b'"
  by (metis enc_dec sum.inject(2))

lemma enc_injective: "ok x \<Longrightarrow> ok y \<Longrightarrow> enc x = Ok b \<Longrightarrow> enc y = Ok b \<Longrightarrow> x = y"
  by (metis dec_enc sum.inject(2))

end

end
