(* ===== verification/BootConfig.thy ===== *)
theory BootConfig
  imports Wire
begin

text \<open>
  The COM1 boot configuration of \<^verbatim>\<open>libs/protocol/src/auth.rs\<close>: guest network, disk mounts,
  the optional bootstrap command and the \<open>BootConfigV1\<close> envelope, with their validation, their
  encoder and their decoder. Fixed-size arrays are byte lists whose length is part of the
  \<open>wf_\<close> predicates, which hold what the Rust types guarantee; everything the code checks at run
  time is in the \<open>validate\<close> functions.
\<close>

section \<open>Constants\<close>

definition PROTOCOL_VERSION :: u16 where "PROTOCOL_VERSION = 1"
definition MAX_BOOT_CONFIG_FRAME :: nat where "MAX_BOOT_CONFIG_FRAME = 64 * 1024"
definition MAX_AUTH_FRAME :: nat where "MAX_AUTH_FRAME = 4 * 1024"
definition MAX_COMMAND_FRAME :: nat where "MAX_COMMAND_FRAME = 16 * 1024 * 1024"
definition CAPABILITY_LEN :: nat where "CAPABILITY_LEN = 32"
definition NONCE_LEN :: nat where "NONCE_LEN = 32"
definition MAC_LEN :: nat where "MAC_LEN = 32"
definition MAX_DNS_SERVERS :: nat where "MAX_DNS_SERVERS = 16"
definition MAX_DISKS :: nat where "MAX_DISKS = 64"
definition MAX_MOUNT_PATH_BYTES :: nat where "MAX_MOUNT_PATH_BYTES = 4096"
definition MAX_BOOTSTRAP_ARGS :: nat where "MAX_BOOTSTRAP_ARGS = 16"
definition MAX_BOOTSTRAP_STRING_BYTES :: nat where "MAX_BOOTSTRAP_STRING_BYTES = 4096"
definition BOOT_CONFIG_TAG :: u8 where "BOOT_CONFIG_TAG = 0x10"

lemmas protocol_limits =
  MAX_BOOT_CONFIG_FRAME_def MAX_AUTH_FRAME_def CAPABILITY_LEN_def NONCE_LEN_def MAC_LEN_def
  MAX_DNS_SERVERS_def MAX_DISKS_def MAX_MOUNT_PATH_BYTES_def MAX_BOOTSTRAP_ARGS_def
  MAX_BOOTSTRAP_STRING_BYTES_def

section \<open>Guest network\<close>

record guest_network_config =
  gn_guest_ip :: "byte list"
  gn_gateway :: "byte list"
  gn_prefix_len :: u8
  gn_dns :: "byte list list"

definition ipv4_u32 :: "byte list \<Rightarrow> u32" where
  "ipv4_u32 bytes = word_of_nat (be_val bytes)"

definition prefix_mask :: "u8 \<Rightarrow> u32" where
  "prefix_mask prefix_len =
    (if prefix_len = 32 then u32_max else push_bit (32 - unat prefix_len) u32_max)"

definition network_validate :: "guest_network_config \<Rightarrow> unit protocol_result" where
  "network_validate n =
    (if \<not> (1 \<le> gn_prefix_len n \<and> gn_prefix_len n \<le> 32) then invalid_value
     else if gn_guest_ip n = gn_gateway n then invalid_value
     else let mask = prefix_mask (gn_prefix_len n) in
       if and (ipv4_u32 (gn_guest_ip n)) mask \<noteq> and (ipv4_u32 (gn_gateway n)) mask
       then invalid_value
       else if length (gn_dns n) > MAX_DNS_SERVERS then invalid_value
       else Ok ())"

definition network_new ::
  "byte list \<Rightarrow> byte list \<Rightarrow> u8 \<Rightarrow> byte list list \<Rightarrow> guest_network_config protocol_result" where
  "network_new guest_ip gateway prefix_len dns =
    (let config = \<lparr>gn_guest_ip = guest_ip, gn_gateway = gateway, gn_prefix_len = prefix_len,
                   gn_dns = dns\<rparr> in
     bindR (network_validate config) (\<lambda>_. Ok config))"

definition wf_network :: "guest_network_config \<Rightarrow> bool" where
  "wf_network n \<longleftrightarrow> length (gn_guest_ip n) = 4 \<and> length (gn_gateway n) = 4
     \<and> list_all (\<lambda>d. length d = 4) (gn_dns n)"

section \<open>Disk mounts\<close>

record guest_disk_config =
  gd_device_index :: u16
  gd_mount_path :: string
  gd_initialize :: bool

definition absolute_path_ok :: "nat \<Rightarrow> string \<Rightarrow> bool" where
  "absolute_path_ok maximum path \<longleftrightarrow>
    \<not> (path = [] \<or> \<not> prefix ''/'' path \<or> CHR 0x00 \<in> set path \<or> length path > maximum)"

definition disk_validate :: "guest_disk_config \<Rightarrow> unit protocol_result" where
  "disk_validate d =
    (if \<not> absolute_path_ok MAX_MOUNT_PATH_BYTES (gd_mount_path d) then invalid_value else Ok ())"

definition disk_new :: "u16 \<Rightarrow> string \<Rightarrow> bool \<Rightarrow> guest_disk_config protocol_result" where
  "disk_new device_index mount_path initialize =
    (let config = \<lparr>gd_device_index = device_index, gd_mount_path = mount_path,
                   gd_initialize = initialize\<rparr> in
     bindR (disk_validate config) (\<lambda>_. Ok config))"

definition wf_disk :: "guest_disk_config \<Rightarrow> bool" where
  "wf_disk d \<longleftrightarrow> wf_str (gd_mount_path d)"

section \<open>The bootstrap command\<close>

record bootstrap_config =
  bs_program :: string
  bs_args :: "string list"
  bs_artifact :: string

definition validate_bootstrap_path :: "string \<Rightarrow> unit protocol_result" where
  "validate_bootstrap_path path =
    (if \<not> absolute_path_ok MAX_BOOTSTRAP_STRING_BYTES path
        \<or> list_ex (\<lambda>component. component = ''..'') (split_on (CHR ''/'') path)
     then invalid_value else Ok ())"

fun validate_bootstrap_args :: "string list \<Rightarrow> unit protocol_result" where
  "validate_bootstrap_args [] = Ok ()"
| "validate_bootstrap_args (argument # rest) =
    (if CHR 0x00 \<in> set argument then invalid_value
     else if length argument > MAX_BOOTSTRAP_STRING_BYTES then invalid_value
     else validate_bootstrap_args rest)"

definition bootstrap_validate :: "bootstrap_config \<Rightarrow> unit protocol_result" where
  "bootstrap_validate b =
    bindR (validate_bootstrap_path (bs_program b)) (\<lambda>_.
    bindR (validate_bootstrap_path (bs_artifact b)) (\<lambda>_.
    if length (bs_args b) > MAX_BOOTSTRAP_ARGS then invalid_value
    else validate_bootstrap_args (bs_args b)))"

definition bootstrap_new ::
  "string \<Rightarrow> string list \<Rightarrow> string \<Rightarrow> bootstrap_config protocol_result" where
  "bootstrap_new program args artifact =
    (let config = \<lparr>bs_program = program, bs_args = args, bs_artifact = artifact\<rparr> in
     bindR (bootstrap_validate config) (\<lambda>_. Ok config))"

definition bootstrap_encoded_len :: "bootstrap_config \<Rightarrow> nat" where
  "bootstrap_encoded_len b =
    2 + length (bs_program b) + 1 + sum_list (map (\<lambda>argument. 2 + length argument) (bs_args b))
    + 2 + length (bs_artifact b)"

definition wf_bootstrap :: "bootstrap_config \<Rightarrow> bool" where
  "wf_bootstrap b \<longleftrightarrow> wf_str (bs_program b) \<and> list_all wf_str (bs_args b) \<and> wf_str (bs_artifact b)"

section \<open>The envelope\<close>

type_synonym session_capability = "byte list"

record boot_config =
  bc_version :: u16
  bc_vm_id :: "byte list"
  bc_capability :: session_capability
  bc_host_nonce :: "byte list"
  bc_network :: "guest_network_config option"
  bc_disks :: "guest_disk_config list"
  bc_bootstrap :: "bootstrap_config option"

fun validate_disks ::
  "u16 list \<Rightarrow> string list \<Rightarrow> guest_disk_config list \<Rightarrow> unit protocol_result" where
  "validate_disks indexes paths [] = Ok ()"
| "validate_disks indexes paths (disk # rest) =
    bindR (disk_validate disk) (\<lambda>_.
    if gd_device_index disk \<in> set indexes then invalid_value
    else if gd_mount_path disk \<in> set paths then invalid_value
    else validate_disks (indexes @ [gd_device_index disk]) (paths @ [gd_mount_path disk]) rest)"

definition boot_validate :: "boot_config \<Rightarrow> unit protocol_result" where
  "boot_validate c =
    (if bc_version c \<noteq> PROTOCOL_VERSION then Err (Fail VersionMismatch)
     else bindR (case bc_network c of None \<Rightarrow> Ok () | Some network \<Rightarrow> network_validate network) (\<lambda>_.
       if length (bc_disks c) > MAX_DISKS then invalid_value
       else bindR (validate_disks [] [] (bc_disks c)) (\<lambda>_.
         case bc_bootstrap c of None \<Rightarrow> Ok () | Some bootstrap \<Rightarrow> bootstrap_validate bootstrap)))"

definition boot_new ::
  "byte list \<Rightarrow> session_capability \<Rightarrow> byte list \<Rightarrow> guest_network_config option
    \<Rightarrow> guest_disk_config list \<Rightarrow> boot_config protocol_result" where
  "boot_new vm_id capability host_nonce network disks =
    (let config = \<lparr>bc_version = PROTOCOL_VERSION, bc_vm_id = vm_id, bc_capability = capability,
                   bc_host_nonce = host_nonce, bc_network = network, bc_disks = disks,
                   bc_bootstrap = None\<rparr> in
     bindR (boot_validate config) (\<lambda>_. Ok config))"

definition boot_with_bootstrap :: "bootstrap_config \<Rightarrow> boot_config \<Rightarrow> boot_config protocol_result" where
  "boot_with_bootstrap bootstrap c =
    (let c = c\<lparr>bc_bootstrap := Some bootstrap\<rparr> in bindR (boot_validate c) (\<lambda>_. Ok c))"

definition boot_with_optional_bootstrap ::
  "bootstrap_config option \<Rightarrow> boot_config \<Rightarrow> boot_config protocol_result" where
  "boot_with_optional_bootstrap bootstrap c =
    (let c = c\<lparr>bc_bootstrap := bootstrap\<rparr> in bindR (boot_validate c) (\<lambda>_. Ok c))"

definition boot_encoded_len :: "boot_config \<Rightarrow> nat" where
  "boot_encoded_len c =
    (let network_len = (case bc_network c of
        None \<Rightarrow> 1 | Some network \<Rightarrow> 1 + 4 + 4 + 1 + 1 + length (gn_dns network) * 4) in
     1 + 2 + 16 + CAPABILITY_LEN + NONCE_LEN + network_len + 2
     + sum_list (map (\<lambda>disk. 2 + 1 + 2 + length (gd_mount_path disk)) (bc_disks c))
     + (case bc_bootstrap c of None \<Rightarrow> 1 | Some bootstrap \<Rightarrow> bootstrap_encoded_len bootstrap))"

section \<open>Encoding\<close>

definition push_network ::
  "guest_network_config option \<Rightarrow> wire_writer \<Rightarrow> wire_writer protocol_result" where
  "push_network network w =
    (case network of
       Some network \<Rightarrow>
         bindR (u8_try_from (length (gn_dns network))) (\<lambda>count.
         Ok (fold push_bytes (gn_dns network)
           (push_u8 count (push_u8 (gn_prefix_len network) (push_bytes (gn_gateway network)
             (push_bytes (gn_guest_ip network) (push_u8 1 w)))))))
     | None \<Rightarrow> Ok (push_u8 0 w))"

fun push_disk_entries ::
  "guest_disk_config list \<Rightarrow> wire_writer \<Rightarrow> wire_writer protocol_result" where
  "push_disk_entries [] w = Ok w"
| "push_disk_entries (disk # rest) w =
    bindR (u16_try_from (length (gd_mount_path disk))) (\<lambda>len.
    push_disk_entries rest
      (push_bytes (str_bytes (gd_mount_path disk)) (push_u16 len
        (push_u8 (if gd_initialize disk then 1 else 0) (push_u16 (gd_device_index disk) w)))))"

definition push_disks ::
  "guest_disk_config list \<Rightarrow> wire_writer \<Rightarrow> wire_writer protocol_result" where
  "push_disks disks w =
    bindR (u16_try_from (length disks)) (\<lambda>count. push_disk_entries disks (push_u16 count w))"

fun push_strings :: "string list \<Rightarrow> wire_writer \<Rightarrow> wire_writer protocol_result" where
  "push_strings [] w = Ok w"
| "push_strings (s # rest) w = bindR (push_string s w) (push_strings rest)"

definition push_bootstrap ::
  "bootstrap_config option \<Rightarrow> wire_writer \<Rightarrow> wire_writer protocol_result" where
  "push_bootstrap bootstrap w =
    (case bootstrap of
       Some bootstrap \<Rightarrow>
         bindR (push_string (bs_program bootstrap) (push_u8 1 w)) (\<lambda>w.
         bindR (u8_try_from (length (bs_args bootstrap))) (\<lambda>count.
         bindR (push_strings (bs_args bootstrap) (push_u8 count w)) (\<lambda>w.
         push_string (bs_artifact bootstrap) w)))
     | None \<Rightarrow> Ok (push_u8 0 w))"

definition boot_to_bytes :: "boot_config \<Rightarrow> byte list protocol_result" where
  "boot_to_bytes c =
    bindR (boot_validate c) (\<lambda>_.
    let encoded_len = boot_encoded_len c in
    if encoded_len > MAX_BOOT_CONFIG_FRAME then invalid_frame
    else
      let w = push_bytes (bc_host_nonce c) (push_bytes (bc_capability c)
                (push_bytes (bc_vm_id c) (push_u16 (bc_version c)
                  (push_u8 BOOT_CONFIG_TAG (writer_with_capacity encoded_len))))) in
      bindR (push_network (bc_network c) w) (\<lambda>w.
      bindR (push_disks (bc_disks c) w) (\<lambda>w.
      bindR (push_bootstrap (bc_bootstrap c) w) (\<lambda>w.
      writer_finish MAX_BOOT_CONFIG_FRAME w))))"

section \<open>Decoding\<close>

definition read_network ::
  "wire_reader \<Rightarrow> (guest_network_config option \<times> wire_reader) protocol_result" where
  "read_network r =
    bindR (take_u8 r) (\<lambda>(flag, r).
    if flag = 0 then Ok (None, r)
    else if flag = 1 then
      bindR (take_array 4 r) (\<lambda>(guest_ip, r).
      bindR (take_array 4 r) (\<lambda>(gateway, r).
      bindR (take_u8 r) (\<lambda>(prefix_len, r).
      bindR (take_u8 r) (\<lambda>(dns_count, r).
      if unat dns_count > MAX_DNS_SERVERS then invalid_value
      else
        bindR (read_n (unat dns_count) (take_array 4) r) (\<lambda>(dns, r).
        bindR (network_new guest_ip gateway prefix_len dns) (\<lambda>network.
        Ok (Some network, r)))))))
    else invalid_frame)"

definition read_disk :: "wire_reader \<Rightarrow> (guest_disk_config \<times> wire_reader) protocol_result" where
  "read_disk r =
    bindR (take_u16 r) (\<lambda>(device_index, r).
    bindR (take_u8 r) (\<lambda>(flag, r).
    bindR (if flag = 0 then Ok False else if flag = 1 then Ok True else invalid_frame) (\<lambda>initialize.
    bindR (take_u16 r) (\<lambda>(path_len, r).
    if unat path_len > MAX_MOUNT_PATH_BYTES then invalid_value
    else
      bindR (reader_take (unat path_len) r) (\<lambda>(bytes, r).
      case from_utf8 bytes of
        None \<Rightarrow> invalid_value
      | Some mount_path \<Rightarrow>
          bindR (disk_new device_index mount_path initialize) (\<lambda>disk. Ok (disk, r)))))))"

definition read_disks ::
  "wire_reader \<Rightarrow> (guest_disk_config list \<times> wire_reader) protocol_result" where
  "read_disks r =
    bindR (take_u16 r) (\<lambda>(disk_count, r).
    if unat disk_count > MAX_DISKS then invalid_value
    else read_n (unat disk_count) read_disk r)"

definition read_bootstrap ::
  "wire_reader \<Rightarrow> (bootstrap_config option \<times> wire_reader) protocol_result" where
  "read_bootstrap r =
    bindR (take_u8 r) (\<lambda>(flag, r).
    if flag = 0 then Ok (None, r)
    else if flag = 1 then
      bindR (take_string MAX_BOOTSTRAP_STRING_BYTES r) (\<lambda>(program, r).
      bindR (take_u8 r) (\<lambda>(argument_count, r).
      if unat argument_count > MAX_BOOTSTRAP_ARGS then invalid_value
      else
        bindR (read_n (unat argument_count) (take_string MAX_BOOTSTRAP_STRING_BYTES) r) (\<lambda>(args, r).
        bindR (take_string MAX_BOOTSTRAP_STRING_BYTES r) (\<lambda>(artifact, r).
        bindR (bootstrap_new program args artifact) (\<lambda>bootstrap.
        Ok (Some bootstrap, r))))))
    else invalid_frame)"

definition boot_try_from :: "byte list \<Rightarrow> boot_config protocol_result" where
  "boot_try_from bytes =
    (if length bytes > MAX_BOOT_CONFIG_FRAME then invalid_frame
     else
       bindR (take_u8 (reader_new bytes)) (\<lambda>(tag, r).
       if tag \<noteq> BOOT_CONFIG_TAG then invalid_frame
       else
         bindR (take_u16 r) (\<lambda>(version, r).
         if version \<noteq> PROTOCOL_VERSION then Err (Fail VersionMismatch)
         else
           bindR (take_array 16 r) (\<lambda>(vm_id, r).
           bindR (take_array CAPABILITY_LEN r) (\<lambda>(capability, r).
           bindR (take_array NONCE_LEN r) (\<lambda>(host_nonce, r).
           bindR (read_network r) (\<lambda>(network, r).
           bindR (read_disks r) (\<lambda>(disks, r).
           bindR (read_bootstrap r) (\<lambda>(bootstrap, r).
           bindR (reader_finish r) (\<lambda>_.
           bindR (boot_new vm_id capability host_nonce network disks)
             (boot_with_optional_bootstrap bootstrap))))))))))) "

definition wf_boot :: "boot_config \<Rightarrow> bool" where
  "wf_boot c \<longleftrightarrow> length (bc_vm_id c) = 16 \<and> length (bc_capability c) = CAPABILITY_LEN
     \<and> length (bc_host_nonce c) = NONCE_LEN
     \<and> pred_option wf_network (bc_network c) \<and> list_all wf_disk (bc_disks c)
     \<and> pred_option wf_bootstrap (bc_bootstrap c)"

section \<open>What validation accepts\<close>

lemma network_validate_neq_Panic [simp]: "network_validate n \<noteq> Err Panic"
  by (simp add: network_validate_def invalid_value_def Let_def)

lemma network_validate_dns: "network_validate n = Ok u \<Longrightarrow> length (gn_dns n) \<le> MAX_DNS_SERVERS"
  by (auto simp: network_validate_def Let_def split: if_splits)

lemma disk_validate_Ok [simp]:
  "disk_validate d = Ok u \<longleftrightarrow> absolute_path_ok MAX_MOUNT_PATH_BYTES (gd_mount_path d)"
  by (simp add: disk_validate_def)

lemma absolute_path_ok_length: "absolute_path_ok n path \<Longrightarrow> length path \<le> n"
  by (simp add: absolute_path_ok_def)

lemma disk_validate_neq_Panic [simp]: "disk_validate d \<noteq> Err Panic"
  by (simp add: disk_validate_def invalid_value_def)

definition bootstrap_path_ok :: "string \<Rightarrow> bool" where
  "bootstrap_path_ok path \<longleftrightarrow> absolute_path_ok MAX_BOOTSTRAP_STRING_BYTES path
     \<and> ''..'' \<notin> set (split_on (CHR ''/'') path)"

definition bootstrap_arg_ok :: "string \<Rightarrow> bool" where
  "bootstrap_arg_ok a \<longleftrightarrow> CHR 0x00 \<notin> set a \<and> length a \<le> MAX_BOOTSTRAP_STRING_BYTES"

lemma validate_bootstrap_path_Ok [simp]:
  "validate_bootstrap_path path = Ok u \<longleftrightarrow> bootstrap_path_ok path"
  by (auto simp: validate_bootstrap_path_def bootstrap_path_ok_def list_ex_iff)

lemma validate_bootstrap_args_Ok [simp]:
  "validate_bootstrap_args args = Ok u \<longleftrightarrow> list_all bootstrap_arg_ok args"
  by (induction args) (auto simp: bootstrap_arg_ok_def)

lemma bootstrap_validate_Ok:
  "bootstrap_validate b = Ok u \<longleftrightarrow>
    bootstrap_path_ok (bs_program b) \<and> bootstrap_path_ok (bs_artifact b)
    \<and> length (bs_args b) \<le> MAX_BOOTSTRAP_ARGS \<and> list_all bootstrap_arg_ok (bs_args b)"
  by (auto simp: bootstrap_validate_def bindR_eq_Inr)

lemma validate_bootstrap_neq_Panic [simp]:
  "validate_bootstrap_path path \<noteq> Err Panic" "validate_bootstrap_args args \<noteq> Err Panic"
  by (simp_all add: validate_bootstrap_path_def invalid_value_def)
     (induction args, simp_all add: invalid_value_def)

lemma bootstrap_validate_neq_Panic [simp]: "bootstrap_validate b \<noteq> Err Panic"
  by (auto simp: bootstrap_validate_def bindR_eq_Inl invalid_value_def)

lemma validate_disks_Ok:
  "validate_disks indexes paths disks = Ok u \<longleftrightarrow>
    list_all (\<lambda>d. disk_validate d = Ok ()) disks
    \<and> distinct (map gd_device_index disks) \<and> distinct (map gd_mount_path disks)
    \<and> set (map gd_device_index disks) \<inter> set indexes = {}
    \<and> set (map gd_mount_path disks) \<inter> set paths = {}"
  by (induction disks arbitrary: indexes paths) (auto simp: bindR_eq_Inr)

lemma validate_disks_neq_Panic [simp]: "validate_disks indexes paths disks \<noteq> Err Panic"
  by (induction disks arbitrary: indexes paths) (auto simp: bindR_eq_Inl invalid_value_def)

lemma boot_validate_Ok:
  "boot_validate c = Ok u \<longleftrightarrow>
    bc_version c = PROTOCOL_VERSION
    \<and> pred_option (\<lambda>n. network_validate n = Ok ()) (bc_network c)
    \<and> length (bc_disks c) \<le> MAX_DISKS
    \<and> list_all (\<lambda>d. disk_validate d = Ok ()) (bc_disks c)
    \<and> distinct (map gd_device_index (bc_disks c)) \<and> distinct (map gd_mount_path (bc_disks c))
    \<and> pred_option (\<lambda>b. bootstrap_validate b = Ok ()) (bc_bootstrap c)"
  by (auto simp: boot_validate_def bindR_eq_Inr validate_disks_Ok split: option.splits)

lemma boot_validate_neq_Panic [simp]: "boot_validate c \<noteq> Err Panic"
  by (auto simp: boot_validate_def bindR_eq_Inl invalid_value_def split: option.splits)

section \<open>The encoding as a byte string\<close>

definition network_field :: "guest_network_config option \<Rightarrow> byte list" where
  "network_field network =
    (case network of
       None \<Rightarrow> [0]
     | Some n \<Rightarrow> 1 # gn_guest_ip n @ gn_gateway n @ gn_prefix_len n
         # word_of_nat (length (gn_dns n)) # concat (gn_dns n))"

definition disk_field :: "guest_disk_config \<Rightarrow> byte list" where
  "disk_field d =
    le_bytes 2 (unat (gd_device_index d)) @ (if gd_initialize d then 1 else 0)
    # string_field (gd_mount_path d)"

definition disks_field :: "guest_disk_config list \<Rightarrow> byte list" where
  "disks_field ds = le_bytes 2 (length ds) @ concat (map disk_field ds)"

definition bootstrap_field :: "bootstrap_config option \<Rightarrow> byte list" where
  "bootstrap_field bootstrap =
    (case bootstrap of
       None \<Rightarrow> [0]
     | Some b \<Rightarrow> 1 # string_field (bs_program b) @ word_of_nat (length (bs_args b))
         # concat (map string_field (bs_args b)) @ string_field (bs_artifact b))"

definition boot_bytes :: "boot_config \<Rightarrow> byte list" where
  "boot_bytes c =
    BOOT_CONFIG_TAG # le_bytes 2 (unat (bc_version c)) @ bc_vm_id c @ bc_capability c
    @ bc_host_nonce c @ network_field (bc_network c) @ disks_field (bc_disks c)
    @ bootstrap_field (bc_bootstrap c)"

lemma ww_bytes_fold_push: "ww_bytes (fold push_bytes xs w) = ww_bytes w @ concat xs"
  by (induction xs arbitrary: w) auto

lemma push_network_bytes:
  assumes "pred_option (\<lambda>n. network_validate n = Ok ()) network"
  shows "\<exists>w'. push_network network w = Ok w' \<and> ww_bytes w' = ww_bytes w @ network_field network"
proof (cases network)
  case None
  then show ?thesis by (simp add: push_network_def network_field_def)
next
  case (Some n)
  with assms have "length (gn_dns n) \<le> MAX_DNS_SERVERS" by (simp add: network_validate_dns)
  with Some show ?thesis
    by (simp add: push_network_def network_field_def u8_try_from_def protocol_limits
        ww_bytes_fold_push)
qed

lemma push_disk_entries_bytes:
  "list_all (\<lambda>d. disk_validate d = Ok ()) ds \<Longrightarrow>
   \<exists>w'. push_disk_entries ds w = Ok w' \<and> ww_bytes w' = ww_bytes w @ concat (map disk_field ds)"
proof (induction ds arbitrary: w)
  case Nil
  then show ?case by simp
next
  case (Cons d ds)
  from Cons.prems have "length (gd_mount_path d) \<le> 4096"
    using absolute_path_ok_length [of 4096] by (simp add: MAX_MOUNT_PATH_BYTES_def)
  then have len: "u16_try_from (length (gd_mount_path d)) =
      Ok (word_of_nat (length (gd_mount_path d)))"
    and u: "unat (word_of_nat (length (gd_mount_path d)) :: u16) = length (gd_mount_path d)"
    by (simp_all add: u16_try_from_def unat_of_nat)
  let ?w = "push_bytes (str_bytes (gd_mount_path d))
    (push_u16 (word_of_nat (length (gd_mount_path d)))
      (push_u8 (if gd_initialize d then 1 else 0) (push_u16 (gd_device_index d) w)))"
  have "ww_bytes ?w = ww_bytes w @ disk_field d"
    using u by (simp add: disk_field_def string_field_def)
  moreover obtain w' where "push_disk_entries ds ?w = Ok w'"
    "ww_bytes w' = ww_bytes ?w @ concat (map disk_field ds)"
    using Cons.IH [of ?w] Cons.prems by auto
  ultimately show ?case using len by simp
qed

lemma push_disks_bytes:
  assumes "list_all (\<lambda>d. disk_validate d = Ok ()) ds" "length ds \<le> MAX_DISKS"
  shows "\<exists>w'. push_disks ds w = Ok w' \<and> ww_bytes w' = ww_bytes w @ disks_field ds"
  using push_disk_entries_bytes [OF assms(1), of "push_u16 (word_of_nat (length ds)) w"] assms(2)
  by (simp add: push_disks_def u16_try_from_def disks_field_def MAX_DISKS_def unat_of_nat)

lemma push_strings_bytes:
  "\<forall>s \<in> set ss. length s < 65536 \<Longrightarrow>
   push_strings ss w = Ok (w\<lparr>ww_bytes := ww_bytes w @ concat (map string_field ss)\<rparr>)"
  by (induction ss arbitrary: w) (simp_all add: push_string_eq)

lemma bootstrap_string_bounds:
  assumes "bootstrap_validate b = Ok ()"
  shows "length (bs_program b) \<le> 4096" "length (bs_artifact b) \<le> 4096"
    "\<forall>a \<in> set (bs_args b). length a \<le> 4096" "length (bs_args b) \<le> 16"
  using assms absolute_path_ok_length
  by (auto simp: bootstrap_validate_Ok bootstrap_path_ok_def bootstrap_arg_ok_def list_all_iff
      MAX_BOOTSTRAP_STRING_BYTES_def MAX_BOOTSTRAP_ARGS_def)

lemma push_bootstrap_bytes:
  assumes "pred_option (\<lambda>b. bootstrap_validate b = Ok ()) bootstrap"
  shows "\<exists>w'. push_bootstrap bootstrap w = Ok w'
    \<and> ww_bytes w' = ww_bytes w @ bootstrap_field bootstrap"
proof (cases bootstrap)
  case None
  then show ?thesis by (simp add: push_bootstrap_def bootstrap_field_def)
next
  case (Some b)
  with assms have "bootstrap_validate b = Ok ()" by simp
  note bounds = bootstrap_string_bounds [OF this]
  have "\<forall>a \<in> set (bs_args b). length a < 65536" using bounds(3) by auto
  with Some bounds show ?thesis
    by (simp add: push_bootstrap_def bootstrap_field_def push_string_eq push_strings_bytes
        u8_try_from_def)
qed

lemma length_network_field:
  "pred_option wf_network network \<Longrightarrow> length (network_field network) =
    (case network of None \<Rightarrow> 1 | Some n \<Rightarrow> 1 + 4 + 4 + 1 + 1 + length (gn_dns n) * 4)"
proof (cases network)
  case (Some n)
  have "list_all (\<lambda>d. length d = 4) dns \<Longrightarrow> sum_list (map length dns) = length dns * 4"
    for dns :: "byte list list" by (induction dns) auto
  then show "pred_option wf_network network \<Longrightarrow> ?thesis"
    using Some by (simp add: network_field_def wf_network_def length_concat)
qed (simp add: network_field_def)

lemma length_disks_field:
  "length (disks_field ds) =
    2 + sum_list (map (\<lambda>disk. 2 + 1 + 2 + length (gd_mount_path disk)) ds)"
proof -
  have "length (concat (map disk_field ds)) =
      sum_list (map (\<lambda>disk. 2 + 1 + 2 + length (gd_mount_path disk)) ds)"
    by (induction ds) (simp_all add: disk_field_def)
  then show ?thesis by (simp add: disks_field_def)
qed

lemma length_bootstrap_field:
  "length (bootstrap_field bootstrap) =
    (case bootstrap of None \<Rightarrow> 1 | Some b \<Rightarrow> 1 + bootstrap_encoded_len b)"
  by (simp add: bootstrap_field_def bootstrap_encoded_len_def length_concat comp_def
      split: option.split)

lemma length_boot_bytes:
  assumes "wf_boot c"
  shows "length (boot_bytes c) =
    boot_encoded_len c + (case bc_bootstrap c of None \<Rightarrow> 0 | Some _ \<Rightarrow> 1)"
proof -
  have "length (network_field (bc_network c)) = (case bc_network c of
      None \<Rightarrow> 1 | Some n \<Rightarrow> 1 + 4 + 4 + 1 + 1 + length (gn_dns n) * 4)"
    using assms by (intro length_network_field) (simp add: wf_boot_def)
  with assms show ?thesis
    by (simp add: boot_bytes_def boot_encoded_len_def wf_boot_def length_disks_field
        length_bootstrap_field split: option.split)
qed

lemma boot_to_bytes_eq:
  assumes "boot_validate c = Ok ()"
  shows "boot_to_bytes c =
    (if boot_encoded_len c > MAX_BOOT_CONFIG_FRAME then invalid_frame
     else if length (boot_bytes c) > MAX_BOOT_CONFIG_FRAME then invalid_frame
     else Ok (boot_bytes c))"
proof -
  let ?w = "push_bytes (bc_host_nonce c) (push_bytes (bc_capability c) (push_bytes (bc_vm_id c)
    (push_u16 (bc_version c) (push_u8 BOOT_CONFIG_TAG (writer_with_capacity (boot_encoded_len c))))))"
  note v = assms [unfolded boot_validate_Ok]
  obtain w1 where w1: "push_network (bc_network c) ?w = Ok w1"
    "ww_bytes w1 = ww_bytes ?w @ network_field (bc_network c)"
    using push_network_bytes [of "bc_network c" ?w] v by auto
  obtain w2 where w2: "push_disks (bc_disks c) w1 = Ok w2"
    "ww_bytes w2 = ww_bytes w1 @ disks_field (bc_disks c)"
    using push_disks_bytes [of "bc_disks c" w1] v by auto
  obtain w3 where w3: "push_bootstrap (bc_bootstrap c) w2 = Ok w3"
    "ww_bytes w3 = ww_bytes w2 @ bootstrap_field (bc_bootstrap c)"
    using push_bootstrap_bytes [of "bc_bootstrap c" w2] v by auto
  have "ww_bytes w3 = boot_bytes c"
    using w1(2) w2(2) w3(2) by (simp add: boot_bytes_def)
  with assms w1(1) w2(1) w3(1) show ?thesis
    by (simp add: boot_to_bytes_def Let_def writer_finish_def)
qed

lemma boot_to_bytes_Ok:
  "wf_boot c \<Longrightarrow> boot_to_bytes c = Ok b \<longleftrightarrow>
    boot_validate c = Ok () \<and> b = boot_bytes c \<and> length (boot_bytes c) \<le> MAX_BOOT_CONFIG_FRAME"
  using boot_to_bytes_eq [of c] length_boot_bytes [of c]
  by (cases "boot_validate c") (auto simp: boot_to_bytes_def split: if_splits option.splits)

section \<open>The decoders as fields\<close>

definition network_ok :: "guest_network_config option \<Rightarrow> bool" where
  "network_ok network \<longleftrightarrow> pred_option (\<lambda>n. wf_network n \<and> network_validate n = Ok ()) network"

definition disk_ok :: "guest_disk_config \<Rightarrow> bool" where
  "disk_ok d \<longleftrightarrow> wf_disk d \<and> disk_validate d = Ok ()"

definition disks_ok :: "guest_disk_config list \<Rightarrow> bool" where
  "disks_ok ds \<longleftrightarrow> length ds \<le> MAX_DISKS \<and> list_all disk_ok ds"

definition bootstrap_ok :: "bootstrap_config option \<Rightarrow> bool" where
  "bootstrap_ok bootstrap \<longleftrightarrow>
    pred_option (\<lambda>b. wf_bootstrap b \<and> bootstrap_validate b = Ok ()) bootstrap"

lemma network_new_Ok:
  "network_new ip gw p dns = Ok n \<longleftrightarrow>
    n = \<lparr>gn_guest_ip = ip, gn_gateway = gw, gn_prefix_len = p, gn_dns = dns\<rparr>
    \<and> network_validate n = Ok ()"
  by (auto simp: network_new_def Let_def bindR_eq_Inr)

lemma network_new_self:
  "network_validate n = Ok () \<Longrightarrow>
   network_new (gn_guest_ip n) (gn_gateway n) (gn_prefix_len n) (gn_dns n) = Ok n"
  by (simp add: network_new_Ok)

lemma disk_new_Ok:
  "disk_new i path init = Ok d \<longleftrightarrow>
    d = \<lparr>gd_device_index = i, gd_mount_path = path, gd_initialize = init\<rparr>
    \<and> disk_validate d = Ok ()"
  by (auto simp: disk_new_def Let_def bindR_eq_Inr)

lemma disk_new_self:
  "disk_validate d = Ok () \<Longrightarrow>
   disk_new (gd_device_index d) (gd_mount_path d) (gd_initialize d) = Ok d"
  by (simp add: disk_new_Ok)

lemma bootstrap_new_Ok:
  "bootstrap_new program args artifact = Ok b \<longleftrightarrow>
    b = \<lparr>bs_program = program, bs_args = args, bs_artifact = artifact\<rparr>
    \<and> bootstrap_validate b = Ok ()"
  by (auto simp: bootstrap_new_def Let_def bindR_eq_Inr)

lemma bootstrap_new_self:
  "bootstrap_validate b = Ok () \<Longrightarrow>
   bootstrap_new (bs_program b) (bs_args b) (bs_artifact b) = Ok b"
  by (simp add: bootstrap_new_Ok)

interpretation ipv4_list_field: wire_field concat "read_n n (take_array 4)"
  "\<lambda>ds. length ds = n \<and> list_all (\<lambda>d. length d = 4) ds"
  using wire_field_read_n [OF array_field.wire_field_axioms, of n 4] by simp

lemma read_network_put:
  assumes ok: "network_ok network"
    and b: "length pre + length (network_field network) + length rest \<le> usize_max"
  shows "read_network (reader_at pre (network_field network @ rest)) =
    Ok (network, reader_at (pre @ network_field network) rest)"
proof (cases network)
  case None
  then show ?thesis using b by (simp add: read_network_def network_field_def wire_simps)
next
  case (Some n)
  with ok have wf: "length (gn_guest_ip n) = 4" "length (gn_gateway n) = 4"
      "list_all (\<lambda>d. length d = 4) (gn_dns n)" and v: "network_validate n = Ok ()"
    by (auto simp: network_ok_def wf_network_def)
  have dns: "length (gn_dns n) \<le> 16"
    using network_validate_dns [OF v] by (simp add: MAX_DNS_SERVERS_def)
  then have u: "unat (word_of_nat (length (gn_dns n)) :: u8) = length (gn_dns n)"
    by (simp add: unat_of_nat)
  have len: "length pre + (11 + length (concat (gn_dns n))) + length rest \<le> usize_max"
    using b Some wf by (simp add: network_field_def)
  have "read_n (length (gn_dns n)) (take_array 4) (reader_at p (concat (gn_dns n) @ rest)) =
      Ok (gn_dns n, reader_at (p @ concat (gn_dns n)) rest)"
    if "length p = length pre + 11" for p
    using wf(3) len that by (intro ipv4_list_field.get_put) auto
  with wf v dns u len Some show ?thesis
    by (simp add: read_network_def network_field_def wire_simps network_new_self
        MAX_DNS_SERVERS_def)
qed

lemma word_of_unat_dns [simp]: "word_of_nat (unat (w :: u8)) = w"
  by simp

lemma read_network_inv:
  assumes "read_network (reader_at pre rest) = Ok (network, r)"
  shows "network_ok network \<and>
    (\<exists>rest'. rest = network_field network @ rest' \<and>
             r = reader_at (pre @ network_field network) rest')"
proof -
  from assms obtain flag rest1 where rest: "rest = flag # rest1"
    and body: "(if flag = 0 then Ok (None, reader_at (pre @ [flag]) rest1)
      else if flag = 1 then
        bindR (take_array 4 (reader_at (pre @ [flag]) rest1)) (\<lambda>(guest_ip, r).
        bindR (take_array 4 r) (\<lambda>(gateway, r).
        bindR (take_u8 r) (\<lambda>(prefix_len, r).
        bindR (take_u8 r) (\<lambda>(dns_count, r).
        if unat dns_count > MAX_DNS_SERVERS then invalid_value
        else
          bindR (read_n (unat dns_count) (take_array 4) r) (\<lambda>(dns, r).
          bindR (network_new guest_ip gateway prefix_len dns) (\<lambda>network.
          Ok (Some network, r)))))))
      else invalid_frame) = Ok (network, r)"
    by (auto simp: read_network_def bindR_eq_Inr take_u8_at)
  show ?thesis
  proof (cases "flag = 0")
    case True
    with body rest show ?thesis by (auto simp: network_ok_def network_field_def)
  next
    case False
    with body have flag: "flag = 1" by (auto split: if_splits)
    with body obtain ip gw p count rest2 r2 dns n where *:
      "rest1 = ip @ gw @ p # count # rest2" "length ip = 4" "length gw = 4"
      "unat count \<le> MAX_DNS_SERVERS"
      "read_n (unat count) (take_array 4) (reader_at (pre @ flag # ip @ gw @ [p, count]) rest2)
         = Ok (dns, r)"
      "network_new ip gw p dns = Ok n" "network = Some n"
      by (auto simp: bindR_eq_Inr take_array_at take_u8_at split: if_splits)
    from ipv4_list_field.get_inv [OF *(5)] obtain rest3 where
      "length dns = unat count" "list_all (\<lambda>d. length d = 4) dns" "rest2 = concat dns @ rest3"
      "r = reader_at ((pre @ flag # ip @ gw @ [p, count]) @ concat dns) rest3" by auto
    with * flag rest show ?thesis
      by (auto simp: network_ok_def network_field_def network_new_Ok wf_network_def)
  qed
qed

interpretation network_field: wire_field network_field read_network network_ok
  using read_network_put read_network_inv by unfold_locales

lemma read_disk_put:
  assumes ok: "disk_ok d"
    and b: "length pre + length (disk_field d) + length rest \<le> usize_max"
  shows "read_disk (reader_at pre (disk_field d @ rest)) =
    Ok (d, reader_at (pre @ disk_field d) rest)"
proof -
  have wf: "wf_str (gd_mount_path d)" and v: "disk_validate d = Ok ()"
    using ok by (auto simp: disk_ok_def wf_disk_def)
  have len: "length (gd_mount_path d) \<le> 4096"
    using v absolute_path_ok_length by (simp add: MAX_MOUNT_PATH_BYTES_def)
  then have u: "unat (word_of_nat (length (gd_mount_path d)) :: u16) = length (gd_mount_path d)"
    by (simp add: unat_of_nat)
  have "length pre + (5 + length (gd_mount_path d)) + length rest \<le> usize_max"
    using b by (simp add: disk_field_def)
  moreover note disk_new_self [OF v]
  ultimately show ?thesis
    using wf len u
    by (cases "gd_initialize d")
       (simp_all add: read_disk_def disk_field_def string_field_def wire_simps
          MAX_MOUNT_PATH_BYTES_def)
qed

lemma flag_Ok:
  "(if flag = (0 :: byte) then Ok False else if flag = 1 then Ok True else invalid_frame) = Ok b
     \<longleftrightarrow> flag = (if b then 1 else 0)"
  by auto

lemma bind_from_utf8:
  "(case from_utf8 bytes of None \<Rightarrow> invalid_value | Some s \<Rightarrow> f s) = Ok y \<longleftrightarrow>
    (\<exists>s. bytes = str_bytes s \<and> wf_str s \<and> f s = Ok y)"
  by (auto simp: from_utf8_eq_Some split: option.split)

lemma if_invalid_value: "(if c then invalid_value else m) = Ok y \<longleftrightarrow> \<not> c \<and> m = Ok y"
  and if_invalid_frame: "(if c then invalid_frame else m) = Ok y \<longleftrightarrow> \<not> c \<and> m = Ok y"
  by auto

lemma read_disk_inv:
  assumes "read_disk (reader_at pre rest) = Ok (d, r)"
  shows "disk_ok d \<and>
    (\<exists>rest'. rest = disk_field d @ rest' \<and> r = reader_at (pre @ disk_field d) rest')"
  using assms
  by (auto simp: read_disk_def wire_inv flag_Ok bind_from_utf8 if_invalid_value bindR_eq_Inr
      disk_new_Ok disk_ok_def wf_disk_def disk_field_def string_field_def)

interpretation disk_field: wire_field disk_field read_disk disk_ok
  using read_disk_put read_disk_inv by unfold_locales

interpretation disks_field: wire_field disks_field read_disks disks_ok
proof
  fix ds and pre rest :: "byte list"
  assume ok: "disks_ok ds"
    and b: "length pre + length (disks_field ds) + length rest \<le> usize_max"
  have n: "length ds \<le> 64" "unat (word_of_nat (length ds) :: u16) = length ds"
    using ok by (simp_all add: disks_ok_def MAX_DISKS_def unat_of_nat)
  have len: "length pre + (2 + length (concat (map disk_field ds))) + length rest \<le> usize_max"
    using b by (simp add: disks_field_def)
  have "read_n (length ds) read_disk
      (reader_at (pre @ le_bytes 2 (length ds)) (concat (map disk_field ds) @ rest)) =
      Ok (ds, reader_at ((pre @ le_bytes 2 (length ds)) @ concat (map disk_field ds)) rest)"
    using ok len by (intro disk_field.read_n_put) (auto simp: disks_ok_def)
  with n len show "read_disks (reader_at pre (disks_field ds @ rest)) =
      Ok (ds, reader_at (pre @ disks_field ds) rest)"
    by (simp add: read_disks_def disks_field_def wire_simps MAX_DISKS_def)
next
  fix pre rest :: "byte list" and ds r
  assume "read_disks (reader_at pre rest) = Ok (ds, r)"
  then show "disks_ok ds \<and> (\<exists>rest'. rest = disks_field ds @ rest' \<and>
      r = reader_at (pre @ disks_field ds) rest')"
    by (auto simp: read_disks_def wire_inv if_invalid_value disks_ok_def disks_field_def
        dest!: disk_field.read_n_inv)
qed

interpretation argument_field: wire_field string_field
    "take_string MAX_BOOTSTRAP_STRING_BYTES" "\<lambda>s. wf_str s \<and> length s \<le> MAX_BOOTSTRAP_STRING_BYTES"
  by (rule string_list_field) (simp add: protocol_limits)

lemma read_bootstrap_put:
  assumes ok: "bootstrap_ok bootstrap"
    and len: "length pre + length (bootstrap_field bootstrap) + length rest \<le> usize_max"
  shows "read_bootstrap (reader_at pre (bootstrap_field bootstrap @ rest)) =
    Ok (bootstrap, reader_at (pre @ bootstrap_field bootstrap) rest)"
proof (cases bootstrap)
  case None
  with len show ?thesis by (simp add: read_bootstrap_def bootstrap_field_def wire_simps)
next
  case (Some b)
  with ok have b: "bootstrap_validate b = Ok ()" "wf_bootstrap b" by (simp_all add: bootstrap_ok_def)
  note strings = bootstrap_string_bounds [OF b(1)]
  from b(1) have n: "length (bs_args b) \<le> 16" by (simp add: bootstrap_validate_Ok protocol_limits)
  have max: "MAX_BOOTSTRAP_STRING_BYTES < 65536" by (simp add: protocol_limits)
  let ?pre = "pre @ 1 # string_field (bs_program b) @ [word_of_nat (length (bs_args b))]"
  have "read_n (length (bs_args b)) (take_string MAX_BOOTSTRAP_STRING_BYTES)
      (reader_at ?pre (concat (map string_field (bs_args b)) @ string_field (bs_artifact b) @ rest)) =
      Ok (bs_args b, reader_at (?pre @ concat (map string_field (bs_args b)))
        (string_field (bs_artifact b) @ rest))"
    using b strings len Some
    by (intro argument_field.read_n_put)
      (auto simp: bootstrap_field_def list_all_iff wf_bootstrap_def bootstrap_validate_Ok
        bootstrap_arg_ok_def)
  with Some b n max len strings show ?thesis
    by (simp add: read_bootstrap_def bootstrap_field_def wire_simps wf_bootstrap_def
        bootstrap_new_self bootstrap_validate_Ok bootstrap_path_ok_def absolute_path_ok_length
        MAX_BOOTSTRAP_ARGS_def unat_of_nat)
qed

lemma read_bootstrap_inv:
  assumes "read_bootstrap (reader_at pre rest) = Ok (bootstrap, r)"
  shows "bootstrap_ok bootstrap \<and> (\<exists>rest'. rest = bootstrap_field bootstrap @ rest' \<and>
    r = reader_at (pre @ bootstrap_field bootstrap) rest')"
proof -
  have max: "MAX_BOOTSTRAP_STRING_BYTES < 65536" by (simp add: protocol_limits)
  from assms obtain flag rest1 where rest: "rest = flag # rest1" and "flag = 0 \<or> flag = 1"
    by (auto simp: read_bootstrap_def wire_inv split: if_splits)
  with assms max show ?thesis
    by (auto simp: read_bootstrap_def wire_inv if_invalid_value bootstrap_new_Ok bootstrap_ok_def
        bootstrap_field_def bindR_eq_Inr wf_bootstrap_def list_all_iff dest!: argument_field.read_n_inv)
qed

interpretation bootstrap_field: wire_field bootstrap_field read_bootstrap bootstrap_ok
  using read_bootstrap_put read_bootstrap_inv by unfold_locales

section \<open>The message codec\<close>

lemma boot_new_Ok:
  "boot_new i cap nonce net ds = Ok c \<longleftrightarrow>
    c = \<lparr>bc_version = PROTOCOL_VERSION, bc_vm_id = i, bc_capability = cap, bc_host_nonce = nonce,
         bc_network = net, bc_disks = ds, bc_bootstrap = None\<rparr> \<and> boot_validate c = Ok ()"
  by (auto simp: boot_new_def Let_def bindR_eq_Inr)

lemma boot_with_optional_bootstrap_Ok:
  "boot_with_optional_bootstrap b c = Ok c' \<longleftrightarrow>
    c' = c\<lparr>bc_bootstrap := b\<rparr> \<and> boot_validate c' = Ok ()"
  by (auto simp: boot_with_optional_bootstrap_def Let_def bindR_eq_Inr)

lemma boot_validate_drop_bootstrap:
  "boot_validate c = Ok () \<Longrightarrow> boot_validate (c\<lparr>bc_bootstrap := None\<rparr>) = Ok ()"
  by (simp add: boot_validate_Ok)

lemma boot_rebuild:
  assumes "boot_validate c = Ok ()"
  shows "bindR (boot_new (bc_vm_id c) (bc_capability c) (bc_host_nonce c) (bc_network c) (bc_disks c))
           (boot_with_optional_bootstrap (bc_bootstrap c)) = Ok c"
proof -
  have "boot_new (bc_vm_id c) (bc_capability c) (bc_host_nonce c) (bc_network c) (bc_disks c)
      = Ok (c\<lparr>bc_bootstrap := None\<rparr>)"
    using assms boot_validate_drop_bootstrap [OF assms]
    by (auto simp: boot_new_Ok boot_validate_Ok)
  then show ?thesis using assms by (simp add: boot_with_optional_bootstrap_Ok)
qed

lemma boot_try_from_bytes:
  assumes wf: "wf_boot c" and v: "boot_validate c = Ok ()"
    and len: "length (boot_bytes c) \<le> MAX_BOOT_CONFIG_FRAME"
  shows "boot_try_from (boot_bytes c) = Ok c"
proof -
  have b: "length (boot_bytes c) \<le> 65536" using len by (simp add: protocol_limits)
  have oks: "network_ok (bc_network c)" "disks_ok (bc_disks c)" "bootstrap_ok (bc_bootstrap c)"
    using wf v unfolding boot_validate_Ok wf_boot_def network_ok_def disks_ok_def bootstrap_ok_def
      disk_ok_def by (auto simp: list_all_iff option.pred_set)
  note fields = network_field.get_put [OF oks(1)] disks_field.get_put [OF oks(2)]
    bootstrap_field.get_put [OF oks(3), of _ "[]", simplified]
  from wf v b show ?thesis
    using boot_rebuild [OF v]
    by (simp add: boot_try_from_def boot_bytes_def reader_new_at wire_simps fields wf_boot_def
        boot_validate_Ok usize_max_def PROTOCOL_VERSION_def MAX_BOOT_CONFIG_FRAME_def
        CAPABILITY_LEN_def NONCE_LEN_def)
qed

lemma boot_try_from_inv:
  assumes "boot_try_from bs = Ok c"
  shows "wf_boot c \<and> boot_validate c = Ok () \<and> bs = boot_bytes c
    \<and> length (boot_bytes c) \<le> MAX_BOOT_CONFIG_FRAME"
  using assms
  by (auto simp: boot_try_from_def reader_new_at wire_inv if_invalid_frame boot_new_Ok bindR_eq_Inr
      boot_with_optional_bootstrap_Ok boot_bytes_def wf_boot_def network_ok_def disks_ok_def
      bootstrap_ok_def disk_ok_def list_all_iff option.pred_set split: if_splits
      dest!: network_field.get_inv disks_field.get_inv bootstrap_field.get_inv)

interpretation boot_codec: wire_codec boot_to_bytes boot_try_from wf_boot
proof
  fix c bs
  show "wf_boot c \<Longrightarrow> boot_to_bytes c = Ok bs \<Longrightarrow> boot_try_from bs = Ok c"
    by (simp add: boot_to_bytes_Ok boot_try_from_bytes)
  show "boot_try_from bs = Ok c \<Longrightarrow> wf_boot c \<and> boot_to_bytes c = Ok bs"
    using boot_try_from_inv [of bs c] by (simp add: boot_to_bytes_Ok)
qed

section \<open>Properties of the boot configuration\<close>

lemma prefix_mask_bit:
  assumes "1 \<le> p" "p \<le> (32 :: u8)"
  shows "bit (prefix_mask p) n \<longleftrightarrow> 32 - unat p \<le> n \<and> n < 32"
proof -
  have "unat p \<le> 32" using assms(2) by (simp add: word_le_nat_alt)
  then show ?thesis
    by (auto simp: prefix_mask_def u32_max_def bit_push_bit_iff bit_minus_1_iff bit_not_iff
        bit_mask_iff not_less)
qed

lemma prefix_mask_eq_iff:
  assumes "1 \<le> p" "p \<le> (32 :: u8)"
  shows "and a (prefix_mask p) = and b (prefix_mask p) \<longleftrightarrow>
    drop_bit (32 - unat p) a = drop_bit (32 - unat p) (b :: u32)" (is "?L \<longleftrightarrow> ?R")
proof
  assume l: ?L
  show ?R
  proof (rule bit_word_eqI)
    fix n assume "n < LENGTH(32)"
    have "bit (and a (prefix_mask p)) (32 - unat p + n) = bit (and b (prefix_mask p)) (32 - unat p + n)"
      using l by simp
    then show "bit (drop_bit (32 - unat p) a) n = bit (drop_bit (32 - unat p) b) n"
      by (auto simp: bit_and_iff prefix_mask_bit [OF assms] bit_drop_bit_eq dest: bit_imp_le_length)
  qed
next
  assume r: ?R
  show ?L
  proof (rule bit_word_eqI)
    fix n assume "n < LENGTH(32)"
    have "bit (drop_bit (32 - unat p) a) (n - (32 - unat p)) =
        bit (drop_bit (32 - unat p) b) (n - (32 - unat p))"
      using r by simp
    then show "bit (and a (prefix_mask p)) n = bit (and b (prefix_mask p)) n"
      by (auto simp: bit_and_iff prefix_mask_bit [OF assms] bit_drop_bit_eq)
  qed
qed

text \<open>
  C8. A network configuration is accepted exactly when its prefix length is between 1 and 32, the
  guest and the gateway are different addresses that agree on the leading \<open>prefix_len\<close> bits, and
  at most 16 DNS servers are listed. The code tests agreement with a shifted mask, with a special
  case for a prefix of 32 because the shift there would overflow.
\<close>

theorem network_validate_spec:
  "network_validate n = Ok () \<longleftrightarrow>
    1 \<le> unat (gn_prefix_len n) \<and> unat (gn_prefix_len n) \<le> 32
    \<and> gn_guest_ip n \<noteq> gn_gateway n
    \<and> drop_bit (32 - unat (gn_prefix_len n)) (ipv4_u32 (gn_guest_ip n)) =
        drop_bit (32 - unat (gn_prefix_len n)) (ipv4_u32 (gn_gateway n))
    \<and> length (gn_dns n) \<le> 16"
  using prefix_mask_eq_iff [of "gn_prefix_len n" "ipv4_u32 (gn_guest_ip n)" "ipv4_u32 (gn_gateway n)"]
  by (auto simp: network_validate_def Let_def MAX_DNS_SERVERS_def word_le_nat_alt)

text \<open>
  C4. The boot configuration codec accepts exactly what it produces. Decoding the encoding of a
  configuration gives the configuration back, with network, disks and bootstrap command, and every
  accepted frame is the encoding of the decoded configuration, so a frame has no second spelling
  and a proof over the frame bytes is a proof over the configuration.
\<close>

theorem boot_decode_iff_encode:
  "boot_try_from bytes = Ok c \<longleftrightarrow> wf_boot c \<and> boot_to_bytes c = Ok bytes"
  by (rule boot_codec.dec_iff)

lemma reader_take_neq_Panic [simp]: "reader_take n r \<noteq> Err Panic"
  by (simp add: reader_take_def Let_def invalid_frame_def)

lemma take_neq_Panic [simp]:
  "take_u8 r \<noteq> Err Panic" "take_array n r \<noteq> Err Panic" "take_u16 r \<noteq> Err Panic"
  "take_string m r \<noteq> Err Panic" "reader_finish r \<noteq> Err Panic"
  by (auto simp: take_u8_def take_array_def take_u16_def take_string_def reader_finish_def
      invalid_frame_def invalid_value_def bindR_eq_Inl split: option.splits)

lemma read_n_neq_Panic: "(\<And>r. get r \<noteq> Err Panic) \<Longrightarrow> read_n n get r \<noteq> Err Panic"
  by (induction n arbitrary: r) (auto simp: bindR_eq_Inl)

lemma decoder_parts_neq_Panic [simp]:
  "read_network r \<noteq> Err Panic" "read_disks r \<noteq> Err Panic" "read_bootstrap r \<noteq> Err Panic"
  by (auto simp: read_network_def read_disks_def read_disk_def read_bootstrap_def network_new_def
      disk_new_def bootstrap_new_def Let_def bindR_eq_Inl read_n_neq_Panic invalid_frame_def
      invalid_value_def split: option.splits)

text \<open>
  Neither direction of the codec can panic. The encoder converts lengths with
  \<open>u8::try_from(..).expect\<close> and \<open>u16::try_from(..).expect\<close>; validation runs first and bounds every
  one of them, for any configuration the caller builds. The decoder fails with an error on any
  input.
\<close>

theorem boot_codec_no_panic:
  "boot_to_bytes c \<noteq> Err Panic \<and> boot_try_from bytes \<noteq> Err Panic"
proof
  show "boot_to_bytes c \<noteq> Err Panic"
    using boot_to_bytes_eq [of c]
    by (cases "boot_validate c")
      (auto simp: boot_to_bytes_def invalid_frame_def bindR_eq_Inl split: if_splits)
  show "boot_try_from bytes \<noteq> Err Panic"
    by (auto simp: boot_try_from_def boot_new_def boot_with_optional_bootstrap_def Let_def
        bindR_eq_Inl invalid_frame_def)
qed

text \<open>
  The size the encoder checks before it allocates is exact without a bootstrap command and one
  byte short with one: \<open>encoded_len\<close> does not count the presence byte of the bootstrap field.
\<close>

theorem boot_encoded_len_exact:
  assumes "boot_to_bytes c = Ok bytes" "wf_boot c"
  shows "length bytes = boot_encoded_len c + (if bc_bootstrap c = None then 0 else 1)"
  using assms by (auto simp: boot_to_bytes_Ok length_boot_bytes split: option.split)

definition sample_boot :: boot_config where
  "sample_boot =
    \<lparr>bc_version = 1, bc_vm_id = replicate 16 7, bc_capability = replicate 32 9,
     bc_host_nonce = replicate 32 3,
     bc_network = Some \<lparr>gn_guest_ip = [10, 77, 0, 10], gn_gateway = [10, 77, 0, 1],
                         gn_prefix_len = 24, gn_dns = [[1, 1, 1, 1]]\<rparr>,
     bc_disks = [\<lparr>gd_device_index = 1, gd_mount_path = ''/data'', gd_initialize = True\<rparr>],
     bc_bootstrap = Some \<lparr>bs_program = ''/bin/make'', bs_args = [''all''],
                           bs_artifact = ''/out''\<rparr>\<rparr>"

lemma sample_boot_wf: "wf_boot sample_boot"
  by code_simp

lemma sample_boot_valid: "boot_validate sample_boot = Ok ()"
  by (simp add: boot_validate_def sample_boot_def network_validate_def prefix_mask_def u32_max_def Let_def mask_eq_exp_minus_1
      PROTOCOL_VERSION_def protocol_limits
      disk_validate_def bootstrap_validate_def validate_bootstrap_path_def absolute_path_ok_def
      ipv4_u32_def be_val_def)

lemma sample_boot_encodes: "boot_to_bytes sample_boot = Ok (boot_bytes sample_boot)"
  by (simp add: boot_to_bytes_Ok sample_boot_wf sample_boot_valid length_boot_bytes)
    (simp add: sample_boot_def boot_encoded_len_def bootstrap_encoded_len_def protocol_limits)

theorem boot_encoded_len_exact_witness:
  "boot_to_bytes sample_boot = Ok (boot_bytes sample_boot) \<and> wf_boot sample_boot
   \<and> length (boot_bytes sample_boot) = boot_encoded_len sample_boot + 1"
  using boot_encoded_len_exact [OF sample_boot_encodes sample_boot_wf]
    sample_boot_encodes sample_boot_wf
  by (simp add: sample_boot_def)

end
