(* ===== verification/Auth.thy ===== *)
theory Auth
  imports BootConfig
begin

text \<open>
  The remaining envelopes of \<open>libs/protocol/src/auth.rs\<close>: the bootstrap result, the READY proof
  and the three frames of the connection handshake, with the HMAC transcripts they carry.

  SHA-256 comes from the \<open>sha2\<close> crate and the constant-time comparison from \<open>subtle\<close>. Both are a
  parameter \<open>cr :: crypto\<close> of every definition that uses them: \<open>sha256_digest\<close> maps the bytes given
  to \<open>update\<close>, in order, to the digest. Their documented behaviour is \<open>crypto_ok\<close>: digests have
  32 bytes and \<open>ct_eq\<close> decides equality. No statement assumes that the hash is injective: the ones
  about forged or replayed proofs name the two inputs that would have to collide.
\<close>

unbundle bit_operations_syntax

section \<open>HMAC\<close>

record crypto =
  sha256_digest :: "byte list \<Rightarrow> byte list"
  ct_eq :: "byte list \<Rightarrow> byte list \<Rightarrow> bool"

definition BLOCK_SIZE :: nat where "BLOCK_SIZE = 64"

text \<open>\<open>key_block[..n].copy_from_slice(bytes)\<close> on a zeroed block, for \<open>n \<le> BLOCK_SIZE\<close>.\<close>

definition hmac_key_block :: "crypto \<Rightarrow> byte list \<Rightarrow> byte list" where
  "hmac_key_block cr key =
    (let bytes = (if length key > BLOCK_SIZE then sha256_digest cr key else key) in
     bytes @ replicate (BLOCK_SIZE - length bytes) 0)"

text \<open>The loop body \<open>ipad[index] ^= key_block[index]; opad[index] ^= key_block[index]\<close>.\<close>

definition hmac_pads :: "byte list \<Rightarrow> byte list \<times> byte list" where
  "hmac_pads key_block =
    fold (\<lambda>index (ipad, opad).
            (ipad[index := ipad ! index XOR key_block ! index],
             opad[index := opad ! index XOR key_block ! index]))
      [0..<BLOCK_SIZE]
      (replicate BLOCK_SIZE 0x36, replicate BLOCK_SIZE 0x5c)"

definition hmac_sha256 :: "crypto \<Rightarrow> byte list \<Rightarrow> byte list list \<Rightarrow> byte list" where
  "hmac_sha256 cr key parts =
    (let (ipad, opad) = hmac_pads (hmac_key_block cr key);
         inner_digest = sha256_digest cr (fold (\<lambda>part state. state @ part) parts ipad) in
     sha256_digest cr (opad @ inner_digest))"

section \<open>Transcripts\<close>

definition BOOT_DOMAIN :: "byte list" where
  "BOOT_DOMAIN = str_bytes (''jyth/boot-ready/v1'' @ [CHR 0x00])"

definition CHALLENGE_DOMAIN :: "byte list" where
  "CHALLENGE_DOMAIN = str_bytes (''jyth/auth-challenge/v1'' @ [CHR 0x00])"

definition RESPONSE_DOMAIN :: "byte list" where
  "RESPONSE_DOMAIN = str_bytes (''jyth/auth-response/v1'' @ [CHR 0x00])"

definition COMMAND_AUTH_CONTEXT_V1 :: "byte list" where
  "COMMAND_AUTH_CONTEXT_V1 = str_bytes ''00000400-FACB-11E6-BD58-64006A7986D3''"

definition derive_auth_challenge ::
  "crypto \<Rightarrow> session_capability \<Rightarrow> byte list \<Rightarrow> u64 \<Rightarrow> byte list" where
  "derive_auth_challenge cr capability vm_id connection_counter =
    hmac_sha256 cr capability
      [CHALLENGE_DOMAIN, vm_id, le_bytes 8 (unat connection_counter)]"

text \<open>\<open>service_id.len() as u32\<close> truncates; \<open>le_bytes 4\<close> keeps the low four bytes.\<close>

definition compute_auth_mac ::
  "crypto \<Rightarrow> session_capability \<Rightarrow> byte list \<Rightarrow> byte list \<Rightarrow> byte list \<Rightarrow> byte list" where
  "compute_auth_mac cr capability vm_id service_id challenge =
    hmac_sha256 cr capability
      [RESPONSE_DOMAIN, le_bytes 2 (unat PROTOCOL_VERSION), vm_id,
       le_bytes 4 (length service_id), service_id, challenge]"

definition compute_ready_mac :: "crypto \<Rightarrow> session_capability \<Rightarrow> byte list \<Rightarrow> byte list" where
  "compute_ready_mac cr capability boot_frame =
    hmac_sha256 cr capability [BOOT_DOMAIN, boot_frame]"

definition constant_time_eq :: "crypto \<Rightarrow> byte list \<Rightarrow> byte list \<Rightarrow> bool" where
  "constant_time_eq cr left right = ct_eq cr left right"

section \<open>The bootstrap result\<close>

definition BOOTSTRAP_RESULT_TAG :: u8 where "BOOTSTRAP_RESULT_TAG = 0x12"
definition MAX_BOOTSTRAP_ARTIFACT_BYTES :: u64 where
  "MAX_BOOTSTRAP_ARTIFACT_BYTES = 256 * 1024 * 1024"

record bootstrap_result =
  br_version :: u16
  br_status :: u8
  br_exit_code :: "u32 option"
  br_artifact_len :: u64
  br_artifact_digest :: "byte list"

definition SUCCESS :: u8 where "SUCCESS = 0"
definition COMMAND_FAILED :: u8 where "COMMAND_FAILED = 1"
definition ARTIFACT_UNAVAILABLE :: u8 where "ARTIFACT_UNAVAILABLE = 2"

definition result_validate :: "bootstrap_result \<Rightarrow> unit protocol_result" where
  "result_validate r =
    (if br_version r \<noteq> PROTOCOL_VERSION then Err (Fail VersionMismatch)
     else if br_status r \<notin> {SUCCESS, COMMAND_FAILED, ARTIFACT_UNAVAILABLE} then invalid_value
     else if br_status r = SUCCESS then
       (if br_artifact_len r = 0 \<or> br_artifact_len r > MAX_BOOTSTRAP_ARTIFACT_BYTES then invalid_value
        else if br_exit_code r \<noteq> Some 0 then invalid_value
        else Ok ())
     else if br_artifact_len r \<noteq> 0 \<or> br_artifact_digest r \<noteq> replicate 32 0 then invalid_value
     else Ok ())"

definition result_success :: "u64 \<Rightarrow> byte list \<Rightarrow> bootstrap_result protocol_result" where
  "result_success artifact_len artifact_digest =
    (let result = \<lparr>br_version = PROTOCOL_VERSION, br_status = SUCCESS, br_exit_code = Some 0,
                   br_artifact_len = artifact_len, br_artifact_digest = artifact_digest\<rparr> in
     bindR (result_validate result) (\<lambda>_. Ok result))"

definition result_command_failed :: "u32 option \<Rightarrow> bootstrap_result" where
  "result_command_failed exit_code =
    \<lparr>br_version = PROTOCOL_VERSION, br_status = COMMAND_FAILED, br_exit_code = exit_code,
     br_artifact_len = 0, br_artifact_digest = replicate 32 0\<rparr>"

definition result_artifact_unavailable :: bootstrap_result where
  "result_artifact_unavailable =
    \<lparr>br_version = PROTOCOL_VERSION, br_status = ARTIFACT_UNAVAILABLE, br_exit_code = Some 0,
     br_artifact_len = 0, br_artifact_digest = replicate 32 0\<rparr>"

definition result_to_bytes :: "bootstrap_result \<Rightarrow> byte list protocol_result" where
  "result_to_bytes r =
    bindR (result_validate r) (\<lambda>_.
      let w = writer_with_capacity (1 + 2 + 1 + 4 + 8 + 32);
          w = push_u8 BOOTSTRAP_RESULT_TAG w;
          w = push_u16 (br_version r) w;
          w = push_u8 (br_status r) w;
          w = push_u32 (case br_exit_code r of None \<Rightarrow> - 1 | Some code \<Rightarrow> code) w;
          w = push_u64 (br_artifact_len r) w;
          w = push_bytes (br_artifact_digest r) w
      in writer_finish MAX_AUTH_FRAME w)"

definition result_try_from :: "byte list \<Rightarrow> bootstrap_result protocol_result" where
  "result_try_from bytes =
    (if length bytes > MAX_AUTH_FRAME then invalid_frame
     else
       bindR (take_u8 (reader_new bytes)) (\<lambda>(tag, r).
       if tag \<noteq> BOOTSTRAP_RESULT_TAG then invalid_frame
       else
         bindR (take_u16 r) (\<lambda>(version, r).
         bindR (take_u8 r) (\<lambda>(status, r).
         bindR (take_u32 r) (\<lambda>(encoded_exit_code, r).
         let exit_code = (if encoded_exit_code \<noteq> - 1 then Some encoded_exit_code else None) in
         bindR (take_u64 r) (\<lambda>(artifact_len, r).
         bindR (take_array 32 r) (\<lambda>(artifact_digest, r).
         let result = \<lparr>br_version = version, br_status = status, br_exit_code = exit_code,
                       br_artifact_len = artifact_len, br_artifact_digest = artifact_digest\<rparr> in
         bindR (reader_finish r) (\<lambda>_.
         bindR (result_validate result) (\<lambda>_. Ok result))))))))) "

section \<open>The READY proof\<close>

definition READY_TAG :: u8 where "READY_TAG = 0x11"

record ready_proof =
  rd_version :: u16
  rd_vm_id :: "byte list"
  rd_host_nonce :: "byte list"
  rd_mac :: "byte list"

definition ready_for_boot ::
  "crypto \<Rightarrow> session_capability \<Rightarrow> byte list \<Rightarrow> ready_proof protocol_result" where
  "ready_for_boot cr capability boot_frame =
    bindR (boot_try_from boot_frame) (\<lambda>boot.
    Ok \<lparr>rd_version = PROTOCOL_VERSION, rd_vm_id = bc_vm_id boot,
        rd_host_nonce = bc_host_nonce boot,
        rd_mac = compute_ready_mac cr capability boot_frame\<rparr>)"

definition ready_verify ::
  "crypto \<Rightarrow> session_capability \<Rightarrow> byte list \<Rightarrow> ready_proof \<Rightarrow> unit protocol_result" where
  "ready_verify cr capability boot_frame p =
    (if rd_version p \<noteq> PROTOCOL_VERSION then Err (Fail VersionMismatch)
     else bindR (boot_try_from boot_frame) (\<lambda>boot.
       if rd_vm_id p \<noteq> bc_vm_id boot \<or> rd_host_nonce p \<noteq> bc_host_nonce boot
       then Err (Fail Authentication)
       else
         let expected = compute_ready_mac cr capability boot_frame in
         if \<not> constant_time_eq cr expected (rd_mac p) then Err (Fail Authentication)
         else Ok ()))"

definition ready_to_bytes :: "ready_proof \<Rightarrow> byte list protocol_result" where
  "ready_to_bytes p =
    (if rd_version p \<noteq> PROTOCOL_VERSION then Err (Fail VersionMismatch)
     else
       let w = writer_with_capacity (1 + 2 + 16 + NONCE_LEN + MAC_LEN);
           w = push_u8 READY_TAG w;
           w = push_u16 (rd_version p) w;
           w = push_bytes (rd_vm_id p) w;
           w = push_bytes (rd_host_nonce p) w;
           w = push_bytes (rd_mac p) w
       in writer_finish MAX_AUTH_FRAME w)"

definition ready_try_from :: "byte list \<Rightarrow> ready_proof protocol_result" where
  "ready_try_from bytes =
    (if length bytes > MAX_AUTH_FRAME then invalid_frame
     else
       bindR (take_u8 (reader_new bytes)) (\<lambda>(tag, r).
       if tag \<noteq> READY_TAG then invalid_frame
       else
         bindR (take_u16 r) (\<lambda>(version, r).
         if version \<noteq> PROTOCOL_VERSION then Err (Fail VersionMismatch)
         else
           bindR (take_array 16 r) (\<lambda>(vm_id, r).
           bindR (take_array NONCE_LEN r) (\<lambda>(host_nonce, r).
           bindR (take_array MAC_LEN r) (\<lambda>(mac, r).
           bindR (reader_finish r) (\<lambda>_.
           Ok \<lparr>rd_version = version, rd_vm_id = vm_id, rd_host_nonce = host_nonce,
               rd_mac = mac\<rparr>)))))))"

section \<open>The handshake frames\<close>

definition AUTH_CHALLENGE_TAG :: u8 where "AUTH_CHALLENGE_TAG = 0x20"
definition AUTH_RESPONSE_TAG :: u8 where "AUTH_RESPONSE_TAG = 0x21"
definition AUTH_ACCEPTED_TAG :: u8 where "AUTH_ACCEPTED_TAG = 0x22"

record auth_challenge =
  ac_version :: u16
  ac_challenge :: "byte list"

record auth_response =
  ar_version :: u16
  ar_mac :: "byte list"

record auth_accepted =
  aa_version :: u16

definition challenge_to_bytes :: "auth_challenge \<Rightarrow> byte list protocol_result" where
  "challenge_to_bytes m =
    (if ac_version m \<noteq> PROTOCOL_VERSION then Err (Fail VersionMismatch)
     else
       let w = writer_with_capacity (1 + 2 + MAC_LEN);
           w = push_u8 AUTH_CHALLENGE_TAG w;
           w = push_u16 (ac_version m) w;
           w = push_bytes (ac_challenge m) w
       in writer_finish MAX_AUTH_FRAME w)"

definition challenge_try_from :: "byte list \<Rightarrow> auth_challenge protocol_result" where
  "challenge_try_from bytes =
    (if length bytes > MAX_AUTH_FRAME then invalid_frame
     else
       bindR (take_u8 (reader_new bytes)) (\<lambda>(tag, r).
       if tag \<noteq> AUTH_CHALLENGE_TAG then invalid_frame
       else
         bindR (take_u16 r) (\<lambda>(version, r).
         if version \<noteq> PROTOCOL_VERSION then Err (Fail VersionMismatch)
         else
           bindR (take_array MAC_LEN r) (\<lambda>(challenge, r).
           bindR (reader_finish r) (\<lambda>_.
           Ok \<lparr>ac_version = version, ac_challenge = challenge\<rparr>)))))"

definition response_for_challenge ::
  "crypto \<Rightarrow> session_capability \<Rightarrow> byte list \<Rightarrow> auth_challenge \<Rightarrow> auth_response" where
  "response_for_challenge cr capability vm_id challenge =
    \<lparr>ar_version = PROTOCOL_VERSION,
     ar_mac = compute_auth_mac cr capability vm_id COMMAND_AUTH_CONTEXT_V1
                (ac_challenge challenge)\<rparr>"

definition response_to_bytes :: "auth_response \<Rightarrow> byte list protocol_result" where
  "response_to_bytes m =
    (if ar_version m \<noteq> PROTOCOL_VERSION then Err (Fail VersionMismatch)
     else
       let w = writer_with_capacity (1 + 2 + MAC_LEN);
           w = push_u8 AUTH_RESPONSE_TAG w;
           w = push_u16 (ar_version m) w;
           w = push_bytes (ar_mac m) w
       in writer_finish MAX_AUTH_FRAME w)"

definition response_try_from :: "byte list \<Rightarrow> auth_response protocol_result" where
  "response_try_from bytes =
    (if length bytes > MAX_AUTH_FRAME then invalid_frame
     else
       bindR (take_u8 (reader_new bytes)) (\<lambda>(tag, r).
       if tag \<noteq> AUTH_RESPONSE_TAG then invalid_frame
       else
         bindR (take_u16 r) (\<lambda>(version, r).
         if version \<noteq> PROTOCOL_VERSION then Err (Fail VersionMismatch)
         else
           bindR (take_array MAC_LEN r) (\<lambda>(mac, r).
           bindR (reader_finish r) (\<lambda>_.
           Ok \<lparr>ar_version = version, ar_mac = mac\<rparr>)))))"

definition accepted_to_bytes :: "auth_accepted \<Rightarrow> byte list protocol_result" where
  "accepted_to_bytes m =
    (if aa_version m \<noteq> PROTOCOL_VERSION then Err (Fail VersionMismatch)
     else
       let w = writer_with_capacity (1 + 2);
           w = push_u8 AUTH_ACCEPTED_TAG w;
           w = push_u16 (aa_version m) w
       in writer_finish MAX_AUTH_FRAME w)"

definition accepted_try_from :: "byte list \<Rightarrow> auth_accepted protocol_result" where
  "accepted_try_from bytes =
    (if length bytes > MAX_AUTH_FRAME then invalid_frame
     else
       bindR (take_u8 (reader_new bytes)) (\<lambda>(tag, r).
       if tag \<noteq> AUTH_ACCEPTED_TAG then invalid_frame
       else
         bindR (take_u16 r) (\<lambda>(version, r).
         if version \<noteq> PROTOCOL_VERSION then Err (Fail VersionMismatch)
         else
           bindR (reader_finish r) (\<lambda>_.
           Ok \<lparr>aa_version = version\<rparr>))))"

section \<open>The primitives\<close>

definition crypto_ok :: "crypto \<Rightarrow> bool" where
  "crypto_ok cr \<longleftrightarrow> (\<forall>m. length (sha256_digest cr m) = 32) \<and> (\<forall>l r. ct_eq cr l r = (l = r))"

lemma crypto_okD:
  "crypto_ok cr \<Longrightarrow> length (sha256_digest cr m) = 32"
  "crypto_ok cr \<Longrightarrow> constant_time_eq cr l r \<longleftrightarrow> l = r"
  by (simp_all add: crypto_ok_def constant_time_eq_def)

text \<open>HMAC as RFC 2104 defines it over a block-sized key.\<close>

definition rfc_hmac :: "crypto \<Rightarrow> byte list \<Rightarrow> byte list \<Rightarrow> byte list" where
  "rfc_hmac cr key msg =
    (let k = hmac_key_block cr key in
     sha256_digest cr (map (\<lambda>b. 0x5c XOR b) k
       @ sha256_digest cr (map (\<lambda>b. 0x36 XOR b) k @ msg)))"

lemma length_hmac_key_block:
  "crypto_ok cr \<Longrightarrow> length (hmac_key_block cr key) = BLOCK_SIZE"
  by (simp add: hmac_key_block_def Let_def crypto_okD BLOCK_SIZE_def)

lemma xor_loop:
  assumes "n \<le> length xs" "length xs = length ks" "length ys = length ks"
  shows "fold (\<lambda>index (ipad, opad).
            (ipad[index := ipad ! index XOR ks ! index], opad[index := opad ! index XOR ks ! index]))
      [0..<n] (xs, ys) =
    (map2 (XOR) (take n xs) (take n ks) @ drop n xs, map2 (XOR) (take n ys) (take n ks) @ drop n ys)"
  using assms
proof (induction n)
  case 0
  then show ?case by simp
next
  case (Suc n)
  then show ?case
    by (simp add: take_Suc_conv_app_nth list_update_append nth_append Cons_nth_drop_Suc [symmetric])
qed

lemma hmac_pads_eq:
  assumes "length k = BLOCK_SIZE"
  shows "hmac_pads k = (map (\<lambda>b. 0x36 XOR b) k, map (\<lambda>b. 0x5c XOR b) k)"
proof -
  have "map2 (XOR) (replicate BLOCK_SIZE c) k = map (\<lambda>b. c XOR b) k" for c :: byte
    using assms by (simp add: zip_replicate1 comp_def)
  then show ?thesis
    using assms by (simp add: hmac_pads_def xor_loop)
qed

lemma fold_append_concat: "fold (\<lambda>part state. state @ part) parts s = s @ concat parts"
  by (induction parts arbitrary: s) auto

lemma hmac_sha256_eq:
  "crypto_ok cr \<Longrightarrow> hmac_sha256 cr key parts = rfc_hmac cr key (concat parts)"
  by (simp add: hmac_sha256_def rfc_hmac_def hmac_pads_eq length_hmac_key_block fold_append_concat
      Let_def)

lemma length_hmac_sha256: "crypto_ok cr \<Longrightarrow> length (hmac_sha256 cr key parts) = MAC_LEN"
  by (simp add: hmac_sha256_eq rfc_hmac_def Let_def crypto_okD MAC_LEN_def)

text \<open>The pair of inputs on which the hash would have to collide for two messages to share a MAC.\<close>

definition collide :: "crypto \<Rightarrow> byte list \<Rightarrow> byte list \<Rightarrow> bool" where
  "collide cr x y \<longleftrightarrow> x \<noteq> y \<and> sha256_digest cr x = sha256_digest cr y"

definition hmac_collision :: "crypto \<Rightarrow> byte list \<Rightarrow> byte list \<Rightarrow> byte list \<Rightarrow> bool" where
  "hmac_collision cr key m m' \<longleftrightarrow>
    (let k = hmac_key_block cr key;
         inner = (\<lambda>m. map (\<lambda>b. 0x36 XOR b) k @ m);
         outer = (\<lambda>m. map (\<lambda>b. 0x5c XOR b) k @ sha256_digest cr (inner m)) in
     collide cr (inner m) (inner m') \<or> collide cr (outer m) (outer m'))"

lemma rfc_hmac_binding:
  "rfc_hmac cr key m = rfc_hmac cr key m' \<longleftrightarrow> m = m' \<or> hmac_collision cr key m m'"
  by (auto simp: rfc_hmac_def hmac_collision_def collide_def Let_def)

section \<open>The transcripts are injective and separated\<close>

definition challenge_transcript :: "byte list \<Rightarrow> u64 \<Rightarrow> byte list" where
  "challenge_transcript vm_id counter = CHALLENGE_DOMAIN @ vm_id @ le_bytes 8 (unat counter)"

definition response_transcript :: "byte list \<Rightarrow> byte list \<Rightarrow> byte list \<Rightarrow> byte list" where
  "response_transcript vm_id service_id challenge =
    RESPONSE_DOMAIN @ le_bytes 2 (unat PROTOCOL_VERSION) @ vm_id
    @ le_bytes 4 (length service_id) @ service_id @ challenge"

definition ready_transcript :: "byte list \<Rightarrow> byte list" where
  "ready_transcript boot_frame = BOOT_DOMAIN @ boot_frame"

lemmas transcript_defs = challenge_transcript_def response_transcript_def ready_transcript_def

lemma mac_transcripts:
  assumes "crypto_ok cr"
  shows "derive_auth_challenge cr k vm n = rfc_hmac cr k (challenge_transcript vm n)"
    and "compute_auth_mac cr k vm svc ch = rfc_hmac cr k (response_transcript vm svc ch)"
    and "compute_ready_mac cr k frame = rfc_hmac cr k (ready_transcript frame)"
  using assms
  by (simp_all add: derive_auth_challenge_def compute_auth_mac_def compute_ready_mac_def
      hmac_sha256_eq transcript_defs)

lemma length_macs:
  assumes "crypto_ok cr"
  shows "length (derive_auth_challenge cr k vm n) = MAC_LEN"
    "length (compute_auth_mac cr k vm svc ch) = MAC_LEN"
    "length (compute_ready_mac cr k frame) = MAC_LEN"
  using assms
  by (simp_all add: derive_auth_challenge_def compute_auth_mac_def compute_ready_mac_def
      length_hmac_sha256)

lemma challenge_transcript_inject:
  "length vm = length vm' \<Longrightarrow>
   challenge_transcript vm n = challenge_transcript vm' n' \<longleftrightarrow> vm = vm' \<and> n = n'"
  by (auto simp: challenge_transcript_def dest!: le_bytes_inj simp: word_unat_eq_iff)

lemma response_transcript_inject:
  "length vm = length vm' \<Longrightarrow> length ch = length ch' \<Longrightarrow>
   response_transcript vm svc ch = response_transcript vm' svc' ch' \<longleftrightarrow>
     vm = vm' \<and> svc = svc' \<and> ch = ch'"
  by (auto simp: response_transcript_def)

lemma ready_transcript_inject: "ready_transcript f = ready_transcript f' \<longleftrightarrow> f = f'"
  by (simp add: ready_transcript_def)

lemma transcripts_separated:
  "challenge_transcript vm n \<noteq> response_transcript vm' svc ch"
  "challenge_transcript vm n \<noteq> ready_transcript frame"
  "response_transcript vm' svc ch \<noteq> ready_transcript frame"
  by (simp_all add: transcript_defs CHALLENGE_DOMAIN_def RESPONSE_DOMAIN_def BOOT_DOMAIN_def
      str_bytes_def)

section \<open>The codecs\<close>

lemmas auth_limits = MAX_AUTH_FRAME_def MAC_LEN_def NONCE_LEN_def PROTOCOL_VERSION_def usize_max_def

definition wf_result :: "bootstrap_result \<Rightarrow> bool" where
  "wf_result r \<longleftrightarrow> length (br_artifact_digest r) = 32 \<and> br_exit_code r \<noteq> Some (- 1)"

definition wf_ready :: "ready_proof \<Rightarrow> bool" where
  "wf_ready p \<longleftrightarrow> length (rd_vm_id p) = 16 \<and> length (rd_host_nonce p) = NONCE_LEN
     \<and> length (rd_mac p) = MAC_LEN"

definition wf_challenge :: "auth_challenge \<Rightarrow> bool" where
  "wf_challenge m \<longleftrightarrow> length (ac_challenge m) = MAC_LEN"

definition wf_response :: "auth_response \<Rightarrow> bool" where
  "wf_response m \<longleftrightarrow> length (ar_mac m) = MAC_LEN"

interpretation ready_codec: wire_codec ready_to_bytes ready_try_from wf_ready
proof
  fix p bs
  show "wf_ready p \<Longrightarrow> ready_to_bytes p = Ok bs \<Longrightarrow> ready_try_from bs = Ok p"
    by (auto simp: ready_to_bytes_def ready_try_from_def wf_ready_def writer_finish_def
        reader_new_at wire_simps auth_limits split: if_splits)
  show "ready_try_from bs = Ok p \<Longrightarrow> wf_ready p \<and> ready_to_bytes p = Ok bs"
    by (auto simp: ready_to_bytes_def ready_try_from_def wf_ready_def writer_finish_def
        reader_new_at wire_inv auth_limits split: if_splits)
qed

interpretation challenge_codec: wire_codec challenge_to_bytes challenge_try_from wf_challenge
proof
  fix m bs
  show "wf_challenge m \<Longrightarrow> challenge_to_bytes m = Ok bs \<Longrightarrow> challenge_try_from bs = Ok m"
    by (auto simp: challenge_to_bytes_def challenge_try_from_def wf_challenge_def writer_finish_def
        reader_new_at wire_simps auth_limits split: if_splits)
  show "challenge_try_from bs = Ok m \<Longrightarrow> wf_challenge m \<and> challenge_to_bytes m = Ok bs"
    by (auto simp: challenge_to_bytes_def challenge_try_from_def wf_challenge_def writer_finish_def
        reader_new_at wire_inv auth_limits split: if_splits)
qed

interpretation response_codec: wire_codec response_to_bytes response_try_from wf_response
proof
  fix m bs
  show "wf_response m \<Longrightarrow> response_to_bytes m = Ok bs \<Longrightarrow> response_try_from bs = Ok m"
    by (auto simp: response_to_bytes_def response_try_from_def wf_response_def writer_finish_def
        reader_new_at wire_simps auth_limits split: if_splits)
  show "response_try_from bs = Ok m \<Longrightarrow> wf_response m \<and> response_to_bytes m = Ok bs"
    by (auto simp: response_to_bytes_def response_try_from_def wf_response_def writer_finish_def
        reader_new_at wire_inv auth_limits split: if_splits)
qed

interpretation accepted_codec: wire_codec accepted_to_bytes accepted_try_from "\<lambda>_. True"
proof
  fix m bs
  show "accepted_to_bytes m = Ok bs \<Longrightarrow> accepted_try_from bs = Ok m"
    by (auto simp: accepted_to_bytes_def accepted_try_from_def writer_finish_def
        reader_new_at wire_simps auth_limits split: if_splits)
  show "accepted_try_from bs = Ok m \<Longrightarrow> True \<and> accepted_to_bytes m = Ok bs"
    by (auto simp: accepted_to_bytes_def accepted_try_from_def writer_finish_def
        reader_new_at wire_inv auth_limits split: if_splits)
qed

interpretation result_codec: wire_codec result_to_bytes result_try_from wf_result
proof
  fix r bs
  show "wf_result r \<Longrightarrow> result_to_bytes r = Ok bs \<Longrightarrow> result_try_from bs = Ok r"
    by (cases r; cases "br_exit_code r") (auto simp: result_to_bytes_def result_try_from_def wf_result_def writer_finish_def Let_def
        reader_new_at wire_simps bindR_eq_Inr auth_limits split: if_splits)
  show "result_try_from bs = Ok r \<Longrightarrow> wf_result r \<and> result_to_bytes r = Ok bs"
    by (auto simp: result_to_bytes_def result_try_from_def wf_result_def writer_finish_def Let_def
        reader_new_at wire_inv bindR_eq_Inr auth_limits split: if_splits)
qed

section \<open>Properties of the proofs and their envelopes\<close>

text \<open>A concrete pair of primitives, with which the hypotheses below are instantiated.\<close>

definition sample_crypto :: crypto where
  "sample_crypto = \<lparr>sha256_digest = (\<lambda>m. replicate 31 0 @ [sum_list m]), ct_eq = (=)\<rparr>"

lemma sample_crypto_ok: "crypto_ok sample_crypto"
  by (simp add: crypto_ok_def sample_crypto_def)

text \<open>
  C6. The hand-written \<open>hmac_sha256\<close> is HMAC as RFC 2104 defines it: for every key, short or longer
  than a block, and every list of parts, its result is the nested hash with the two pads applied to
  the block-sized key and the parts concatenated in order.
\<close>

theorem hmac_sha256_is_rfc2104:
  assumes "crypto_ok cr"
  shows "hmac_sha256 cr key parts =
    (let k = (if length key > 64 then sha256_digest cr key else key);
         k0 = k @ replicate (64 - length k) 0 in
     sha256_digest cr (map (\<lambda>b. 0x5c XOR b) k0
       @ sha256_digest cr (map (\<lambda>b. 0x36 XOR b) k0 @ concat parts)))"
  using hmac_sha256_eq [OF assms, of key parts]
  by (simp add: rfc_hmac_def hmac_key_block_def BLOCK_SIZE_def Let_def)

theorem hmac_sha256_is_rfc2104_witness:
  "crypto_ok sample_crypto \<and> hmac_sha256 sample_crypto [1, 2] [[3], [4, 5]] = replicate 31 0 @ [0x8E]"
  using hmac_sha256_is_rfc2104 [OF sample_crypto_ok, of "[1, 2]" "[[3], [4, 5]]"] sample_crypto_ok
  by (simp add: sample_crypto_def sum_list_replicate)

text \<open>
  A READY proof made for a boot frame verifies against it, and a proof verifies for a frame
  exactly when the frame decodes, the proof echoes its VM identity and nonce, and the MAC is the
  one over the exact frame bytes under the shared capability.
\<close>

theorem ready_verify_iff:
  assumes "crypto_ok cr"
  shows "ready_verify cr cap frame p = Ok () \<longleftrightarrow>
    rd_version p = PROTOCOL_VERSION \<and> ready_for_boot cr cap frame = Ok p"
  using assms
  by (cases p) (auto simp: ready_verify_def ready_for_boot_def bindR_eq_Inr crypto_okD Let_def
      split: if_splits)

lemma sample_boot_decodes: "boot_try_from (boot_bytes sample_boot) = Ok sample_boot"
  using boot_codec.dec_enc [OF sample_boot_wf sample_boot_encodes] .

theorem ready_verify_iff_witness:
  "crypto_ok sample_crypto \<and>
   ready_verify sample_crypto (replicate 32 9) (boot_bytes sample_boot)
     \<lparr>rd_version = PROTOCOL_VERSION, rd_vm_id = bc_vm_id sample_boot,
      rd_host_nonce = bc_host_nonce sample_boot,
      rd_mac = compute_ready_mac sample_crypto (replicate 32 9) (boot_bytes sample_boot)\<rparr> = Ok ()"
  unfolding ready_verify_iff [OF sample_crypto_ok]
  by (simp add: sample_crypto_ok ready_for_boot_def sample_boot_decodes)

text \<open>
  C5. Proofs are bound to what they prove. If two MACs of the protocol under one capability are
  equal, then they are MACs of the same kind over the same VM identity, service, challenge, counter
  or boot frame, unless SHA-256 collides on the two HMAC messages the statement names. In
  particular the three domain separators keep a challenge, a response and a READY proof apart.
\<close>

theorem macs_bind_their_inputs:
  assumes "crypto_ok cr" "length vm = 16" "length vm' = 16" "length ch = MAC_LEN" "length ch' = MAC_LEN"
  shows "(derive_auth_challenge cr k vm n = derive_auth_challenge cr k vm' n' \<longleftrightarrow>
      vm = vm' \<and> n = n'
      \<or> hmac_collision cr k (challenge_transcript vm n) (challenge_transcript vm' n'))
    \<and> (compute_auth_mac cr k vm svc ch = compute_auth_mac cr k vm' svc' ch' \<longleftrightarrow>
      vm = vm' \<and> svc = svc' \<and> ch = ch'
      \<or> hmac_collision cr k (response_transcript vm svc ch) (response_transcript vm' svc' ch'))
    \<and> (compute_ready_mac cr k frame = compute_ready_mac cr k frame' \<longleftrightarrow>
      frame = frame' \<or> hmac_collision cr k (ready_transcript frame) (ready_transcript frame'))
    \<and> (derive_auth_challenge cr k vm n = compute_auth_mac cr k vm' svc ch \<longleftrightarrow>
      hmac_collision cr k (challenge_transcript vm n) (response_transcript vm' svc ch))
    \<and> (compute_auth_mac cr k vm svc ch = compute_ready_mac cr k frame \<longleftrightarrow>
      hmac_collision cr k (response_transcript vm svc ch) (ready_transcript frame))
    \<and> (derive_auth_challenge cr k vm n = compute_ready_mac cr k frame \<longleftrightarrow>
      hmac_collision cr k (challenge_transcript vm n) (ready_transcript frame))"
  using assms
  by (simp add: mac_transcripts rfc_hmac_binding transcripts_separated ready_transcript_inject
      challenge_transcript_inject response_transcript_inject)

theorem macs_bind_their_inputs_witness:
  "crypto_ok sample_crypto \<and>
   derive_auth_challenge sample_crypto [1] (replicate 16 0) 1 \<noteq>
   derive_auth_challenge sample_crypto [1] (replicate 16 0) 2 \<and>
   \<not> hmac_collision sample_crypto [1] (challenge_transcript (replicate 16 0) 1)
       (challenge_transcript (replicate 16 0) 2)"
proof -
  have "derive_auth_challenge sample_crypto [1] (replicate 16 0) 1 \<noteq>
      derive_auth_challenge sample_crypto [1] (replicate 16 0) 2" by code_simp
  then show ?thesis
    using macs_bind_their_inputs [of sample_crypto "replicate 16 0" "replicate 16 0"
        "replicate 32 0" "replicate 32 0" "[1]" 1 2] sample_crypto_ok
    by (simp add: MAC_LEN_def)
qed

text \<open>
  C7. The four proof envelopes decode exactly what they encode: for READY, challenge, response and
  acceptance, a frame is accepted if and only if it is the encoding of the decoded message, so no
  envelope has a second spelling and trailing or missing bytes are rejected.
\<close>

theorem envelope_codecs_exact:
  "(ready_try_from bs = Ok p \<longleftrightarrow> wf_ready p \<and> ready_to_bytes p = Ok bs)
   \<and> (challenge_try_from bs = Ok ch \<longleftrightarrow> wf_challenge ch \<and> challenge_to_bytes ch = Ok bs)
   \<and> (response_try_from bs = Ok resp \<longleftrightarrow> wf_response resp \<and> response_to_bytes resp = Ok bs)
   \<and> (accepted_try_from bs = Ok acc \<longleftrightarrow> accepted_to_bytes acc = Ok bs)"
  using accepted_codec.dec_iff [of bs acc]
  by (simp add: ready_codec.dec_iff challenge_codec.dec_iff response_codec.dec_iff)

text \<open>
  C9. The bootstrap result round-trips except for one value. A frame decodes to a result exactly
  when the result encodes to it and its exit code is not the sentinel \<open>u32::MAX\<close>; a failed command
  with that exit code is encoded like one without an exit code, so it arrives without it.
\<close>

theorem bootstrap_result_codec:
  "(result_try_from bs = Ok r \<longleftrightarrow>
     length (br_artifact_digest r) = 32 \<and> br_exit_code r \<noteq> Some (- 1) \<and> result_to_bytes r = Ok bs)
   \<and> (\<exists>frame. result_to_bytes (result_command_failed (Some (- 1))) = Ok frame
        \<and> result_try_from frame = Ok (result_command_failed None))"
proof
  show "result_try_from bs = Ok r \<longleftrightarrow>
     length (br_artifact_digest r) = 32 \<and> br_exit_code r \<noteq> Some (- 1) \<and> result_to_bytes r = Ok bs"
    by (simp add: result_codec.dec_iff wf_result_def)
  have ok: "result_validate (result_command_failed e) = Ok ()" for e
    by (simp add: result_validate_def result_command_failed_def SUCCESS_def COMMAND_FAILED_def)
  have "result_to_bytes (result_command_failed (Some (- 1))) =
      result_to_bytes (result_command_failed None)"
    using ok by (simp add: result_to_bytes_def) (simp add: result_command_failed_def)
  moreover have "\<exists>frame. result_to_bytes (result_command_failed None) = Ok frame"
    using ok by (simp add: result_to_bytes_def writer_finish_def)
      (simp add: result_command_failed_def MAX_AUTH_FRAME_def)
  moreover have "wf_result (result_command_failed None)"
    by (simp add: wf_result_def result_command_failed_def)
  ultimately show "\<exists>frame. result_to_bytes (result_command_failed (Some (- 1))) = Ok frame
        \<and> result_try_from frame = Ok (result_command_failed None)"
    using result_codec.dec_enc by metis
qed

end
