(* ===== verification/Transport.thy ===== *)
theory Transport
  imports BootConfig
begin

text \<open>
  The length-prefixed frame transport: \<^verbatim>\<open>libs/com/src/framing.rs\<close> with its blocking and Tokio
  adapters (\<^verbatim>\<open>sync.rs\<close>, \<^verbatim>\<open>async.rs\<close>) on the host, and the frame functions of
  \<^verbatim>\<open>libs/init/src/bus/dispatch.rs\<close> in the guest.

  A socket is the part of a TCP connection one side sees: the bytes the peer will send and what
  comes after them, the bytes written so far and how many more will be taken, and the options the
  code sets. Time is not modelled: a peer that does not answer is a stream that \<open>Stalls\<close>, on which
  a call without a timeout \<open>Blocks\<close> and a call with a timeout fails.
\<close>

section \<open>Socket actions\<close>

datatype io_error_kind =
    UnexpectedEof | TimedOut | WouldBlock | ConnectionRefused | HostUnreachable
  | NetworkUnreachable | OtherKind

datatype 'e stop = Fails 'e | Blocks

type_synonym ('s, 'e, 'a) act = "'s \<Rightarrow> ('e stop + 'a) \<times> 's"

definition retA :: "'a \<Rightarrow> ('s, 'e, 'a) act" where
  "retA a s = (Inr a, s)"

definition failA :: "'e \<Rightarrow> ('s, 'e, 'a) act" where
  "failA e s = (Inl (Fails e), s)"

definition bindA :: "('s, 'e, 'a) act \<Rightarrow> ('a \<Rightarrow> ('s, 'e, 'b) act) \<Rightarrow> ('s, 'e, 'b) act" where
  "bindA m f s = (case m s of (Inl e, s') \<Rightarrow> (Inl e, s') | (Inr a, s') \<Rightarrow> f a s')"

definition mapErrA :: "('e \<Rightarrow> 'f) \<Rightarrow> ('s, 'e, 'a) act \<Rightarrow> ('s, 'f, 'a) act" where
  "mapErrA f m s =
    (case m s of
       (Inl (Fails e), s') \<Rightarrow> (Inl (Fails (f e)), s')
     | (Inl Blocks, s') \<Rightarrow> (Inl Blocks, s')
     | (Inr a, s') \<Rightarrow> (Inr a, s'))"

text \<open>\<open>tokio::time::timeout\<close> and the \<open>race\<close> with a timer: a call that would not return fails.\<close>

definition deadlineA :: "'e \<Rightarrow> ('s, 'e, 'a) act \<Rightarrow> ('s, 'e, 'a) act" where
  "deadlineA e m s = (case m s of (Inl Blocks, s') \<Rightarrow> (Inl (Fails e), s') | r \<Rightarrow> r)"

definition liftA :: "('f \<Rightarrow> 'e) \<Rightarrow> 'f + 'a \<Rightarrow> ('s, 'e, 'a) act" where
  "liftA f r s = (case r of Inl e \<Rightarrow> (Inl (Fails (f e)), s) | Inr a \<Rightarrow> (Inr a, s))"

section \<open>Sockets\<close>

datatype stream_end = Closes | Breaks io_error_kind | Stalls

record socket =
  so_in :: "byte list"
  so_in_end :: stream_end
  so_out :: "byte list"
  so_room :: nat
  so_out_end :: stream_end
  so_read_timeout :: "nat option"
  so_write_timeout :: "nat option"
  so_nonblocking :: bool
  so_ctl_err :: "io_error_kind option"
  so_unix :: bool
  so_heap :: nat

definition sock_ctl :: "(socket \<Rightarrow> socket) \<Rightarrow> (socket, io_error_kind, unit) act" where
  "sock_ctl upd s =
    (case so_ctl_err s of Some e \<Rightarrow> (Inl (Fails e), s) | None \<Rightarrow> (Inr (), upd s))"

abbreviation set_read_timeout :: "nat option \<Rightarrow> (socket, io_error_kind, unit) act" where
  "set_read_timeout d \<equiv> sock_ctl (so_read_timeout_update (\<lambda>_. d))"

abbreviation set_write_timeout :: "nat option \<Rightarrow> (socket, io_error_kind, unit) act" where
  "set_write_timeout d \<equiv> sock_ctl (so_write_timeout_update (\<lambda>_. d))"

abbreviation set_nonblocking :: "bool \<Rightarrow> (socket, io_error_kind, unit) act" where
  "set_nonblocking b \<equiv> sock_ctl (so_nonblocking_update (\<lambda>_. b))"

text \<open>What a blocking call meets at the end of a stream, given the timeout that applies to it.\<close>

definition stalled :: "nat option \<Rightarrow> socket \<Rightarrow> io_error_kind stop" where
  "stalled timeout s =
    (if so_nonblocking s then Fails WouldBlock
     else case timeout of None \<Rightarrow> Blocks
                        | Some _ \<Rightarrow> Fails (if so_unix s then WouldBlock else TimedOut))"

definition read_stop :: "io_error_kind stop \<Rightarrow> socket \<Rightarrow> io_error_kind stop" where
  "read_stop stall s =
    (case so_in_end s of Closes \<Rightarrow> Fails UnexpectedEof | Breaks k \<Rightarrow> Fails k | Stalls \<Rightarrow> stall)"

definition write_stop :: "io_error_kind stop \<Rightarrow> socket \<Rightarrow> io_error_kind stop" where
  "write_stop stall s =
    (case so_out_end s of Closes \<Rightarrow> Fails OtherKind | Breaks k \<Rightarrow> Fails k | Stalls \<Rightarrow> stall)"

definition read_exact_with ::
  "(socket \<Rightarrow> io_error_kind stop) \<Rightarrow> nat \<Rightarrow> (socket, io_error_kind, byte list) act" where
  "read_exact_with stall n s =
    (if n \<le> length (so_in s)
     then (Inr (take n (so_in s)), s\<lparr>so_in := drop n (so_in s)\<rparr>)
     else (Inl (read_stop (stall s) s), s\<lparr>so_in := []\<rparr>))"

definition write_all_with ::
  "(socket \<Rightarrow> io_error_kind stop) \<Rightarrow> byte list \<Rightarrow> (socket, io_error_kind, unit) act" where
  "write_all_with stall data s =
    (if length data \<le> so_room s
     then (Inr (), s\<lparr>so_out := so_out s @ data, so_room := so_room s - length data\<rparr>)
     else (Inl (write_stop (stall s) s),
           s\<lparr>so_out := so_out s @ take (so_room s) data, so_room := 0\<rparr>))"

text \<open>The blocking calls of \<open>std::net::TcpStream\<close> and the calls that await on a Tokio or smol stream.\<close>

definition std_read_exact :: "nat \<Rightarrow> (socket, io_error_kind, byte list) act" where
  "std_read_exact = read_exact_with (\<lambda>s. stalled (so_read_timeout s) s)"

definition std_write_all :: "byte list \<Rightarrow> (socket, io_error_kind, unit) act" where
  "std_write_all = write_all_with (\<lambda>s. stalled (so_write_timeout s) s)"

definition async_read_exact :: "nat \<Rightarrow> (socket, io_error_kind, byte list) act" where
  "async_read_exact = read_exact_with (\<lambda>_. Blocks)"

definition async_write_all :: "byte list \<Rightarrow> (socket, io_error_kind, unit) act" where
  "async_write_all = write_all_with (\<lambda>_. Blocks)"

section \<open>The frame codec of the host\<close>

datatype transport_error =
    TConnect | TSerialize | TDeserialize | TWriteFrame | TReadFrame | TFrameTooLarge
  | TFrameAllocation | TFrameTruncated | TAuthenticationFailed | TTimedOut | TStreamConversion
  | TBindExpectedProcessBound

text \<open>
  The traits \<open>SyncFrameIo\<close> and \<open>AsyncFrameIo\<close>, as the dictionary of their methods.
  \<open>fi_reserve\<close> is whether the allocator can reserve that many bytes.
\<close>

record 's frame_io =
  fi_read :: "nat \<Rightarrow> ('s, transport_error, byte list) act"
  fi_write :: "byte list \<Rightarrow> ('s, transport_error, unit) act"
  fi_flush :: "('s, transport_error, unit) act"
  fi_reserve :: "'s \<Rightarrow> nat \<Rightarrow> bool"

definition validate_frame_limit :: "nat \<Rightarrow> transport_error + unit" where
  "validate_frame_limit maximum =
    (if maximum > MAX_COMMAND_FRAME then Err TFrameTooLarge else Ok ())"

definition checked_frame_len :: "nat \<Rightarrow> nat \<Rightarrow> transport_error + u32" where
  "checked_frame_len len maximum =
    bindR (validate_frame_limit maximum) (\<lambda>_.
    if len > maximum then Err TFrameTooLarge
    else if len < 2 ^ 32 then Ok (word_of_nat len) else Err TFrameTooLarge)"

definition write_frame_limited ::
  "'s frame_io \<Rightarrow> byte list \<Rightarrow> nat \<Rightarrow> ('s, transport_error, unit) act" where
  "write_frame_limited io data maximum =
    bindA (liftA id (checked_frame_len (length data) maximum)) (\<lambda>len.
    bindA (fi_write io (le_bytes 4 (unat len))) (\<lambda>_.
    bindA (fi_write io data) (\<lambda>_.
    fi_flush io)))"

definition read_frame_with_limit ::
  "'s frame_io \<Rightarrow> nat \<Rightarrow> ('s, transport_error, byte list) act" where
  "read_frame_with_limit io maximum =
    bindA (liftA id (validate_frame_limit maximum)) (\<lambda>_.
    bindA (fi_read io 4) (\<lambda>len_buf.
    let len = unat (word_of_nat (le_val len_buf) :: u32) in
    if len > maximum then failA TFrameTooLarge
    else (\<lambda>s.
      if \<not> fi_reserve io s len then failA TFrameAllocation s
      else fi_read io len s)))"

definition write_frame_limited_async ::
  "'s frame_io \<Rightarrow> byte list \<Rightarrow> nat \<Rightarrow> ('s, transport_error, unit) act" where
  "write_frame_limited_async io data maximum =
    bindA (liftA id (checked_frame_len (length data) maximum)) (\<lambda>len.
    bindA (fi_write io (le_bytes 4 (unat len))) (\<lambda>_.
    bindA (fi_write io data) (\<lambda>_.
    fi_flush io)))"

definition read_frame_with_limit_async ::
  "'s frame_io \<Rightarrow> nat \<Rightarrow> ('s, transport_error, byte list) act" where
  "read_frame_with_limit_async io maximum =
    bindA (liftA id (validate_frame_limit maximum)) (\<lambda>_.
    bindA (fi_read io 4) (\<lambda>len_buf.
    let len = unat (word_of_nat (le_val len_buf) :: u32) in
    if len > maximum then failA TFrameTooLarge
    else (\<lambda>s.
      if \<not> fi_reserve io s len then failA TFrameAllocation s
      else fi_read io len s)))"

definition map_async_read_error :: "io_error_kind \<Rightarrow> transport_error" where
  "map_async_read_error e =
    (case e of UnexpectedEof \<Rightarrow> TFrameTruncated | TimedOut \<Rightarrow> TTimedOut | _ \<Rightarrow> TReadFrame)"

definition map_sync_read_error :: "io_error_kind \<Rightarrow> transport_error" where
  "map_sync_read_error e =
    (case e of UnexpectedEof \<Rightarrow> TFrameTruncated | TimedOut \<Rightarrow> TTimedOut | WouldBlock \<Rightarrow> TTimedOut
     | _ \<Rightarrow> TReadFrame)"

section \<open>The blocking and the Tokio adapter\<close>

definition sync_read_frame_bytes :: "nat \<Rightarrow> (socket, transport_error, byte list) act" where
  "sync_read_frame_bytes n =
    bindA (mapErrA (\<lambda>_. TReadFrame) (set_nonblocking False)) (\<lambda>_.
    mapErrA map_sync_read_error (std_read_exact n))"

definition sync_write_frame_bytes :: "byte list \<Rightarrow> (socket, transport_error, unit) act" where
  "sync_write_frame_bytes data =
    bindA (mapErrA (\<lambda>_. TWriteFrame) (set_nonblocking False)) (\<lambda>_.
    mapErrA (\<lambda>_. TWriteFrame) (std_write_all data))"

definition sync_io :: "socket frame_io" where
  "sync_io = \<lparr>fi_read = sync_read_frame_bytes, fi_write = sync_write_frame_bytes,
              fi_flush = retA (), fi_reserve = (\<lambda>s n. n \<le> so_heap s)\<rparr>"

definition async_read_frame_bytes :: "nat \<Rightarrow> (socket, transport_error, byte list) act" where
  "async_read_frame_bytes n = mapErrA map_async_read_error (async_read_exact n)"

definition async_write_frame_bytes :: "byte list \<Rightarrow> (socket, transport_error, unit) act" where
  "async_write_frame_bytes data = mapErrA (\<lambda>_. TWriteFrame) (async_write_all data)"

definition async_io :: "socket frame_io" where
  "async_io = \<lparr>fi_read = async_read_frame_bytes, fi_write = async_write_frame_bytes,
               fi_flush = retA (), fi_reserve = (\<lambda>s n. n \<le> so_heap s)\<rparr>"

definition stream_write_frame :: "byte list \<Rightarrow> (socket, transport_error, unit) act" where
  "stream_write_frame data = write_frame_limited sync_io data MAX_COMMAND_FRAME"

definition stream_read_frame :: "(socket, transport_error, byte list) act" where
  "stream_read_frame = read_frame_with_limit sync_io MAX_COMMAND_FRAME"

text \<open>The result of the read is returned only after the timeout has been cleared.\<close>

definition stream_read_frame_with_deadline ::
  "nat \<Rightarrow> nat \<Rightarrow> (socket, transport_error, byte list) act" where
  "stream_read_frame_with_deadline maximum deadline =
    bindA (mapErrA (\<lambda>_. TReadFrame) (set_read_timeout (Some deadline))) (\<lambda>_ s.
      case read_frame_with_limit sync_io maximum s of
        (Inl Blocks, s') \<Rightarrow> (Inl Blocks, s')
      | (result, s') \<Rightarrow>
          bindA (mapErrA (\<lambda>_. TReadFrame) (set_read_timeout None)) (\<lambda>_ s''. (result, s'')) s')"

definition async_stream_write_frame :: "byte list \<Rightarrow> (socket, transport_error, unit) act" where
  "async_stream_write_frame data = write_frame_limited_async async_io data MAX_COMMAND_FRAME"

definition async_stream_read_frame :: "(socket, transport_error, byte list) act" where
  "async_stream_read_frame = read_frame_with_limit_async async_io MAX_COMMAND_FRAME"

definition async_stream_read_frame_with_deadline ::
  "nat \<Rightarrow> nat \<Rightarrow> (socket, transport_error, byte list) act" where
  "async_stream_read_frame_with_deadline maximum deadline =
    deadlineA TTimedOut (read_frame_with_limit_async async_io maximum)"

section \<open>The frame functions of the guest\<close>

datatype init_error =
    MountNul | MountInternal | Io | NetworkInterfaceTimeout | NetworkConfig | NetworkListener
  | UnsupportedHost | NotFoundCmdlineBackend | NotFoundKernelModules | RequiredModuleNotLoaded
  | BusDisconnected | ISerialize | IDeserialize | BootProtocol | IAuthentication | IFrameTooLarge
  | IFrameAllocation | Bootstrap | IFrameTruncated | FrameIoTimeout | ProcessSpawn
  | ResourceNotFound | DiskDeviceMissing | DiskFormatFailed | DiskMountFailed

definition guest_validate_frame_limit :: "nat \<Rightarrow> init_error + unit" where
  "guest_validate_frame_limit maximum =
    (if maximum > MAX_COMMAND_FRAME then Err IFrameTooLarge else Ok ())"

definition guest_read_error :: "io_error_kind \<Rightarrow> init_error" where
  "guest_read_error e = (if e = UnexpectedEof then IFrameTruncated else Io)"

definition guest_read_frame :: "nat \<Rightarrow> (socket, init_error, byte list) act" where
  "guest_read_frame maximum =
    bindA (liftA id (guest_validate_frame_limit maximum)) (\<lambda>_.
    bindA (mapErrA guest_read_error (async_read_exact 4)) (\<lambda>len_buf.
    let len = unat (word_of_nat (le_val len_buf) :: u32) in
    if len > maximum then failA IFrameTooLarge
    else (\<lambda>s.
      if \<not> len \<le> so_heap s then failA IFrameAllocation s
      else mapErrA guest_read_error (async_read_exact len) s)))"

definition guest_read_frame_bounded :: "nat \<Rightarrow> (socket, init_error, byte list) act" where
  "guest_read_frame_bounded maximum = deadlineA FrameIoTimeout (guest_read_frame maximum)"

definition guest_write_payload :: "byte list \<Rightarrow> nat \<Rightarrow> (socket, init_error, unit) act" where
  "guest_write_payload payload maximum =
    bindA (liftA id (guest_validate_frame_limit maximum)) (\<lambda>_.
    if \<not> length payload < 2 ^ 32 then failA IFrameTooLarge
    else if length payload > maximum then failA IFrameTooLarge
    else
      bindA (mapErrA (\<lambda>_. Io)
        (async_write_all (le_bytes 4 (unat (word_of_nat (length payload) :: u32))))) (\<lambda>_.
      mapErrA (\<lambda>_. Io) (async_write_all payload)))"

section \<open>Reasoning about actions\<close>

named_theorems act_simps \<open>evaluation and inversion of socket actions\<close>

lemma retA_eq [act_simps]: "retA a s = (r, s') \<longleftrightarrow> r = Inr a \<and> s' = s"
  by (auto simp: retA_def)

lemma failA_eq [act_simps]: "failA e s = (r, s') \<longleftrightarrow> r = Inl (Fails e) \<and> s' = s"
  by (auto simp: failA_def)

lemma liftA_Inr [act_simps]: "liftA f (Inr a) s = (Inr a, s)"
  and liftA_Inl [act_simps]: "liftA f (Inl e) s = (Inl (Fails (f e)), s)"
  by (simp_all add: liftA_def)

lemma liftA_eq_Inr [act_simps]: "liftA f m s = (Inr a, s') \<longleftrightarrow> m = Inr a \<and> s' = s"
  by (auto simp: liftA_def split: sum.splits)

lemma bindA_eq_Inr [act_simps]:
  "bindA m f s = (Inr b, s') \<longleftrightarrow> (\<exists>a s1. m s = (Inr a, s1) \<and> f a s1 = (Inr b, s'))"
  by (auto simp: bindA_def split: sum.splits prod.splits)

lemma bindA_step [act_simps]: "m s = (Inr a, s1) \<Longrightarrow> bindA m f s = f a s1"
  by (simp add: bindA_def)

lemma bindA_stop [act_simps]: "m s = (Inl e, s1) \<Longrightarrow> bindA m f s = (Inl e, s1)"
  by (simp add: bindA_def)

lemma bindA_eq_Inl:
  "bindA m f s = (Inl e, s') \<longleftrightarrow>
    m s = (Inl e, s') \<or> (\<exists>a s1. m s = (Inr a, s1) \<and> f a s1 = (Inl e, s'))"
  by (auto simp: bindA_def split: sum.splits prod.splits)

lemma mapErrA_eq_Inr [act_simps]: "mapErrA f m s = (Inr a, s') \<longleftrightarrow> m s = (Inr a, s')"
  by (auto simp: mapErrA_def split: sum.splits prod.splits stop.splits)

lemma mapErrA_stop [act_simps]: "m s = (Inl (Fails e), s') \<Longrightarrow> mapErrA f m s = (Inl (Fails (f e)), s')"
  by (simp add: mapErrA_def)

lemma snd_mapErrA [act_simps]: "snd (mapErrA f m s) = snd (m s)"
  by (auto simp: mapErrA_def split: sum.splits prod.splits stop.splits)

lemma deadlineA_eq_Inr [act_simps]: "deadlineA e m s = (Inr a, s') \<longleftrightarrow> m s = (Inr a, s')"
  by (auto simp: deadlineA_def split: sum.splits prod.splits stop.splits)

lemma snd_deadlineA [act_simps]: "snd (deadlineA e m s) = snd (m s)"
  by (auto simp: deadlineA_def split: sum.splits prod.splits stop.splits)

lemma act_blocks:
  "m s = (Inl Blocks, s') \<Longrightarrow> mapErrA f m s = (Inl Blocks, s')"
  "m s = (Inl Blocks, s') \<Longrightarrow> deadlineA e m s = (Inl (Fails e), s')"
  by (simp_all add: mapErrA_def deadlineA_def)

lemma deadlineA_returns: "fst (deadlineA e m s) \<noteq> Inl Blocks"
  by (auto simp: deadlineA_def split: sum.splits prod.splits stop.splits)

section \<open>The frame interface\<close>

definition frame_bytes :: "byte list \<Rightarrow> byte list" where
  "frame_bytes p = le_bytes 4 (length p) @ p"

text \<open>
  What the protocol relies on: reading takes exactly one frame off the input, writing appends
  exactly one frame to the output, and neither touches the other direction, also when it fails.
\<close>

locale frame_link =
  fixes read_frame :: "nat \<Rightarrow> ('s, 'e, byte list) act"
    and write_frame :: "byte list \<Rightarrow> nat \<Rightarrow> ('s, 'e, unit) act"
    and incoming :: "'s \<Rightarrow> byte list"
    and outgoing :: "'s \<Rightarrow> byte list"
    and room :: "'s \<Rightarrow> nat"
    and ready :: "'s \<Rightarrow> bool"
  assumes read_ok:
    "ready s \<Longrightarrow> incoming s = frame_bytes p @ rest \<Longrightarrow> length p \<le> maximum \<Longrightarrow>
     maximum \<le> MAX_COMMAND_FRAME \<Longrightarrow>
     \<exists>s'. read_frame maximum s = (Inr p, s') \<and> incoming s' = rest \<and> outgoing s' = outgoing s
        \<and> room s' = room s \<and> ready s'"
    and read_inv:
    "read_frame maximum s = (Inr p, s') \<Longrightarrow>
     incoming s = frame_bytes p @ incoming s' \<and> length p \<le> maximum \<and> maximum \<le> MAX_COMMAND_FRAME"
    and read_output: "outgoing (snd (read_frame maximum s)) = outgoing s"
    and write_ok:
    "ready s \<Longrightarrow> length p \<le> maximum \<Longrightarrow> maximum \<le> MAX_COMMAND_FRAME \<Longrightarrow> 4 + length p \<le> room s \<Longrightarrow>
     \<exists>s'. write_frame p maximum s = (Inr (), s') \<and> outgoing s' = outgoing s @ frame_bytes p
        \<and> incoming s' = incoming s \<and> room s' = room s - (4 + length p) \<and> ready s'"
    and write_inv:
    "write_frame p maximum s = (Inr u, s') \<Longrightarrow>
     outgoing s' = outgoing s @ frame_bytes p \<and> length p \<le> maximum"
    and write_input: "incoming (snd (write_frame p maximum s)) = incoming s"
    and write_output:
    "\<exists>k. outgoing (snd (write_frame p maximum s)) = outgoing s @ take k (frame_bytes p)"

text \<open>The byte-level contract of an adapter: \<open>read_exact\<close>, \<open>write_all\<close> and \<open>flush\<close>.\<close>

locale byte_link =
  fixes io :: "'s frame_io"
    and incoming :: "'s \<Rightarrow> byte list"
    and outgoing :: "'s \<Rightarrow> byte list"
    and room :: "'s \<Rightarrow> nat"
    and ready :: "'s \<Rightarrow> bool"
  assumes rd_ok:
    "ready s \<Longrightarrow> n \<le> length (incoming s) \<Longrightarrow>
     \<exists>s'. fi_read io n s = (Inr (take n (incoming s)), s') \<and> incoming s' = drop n (incoming s)
        \<and> outgoing s' = outgoing s \<and> room s' = room s \<and> ready s'"
    and rd_inv: "fi_read io n s = (Inr bs, s') \<Longrightarrow> length bs = n \<and> incoming s = bs @ incoming s'"
    and rd_output: "outgoing (snd (fi_read io n s)) = outgoing s"
    and wr_ok:
    "ready s \<Longrightarrow> length d \<le> room s \<Longrightarrow>
     \<exists>s'. fi_write io d s = (Inr (), s') \<and> outgoing s' = outgoing s @ d \<and> incoming s' = incoming s
        \<and> room s' = room s - length d \<and> ready s'"
    and wr_inv: "fi_write io d s = (Inr u, s') \<Longrightarrow> outgoing s' = outgoing s @ d"
    and wr_input: "incoming (snd (fi_write io d s)) = incoming s"
    and wr_output: "\<exists>k. outgoing (snd (fi_write io d s)) = outgoing s @ take k d"
    and flush: "fi_flush io s = (Inr (), s)"
    and reserve: "ready s \<Longrightarrow> n \<le> MAX_COMMAND_FRAME \<Longrightarrow> fi_reserve io s n"
begin

lemma read_len_ok:
  assumes "ready s" "incoming s = frame_bytes p @ rest" "length p \<le> MAX_COMMAND_FRAME"
  shows "\<exists>s'. fi_read io 4 s = (Inr (le_bytes 4 (length p)), s') \<and> incoming s' = p @ rest
    \<and> outgoing s' = outgoing s \<and> room s' = room s \<and> ready s'"
  using rd_ok [of s 4] assms by (auto simp: frame_bytes_def)

lemma frame_read_ok:
  assumes "ready s" "incoming s = frame_bytes p @ rest" "length p \<le> maximum"
    and max: "maximum \<le> MAX_COMMAND_FRAME"
  shows "\<exists>s'. read_frame_with_limit io maximum s = (Inr p, s') \<and> incoming s' = rest
    \<and> outgoing s' = outgoing s \<and> room s' = room s \<and> ready s'"
proof -
  have len: "length p \<le> MAX_COMMAND_FRAME" "length p < 2 ^ 32"
    using assms(3) max by (simp_all add: MAX_COMMAND_FRAME_def)
  obtain s1 where s1: "fi_read io 4 s = (Inr (le_bytes 4 (length p)), s1)" "ready s1"
    "incoming s1 = p @ rest" "outgoing s1 = outgoing s" "room s1 = room s"
    using read_len_ok [OF assms(1,2) len(1)] by blast
  obtain s2 where s2: "fi_read io (length p) s1 = (Inr p, s2)" "ready s2" "incoming s2 = rest"
    "outgoing s2 = outgoing s1" "room s2 = room s1"
    using rd_ok [OF s1(2), of "length p"] s1(3) by auto
  have "unat (word_of_nat (le_val (le_bytes 4 (length p))) :: u32) = length p"
    using len(2) by (simp add: le_val_le_bytes unat_of_nat)
  with assms(3) max s1 s2 reserve [OF s1(2) len(1)] show ?thesis
    by (simp add: read_frame_with_limit_def validate_frame_limit_def act_simps Let_def)
qed

lemma frame_read_inv:
  assumes "read_frame_with_limit io maximum s = (Inr p, s')"
  shows "incoming s = frame_bytes p @ incoming s' \<and> length p \<le> maximum
    \<and> maximum \<le> MAX_COMMAND_FRAME"
proof -
  let ?len = "\<lambda>lb. unat (word_of_nat (le_val lb) :: u32)"
  from assms obtain lb s1 where r1: "fi_read io 4 s = (Inr lb, s1)" and le: "?len lb \<le> maximum"
    and r2: "fi_read io (?len lb) s1 = (Inr p, s')" and max: "maximum \<le> MAX_COMMAND_FRAME"
    by (auto simp: read_frame_with_limit_def validate_frame_limit_def act_simps Let_def
        split: if_splits)
  from rd_inv [OF r1] have lb: "length lb = 4" "incoming s = lb @ incoming s1" by auto
  from rd_inv [OF r2] have p: "length p = ?len lb" "incoming s1 = p @ incoming s'" by auto
  from lb(1) p(1) have "le_bytes 4 (length p) = lb"
    by (simp add: le_bytes_unat_of_le_val)
  with lb p le max show ?thesis by (simp add: frame_bytes_def)
qed

lemma frame_read_output: "outgoing (snd (read_frame_with_limit io maximum s)) = outgoing s"
proof -
  have out: "fi_read io n t = (r, t') \<Longrightarrow> outgoing t' = outgoing t" for n t r t'
    using rd_output [of n t] by simp
  show ?thesis
    by (auto simp: read_frame_with_limit_def validate_frame_limit_def bindA_def liftA_def failA_def
        Let_def rd_output dest: out split: sum.split prod.split)
qed

lemma frame_write_ok:
  assumes "ready s" "length p \<le> maximum" "maximum \<le> MAX_COMMAND_FRAME" "4 + length p \<le> room s"
  shows "\<exists>s'. write_frame_limited io p maximum s = (Inr (), s')
    \<and> outgoing s' = outgoing s @ frame_bytes p \<and> incoming s' = incoming s
    \<and> room s' = room s - (4 + length p) \<and> ready s'"
proof -
  have len: "length p < 2 ^ 32" "unat (word_of_nat (length p) :: u32) = length p"
    using assms(2,3) by (simp_all add: MAX_COMMAND_FRAME_def unat_of_nat)
  obtain s1 where s1: "fi_write io (le_bytes 4 (length p)) s = (Inr (), s1)" "ready s1"
    "outgoing s1 = outgoing s @ le_bytes 4 (length p)" "incoming s1 = incoming s"
    "room s1 = room s - 4"
    using wr_ok [OF assms(1), of "le_bytes 4 (length p)"] assms(4) by auto
  obtain s2 where s2: "fi_write io p s1 = (Inr (), s2)" "ready s2"
    "outgoing s2 = outgoing s1 @ p" "incoming s2 = incoming s1" "room s2 = room s1 - length p"
    using wr_ok [OF s1(2), of p] assms(4) s1(5) by (metis add_le_imp_le_diff add.commute)
  from assms(2,3) len s1 s2 show ?thesis
    by (simp add: write_frame_limited_def checked_frame_len_def validate_frame_limit_def act_simps
        flush frame_bytes_def)
qed

lemma checked_frame_len_Ok:
  "checked_frame_len n maximum = Ok w \<Longrightarrow> n \<le> maximum \<and> unat w = n \<and> maximum \<le> MAX_COMMAND_FRAME"
  by (auto simp: checked_frame_len_def validate_frame_limit_def unat_of_nat split: if_splits)

lemma frame_write_inv:
  assumes "write_frame_limited io p maximum s = (Inr u, s')"
  shows "outgoing s' = outgoing s @ frame_bytes p \<and> length p \<le> maximum"
  using assms
  by (auto simp: write_frame_limited_def act_simps flush frame_bytes_def
      dest!: checked_frame_len_Ok wr_inv)

lemma frame_write_cases:
  "write_frame_limited io p maximum s = (r, s') \<Longrightarrow>
    s' = s \<or> (\<exists>t. fi_write io (le_bytes 4 (length p)) s = (t, s')) \<or>
    (\<exists>s1 t. fi_write io (le_bytes 4 (length p)) s = (Inr (), s1) \<and> fi_write io p s1 = (t, s'))"
  by (auto simp: write_frame_limited_def bindA_def liftA_def flush dest: checked_frame_len_Ok
      split: sum.splits prod.splits)

lemma frame_write_input: "incoming (snd (write_frame_limited io p maximum s)) = incoming s"
proof -
  have *: "fi_write io d t = (r, t') \<Longrightarrow> incoming t' = incoming t" for d t r t'
    using wr_input [of d t] by simp
  obtain r s' where "write_frame_limited io p maximum s = (r, s')" by fastforce
  with frame_write_cases [OF this] show ?thesis by (auto dest!: *)
qed

lemma frame_write_output:
  "\<exists>k. outgoing (snd (write_frame_limited io p maximum s)) = outgoing s @ take k (frame_bytes p)"
proof -
  have *: "fi_write io d t = (r, t') \<Longrightarrow> \<exists>k. outgoing t' = outgoing t @ take k d" for d t r t'
    using wr_output [of d t] by simp
  obtain r s' where w: "write_frame_limited io p maximum s = (r, s')" by fastforce
  let ?l = "le_bytes 4 (length p)"
  from frame_write_cases [OF w] consider "s' = s" | t where "fi_write io ?l s = (t, s')"
    | s1 t where "fi_write io ?l s = (Inr (), s1)" "fi_write io p s1 = (t, s')" by blast
  then show ?thesis
  proof cases
    case 1
    with w show ?thesis by (intro exI [of _ 0]) simp
  next
    case 2
    from * [OF this] obtain k where "outgoing s' = outgoing s @ take k ?l" by blast
    with w show ?thesis by (intro exI [of _ "min k 4"]) (simp add: frame_bytes_def min_def)
  next
    case 3
    from wr_inv [OF 3(1)] * [OF 3(2)] obtain k where
      "outgoing s' = outgoing s @ ?l @ take k p" by auto
    with w show ?thesis by (intro exI [of _ "4 + k"]) (simp add: frame_bytes_def)
  qed
qed

end

sublocale byte_link \<subseteq> frame_link "read_frame_with_limit io" "write_frame_limited io"
    incoming outgoing room ready
  using frame_read_ok frame_read_inv frame_read_output frame_write_ok frame_write_inv
    frame_write_input frame_write_output by unfold_locales

section \<open>The adapters satisfy the interface\<close>

definition sock_ready :: "socket \<Rightarrow> bool" where
  "sock_ready s \<longleftrightarrow> so_ctl_err s = None \<and> MAX_COMMAND_FRAME \<le> so_heap s"

lemmas sock_defs = read_exact_with_def write_all_with_def std_read_exact_def std_write_all_def
  async_read_exact_def async_write_all_def sock_ctl_def

lemma take_room: "\<exists>k. so_out s @ take (so_room s) d = so_out s @ take k d"
  by blast

interpretation sync_link: byte_link sync_io so_in so_out so_room sock_ready
proof
  fix s n d r and s' :: socket
  show "sock_ready s \<Longrightarrow> n \<le> length (so_in s) \<Longrightarrow>
     \<exists>s'. fi_read sync_io n s = (Inr (take n (so_in s)), s') \<and> so_in s' = drop n (so_in s)
        \<and> so_out s' = so_out s \<and> so_room s' = so_room s \<and> sock_ready s'"
    by (simp add: sync_io_def sync_read_frame_bytes_def sock_ready_def sock_defs bindA_def
        mapErrA_def)
  show "fi_read sync_io n s = (Inr r, s') \<Longrightarrow> length r = n \<and> so_in s = r @ so_in s'"
    by (auto simp: sync_io_def sync_read_frame_bytes_def act_simps sock_defs
        split: if_splits option.splits)
  show "so_out (snd (fi_read sync_io n s)) = so_out s"
    by (simp add: sync_io_def sync_read_frame_bytes_def sock_defs bindA_def mapErrA_def
        split: option.split stop.split)
  show "sock_ready s \<Longrightarrow> length d \<le> so_room s \<Longrightarrow>
     \<exists>s'. fi_write sync_io d s = (Inr (), s') \<and> so_out s' = so_out s @ d \<and> so_in s' = so_in s
        \<and> so_room s' = so_room s - length d \<and> sock_ready s'"
    by (simp add: sync_io_def sync_write_frame_bytes_def sock_ready_def sock_defs bindA_def
        mapErrA_def)
  show "fi_write sync_io d s = (Inr u, s') \<Longrightarrow> so_out s' = so_out s @ d" for u
    by (auto simp: sync_io_def sync_write_frame_bytes_def act_simps sock_defs
        split: if_splits option.splits)
  show "so_in (snd (fi_write sync_io d s)) = so_in s"
    by (simp add: sync_io_def sync_write_frame_bytes_def sock_defs bindA_def mapErrA_def
        split: option.split stop.split)
  show "\<exists>k. so_out (snd (fi_write sync_io d s)) = so_out s @ take k d"
    using take_room [of s d]
    by (auto simp: sync_io_def sync_write_frame_bytes_def sock_defs bindA_def mapErrA_def
        split: option.split stop.split intro: exI [of _ "0 :: nat"] exI [of _ "length d"])
qed (auto simp: sync_io_def retA_def sock_ready_def)

interpretation async_link: byte_link async_io so_in so_out so_room sock_ready
proof
  fix s n d r and s' :: socket
  show "sock_ready s \<Longrightarrow> n \<le> length (so_in s) \<Longrightarrow>
     \<exists>s'. fi_read async_io n s = (Inr (take n (so_in s)), s') \<and> so_in s' = drop n (so_in s)
        \<and> so_out s' = so_out s \<and> so_room s' = so_room s \<and> sock_ready s'"
    by (simp add: async_io_def async_read_frame_bytes_def sock_ready_def sock_defs mapErrA_def)
  show "fi_read async_io n s = (Inr r, s') \<Longrightarrow> length r = n \<and> so_in s = r @ so_in s'"
    by (auto simp: async_io_def async_read_frame_bytes_def act_simps sock_defs split: if_splits)
  show "so_out (snd (fi_read async_io n s)) = so_out s"
    by (simp add: async_io_def async_read_frame_bytes_def sock_defs act_simps)
  show "sock_ready s \<Longrightarrow> length d \<le> so_room s \<Longrightarrow>
     \<exists>s'. fi_write async_io d s = (Inr (), s') \<and> so_out s' = so_out s @ d \<and> so_in s' = so_in s
        \<and> so_room s' = so_room s - length d \<and> sock_ready s'"
    by (simp add: async_io_def async_write_frame_bytes_def sock_ready_def sock_defs mapErrA_def)
  show "fi_write async_io d s = (Inr u, s') \<Longrightarrow> so_out s' = so_out s @ d" for u
    by (auto simp: async_io_def async_write_frame_bytes_def act_simps sock_defs split: if_splits)
  show "so_in (snd (fi_write async_io d s)) = so_in s"
    by (simp add: async_io_def async_write_frame_bytes_def sock_defs act_simps)
  show "\<exists>k. so_out (snd (fi_write async_io d s)) = so_out s @ take k d"
    using take_room [of s d]
    by (auto simp: async_io_def async_write_frame_bytes_def sock_defs act_simps
        intro: exI [of _ "length d"])
qed (auto simp: async_io_def retA_def sock_ready_def)

lemma async_frame_functions:
  "write_frame_limited_async = write_frame_limited"
  "read_frame_with_limit_async = read_frame_with_limit"
  by (simp_all add: fun_eq_iff write_frame_limited_async_def write_frame_limited_def
      read_frame_with_limit_async_def read_frame_with_limit_def)

text \<open>
  The guest has its own copy of the codec. It is the Tokio codec with the errors renamed, so it
  satisfies the same interface.
\<close>

definition guest_error :: "transport_error \<Rightarrow> init_error" where
  "guest_error e =
    (case e of TFrameTooLarge \<Rightarrow> IFrameTooLarge | TFrameAllocation \<Rightarrow> IFrameAllocation
     | TFrameTruncated \<Rightarrow> IFrameTruncated | _ \<Rightarrow> Io)"

lemma mapErrA_bindA: "mapErrA f (bindA m g) = bindA (mapErrA f m) (\<lambda>a. mapErrA f (g a))"
  by (auto simp: mapErrA_def bindA_def fun_eq_iff split: sum.splits prod.splits stop.splits)

lemma mapErrA_mapErrA: "mapErrA f (mapErrA g m) = mapErrA (f \<circ> g) m"
  by (auto simp: mapErrA_def fun_eq_iff split: sum.splits prod.splits stop.splits)

lemma mapErrA_base:
  "mapErrA f (retA a) = retA a" "mapErrA f (failA e) = failA (f e)"
  "mapErrA f (liftA g r) = liftA (f \<circ> g) r"
  by (auto simp: mapErrA_def retA_def failA_def liftA_def fun_eq_iff split: sum.splits)

lemma liftA_error: "liftA f (Err e :: 'f + 'a) = (failA (f e) :: ('s, 'e, 'a) act)"
  and liftA_value: "liftA f (Ok a :: 'f + 'a) = (retA a :: ('s, 'e, 'a) act)"
  by (simp_all add: liftA_def failA_def retA_def fun_eq_iff)

lemma bindA_base: "bindA (retA a) f = f a" "bindA (failA e) g = failA e"
  by (simp_all add: bindA_def retA_def failA_def fun_eq_iff)

lemmas act_laws = mapErrA_bindA mapErrA_mapErrA mapErrA_base liftA_error liftA_value bindA_base

lemma guest_error_read: "guest_error \<circ> map_async_read_error = guest_read_error"
  by (auto simp: fun_eq_iff guest_error_def map_async_read_error_def guest_read_error_def
      split: io_error_kind.split)

lemma guest_read_frame_eq:
  "guest_read_frame maximum = mapErrA guest_error (read_frame_with_limit async_io maximum)"
proof -
  have tail: "mapErrA guest_error (\<lambda>s. if \<not> n \<le> so_heap s then failA TFrameAllocation s
        else mapErrA map_async_read_error (async_read_exact n) s) =
      (\<lambda>s. if \<not> n \<le> so_heap s then failA IFrameAllocation s
        else mapErrA guest_read_error (async_read_exact n) s)" for n
    by (auto simp: fun_eq_iff mapErrA_def failA_def
        guest_error_def guest_error_read [symmetric] split: sum.splits prod.splits stop.splits)
  show ?thesis
    by (auto simp: guest_read_frame_def read_frame_with_limit_def act_laws tail Let_def if_distrib
        guest_validate_frame_limit_def validate_frame_limit_def guest_error_read
        async_io_def async_read_frame_bytes_def guest_error_def cong: if_cong)
qed

lemma guest_write_payload_eq:
  "guest_write_payload p maximum = mapErrA guest_error (write_frame_limited async_io p maximum)"
proof -
  have "guest_error \<circ> (\<lambda>_ :: io_error_kind. TWriteFrame) = (\<lambda>_. Io)" by (simp add: fun_eq_iff guest_error_def)
  moreover have "bindA m (\<lambda>_. retA ()) = m" for m :: "(socket, transport_error, unit) act"
    by (auto simp: bindA_def retA_def fun_eq_iff split: prod.split sum.split)
  ultimately show ?thesis
    by (auto simp: guest_write_payload_def write_frame_limited_def act_laws checked_frame_len_def
        guest_validate_frame_limit_def validate_frame_limit_def guest_error_def
        async_io_def async_write_frame_bytes_def)
qed

context frame_link
begin

lemma renamed_errors:
  "frame_link (\<lambda>maximum. mapErrA f (read_frame maximum)) (\<lambda>p maximum. mapErrA f (write_frame p maximum))
     incoming outgoing room ready"
  using read_ok read_inv read_output write_ok write_inv write_input write_output
  by unfold_locales (simp_all add: act_simps)

end

interpretation guest_link: frame_link guest_read_frame guest_write_payload so_in so_out so_room
    sock_ready
  using async_link.renamed_errors [of guest_error]
  by (simp add: guest_read_frame_eq [abs_def] guest_write_payload_eq [abs_def])

section \<open>Properties of the transport\<close>

definition quiet_socket :: "byte list \<Rightarrow> socket" where
  "quiet_socket bs = \<lparr>so_in = bs, so_in_end = Stalls, so_out = [], so_room = 2 ^ 20,
     so_out_end = Stalls, so_read_timeout = Some 7, so_write_timeout = None,
     so_nonblocking = True, so_ctl_err = None, so_unix = True, so_heap = 2 ^ 32\<rparr>"

lemma quiet_socket_ready: "sock_ready (quiet_socket bs)"
  by (simp add: sock_ready_def quiet_socket_def MAX_COMMAND_FRAME_def)

text \<open>
  C10. Every writer is understood by every reader. What the blocking stream, the Tokio stream or the
  guest writes for a payload is read back as exactly that payload by the blocking stream, the Tokio
  stream and the guest under the same limit, and the bytes after the frame stay unread.
\<close>

theorem frame_exchange:
  assumes "write_frame_limited sync_io p maximum w = (Inr (), w')
      \<or> write_frame_limited_async async_io p maximum w = (Inr (), w')
      \<or> guest_write_payload p maximum w = (Inr (), w')"
    and "so_in r = drop (length (so_out w)) (so_out w') @ rest"
    and "sock_ready r" "maximum \<le> MAX_COMMAND_FRAME"
  shows "\<exists>r1 r2 r3. read_frame_with_limit sync_io maximum r = (Inr p, r1) \<and> so_in r1 = rest
    \<and> read_frame_with_limit_async async_io maximum r = (Inr p, r2) \<and> so_in r2 = rest
    \<and> guest_read_frame maximum r = (Inr p, r3) \<and> so_in r3 = rest"
proof -
  have w: "so_out w' = so_out w @ frame_bytes p \<and> length p \<le> maximum"
    using assms(1) sync_link.write_inv [of p maximum w "()" w']
      async_link.write_inv [of p maximum w "()" w'] guest_link.write_inv [of p maximum w "()" w']
    by (auto simp: async_frame_functions)
  with assms(2) have r: "so_in r = frame_bytes p @ rest" "length p \<le> maximum" by simp_all
  note ok = assms(3) r assms(4)
  show ?thesis
    using sync_link.read_ok [OF ok] async_link.read_ok [OF ok] guest_link.read_ok [OF ok]
    by (auto simp: async_frame_functions)
qed

theorem frame_exchange_witness:
  "\<exists>w' r1 r2 r3. guest_write_payload [5, 6] 8 (quiet_socket []) = (Inr (), w')
    \<and> read_frame_with_limit sync_io 8 (quiet_socket (so_out w' @ [1])) = (Inr [5, 6], r1)
    \<and> read_frame_with_limit_async async_io 8 (quiet_socket (so_out w' @ [1])) = (Inr [5, 6], r2)
    \<and> guest_read_frame 8 (quiet_socket (so_out w' @ [1])) = (Inr [5, 6], r3)"
proof -
  obtain w' where w: "guest_write_payload [5, 6] 8 (quiet_socket []) = (Inr (), w')"
    using guest_link.write_ok [OF quiet_socket_ready, of "[5, 6]" 8 "[]"]
    by (auto simp: MAX_COMMAND_FRAME_def quiet_socket_def)
  have "so_in (quiet_socket (so_out w' @ [1])) = drop (length (so_out (quiet_socket []))) (so_out w') @ [1]"
    "8 \<le> MAX_COMMAND_FRAME" by (simp_all add: quiet_socket_def MAX_COMMAND_FRAME_def)
  from frame_exchange [OF _ this(1) quiet_socket_ready this(2), of "[5, 6]"] w show ?thesis by auto
qed

text \<open>
  C11. An oversized frame is rejected from its length prefix. If the declared length exceeds the
  limit, all three readers fail with the frame-too-large error having taken only the four prefix
  bytes, however little memory is left, so no payload-sized allocation is ever attempted. A payload
  over the limit is rejected by all three writers before a single byte is written.
\<close>

theorem oversized_frames_rejected:
  assumes "maximum \<le> MAX_COMMAND_FRAME" "maximum < n" "n < 2 ^ 32" "so_in s = le_bytes 4 n @ rest"
    and "so_ctl_err s = None" "maximum < length p"
  shows "read_frame_with_limit sync_io maximum s =
      (Inl (Fails TFrameTooLarge), s\<lparr>so_in := rest, so_nonblocking := False\<rparr>)
    \<and> read_frame_with_limit_async async_io maximum s = (Inl (Fails TFrameTooLarge), s\<lparr>so_in := rest\<rparr>)
    \<and> guest_read_frame maximum s = (Inl (Fails IFrameTooLarge), s\<lparr>so_in := rest\<rparr>)
    \<and> write_frame_limited sync_io p maximum s = (Inl (Fails TFrameTooLarge), s)
    \<and> write_frame_limited_async async_io p maximum s = (Inl (Fails TFrameTooLarge), s)
    \<and> guest_write_payload p maximum s = (Inl (Fails IFrameTooLarge), s)"
proof -
  have n: "unat (word_of_nat (le_val (le_bytes 4 n)) :: u32) = n"
    using assms(3) by (simp add: le_val_le_bytes unat_of_nat)
  have a: "read_frame_with_limit async_io maximum s = (Inl (Fails TFrameTooLarge), s\<lparr>so_in := rest\<rparr>)"
    using assms(1,2,4) n
    by (simp add: read_frame_with_limit_def async_io_def async_read_frame_bytes_def sock_defs
        validate_frame_limit_def bindA_def liftA_def mapErrA_def failA_def)
  have w: "write_frame_limited io p maximum s = (Inl (Fails TFrameTooLarge), s)" for io
    using assms(1,6)
    by (simp add: write_frame_limited_def checked_frame_len_def validate_frame_limit_def
        bindA_def liftA_def)
  have "read_frame_with_limit sync_io maximum s =
      (Inl (Fails TFrameTooLarge), s\<lparr>so_in := rest, so_nonblocking := False\<rparr>)"
    using assms(1,2,4,5) n
    by (simp add: read_frame_with_limit_def sync_io_def sync_read_frame_bytes_def sock_defs
        validate_frame_limit_def bindA_def liftA_def mapErrA_def failA_def)
  with a w show ?thesis
    by (simp add: async_frame_functions guest_read_frame_eq guest_write_payload_eq mapErrA_def
        guest_error_def)
qed

theorem oversized_frames_rejected_witness:
  "guest_read_frame 4096 (quiet_socket (le_bytes 4 4097 @ [1])) =
     (Inl (Fails IFrameTooLarge), (quiet_socket (le_bytes 4 4097 @ [1]))\<lparr>so_in := [1]\<rparr>)
   \<and> write_frame_limited sync_io (replicate 4097 0) 4096 (quiet_socket (le_bytes 4 4097 @ [1])) =
     (Inl (Fails TFrameTooLarge), quiet_socket (le_bytes 4 4097 @ [1]))"
  using oversized_frames_rejected [of 4096 4097 "quiet_socket (le_bytes 4 4097 @ [1])" "[1]"
      "replicate 4097 0"]
  by (simp add: MAX_COMMAND_FRAME_def quiet_socket_def)

lemma sync_read_timeout:
  "so_read_timeout t = Some d \<Longrightarrow> sync_read_frame_bytes n t = (r, t') \<Longrightarrow>
   r \<noteq> Inl Blocks \<and> so_read_timeout t' = Some d"
  by (auto simp: sync_read_frame_bytes_def sock_defs bindA_def mapErrA_def stalled_def read_stop_def
      split: option.splits stream_end.splits if_splits)

lemma sync_read_frame_timeout:
  "so_read_timeout t = Some d \<Longrightarrow> fst (read_frame_with_limit sync_io maximum t) \<noteq> Inl Blocks"
  by (auto simp: read_frame_with_limit_def sync_io_def bindA_def liftA_def failA_def Let_def
      validate_frame_limit_def split: sum.split prod.split dest: sync_read_timeout)
    (metis fst_conv surj_pair sync_read_timeout)

lemma deadline_sync_returns: "fst (stream_read_frame_with_deadline maximum d s) \<noteq> Inl Blocks"
  using sync_read_frame_timeout [of "s\<lparr>so_read_timeout := Some d\<rparr>" d maximum]
  by (auto simp: stream_read_frame_with_deadline_def sock_ctl_def bindA_def mapErrA_def
      split: option.splits sum.splits prod.splits stop.splits)

lemma silent_sync_times_out:
  "maximum \<le> MAX_COMMAND_FRAME \<Longrightarrow> so_in s = [] \<Longrightarrow> so_in_end s = Stalls \<Longrightarrow> so_ctl_err s = None \<Longrightarrow>
   fst (stream_read_frame_with_deadline maximum d s) = Inl (Fails TTimedOut)"
  by (simp add: stream_read_frame_with_deadline_def read_frame_with_limit_def sync_io_def
      sync_read_frame_bytes_def sock_defs bindA_def mapErrA_def liftA_def stalled_def read_stop_def
      validate_frame_limit_def map_sync_read_error_def)

lemma silent_async_blocks:
  "maximum \<le> MAX_COMMAND_FRAME \<Longrightarrow> so_in s = [] \<Longrightarrow> so_in_end s = Stalls \<Longrightarrow>
   read_frame_with_limit async_io maximum s = (Inl Blocks, s)"
  by (simp add: read_frame_with_limit_def async_io_def async_read_frame_bytes_def sock_defs bindA_def
      mapErrA_def liftA_def read_stop_def validate_frame_limit_def)



text \<open>
  The blocking read with a deadline leaves the socket without a read timeout: whatever timeout
  was configured before the call, it is gone after a successful read.
\<close>

theorem deadline_read_drops_timeout:
  assumes "stream_read_frame_with_deadline maximum d s = (Inr p, s')"
  shows "so_read_timeout s' = None"
proof (cases "read_frame_with_limit sync_io maximum (s\<lparr>so_read_timeout := Some d\<rparr>)")
  case (Pair r t)
  with assms show ?thesis
    by (auto simp: stream_read_frame_with_deadline_def sock_ctl_def bindA_def mapErrA_def
        split: sum.splits stop.splits option.splits)
qed

theorem deadline_read_drops_timeout_witness:
  "\<exists>s'. stream_read_frame_with_deadline 64 3 (quiet_socket [1, 0, 0, 0, 9]) = (Inr [9], s')
    \<and> so_read_timeout (quiet_socket [1, 0, 0, 0, 9]) = Some 7 \<and> so_read_timeout s' = None"
proof -
  have "fst (stream_read_frame_with_deadline 64 3 (quiet_socket [1, 0, 0, 0, 9])) = Inr [9]"
    by (simp add: stream_read_frame_with_deadline_def read_frame_with_limit_def sync_io_def
        sync_read_frame_bytes_def sock_defs bindA_def mapErrA_def liftA_def quiet_socket_def
        validate_frame_limit_def MAX_COMMAND_FRAME_def)
  then obtain s' where
    s': "stream_read_frame_with_deadline 64 3 (quiet_socket [1, 0, 0, 0, 9]) = (Inr [9], s')"
    by (metis fst_conv surj_pair)
  from deadline_read_drops_timeout [OF this] s' show ?thesis by (simp add: quiet_socket_def)
qed

end
