(* ===== verification/Handshake.thy ===== *)
theory Handshake
  imports Auth Transport
begin

text \<open>
  The connection handshake, both sides: \<^verbatim>\<open>libs/com/src/auth.rs\<close> and \<^verbatim>\<open>connector.rs\<close> on the host,
  \<open>authenticate_connection\<close> of \<^verbatim>\<open>libs/init/src/bus/dispatch.rs\<close> in the guest. The guest sends a
  challenge derived from the capability and a connection counter, the host answers with a MAC over
  it, the guest compares and accepts. Connecting itself is the network's answer to each attempt.
\<close>

section \<open>The host\<close>

definition AUTHENTICATION_DEADLINE :: nat where "AUTHENTICATION_DEADLINE = 5"
definition MAX_ASYNC_CONNECT_ATTEMPTS :: nat where "MAX_ASYNC_CONNECT_ATTEMPTS = 3"

record tcp_endpoint =
  ep_address :: "byte list \<times> u16"
  ep_vm_id :: "byte list"
  ep_capability :: session_capability

text \<open>Every failure of the exchange is reported as \<open>AuthenticationFailed\<close>; the envelopes
  never panic (\<open>envelopes_neq_Panic\<close>).\<close>

abbreviation authFail :: "(socket, 'e, 'a) act \<Rightarrow> (socket, transport_error, 'a) act" where
  "authFail \<equiv> mapErrA (\<lambda>_. TAuthenticationFailed)"

definition authenticate_blocking ::
  "crypto \<Rightarrow> tcp_endpoint \<Rightarrow> (socket, transport_error, unit) act" where
  "authenticate_blocking cr ep =
    bindA (authFail (set_read_timeout (Some AUTHENTICATION_DEADLINE))) (\<lambda>_.
    bindA (authFail (set_write_timeout (Some AUTHENTICATION_DEADLINE))) (\<lambda>_.
    bindA (authFail (read_frame_with_limit sync_io MAX_AUTH_FRAME)) (\<lambda>challenge_payload.
    bindA (liftA (\<lambda>_. TAuthenticationFailed) (challenge_try_from challenge_payload)) (\<lambda>challenge.
    let response = response_for_challenge cr (ep_capability ep) (ep_vm_id ep) challenge in
    bindA (liftA (\<lambda>_. TAuthenticationFailed) (response_to_bytes response)) (\<lambda>response_payload.
    bindA (authFail (write_frame_limited sync_io response_payload MAX_AUTH_FRAME)) (\<lambda>_.
    bindA (authFail (read_frame_with_limit sync_io MAX_AUTH_FRAME)) (\<lambda>accepted_payload.
    bindA (liftA (\<lambda>_. TAuthenticationFailed) (accepted_try_from accepted_payload)) (\<lambda>accepted.
    if aa_version accepted \<noteq> PROTOCOL_VERSION then failA TAuthenticationFailed
    else
      bindA (authFail (set_read_timeout None)) (\<lambda>_.
      authFail (set_write_timeout None))))))))))"

definition authenticate_async ::
  "crypto \<Rightarrow> tcp_endpoint \<Rightarrow> (socket, transport_error, unit) act" where
  "authenticate_async cr ep =
    bindA (authFail (read_frame_with_limit_async async_io MAX_AUTH_FRAME)) (\<lambda>challenge_payload.
    bindA (liftA (\<lambda>_. TAuthenticationFailed) (challenge_try_from challenge_payload)) (\<lambda>challenge.
    let response = response_for_challenge cr (ep_capability ep) (ep_vm_id ep) challenge in
    bindA (liftA (\<lambda>_. TAuthenticationFailed) (response_to_bytes response)) (\<lambda>response_payload.
    bindA (authFail (write_frame_limited_async async_io response_payload MAX_AUTH_FRAME)) (\<lambda>_.
    bindA (authFail (read_frame_with_limit_async async_io MAX_AUTH_FRAME)) (\<lambda>accepted_payload.
    bindA (liftA (\<lambda>_. TAuthenticationFailed) (accepted_try_from accepted_payload)) (\<lambda>accepted.
    if aa_version accepted \<noteq> PROTOCOL_VERSION then failA TAuthenticationFailed
    else retA ()))))))"

text \<open>
  \<open>connect_timeout\<close> followed by \<open>set_nodelay\<close>: the network answers with an error or a socket. The
  classification of the error only selects the attached message.
\<close>

definition connect_inner :: "io_error_kind + socket \<Rightarrow> transport_error + socket" where
  "connect_inner answer =
    bindR (mapErr (\<lambda>_. TConnect) answer) (\<lambda>s.
    case so_ctl_err s of Some _ \<Rightarrow> Err TConnect | None \<Rightarrow> Ok s)"

definition connect ::
  "crypto \<Rightarrow> tcp_endpoint \<Rightarrow> io_error_kind + socket \<Rightarrow> (transport_error stop + unit) \<times> socket option" where
  "connect cr ep answer =
    (case connect_inner answer of
       Inl e \<Rightarrow> (Inl (Fails e), None)
     | Inr s \<Rightarrow> (let (r, s') = authenticate_blocking cr ep s in (r, Some s')))"

text \<open>
  One answer per attempt: a socket, an error, or no answer within the deadline. The loop keeps the
  last error; the pause between attempts is not modelled.
\<close>

fun connect_attempts ::
  "nat \<Rightarrow> nat \<Rightarrow> transport_error option \<Rightarrow> (nat \<Rightarrow> io_error_kind stop + socket)
    \<Rightarrow> transport_error + socket" where
  "connect_attempts 0 attempt last_error answers =
    Err (case last_error of Some e \<Rightarrow> e | None \<Rightarrow> TConnect)"
| "connect_attempts (Suc n) attempt last_error answers =
    (case answers attempt of
       Inr s \<Rightarrow>
         (case connect_inner (Ok s) of
            Inr s \<Rightarrow> Ok s
          | Inl e \<Rightarrow> connect_attempts n (Suc attempt) (Some e) answers)
     | Inl (Fails _) \<Rightarrow> connect_attempts n (Suc attempt) (Some TConnect) answers
     | Inl Blocks \<Rightarrow> connect_attempts n (Suc attempt) (Some TConnect) answers)"

definition connect_async_bounded ::
  "(nat \<Rightarrow> io_error_kind stop + socket) \<Rightarrow> transport_error + socket" where
  "connect_async_bounded answers = connect_attempts MAX_ASYNC_CONNECT_ATTEMPTS 0 None answers"

definition connect_async ::
  "crypto \<Rightarrow> tcp_endpoint \<Rightarrow> (nat \<Rightarrow> io_error_kind stop + socket)
    \<Rightarrow> (transport_error stop + unit) \<times> socket option" where
  "connect_async cr ep answers =
    (case connect_async_bounded answers of
       Inl e \<Rightarrow> (Inl (Fails e), None)
     | Inr s \<Rightarrow>
        (let (r, s') = deadlineA TAuthenticationFailed (authenticate_async cr ep) s in (r, Some s')))"

section \<open>The guest\<close>

record guest_authentication =
  ga_vm_id :: "byte list"
  ga_capability :: session_capability

text \<open>The exchange for the connection that drew \<open>counter\<close>.\<close>

definition authenticate_with_counter ::
  "crypto \<Rightarrow> guest_authentication \<Rightarrow> u64 \<Rightarrow> (socket, init_error, unit) act" where
  "authenticate_with_counter cr ga counter =
    (let challenge = \<lparr>ac_version = PROTOCOL_VERSION,
                      ac_challenge = derive_auth_challenge cr (ga_capability ga) (ga_vm_id ga) counter\<rparr> in
     bindA (liftA (\<lambda>_. IAuthentication) (challenge_to_bytes challenge)) (\<lambda>challenge_payload.
     bindA (guest_write_payload challenge_payload MAX_AUTH_FRAME) (\<lambda>_.
     bindA (guest_read_frame MAX_AUTH_FRAME) (\<lambda>response_payload.
     bindA (liftA (\<lambda>_. IAuthentication) (response_try_from response_payload)) (\<lambda>response.
     let expected = compute_auth_mac cr (ga_capability ga) (ga_vm_id ga) COMMAND_AUTH_CONTEXT_V1
                      (ac_challenge challenge) in
     if \<not> constant_time_eq cr expected (ar_mac response) then failA IAuthentication
     else
       bindA (liftA (\<lambda>_. IAuthentication) (accepted_to_bytes \<lparr>aa_version = PROTOCOL_VERSION\<rparr>))
         (\<lambda>accepted_payload. guest_write_payload accepted_payload MAX_AUTH_FRAME))))))"

text \<open>
  \<open>next_connection.fetch_update(.., checked_add(1))\<close> returns the old value and stores the
  successor, or fails and stores nothing when the counter is exhausted.
\<close>

definition authenticate_connection ::
  "crypto \<Rightarrow> guest_authentication \<Rightarrow> u64 \<Rightarrow> socket \<Rightarrow> (init_error stop + unit) \<times> u64 \<times> socket" where
  "authenticate_connection cr ga next_connection s =
    (if next_connection = u64_max then (Inl (Fails IAuthentication), next_connection, s)
     else
       let (r, s') = authenticate_with_counter cr ga next_connection s in
       (r, next_connection + 1, s'))"

section \<open>The handshake frames as bytes\<close>

definition challenge_frame :: "byte list \<Rightarrow> byte list" where
  "challenge_frame ch = AUTH_CHALLENGE_TAG # le_bytes 2 1 @ ch"

definition response_frame :: "byte list \<Rightarrow> byte list" where
  "response_frame mac = AUTH_RESPONSE_TAG # le_bytes 2 1 @ mac"

definition accepted_frame :: "byte list" where
  "accepted_frame = AUTH_ACCEPTED_TAG # le_bytes 2 1"

lemma length_handshake_frames [simp]:
  "length (challenge_frame ch) = 3 + length ch" "length (response_frame mac) = 3 + length mac"
  "length accepted_frame = 3" "length (frame_bytes p) = 4 + length p"
  by (simp_all add: challenge_frame_def response_frame_def accepted_frame_def frame_bytes_def)

lemma frame_bytes_not_empty [simp]: "frame_bytes p \<noteq> []"
  using length_handshake_frames(4) [of p] by fastforce

lemma challenge_to_bytes_Ok:
  "challenge_to_bytes m = Ok bs \<longleftrightarrow>
    ac_version m = PROTOCOL_VERSION \<and> bs = challenge_frame (ac_challenge m)
    \<and> length (ac_challenge m) \<le> 4093"
  by (auto simp: challenge_to_bytes_def writer_finish_def challenge_frame_def auth_limits
      split: if_splits)

lemma response_to_bytes_Ok:
  "response_to_bytes m = Ok bs \<longleftrightarrow>
    ar_version m = PROTOCOL_VERSION \<and> bs = response_frame (ar_mac m) \<and> length (ar_mac m) \<le> 4093"
  by (auto simp: response_to_bytes_def writer_finish_def response_frame_def auth_limits
      split: if_splits)

lemma accepted_to_bytes_Ok:
  "accepted_to_bytes m = Ok bs \<longleftrightarrow> m = \<lparr>aa_version = PROTOCOL_VERSION\<rparr> \<and> bs = accepted_frame"
  by (cases m) (auto simp: accepted_to_bytes_def writer_finish_def accepted_frame_def auth_limits
      split: if_splits)

lemma challenge_try_from_Ok:
  "challenge_try_from bs = Ok m \<longleftrightarrow>
    length (ac_challenge m) = MAC_LEN \<and> ac_version m = PROTOCOL_VERSION
    \<and> bs = challenge_frame (ac_challenge m)"
  by (auto simp: challenge_codec.dec_iff wf_challenge_def challenge_to_bytes_Ok MAC_LEN_def)

lemma response_try_from_Ok:
  "response_try_from bs = Ok m \<longleftrightarrow>
    length (ar_mac m) = MAC_LEN \<and> ar_version m = PROTOCOL_VERSION \<and> bs = response_frame (ar_mac m)"
  by (auto simp: response_codec.dec_iff wf_response_def response_to_bytes_Ok MAC_LEN_def)

lemma accepted_try_from_Ok:
  "accepted_try_from bs = Ok m \<longleftrightarrow> m = \<lparr>aa_version = PROTOCOL_VERSION\<rparr> \<and> bs = accepted_frame"
  using accepted_codec.dec_iff [of bs m] by (simp add: accepted_to_bytes_Ok)

lemma envelopes_neq_Panic:
  "challenge_try_from bs \<noteq> Err Panic" "response_try_from bs \<noteq> Err Panic"
  "accepted_try_from bs \<noteq> Err Panic" "challenge_to_bytes c \<noteq> Err Panic"
  "response_to_bytes r \<noteq> Err Panic" "accepted_to_bytes a \<noteq> Err Panic"
  by (simp_all add: challenge_try_from_def response_try_from_def accepted_try_from_def
      challenge_to_bytes_def response_to_bytes_def accepted_to_bytes_def writer_finish_def Let_def
      invalid_frame_def bindR_eq_Inl case_prod_unfold)

lemma response_for_challenge_bytes:
  assumes "crypto_ok cr"
  shows "response_to_bytes (response_for_challenge cr k vm m) =
    Ok (response_frame (compute_auth_mac cr k vm COMMAND_AUTH_CONTEXT_V1 (ac_challenge m)))"
  using length_macs(2) [OF assms, of k vm]
  by (simp add: response_to_bytes_Ok response_for_challenge_def MAC_LEN_def)

section \<open>The host side over any frame link\<close>

definition host_exchange ::
  "(nat \<Rightarrow> ('s, 'e, byte list) act) \<Rightarrow> (byte list \<Rightarrow> nat \<Rightarrow> ('s, 'e, unit) act)
    \<Rightarrow> 'e \<Rightarrow> crypto \<Rightarrow> tcp_endpoint \<Rightarrow> ('s, 'e, unit) act" where
  "host_exchange rd wr err cr ep =
    bindA (rd MAX_AUTH_FRAME) (\<lambda>payload.
    bindA (liftA (\<lambda>_. err) (challenge_try_from payload)) (\<lambda>challenge.
    bindA (liftA (\<lambda>_. err)
      (response_to_bytes (response_for_challenge cr (ep_capability ep) (ep_vm_id ep) challenge)))
      (\<lambda>response.
    bindA (wr response MAX_AUTH_FRAME) (\<lambda>_.
    bindA (rd MAX_AUTH_FRAME) (\<lambda>payload.
    bindA (liftA (\<lambda>_. err) (accepted_try_from payload)) (\<lambda>accepted.
    if aa_version accepted \<noteq> PROTOCOL_VERSION then failA err else retA ()))))))"

abbreviation host_mac :: "crypto \<Rightarrow> tcp_endpoint \<Rightarrow> byte list \<Rightarrow> byte list" where
  "host_mac cr ep \<equiv> compute_auth_mac cr (ep_capability ep) (ep_vm_id ep) COMMAND_AUTH_CONTEXT_V1"

lemma auth_frame_max: "MAX_AUTH_FRAME \<le> MAX_COMMAND_FRAME" "MAC_LEN = 32" "MAX_AUTH_FRAME = 4096"
  by (simp_all add: MAX_AUTH_FRAME_def MAX_COMMAND_FRAME_def MAC_LEN_def)

context frame_link
begin

lemma host_exchange_ok:
  assumes "crypto_ok cr" "ready s" "39 \<le> room s" "length ch = MAC_LEN"
    and inp: "incoming s = frame_bytes (challenge_frame ch) @ frame_bytes accepted_frame @ rest"
  shows "\<exists>s'. host_exchange read_frame write_frame err cr ep s = (Inr (), s') \<and> incoming s' = rest
    \<and> outgoing s' = outgoing s @ frame_bytes (response_frame (host_mac cr ep ch))
    \<and> room s' = room s - 39 \<and> ready s'"
proof -
  let ?r = "response_frame (host_mac cr ep ch)"
  have len: "length ?r = 35" using length_macs(2) [OF assms(1)] by (simp add: MAC_LEN_def)
  obtain s1 where s1: "read_frame MAX_AUTH_FRAME s = (Inr (challenge_frame ch), s1)"
    "incoming s1 = frame_bytes accepted_frame @ rest" "outgoing s1 = outgoing s" "room s1 = room s"
    "ready s1"
    using read_ok [OF assms(2) inp, of MAX_AUTH_FRAME] assms(4) auth_frame_max by auto
  obtain s2 where s2: "write_frame ?r MAX_AUTH_FRAME s1 = (Inr (), s2)"
    "outgoing s2 = outgoing s1 @ frame_bytes ?r" "incoming s2 = incoming s1"
    "room s2 = room s1 - 39" "ready s2"
    using write_ok [OF s1(5), of ?r MAX_AUTH_FRAME] len assms(3) s1(4) auth_frame_max by auto
  obtain s3 where s3: "read_frame MAX_AUTH_FRAME s2 = (Inr accepted_frame, s3)"
    "incoming s3 = rest" "outgoing s3 = outgoing s2" "room s3 = room s2" "ready s3"
    using read_ok [OF s2(5), of accepted_frame rest MAX_AUTH_FRAME] s1(2) s2(3) auth_frame_max
    by auto
  have "challenge_try_from (challenge_frame ch) =
      Ok \<lparr>ac_version = PROTOCOL_VERSION, ac_challenge = ch\<rparr>"
    "accepted_try_from accepted_frame = Ok \<lparr>aa_version = PROTOCOL_VERSION\<rparr>"
    by (simp_all add: challenge_try_from_Ok accepted_try_from_Ok assms(4))
  with s1 s2 s3 show ?thesis
    by (simp add: host_exchange_def act_simps response_for_challenge_bytes [OF assms(1)])
qed

lemma host_exchange_inv:
  assumes "crypto_ok cr" "host_exchange read_frame write_frame err cr ep s = (Inr u, s')"
  shows "\<exists>ch. length ch = MAC_LEN
    \<and> outgoing s' = outgoing s @ frame_bytes (response_frame (host_mac cr ep ch))
    \<and> (\<exists>rest. incoming s = frame_bytes (challenge_frame ch) @ frame_bytes accepted_frame @ rest)"
proof -
  from assms(2) obtain p1 s1 m r s2 p2 where
    r1: "read_frame MAX_AUTH_FRAME s = (Inr p1, s1)" and m: "challenge_try_from p1 = Ok m"
    and r: "response_to_bytes (response_for_challenge cr (ep_capability ep) (ep_vm_id ep) m) = Ok r"
    and w: "write_frame r MAX_AUTH_FRAME s1 = (Inr (), s2)"
    and r2: "read_frame MAX_AUTH_FRAME s2 = (Inr p2, s')" and p2: "p2 = accepted_frame"
    by (auto simp: host_exchange_def act_simps accepted_try_from_Ok split: if_splits)
  from read_inv [OF r1] read_inv [OF r2]
  have i: "incoming s = frame_bytes p1 @ incoming s1" "incoming s2 = frame_bytes p2 @ incoming s'"
    by auto
  moreover have "incoming s2 = incoming s1" "outgoing s1 = outgoing s" "outgoing s' = outgoing s2"
    using write_input [of r MAX_AUTH_FRAME s1] w read_output [of MAX_AUTH_FRAME s] r1
      read_output [of MAX_AUTH_FRAME s2] r2 by simp_all
  moreover from write_inv [OF w] have "outgoing s2 = outgoing s1 @ frame_bytes r" by simp
  ultimately show ?thesis
    using m r p2 by (auto simp: challenge_try_from_Ok response_for_challenge_bytes [OF assms(1)])
qed

end

interpretation host_sync: frame_link "\<lambda>m. authFail (read_frame_with_limit sync_io m)"
    "\<lambda>p m. authFail (write_frame_limited sync_io p m)" so_in so_out so_room sock_ready
  by (rule sync_link.renamed_errors)

interpretation host_async: frame_link "\<lambda>m. authFail (read_frame_with_limit_async async_io m)"
    "\<lambda>p m. authFail (write_frame_limited_async async_io p m)" so_in so_out so_room sock_ready
  unfolding async_frame_functions by (rule async_link.renamed_errors)

lemma authenticate_async_exchange:
  "authenticate_async cr ep =
    host_exchange (\<lambda>m. authFail (read_frame_with_limit_async async_io m))
      (\<lambda>p m. authFail (write_frame_limited_async async_io p m)) TAuthenticationFailed cr ep"
  by (simp add: authenticate_async_def host_exchange_def Let_def)

lemma bindA_assoc: "bindA (bindA m f) g = bindA m (\<lambda>a. bindA (f a) g)"
  by (auto simp: bindA_def fun_eq_iff split: sum.splits prod.splits)

lemma bindA_if: "bindA (if c then m else m') f = (if c then bindA m f else bindA m' f)"
  by simp

lemma authenticate_blocking_exchange:
  "authenticate_blocking cr ep =
    bindA (authFail (set_read_timeout (Some AUTHENTICATION_DEADLINE))) (\<lambda>_.
    bindA (authFail (set_write_timeout (Some AUTHENTICATION_DEADLINE))) (\<lambda>_.
    bindA (host_exchange (\<lambda>m. authFail (read_frame_with_limit sync_io m))
      (\<lambda>p m. authFail (write_frame_limited sync_io p m)) TAuthenticationFailed cr ep) (\<lambda>_.
    bindA (authFail (set_read_timeout None)) (\<lambda>_.
    authFail (set_write_timeout None)))))"
  by (simp add: authenticate_blocking_def host_exchange_def bindA_assoc bindA_if bindA_base Let_def
      cong: if_cong)

lemma authFail_ctl:
  "so_ctl_err s = None \<Longrightarrow> authFail (sock_ctl f) s = (Inr (), f s)"
  by (simp add: sock_ctl_def mapErrA_def)

lemma sock_ctl_inv:
  "sock_ctl f s = (Inr u, s') \<longleftrightarrow> so_ctl_err s = None \<and> s' = f s"
  by (auto simp: sock_ctl_def split: option.splits)

lemma authenticate_blocking_ok:
  assumes "crypto_ok cr" "sock_ready s" "39 \<le> so_room s" "length ch = MAC_LEN"
    and "so_in s = frame_bytes (challenge_frame ch) @ frame_bytes accepted_frame @ rest"
  shows "\<exists>s'. authenticate_blocking cr ep s = (Inr (), s') \<and> so_in s' = rest
    \<and> so_out s' = so_out s @ frame_bytes (response_frame (host_mac cr ep ch))
    \<and> so_read_timeout s' = None \<and> so_write_timeout s' = None"
proof -
  let ?t = "s\<lparr>so_read_timeout := Some AUTHENTICATION_DEADLINE,
    so_write_timeout := Some AUTHENTICATION_DEADLINE\<rparr>"
  obtain s1 where "host_exchange (\<lambda>m. authFail (read_frame_with_limit sync_io m))
      (\<lambda>p m. authFail (write_frame_limited sync_io p m)) TAuthenticationFailed cr ep ?t = (Inr (), s1)"
    "so_in s1 = rest" "so_out s1 = so_out s @ frame_bytes (response_frame (host_mac cr ep ch))"
    "sock_ready s1"
    using host_sync.host_exchange_ok [OF assms(1), of ?t ch rest TAuthenticationFailed ep] assms
    by (auto simp: sock_ready_def)
  with assms(2) show ?thesis
    by (simp add: authenticate_blocking_exchange act_simps authFail_ctl sock_ready_def)
qed

lemma authenticate_blocking_inv:
  assumes "crypto_ok cr" "authenticate_blocking cr ep s = (Inr u, s')"
  shows "\<exists>ch. length ch = MAC_LEN
    \<and> so_out s' = so_out s @ frame_bytes (response_frame (host_mac cr ep ch))
    \<and> (\<exists>rest. so_in s = frame_bytes (challenge_frame ch) @ frame_bytes accepted_frame @ rest)"
proof -
  from assms(2) obtain s1 s2 where
    "host_exchange (\<lambda>m. authFail (read_frame_with_limit sync_io m))
      (\<lambda>p m. authFail (write_frame_limited sync_io p m)) TAuthenticationFailed cr ep s1 = (Inr (), s2)"
    "so_in s1 = so_in s" "so_out s1 = so_out s" "so_out s' = so_out s2"
    by (auto simp: authenticate_blocking_exchange act_simps sock_ctl_inv)
  with host_sync.host_exchange_inv [OF assms(1) this(1)] show ?thesis by simp
qed

section \<open>The guest side\<close>

abbreviation guest_challenge :: "crypto \<Rightarrow> guest_authentication \<Rightarrow> u64 \<Rightarrow> byte list" where
  "guest_challenge cr ga n \<equiv> derive_auth_challenge cr (ga_capability ga) (ga_vm_id ga) n"

abbreviation guest_mac :: "crypto \<Rightarrow> guest_authentication \<Rightarrow> u64 \<Rightarrow> byte list" where
  "guest_mac cr ga n \<equiv> compute_auth_mac cr (ga_capability ga) (ga_vm_id ga) COMMAND_AUTH_CONTEXT_V1
     (guest_challenge cr ga n)"

lemma guest_challenge_bytes:
  assumes "crypto_ok cr"
  shows "challenge_to_bytes \<lparr>ac_version = PROTOCOL_VERSION, ac_challenge = guest_challenge cr ga n\<rparr> =
    Ok (challenge_frame (guest_challenge cr ga n))"
  using length_macs(1) [OF assms] by (simp add: challenge_to_bytes_Ok MAC_LEN_def)

lemma authenticate_with_counter_inv:
  assumes "crypto_ok cr" "authenticate_with_counter cr ga n s = (Inr u, s')"
  shows "so_in s = frame_bytes (response_frame (guest_mac cr ga n)) @ so_in s'
    \<and> so_out s' = so_out s @ frame_bytes (challenge_frame (guest_challenge cr ga n))
        @ frame_bytes accepted_frame"
proof -
  let ?c = "challenge_frame (guest_challenge cr ga n)"
  from assms(2) obtain s1 p s2 m where
    w1: "guest_write_payload ?c MAX_AUTH_FRAME s = (Inr (), s1)"
    and r: "guest_read_frame MAX_AUTH_FRAME s1 = (Inr p, s2)" and m: "response_try_from p = Ok m"
    and mac: "ar_mac m = guest_mac cr ga n"
    and w2: "guest_write_payload accepted_frame MAX_AUTH_FRAME s2 = (Inr (), s')"
    by (auto simp: authenticate_with_counter_def Let_def act_simps accepted_to_bytes_Ok
        guest_challenge_bytes [OF assms(1)] crypto_okD [OF assms(1)] split: if_splits)
  have io: "so_in s1 = so_in s" "so_in s' = so_in s2" "so_out s2 = so_out s1"
    using guest_link.write_input [of ?c MAX_AUTH_FRAME s] w1
      guest_link.write_input [of accepted_frame MAX_AUTH_FRAME s2] w2
      guest_link.read_output [of MAX_AUTH_FRAME s1] r by simp_all
  with guest_link.write_inv [OF w1] guest_link.write_inv [OF w2] guest_link.read_inv [OF r] m mac
  show ?thesis by (simp add: response_try_from_Ok)
qed

lemma authenticate_with_counter_ok:
  assumes "crypto_ok cr" "sock_ready s" "46 \<le> so_room s"
    and inp: "so_in s = frame_bytes (response_frame (guest_mac cr ga n)) @ rest"
  shows "\<exists>s'. authenticate_with_counter cr ga n s = (Inr (), s') \<and> so_in s' = rest"
proof -
  let ?c = "challenge_frame (guest_challenge cr ga n)" and ?r = "response_frame (guest_mac cr ga n)"
  have len: "length ?c = 35" "length ?r = 35" "length (guest_mac cr ga n) = MAC_LEN"
    using length_macs [OF assms(1)] by (simp_all add: MAC_LEN_def)
  obtain s1 where s1: "guest_write_payload ?c MAX_AUTH_FRAME s = (Inr (), s1)"
    "so_in s1 = so_in s" "so_room s1 = so_room s - 39" "sock_ready s1"
    using guest_link.write_ok [OF assms(2), of ?c MAX_AUTH_FRAME] len assms(3) auth_frame_max by auto
  obtain s2 where s2: "guest_read_frame MAX_AUTH_FRAME s1 = (Inr ?r, s2)"
    "so_in s2 = rest" "so_room s2 = so_room s1" "sock_ready s2"
    using guest_link.read_ok [OF s1(4), of ?r rest MAX_AUTH_FRAME] s1(2) inp len auth_frame_max by auto
  have room2: "7 \<le> so_room s2" using assms(3) s1(3) s2(3) by linarith
  obtain s3 where s3: "guest_write_payload accepted_frame MAX_AUTH_FRAME s2 = (Inr (), s3)"
    "so_in s3 = so_in s2"
    using guest_link.write_ok [OF s2(4), of accepted_frame MAX_AUTH_FRAME] room2 auth_frame_max by auto
  have "response_try_from ?r = Ok \<lparr>ar_version = PROTOCOL_VERSION, ar_mac = guest_mac cr ga n\<rparr>"
    "accepted_to_bytes \<lparr>aa_version = PROTOCOL_VERSION\<rparr> = Ok accepted_frame"
    using len by (simp_all add: response_try_from_Ok accepted_to_bytes_Ok)
  with s1 s2 s3 show ?thesis
    by (simp add: authenticate_with_counter_def act_simps guest_challenge_bytes [OF assms(1)]
        crypto_okD [OF assms(1)])
qed

section \<open>Both sides together\<close>

text \<open>
  The exchange as the two processes drive each other: the guest speaks first, the host answers what
  it has received so far, the guest continues with that answer, and the host finishes. Each side is
  run again from the start on the longer input; a run is deterministic, so the earlier messages
  repeat.
\<close>

definition handshake_run ::
  "crypto \<Rightarrow> tcp_endpoint \<Rightarrow> guest_authentication \<Rightarrow> u64 \<Rightarrow> socket \<Rightarrow> socket
    \<Rightarrow> ((transport_error stop + unit) \<times> socket) \<times> ((init_error stop + unit) \<times> socket)" where
  "handshake_run cr ep ga n host guest =
    (let (_, g0) = authenticate_with_counter cr ga n (guest\<lparr>so_in := []\<rparr>);
         (_, h1) = authenticate_blocking cr ep (host\<lparr>so_in := so_out g0\<rparr>);
         (g_result, g1) = authenticate_with_counter cr ga n (guest\<lparr>so_in := so_out h1\<rparr>);
         (h_result, h2) = authenticate_blocking cr ep (host\<lparr>so_in := so_out g1\<rparr>)
     in ((h_result, h2), (g_result, g1)))"

context frame_link
begin

lemma read_frame_empty: "incoming s = [] \<Longrightarrow> \<exists>e s'. read_frame maximum s = (Inl e, s')"
proof -
  assume empty: "incoming s = []"
  obtain r s' where r: "read_frame maximum s = (r, s')" by (rule prod.exhaust)
  have "r \<noteq> Inr p" for p
    using read_inv [of maximum s p s'] r empty by auto
  with r show ?thesis by (cases r) auto
qed

lemma host_exchange_first_message:
  assumes "crypto_ok cr" "ready s" "39 \<le> room s" "length ch = MAC_LEN"
    and inp: "incoming s = frame_bytes (challenge_frame ch)"
  shows "\<exists>e s'. host_exchange read_frame write_frame err cr ep s = (Inl e, s')
    \<and> outgoing s' = outgoing s @ frame_bytes (response_frame (host_mac cr ep ch))"
proof -
  let ?r = "response_frame (host_mac cr ep ch)"
  have len: "length ?r = 35" using length_macs(2) [OF assms(1)] by (simp add: MAC_LEN_def)
  obtain s1 where s1: "read_frame MAX_AUTH_FRAME s = (Inr (challenge_frame ch), s1)"
    "incoming s1 = []" "outgoing s1 = outgoing s" "room s1 = room s" "ready s1"
    using read_ok [OF assms(2), of "challenge_frame ch" "[]" MAX_AUTH_FRAME] inp assms(4)
      auth_frame_max by auto
  obtain s2 where s2: "write_frame ?r MAX_AUTH_FRAME s1 = (Inr (), s2)"
    "outgoing s2 = outgoing s1 @ frame_bytes ?r" "incoming s2 = incoming s1"
    using write_ok [OF s1(5), of ?r MAX_AUTH_FRAME] len assms(3) s1(4) auth_frame_max by auto
  obtain e s3 where s3: "read_frame MAX_AUTH_FRAME s2 = (Inl e, s3)"
    using read_frame_empty s1(2) s2(3) by metis
  moreover have "outgoing s3 = outgoing s2" using read_output [of MAX_AUTH_FRAME s2] s3 by simp
  moreover have "challenge_try_from (challenge_frame ch) =
      Ok \<lparr>ac_version = PROTOCOL_VERSION, ac_challenge = ch\<rparr>"
    by (simp add: challenge_try_from_Ok assms(4))
  ultimately show ?thesis using s1 s2
    by (simp add: host_exchange_def act_simps response_for_challenge_bytes [OF assms(1)])
qed

end

lemma guest_first_message:
  assumes "crypto_ok cr" "sock_ready s" "46 \<le> so_room s" "so_in s = []" "so_out s = []"
  shows "so_out (snd (authenticate_with_counter cr ga n s)) =
    frame_bytes (challenge_frame (guest_challenge cr ga n))"
proof -
  let ?c = "challenge_frame (guest_challenge cr ga n)"
  have len: "length ?c = 35" using length_macs [OF assms(1)] by (simp add: MAC_LEN_def)
  obtain s1 where s1: "guest_write_payload ?c MAX_AUTH_FRAME s = (Inr (), s1)"
    "so_in s1 = so_in s" "so_out s1 = so_out s @ frame_bytes ?c"
    using guest_link.write_ok [OF assms(2), of ?c MAX_AUTH_FRAME] len assms(3) auth_frame_max by auto
  obtain e s2 where s2: "guest_read_frame MAX_AUTH_FRAME s1 = (Inl e, s2)"
    using guest_link.read_frame_empty [of s1 MAX_AUTH_FRAME] s1(2) assms(4) by auto
  moreover have "so_out s2 = so_out s1"
    using guest_link.read_output [of MAX_AUTH_FRAME s1] s2 by simp
  ultimately show ?thesis using s1 assms(5)
    by (simp add: authenticate_with_counter_def act_simps guest_challenge_bytes [OF assms(1)])
qed

lemma host_first_message:
  assumes "crypto_ok cr" "sock_ready s" "39 \<le> so_room s" "length ch = MAC_LEN"
    and "so_in s = frame_bytes (challenge_frame ch)"
  shows "so_out (snd (authenticate_blocking cr ep s)) =
    so_out s @ frame_bytes (response_frame (host_mac cr ep ch))"
proof -
  let ?t = "s\<lparr>so_read_timeout := Some AUTHENTICATION_DEADLINE,
    so_write_timeout := Some AUTHENTICATION_DEADLINE\<rparr>"
  obtain e s1 where "host_exchange (\<lambda>m. authFail (read_frame_with_limit sync_io m))
      (\<lambda>p m. authFail (write_frame_limited sync_io p m)) TAuthenticationFailed cr ep ?t = (Inl e, s1)"
    "so_out s1 = so_out s @ frame_bytes (response_frame (host_mac cr ep ch))"
    using host_sync.host_exchange_first_message [OF assms(1), of ?t ch TAuthenticationFailed ep] assms
    by (auto simp: sock_ready_def)
  with assms(2) show ?thesis
    by (simp add: authenticate_blocking_exchange act_simps authFail_ctl sock_ready_def)
qed

section \<open>Properties of the handshake\<close>

definition sample_endpoint :: tcp_endpoint where
  "sample_endpoint = \<lparr>ep_address = ([10, 77, 0, 10], 1024), ep_vm_id = replicate 16 7,
     ep_capability = replicate 32 9\<rparr>"

definition sample_guest :: guest_authentication where
  "sample_guest = \<lparr>ga_vm_id = replicate 16 7, ga_capability = replicate 32 9\<rparr>"

text \<open>
  C2. The handshake completes. A host and a guest that hold the same capability and VM identity,
  over sockets with room for the frames, authenticate each other's frames for every connection
  counter: both sides return success, each has received exactly what the other sent, and nothing is
  left over in either direction.
\<close>

theorem handshake_completes:
  assumes "crypto_ok cr" "sock_ready host" "sock_ready guest"
    and "so_out host = []" "so_out guest = []" "46 \<le> so_room host" "46 \<le> so_room guest"
    and "ep_capability ep = ga_capability ga" "ep_vm_id ep = ga_vm_id ga"
  shows "\<exists>h g. handshake_run cr ep ga n host guest = ((Inr (), h), (Inr (), g))
    \<and> so_in h = [] \<and> so_in g = []
    \<and> so_out h = frame_bytes (response_frame (guest_mac cr ga n))
    \<and> so_out g = frame_bytes (challenge_frame (guest_challenge cr ga n)) @ frame_bytes accepted_frame"
proof -
  let ?c = "challenge_frame (guest_challenge cr ga n)" and ?r = "response_frame (guest_mac cr ga n)"
  have ready: "sock_ready (host\<lparr>so_in := x\<rparr>)" "sock_ready (guest\<lparr>so_in := x\<rparr>)" for x
    using assms(2,3) by (simp_all add: sock_ready_def)
  have ch: "length (guest_challenge cr ga n) = MAC_LEN" using length_macs [OF assms(1)] by simp
  have g0: "so_out (snd (authenticate_with_counter cr ga n (guest\<lparr>so_in := []\<rparr>))) = frame_bytes ?c"
    using guest_first_message [OF assms(1) ready(2), of "[]"] assms by simp
  have h1: "so_out (snd (authenticate_blocking cr ep (host\<lparr>so_in := frame_bytes ?c\<rparr>))) = frame_bytes ?r"
    using host_first_message [OF assms(1) ready(1) _ ch] assms by simp
  obtain g where g: "authenticate_with_counter cr ga n (guest\<lparr>so_in := frame_bytes ?r\<rparr>) = (Inr (), g)"
    "so_in g = []"
    using authenticate_with_counter_ok [OF assms(1) ready(2), of "frame_bytes ?r" ga n "[]"] assms
    by auto
  from authenticate_with_counter_inv [OF assms(1) g(1)] assms(5)
  have og: "so_out g = frame_bytes ?c @ frame_bytes accepted_frame" by simp
  obtain h where "authenticate_blocking cr ep (host\<lparr>so_in := so_out g\<rparr>) = (Inr (), h)"
    "so_in h = []" "so_out h = frame_bytes ?r"
    using authenticate_blocking_ok [OF assms(1) ready(1) _ ch, of "so_out g" "[]" ep] og assms by auto
  with g0 h1 g og show ?thesis
    by (simp add: handshake_run_def Let_def case_prod_unfold)
qed

theorem handshake_completes_witness:
  "\<exists>h g. handshake_run sample_crypto sample_endpoint sample_guest 5 (quiet_socket []) (quiet_socket [])
     = ((Inr (), h), (Inr (), g)) \<and> so_in h = [] \<and> so_in g = []"
  using handshake_completes [OF sample_crypto_ok quiet_socket_ready quiet_socket_ready,
      of "[]" "[]" sample_endpoint sample_guest 5]
  by (auto simp: quiet_socket_def sample_endpoint_def sample_guest_def)

text \<open>
  C1. The guest accepts a connection exactly when the peer proves the capability. For any bytes a
  peer sends, authentication on counter \<open>n\<close> succeeds if and only if the counter is not exhausted and
  the first frame is the response whose MAC is the one over the challenge of this very counter
  under the guest's capability and VM identity.
\<close>

theorem guest_accepts_iff:
  assumes "crypto_ok cr" "sock_ready s" "46 \<le> so_room s"
  shows "fst (authenticate_connection cr ga n s) = Inr () \<longleftrightarrow>
    n \<noteq> u64_max \<and> (\<exists>rest. so_in s = frame_bytes (response_frame (guest_mac cr ga n)) @ rest)"
proof
  assume "fst (authenticate_connection cr ga n s) = Inr ()"
  then obtain s' where "n \<noteq> u64_max" "authenticate_with_counter cr ga n s = (Inr (), s')"
    by (auto simp: authenticate_connection_def split: if_splits prod.splits)
  with authenticate_with_counter_inv [OF assms(1) this(2)]
  show "n \<noteq> u64_max \<and> (\<exists>rest. so_in s = frame_bytes (response_frame (guest_mac cr ga n)) @ rest)"
    by blast
next
  assume "n \<noteq> u64_max \<and> (\<exists>rest. so_in s = frame_bytes (response_frame (guest_mac cr ga n)) @ rest)"
  then obtain rest s' where "n \<noteq> u64_max" "authenticate_with_counter cr ga n s = (Inr (), s')"
    using authenticate_with_counter_ok [OF assms] by blast
  then show "fst (authenticate_connection cr ga n s) = Inr ()"
    by (simp add: authenticate_connection_def)
qed

theorem guest_accepts_iff_witness:
  "fst (authenticate_connection sample_crypto sample_guest 5
     (quiet_socket (frame_bytes (response_frame (guest_mac sample_crypto sample_guest 5)) @ [1]))) = Inr ()
   \<and> fst (authenticate_connection sample_crypto sample_guest u64_max (quiet_socket [])) \<noteq> Inr ()"
  using guest_accepts_iff [OF sample_crypto_ok quiet_socket_ready,
      of "frame_bytes (response_frame (guest_mac sample_crypto sample_guest 5)) @ [1]" sample_guest 5]
    guest_accepts_iff [OF sample_crypto_ok quiet_socket_ready, of "[]" sample_guest u64_max]
  by (auto simp: quiet_socket_def u64_max_def)

text \<open>
  C3. A recorded response cannot be replayed. If the response that was valid for connection
  \<open>n\<close> is accepted on connection \<open>n'\<close>, the two connections are the same one, or SHA-256 collides on
  one of the two pairs of HMAC messages the statement names.
\<close>

theorem replay_needs_collision:
  assumes "crypto_ok cr" "length (ga_vm_id ga) = 16"
    and "so_in s = frame_bytes (response_frame (guest_mac cr ga n)) @ rest"
    and "fst (authenticate_connection cr ga n' s) = Inr ()"
  shows "n = n'
    \<or> hmac_collision cr (ga_capability ga) (challenge_transcript (ga_vm_id ga) n)
        (challenge_transcript (ga_vm_id ga) n')
    \<or> hmac_collision cr (ga_capability ga)
        (response_transcript (ga_vm_id ga) COMMAND_AUTH_CONTEXT_V1 (guest_challenge cr ga n))
        (response_transcript (ga_vm_id ga) COMMAND_AUTH_CONTEXT_V1 (guest_challenge cr ga n'))"
proof -
  from assms(4) obtain s' where "authenticate_with_counter cr ga n' s = (Inr (), s')"
    by (auto simp: authenticate_connection_def split: if_splits prod.splits)
  from authenticate_with_counter_inv [OF assms(1) this] assms(3)
  have "frame_bytes (response_frame (guest_mac cr ga n)) @ rest =
      frame_bytes (response_frame (guest_mac cr ga n')) @ so_in s'" by simp
  then have "guest_mac cr ga n = guest_mac cr ga n'"
    using length_macs(2) [OF assms(1)] by (simp add: frame_bytes_def response_frame_def)
  moreover have "length (guest_challenge cr ga n) = length (guest_challenge cr ga n')"
    using length_macs(1) [OF assms(1)] by simp
  ultimately show ?thesis
    using assms(1,2)
    by (simp add: mac_transcripts rfc_hmac_binding response_transcript_inject)
      (metis challenge_transcript_inject rfc_hmac_binding)
qed

theorem replay_needs_collision_witness:
  "fst (authenticate_connection sample_crypto sample_guest 256
     (quiet_socket (frame_bytes (response_frame (guest_mac sample_crypto sample_guest 1))))) = Inr ()
   \<and> (hmac_collision sample_crypto (replicate 32 9) (challenge_transcript (replicate 16 7) 1)
        (challenge_transcript (replicate 16 7) 256)
      \<or> hmac_collision sample_crypto (replicate 32 9)
        (response_transcript (replicate 16 7) COMMAND_AUTH_CONTEXT_V1 (guest_challenge sample_crypto sample_guest 1))
        (response_transcript (replicate 16 7) COMMAND_AUTH_CONTEXT_V1 (guest_challenge sample_crypto sample_guest 256)))"
proof -
  let ?s = "quiet_socket (frame_bytes (response_frame (guest_mac sample_crypto sample_guest 1)))"
  have "guest_challenge sample_crypto sample_guest 1 = guest_challenge sample_crypto sample_guest 256"
    by code_simp
  then have "so_in ?s = frame_bytes (response_frame (guest_mac sample_crypto sample_guest 256)) @ []"
    by (simp add: quiet_socket_def)
  then obtain s' where "authenticate_with_counter sample_crypto sample_guest 256 ?s = (Inr (), s')"
    using authenticate_with_counter_ok [OF sample_crypto_ok quiet_socket_ready, of _ sample_guest 256 "[]"]
    by (auto simp: quiet_socket_def)
  then have acc: "fst (authenticate_connection sample_crypto sample_guest 256 ?s) = Inr ()"
    by (simp add: authenticate_connection_def u64_max_def)
  have "length (ga_vm_id sample_guest) = 16"
    "so_in ?s = frame_bytes (response_frame (guest_mac sample_crypto sample_guest 1)) @ []"
    by (simp_all add: sample_guest_def quiet_socket_def)
  from replay_needs_collision [OF sample_crypto_ok this acc] acc show ?thesis
    by (simp add: sample_guest_def)
qed

text \<open>
  The guest's connection counter never repeats and never wraps. Each authentication attempt
  either takes a fresh counter value, leaving the next one larger by one, or, once all values are
  used, fails without sending or reading anything.
\<close>

theorem connection_counter_fresh:
  "authenticate_connection cr ga n s = (r, n', s') \<longleftrightarrow>
    (n = u64_max \<and> r = Inl (Fails IAuthentication) \<and> n' = n \<and> s' = s)
    \<or> (unat n' = unat n + 1 \<and> authenticate_with_counter cr ga n s = (r, s'))"
proof -
  have max: "unat u64_max = 2 ^ 64 - 1" by (simp add: u64_max_def unsigned_minus_1_eq_mask mask_eq_exp_minus_1)
  have "unat (n + 1) = unat n + 1" if "n \<noteq> u64_max"
  proof -
    have "unat n \<noteq> 2 ^ 64 - 1" using that max by (metis word_unat_eq_iff)
    moreover have "unat n < 2 ^ 64" using unsigned_less [of n] by simp
    ultimately have "unat n + 1 < 2 ^ 64" by linarith
    then show ?thesis using unat_add_lem [of n 1] by simp
  qed
  moreover have "n' = n + 1" if "unat n' = unat n + 1"
    using arg_cong [OF that, of "\<lambda>k. word_of_nat k :: u64"] by simp
  moreover have "n \<noteq> u64_max" if "unat n' = unat n + 1"
    using that unat_u64_less [of n'] max by auto
  ultimately show ?thesis
    by (auto simp: authenticate_connection_def split: prod.splits)
qed

text \<open>
  C13. What the host checks. Authentication of a connection succeeds on the host exactly when the
  peer sends a well-formed challenge followed by the fixed acceptance frame; neither depends on the
  capability. The exchange proves the host to the guest, and any peer that speaks the frame format
  is accepted by the host. The answer sent is the MAC over the received challenge.
\<close>

theorem host_accepts_iff:
  assumes "crypto_ok cr" "sock_ready s" "46 \<le> so_room s"
  shows "fst (authenticate_blocking cr ep s) = Inr () \<longleftrightarrow>
    (\<exists>ch rest. length ch = 32
       \<and> so_in s = frame_bytes (challenge_frame ch) @ frame_bytes accepted_frame @ rest)"
proof
  assume "fst (authenticate_blocking cr ep s) = Inr ()"
  then obtain s' where "authenticate_blocking cr ep s = (Inr (), s')" by (metis prod.collapse)
  from authenticate_blocking_inv [OF assms(1) this]
  show "\<exists>ch rest. length ch = 32
       \<and> so_in s = frame_bytes (challenge_frame ch) @ frame_bytes accepted_frame @ rest"
    by (auto simp: MAC_LEN_def)
next
  assume "\<exists>ch rest. length ch = 32
       \<and> so_in s = frame_bytes (challenge_frame ch) @ frame_bytes accepted_frame @ rest"
  then show "fst (authenticate_blocking cr ep s) = Inr ()"
    using authenticate_blocking_ok [OF assms(1,2), of _ _ ep] assms(3)
    by (fastforce simp: MAC_LEN_def)
qed

theorem host_accepts_iff_witness:
  "fst (authenticate_blocking sample_crypto sample_endpoint
     (quiet_socket (frame_bytes (challenge_frame (replicate 32 0)) @ frame_bytes accepted_frame))) = Inr ()"
proof -
  let ?s = "quiet_socket (frame_bytes (challenge_frame (replicate 32 0)) @ frame_bytes accepted_frame)"
  have "46 \<le> so_room ?s" "length (replicate 32 (0 :: byte)) = 32"
    "so_in ?s = frame_bytes (challenge_frame (replicate 32 0)) @ frame_bytes accepted_frame @ []"
    by (simp_all add: quiet_socket_def)
  then show ?thesis using host_accepts_iff [OF sample_crypto_ok quiet_socket_ready] by blast
qed

section \<open>Connecting always returns\<close>

text \<open>An action that, under read and write timeouts, returns and keeps the timeouts.\<close>

definition timed :: "socket \<Rightarrow> bool" where
  "timed s \<longleftrightarrow> so_read_timeout s \<noteq> None \<and> so_write_timeout s \<noteq> None"

definition timely :: "(socket, 'e, 'a) act \<Rightarrow> bool" where
  "timely m \<longleftrightarrow> (\<forall>s. timed s \<longrightarrow> fst (m s) \<noteq> Inl Blocks \<and> timed (snd (m s)))"

named_theorems timely_intros \<open>closure rules for timely actions\<close>

lemma timely_base [timely_intros]: "timely (retA a)" "timely (failA e)" "timely (liftA f r)"
  by (simp_all add: timely_def retA_def failA_def liftA_def split: sum.split)

lemma timely_bindA [timely_intros]:
  assumes "timely m" "\<And>a. timely (f a)"
  shows "timely (bindA m f)"
  using assms by (simp add: timely_def bindA_def case_prod_unfold split: sum.split) blast

lemma timely_mapErrA [timely_intros]: "timely m \<Longrightarrow> timely (mapErrA f m)"
  by (simp add: timely_def mapErrA_def case_prod_unfold split: sum.split stop.split) blast

lemma timely_if [timely_intros]:
  "timely m \<Longrightarrow> timely m' \<Longrightarrow> timely (if c then m else m')"
  "timely m \<Longrightarrow> timely m' \<Longrightarrow> timely (\<lambda>s. if P s then m s else m' s)"
  by (simp_all add: timely_def)

lemma timely_sync_io [timely_intros]:
  "timely (sync_read_frame_bytes n)" "timely (sync_write_frame_bytes d)"
  by (simp_all add: timely_def timed_def sync_read_frame_bytes_def sync_write_frame_bytes_def sock_defs
      bindA_def mapErrA_def stalled_def read_stop_def write_stop_def
      split: option.split stream_end.split)

lemma sync_io_methods:
  "fi_read sync_io = sync_read_frame_bytes" "fi_write sync_io = sync_write_frame_bytes"
  "fi_flush sync_io = retA ()"
  by (simp_all add: sync_io_def)

lemma timely_frames [timely_intros]:
  "timely (read_frame_with_limit sync_io m)" "timely (write_frame_limited sync_io p m)"
  unfolding read_frame_with_limit_def write_frame_limited_def sync_io_methods Let_def
  by (intro timely_intros)+

lemma timely_host_exchange:
  "timely (host_exchange (\<lambda>m. authFail (read_frame_with_limit sync_io m))
     (\<lambda>p m. authFail (write_frame_limited sync_io p m)) TAuthenticationFailed cr ep)"
  unfolding host_exchange_def by (intro timely_intros)

lemma authenticate_blocking_returns: "fst (authenticate_blocking cr ep s) \<noteq> Inl Blocks"
proof -
  let ?t = "s\<lparr>so_read_timeout := Some AUTHENTICATION_DEADLINE,
    so_write_timeout := Some AUTHENTICATION_DEADLINE\<rparr>"
  obtain r s' where h: "host_exchange (\<lambda>m. authFail (read_frame_with_limit sync_io m))
     (\<lambda>p m. authFail (write_frame_limited sync_io p m)) TAuthenticationFailed cr ep ?t = (r, s')"
    by (rule prod.exhaust)
  moreover have "r \<noteq> Inl Blocks"
    using timely_host_exchange [of cr ep, unfolded timely_def, rule_format, of ?t] h
    by (simp add: timed_def)
  ultimately show ?thesis
    by (cases r; cases "so_ctl_err s"; cases "so_ctl_err s'")
       (simp_all add: authenticate_blocking_exchange bindA_def mapErrA_def sock_ctl_def)
qed

definition usable :: "io_error_kind stop + socket \<Rightarrow> bool" where
  "usable answer \<longleftrightarrow> (case answer of Inr s \<Rightarrow> so_ctl_err s = None | Inl _ \<Rightarrow> False)"

lemma connect_attempts_first:
  "connect_attempts n k e answers =
    (case find (\<lambda>i. usable (answers i)) [k..<k + n] of
       Some i \<Rightarrow> Ok (projr (answers i))
     | None \<Rightarrow> Err (if n = 0 then (case e of Some e \<Rightarrow> e | None \<Rightarrow> TConnect) else TConnect))"
proof (induction n arbitrary: k e)
  case 0
  then show ?case by simp
next
  case (Suc n)
  have range: "[k..<k + Suc n] = k # [Suc k..<Suc k + n]" by (simp add: upt_rec)
  show ?case
    unfolding range
    by (cases "answers k")
      (auto simp: Suc.IH usable_def connect_inner_def simp del: upt_Suc split: option.split stop.split)
qed

text \<open>
  Connecting always returns, whatever the network and the peer do: the blocking connect because
  the exchange runs under read and write timeouts, the async connect because at most three attempts
  are made and the exchange runs under a deadline. The async connect uses the first attempt, of
  three, that yields a usable socket.
\<close>

theorem connect_returns:
  "fst (connect cr ep answer) \<noteq> Inl Blocks \<and> fst (connect_async cr ep answers) \<noteq> Inl Blocks
   \<and> connect_async_bounded answers =
      (case find (\<lambda>i. usable (answers i)) [0, 1, 2] of
         None \<Rightarrow> Err TConnect
       | Some i \<Rightarrow> Ok (projr (answers i)))"
proof -
  have "fst (connect cr ep answer) \<noteq> Inl Blocks"
    using authenticate_blocking_returns [of cr ep]
    by (auto simp: connect_def case_prod_unfold Let_def split: sum.split)
  moreover have "fst (connect_async cr ep answers) \<noteq> Inl Blocks"
    using deadlineA_returns [of TAuthenticationFailed "authenticate_async cr ep"]
    by (auto simp: connect_async_def case_prod_unfold Let_def split: sum.split)
  moreover have "[0..<0 + 3] = [0, 1, 2 :: nat]" by (simp add: upt_rec)
  then have "connect_attempts 3 0 None answers =
      (case find (\<lambda>i. usable (answers i)) [0, 1, 2] of
         None \<Rightarrow> Err TConnect | Some i \<Rightarrow> Ok (projr (answers i)))"
    using connect_attempts_first [of 3 0 None answers] by (simp only: split: option.split) simp
  ultimately show ?thesis
    unfolding connect_async_bounded_def MAX_ASYNC_CONNECT_ATTEMPTS_def by blast
qed

end
