(* ===== verification/Scheduler.thy ===== *)
theory Scheduler
  imports Prelude
begin

text \<open>
  The conditional-action engine of \<^verbatim>\<open>libs/scheduler/src/lib.rs\<close> as a transition system. Every spawned
  job has a program counter for the point of \<open>run_action\<close> it awaits at, and the coordinator a phase
  for its place in \<open>coordinate\<close>. What the engine does not decide, that is when a trigger or an
  action resolves and with what value, when a timer fires and when the run is cancelled, is a
  choice of the step relation; so is the order in which the runtime polls the jobs.
\<close>

section \<open>Results and task states\<close>

record action_result =
  res_succeeded :: bool
  res_message :: "string option"

definition action_success :: action_result where
  "action_success = \<lparr>res_succeeded = True, res_message = None\<rparr>"

definition action_failure :: "string \<Rightarrow> action_result" where
  "action_failure message = \<lparr>res_succeeded = False, res_message = Some message\<rparr>"

datatype task_state =
    Pending
  | Running
  | Succeeded action_result
  | Failed action_result
  | TimedOut
  | Cancelled

definition terminal :: "task_state \<Rightarrow> bool" where
  "terminal st \<longleftrightarrow> \<not> (st = Pending \<or> st = Running)"

text \<open>The \<open>BTreeMap\<close> of the snapshot, keyed by the index of the action in the plan.\<close>

record run_snapshot =
  sn_tasks :: "nat \<rightharpoonup> task_state"
  sn_finished :: bool

section \<open>The engine state\<close>

text \<open>
  Where a job is: waiting for a permit, waiting for its trigger, about to store a state under the
  observer's lock, inside the action, in the grace period after its deadline, or gone.
\<close>

datatype job =
    Acquire
  | AwaitTrigger
  | StoreCancelled
  | StoreRunning
  | Act
  | DeadlineGrace
  | StoreTimedOut
  | StoreOutcome action_result
  | Done

datatype phase = Joining | CancelGrace | Aborting | Over

text \<open>
  \<open>sc_capacity\<close> is the number of free permits of the semaphore, \<open>None\<close> without a cap.
  \<open>sc_invoked\<close> is a history variable: the actions that were called, in order.
\<close>

record sched =
  sc_jobs :: "job list"
  sc_deadline :: "bool list"
  sc_capacity :: "nat option"
  sc_grace :: bool
  sc_snapshot :: run_snapshot
  sc_cancel :: bool
  sc_child_cancel :: "nat \<Rightarrow> bool"
  sc_phase :: phase
  sc_invoked :: "nat list"

text \<open>\<open>Scheduler::start\<close>: one pending task and one spawned job per action.\<close>

definition start :: "nat option \<Rightarrow> bool \<Rightarrow> bool list \<Rightarrow> sched" where
  "start max_concurrent post_cancel_grace deadlines =
    \<lparr>sc_jobs = replicate (length deadlines) Acquire,
     sc_deadline = deadlines,
     sc_capacity = max_concurrent,
     sc_grace = post_cancel_grace,
     sc_snapshot = \<lparr>sn_tasks = (\<lambda>i. if i < length deadlines then Some Pending else None),
                    sn_finished = False\<rparr>,
     sc_cancel = False,
     sc_child_cancel = (\<lambda>_. False),
     sc_phase = Joining,
     sc_invoked = []\<rparr>"

definition set_state :: "nat \<Rightarrow> task_state \<Rightarrow> sched \<Rightarrow> sched" where
  "set_state i st s =
    s\<lparr>sc_snapshot := (sc_snapshot s)\<lparr>sn_tasks := (sn_tasks (sc_snapshot s))(i \<mapsto> st)\<rparr>\<rparr>"

definition goto :: "nat \<Rightarrow> job \<Rightarrow> sched \<Rightarrow> sched" where
  "goto i pc s = s\<lparr>sc_jobs := (sc_jobs s)[i := pc]\<rparr>"

text \<open>The end of a job drops its permit.\<close>

definition release :: "sched \<Rightarrow> sched" where
  "release s = s\<lparr>sc_capacity := map_option Suc (sc_capacity s)\<rparr>"

definition token_cancelled :: "sched \<Rightarrow> nat \<Rightarrow> bool" where
  "token_cancelled s i \<longleftrightarrow> sc_cancel s \<or> sc_child_cancel s i"

text \<open>The end of \<open>coordinate\<close>: what is not terminal is cancelled, and the run is finished.\<close>

definition finalize :: "sched \<Rightarrow> sched" where
  "finalize s =
    s\<lparr>sc_snapshot := \<lparr>sn_tasks = (\<lambda>i. map_option (\<lambda>st. if terminal st then st else Cancelled)
                                          (sn_tasks (sc_snapshot s) i)),
                     sn_finished = True\<rparr>,
      sc_phase := Over\<rparr>"

definition holds_permit :: "job \<Rightarrow> bool" where
  "holds_permit j \<longleftrightarrow> j \<noteq> Acquire \<and> j \<noteq> Done"

abbreviation job_at :: "sched \<Rightarrow> nat \<Rightarrow> job \<Rightarrow> bool" where
  "job_at s i j \<equiv> i < length (sc_jobs s) \<and> sc_jobs s ! i = j"

section \<open>Steps\<close>

datatype sched_event =
    EvPermit nat
  | EvTrigger nat bool
  | EvTokenCancelled nat
  | EvStore nat
  | EvReturn nat action_result
  | EvPanic nat
  | EvDeadline nat
  | EvGraceOver nat
  | EvKill nat
  | EvCancel
  | EvCoordinatorCancel
  | EvCoordinatorGraceOver
  | EvFinish

inductive sched_step :: "sched \<Rightarrow> sched_event \<Rightarrow> sched \<Rightarrow> bool" where
  permit_free:
    "job_at s i Acquire \<Longrightarrow> sc_capacity s = None \<Longrightarrow>
     sched_step s (EvPermit i) (goto i AwaitTrigger s)"
| permit_taken:
    "job_at s i Acquire \<Longrightarrow> sc_capacity s = Some (Suc c) \<Longrightarrow>
     sched_step s (EvPermit i) ((goto i AwaitTrigger s)\<lparr>sc_capacity := Some c\<rparr>)"
| trigger:
    "job_at s i AwaitTrigger \<Longrightarrow>
     sched_step s (EvTrigger i b)
       (goto i (if b then StoreRunning else StoreCancelled) s)"
| trigger_cancelled:
    "job_at s i AwaitTrigger \<Longrightarrow> token_cancelled s i \<Longrightarrow>
     sched_step s (EvTokenCancelled i) (goto i StoreCancelled s)"
| store_cancelled:
    "job_at s i StoreCancelled \<Longrightarrow>
     sched_step s (EvStore i) (release (goto i Done (set_state i Cancelled s)))"
| store_running:
    "job_at s i StoreRunning \<Longrightarrow>
     sched_step s (EvStore i)
       ((goto i Act (set_state i Running s))\<lparr>sc_invoked := sc_invoked s @ [i]\<rparr>)"
| action_returns:
    "job_at s i Act \<Longrightarrow> sched_step s (EvReturn i r) (goto i (StoreOutcome r) s)"
| job_panics:
    "i < length (sc_jobs s) \<Longrightarrow> sc_jobs s ! i \<in> {AwaitTrigger, Act, DeadlineGrace} \<Longrightarrow>
     sched_step s (EvPanic i) (release (goto i Done s))"
| deadline:
    "job_at s i Act \<Longrightarrow> sc_deadline s ! i \<Longrightarrow>
     sched_step s (EvDeadline i)
       ((goto i (if sc_grace s then DeadlineGrace else StoreTimedOut) s)
          \<lparr>sc_child_cancel := (sc_child_cancel s)(i := True)\<rparr>)"
| deadline_grace_over:
    "job_at s i DeadlineGrace \<Longrightarrow> sched_step s (EvGraceOver i) (goto i StoreTimedOut s)"
| store_timed_out:
    "job_at s i StoreTimedOut \<Longrightarrow>
     sched_step s (EvStore i) (release (goto i Done (set_state i TimedOut s)))"
| store_outcome:
    "job_at s i (StoreOutcome r) \<Longrightarrow>
     sched_step s (EvStore i)
       (release (goto i Done
         (set_state i (if res_succeeded r then Succeeded r else Failed r) s)))"
| kill_waiting:
    "job_at s i Acquire \<Longrightarrow> sc_phase s = Aborting \<Longrightarrow> sched_step s (EvKill i) (goto i Done s)"
| kill:
    "i < length (sc_jobs s) \<Longrightarrow> holds_permit (sc_jobs s ! i) \<Longrightarrow> sc_phase s = Aborting \<Longrightarrow>
     sched_step s (EvKill i) (release (goto i Done s))"
| cancel:
    "\<not> sc_cancel s \<Longrightarrow> sched_step s EvCancel (s\<lparr>sc_cancel := True\<rparr>)"
| coordinator_cancel:
    "sc_phase s = Joining \<Longrightarrow> sc_cancel s \<Longrightarrow>
     sched_step s EvCoordinatorCancel (s\<lparr>sc_phase := if sc_grace s then CancelGrace else Aborting\<rparr>)"
| coordinator_grace_over:
    "sc_phase s = CancelGrace \<Longrightarrow> sched_step s EvCoordinatorGraceOver (s\<lparr>sc_phase := Aborting\<rparr>)"
| finish:
    "sc_phase s = Joining \<or> sc_phase s = Aborting \<Longrightarrow> list_all (\<lambda>j. j = Done) (sc_jobs s) \<Longrightarrow>
     sched_step s EvFinish (finalize s)"

inductive_cases sched_stepE: "sched_step s e s'"

section \<open>Reports\<close>

text \<open>\<open>RunReport::succeeded\<close> over the tasks of a plan of \<open>n\<close> actions.\<close>

definition report_succeeded :: "nat \<Rightarrow> run_snapshot \<Rightarrow> bool" where
  "report_succeeded n sn \<longleftrightarrow>
    list_all (\<lambda>i. case sn_tasks sn i of Some (Succeeded r) \<Rightarrow> res_succeeded r | _ \<Rightarrow> False) [0..<n]"

section \<open>Invariants\<close>

lemmas sched_ops = goto_def set_state_def release_def

text \<open>What the snapshot shows for a job at a program counter.\<close>

definition job_task_ok :: "job \<Rightarrow> task_state \<Rightarrow> bool" where
  "job_task_ok j st \<longleftrightarrow>
    (case j of
       Acquire \<Rightarrow> st = Pending
     | AwaitTrigger \<Rightarrow> st = Pending
     | StoreCancelled \<Rightarrow> st = Pending
     | StoreRunning \<Rightarrow> st = Pending
     | Done \<Rightarrow> True
     | _ \<Rightarrow> st = Running)"

abbreviation tasks :: "sched \<Rightarrow> nat \<rightharpoonup> task_state" where
  "tasks s \<equiv> sn_tasks (sc_snapshot s)"

abbreviation finished :: "sched \<Rightarrow> bool" where
  "finished s \<equiv> sn_finished (sc_snapshot s)"

definition shape_inv :: "sched \<Rightarrow> bool" where
  "shape_inv s \<longleftrightarrow>
    (\<forall>i. tasks s i = None \<longleftrightarrow> length (sc_jobs s) \<le> i)
    \<and> (\<forall>i st. i < length (sc_jobs s) \<longrightarrow> tasks s i = Some st \<longrightarrow> job_task_ok (sc_jobs s ! i) st)
    \<and> (finished s \<longleftrightarrow> sc_phase s = Over)
    \<and> (finished s \<longrightarrow> (\<forall>i < length (sc_jobs s). sc_jobs s ! i = Done)
                     \<and> (\<forall>i st. tasks s i = Some st \<longrightarrow> terminal st))"

definition is_start :: "sched \<Rightarrow> bool" where
  "is_start s \<longleftrightarrow> (\<exists>cap grace ds. s = start cap grace ds)"

lemma shape_inv_start: "shape_inv (start cap grace ds)"
  by (auto simp: shape_inv_def start_def job_task_ok_def)

text \<open>
  The local view of a step of job \<open>i\<close>: it moves only its own program counter and task, and never
  the coordinator. The rank counts the awaits a job can still pass.
\<close>

fun event_job :: "sched_event \<Rightarrow> nat option" where
  "event_job (EvPermit i) = Some i"
| "event_job (EvTrigger i b) = Some i"
| "event_job (EvTokenCancelled i) = Some i"
| "event_job (EvStore i) = Some i"
| "event_job (EvReturn i r) = Some i"
| "event_job (EvPanic i) = Some i"
| "event_job (EvDeadline i) = Some i"
| "event_job (EvGraceOver i) = Some i"
| "event_job (EvKill i) = Some i"
| "event_job _ = None"

fun job_rank :: "job \<Rightarrow> nat" where
  "job_rank Acquire = 6"
| "job_rank AwaitTrigger = 5"
| "job_rank StoreRunning = 4"
| "job_rank Act = 3"
| "job_rank DeadlineGrace = 2"
| "job_rank StoreCancelled = 1"
| "job_rank StoreTimedOut = 1"
| "job_rank (StoreOutcome r) = 1"
| "job_rank Done = 0"

definition job_frame :: "nat \<Rightarrow> sched \<Rightarrow> sched \<Rightarrow> bool" where
  "job_frame i s s' \<longleftrightarrow>
    i < length (sc_jobs s) \<and> sc_jobs s ! i \<noteq> Done
    \<and> sc_jobs s' = (sc_jobs s)[i := sc_jobs s' ! i] \<and> tasks s' = (tasks s)(i := tasks s' i)
    \<and> job_rank (sc_jobs s' ! i) < job_rank (sc_jobs s ! i)
    \<and> sc_phase s' = sc_phase s \<and> finished s' = finished s \<and> sc_cancel s' = sc_cancel s
    \<and> (tasks s i = None \<or> tasks s' i \<noteq> None)
    \<and> (\<forall>st. tasks s i = Some st \<longrightarrow> job_task_ok (sc_jobs s ! i) st \<longrightarrow>
          \<not> terminal st \<and> job_task_ok (sc_jobs s' ! i) (the (tasks s' i)))"

lemma job_rank_pos: "0 < job_rank j \<longleftrightarrow> j \<noteq> Done"
  by (cases j) auto

lemma job_step_frame: "sched_step s e s' \<Longrightarrow> event_job e = Some i \<Longrightarrow> job_frame i s s'"
  by (erule sched_stepE)
    (auto simp: job_frame_def sched_ops job_task_ok_def terminal_def holds_permit_def
      job_rank_pos split: job.splits)

lemma job_frameE:
  assumes "job_frame i s s'"
  obtains j m where "i < length (sc_jobs s)" "sc_jobs s ! i \<noteq> Done"
    "sc_jobs s' = (sc_jobs s)[i := j]" "tasks s' = (tasks s)(i := m)"
    "job_rank j < job_rank (sc_jobs s ! i)" "sc_phase s' = sc_phase s" "finished s' = finished s"
    "sc_cancel s' = sc_cancel s" "tasks s i = None \<or> m \<noteq> None"
    "\<And>st. tasks s i = Some st \<Longrightarrow> job_task_ok (sc_jobs s ! i) st \<Longrightarrow>
       \<not> terminal st \<and> job_task_ok j (the m)"
  using assms unfolding job_frame_def by blast

lemma coordinator_step:
  assumes "sched_step s e s'" "event_job e = None"
  shows "sc_jobs s' = sc_jobs s \<and>
    (e = EvCancel \<and> s' = s\<lparr>sc_cancel := True\<rparr> \<and> \<not> sc_cancel s
     \<or> e = EvCoordinatorCancel \<and> sc_phase s = Joining \<and> sc_cancel s
        \<and> s' = s\<lparr>sc_phase := if sc_grace s then CancelGrace else Aborting\<rparr>
     \<or> e = EvCoordinatorGraceOver \<and> sc_phase s = CancelGrace \<and> s' = s\<lparr>sc_phase := Aborting\<rparr>
     \<or> e = EvFinish \<and> (sc_phase s = Joining \<or> sc_phase s = Aborting)
        \<and> (\<forall>i < length (sc_jobs s). sc_jobs s ! i = Done) \<and> s' = finalize s)"
  using assms by cases (auto simp: finalize_def list_all_length)

lemma finalize_terminal: "tasks (finalize s) i = Some st \<Longrightarrow> terminal st"
  by (auto simp: finalize_def terminal_def split: if_splits)

lemma shape_inv_step:
  assumes "shape_inv s" "sched_step s e s'"
  shows "shape_inv s'"
proof (cases "event_job e")
  case None
  from coordinator_step [OF assms(2) None] assms(1) show ?thesis
    by (elim conjE disjE) (simp_all add: shape_inv_def finalize_terminal, simp_all add: finalize_def job_task_ok_def)
next
  case (Some i)
  from job_step_frame [OF assms(2) Some] show ?thesis
  proof (rule job_frameE)
    fix j m
    assume f: "i < length (sc_jobs s)" "sc_jobs s ! i \<noteq> Done" "sc_jobs s' = (sc_jobs s)[i := j]"
      "tasks s' = (tasks s)(i := m)" "sc_phase s' = sc_phase s" "finished s' = finished s"
      "tasks s i = None \<or> m \<noteq> None"
      and ok: "\<And>st. tasks s i = Some st \<Longrightarrow> job_task_ok (sc_jobs s ! i) st \<Longrightarrow>
        \<not> terminal st \<and> job_task_ok j (the m)"
    from f(1) assms(1) obtain st where st: "tasks s i = Some st" "job_task_ok (sc_jobs s ! i) st"
      unfolding shape_inv_def by (metis leD option.exhaust)
    from f(1,2) assms(1) have "\<not> finished s" unfolding shape_inv_def by blast
    with f ok [OF st] st(1) assms(1) show ?thesis
      by (auto simp: shape_inv_def nth_list_update)
  qed
qed

interpretation sched_shape: step_invariant sched_step is_start shape_inv
  by unfold_locales (auto simp: is_start_def shape_inv_start intro: shape_inv_step)

section \<open>Every run is finite\<close>

fun phase_rank :: "phase \<Rightarrow> nat" where
  "phase_rank Joining = 3"
| "phase_rank CancelGrace = 2"
| "phase_rank Aborting = 1"
| "phase_rank Over = 0"

definition sched_rank :: "sched \<Rightarrow> nat" where
  "sched_rank s = sum_list (map job_rank (sc_jobs s)) + phase_rank (sc_phase s)
     + (if sc_cancel s then 0 else 1)"

lemma sum_list_update_less:
  assumes "i < length xs" "f x < (f (xs ! i) :: nat)"
  shows "sum_list (map f (xs[i := x])) < sum_list (map f xs)"
  using assms
proof (induction xs arbitrary: i)
  case Nil
  then show ?case by simp
next
  case (Cons y ys)
  then show ?case by (cases i) auto
qed

lemma sched_rank_less:
  assumes "sched_step s e s'"
  shows "sched_rank s' < sched_rank s"
proof (cases "event_job e")
  case None
  from coordinator_step [OF assms None] show ?thesis
    by (auto simp: sched_rank_def finalize_def)
next
  case (Some i)
  from job_step_frame [OF assms Some]
  obtain j where "sc_jobs s' = (sc_jobs s)[i := j]" "i < length (sc_jobs s)"
    "job_rank j < job_rank (sc_jobs s ! i)" "sc_phase s' = sc_phase s" "sc_cancel s' = sc_cancel s"
    by (rule job_frameE)
  then show ?thesis using sum_list_update_less [of i "sc_jobs s" job_rank j]
    by (simp add: sched_rank_def)
qed

interpretation sched_measure: step_measure sched_step sched_rank "\<lambda>_. True"
  using sched_rank_less by unfold_locales auto

section \<open>Permits\<close>

definition holders :: "sched \<Rightarrow> nat" where
  "holders s = length (filter holds_permit (sc_jobs s))"

definition permit_inv :: "nat option \<Rightarrow> sched \<Rightarrow> bool" where
  "permit_inv cap s \<longleftrightarrow> (sc_capacity s = None \<longleftrightarrow> cap = None)
     \<and> (\<forall>c. sc_capacity s = Some c \<longrightarrow> cap = Some (c + holders s))"

lemma length_filter_update:
  "i < length xs \<Longrightarrow>
   length (filter P (xs[i := x])) + of_bool (P (xs ! i)) = length (filter P xs) + of_bool (P x)"
proof (induction xs arbitrary: i)
  case Nil
  then show ?case by simp
next
  case (Cons y ys)
  show ?case
  proof (cases i)
    case 0
    then show ?thesis by simp
  next
    case (Suc n)
    with Cons.IH [of n] Cons.prems show ?thesis by simp
  qed
qed

lemma holders_update:
  "i < length (sc_jobs s) \<Longrightarrow>
   length (filter holds_permit ((sc_jobs s)[i := j])) + of_bool (holds_permit (sc_jobs s ! i)) =
     holders s + of_bool (holds_permit j)"
  unfolding holders_def by (rule length_filter_update)

lemma job_step_capacity:
  assumes "sched_step s e s'" "event_job e = Some i"
  shows "case sc_capacity s of
      None \<Rightarrow> sc_capacity s' = None
    | Some c \<Rightarrow> \<exists>c'. sc_capacity s' = Some c'
        \<and> c' + of_bool (holds_permit (sc_jobs s' ! i)) = c + of_bool (holds_permit (sc_jobs s ! i))"
  using assms
  by - (erule sched_stepE; simp add: sched_ops holds_permit_def split: option.split; elim disjE; simp)

lemma permit_inv_step:
  assumes "permit_inv cap s" "sched_step s e s'"
  shows "permit_inv cap s'"
proof (cases "event_job e")
  case None
  from coordinator_step [OF assms(2) None] assms(1) show ?thesis
    by (auto simp: permit_inv_def holders_def finalize_def)
next
  case (Some i)
  from job_step_frame [OF assms(2) Some] obtain j where i: "i < length (sc_jobs s)"
    and j: "sc_jobs s' = (sc_jobs s)[i := j]" by (rule job_frameE)
  then have h: "holders s' + of_bool (holds_permit (sc_jobs s ! i)) =
      holders s + of_bool (holds_permit (sc_jobs s' ! i))"
    using holders_update [OF i, of j] by (simp add: holders_def)
  show ?thesis
  proof (cases "sc_capacity s")
    case None
    then show ?thesis
      using job_step_capacity [OF assms(2) Some] assms(1) by (simp add: permit_inv_def)
  next
    case (Some c)
    then obtain c' where c': "sc_capacity s' = Some c'"
      "c' + of_bool (holds_permit (sc_jobs s' ! i)) = c + of_bool (holds_permit (sc_jobs s ! i))"
      using job_step_capacity [OF assms(2) \<open>event_job e = Some i\<close>] by auto
    from c'(2) h have "c' + holders s' = c + holders s" by linarith
    with c'(1) show ?thesis using assms(1) Some by (simp add: permit_inv_def)
  qed
qed

lemma permit_inv_start: "permit_inv cap (start cap grace ds)"
  by (auto simp: permit_inv_def start_def holders_def holds_permit_def)

interpretation sched_permits: step_invariant sched_step "\<lambda>s. \<exists>grace ds. s = start cap grace ds"
    "permit_inv cap"
proof
  show "permit_inv cap s" if "\<exists>grace ds. s = start cap grace ds" for s
    using that permit_inv_start by blast
  show "permit_inv cap s'" if "permit_inv cap s" "sched_step s e s'" for s e s'
    using that by (rule permit_inv_step)
qed

section \<open>What a run records\<close>

text \<open>
  What the events of a run say about job \<open>i\<close>, given whether its action was called, whether its own
  token was cancelled, its program counter and its task.
\<close>

definition job_history :: "sched_event list \<Rightarrow> nat \<Rightarrow> bool \<Rightarrow> bool \<Rightarrow> job \<Rightarrow> task_state \<Rightarrow> bool" where
  "job_history es i invoked token j st \<longleftrightarrow>
    (invoked \<longrightarrow> EvTrigger i True \<in> set es) \<and>
    (case j of
       Acquire \<Rightarrow> \<not> invoked \<and> \<not> token
     | AwaitTrigger \<Rightarrow> \<not> invoked \<and> \<not> token
     | StoreCancelled \<Rightarrow> \<not> invoked \<and> (EvTrigger i False \<in> set es \<or> EvCancel \<in> set es)
     | StoreRunning \<Rightarrow> \<not> invoked \<and> EvTrigger i True \<in> set es
     | Act \<Rightarrow> invoked
     | DeadlineGrace \<Rightarrow> invoked \<and> EvDeadline i \<in> set es
     | StoreTimedOut \<Rightarrow> invoked \<and> EvDeadline i \<in> set es
     | StoreOutcome r \<Rightarrow> invoked \<and> EvReturn i r \<in> set es
     | Done \<Rightarrow>
         (case st of
            Succeeded r \<Rightarrow> invoked \<and> res_succeeded r \<and> EvReturn i r \<in> set es
          | Failed r \<Rightarrow> invoked \<and> \<not> res_succeeded r \<and> EvReturn i r \<in> set es
          | TimedOut \<Rightarrow> invoked \<and> EvDeadline i \<in> set es
          | Running \<Rightarrow> invoked \<and> (EvCancel \<in> set es \<or> EvPanic i \<in> set es)
          | _ \<Rightarrow> EvTrigger i False \<in> set es \<or> EvCancel \<in> set es \<or> EvPanic i \<in> set es))"

definition run_history :: "sched_event list \<Rightarrow> sched \<Rightarrow> bool" where
  "run_history es s \<longleftrightarrow>
    shape_inv s \<and> distinct (sc_invoked s) \<and> set (sc_invoked s) \<subseteq> {..<length (sc_jobs s)}
    \<and> (sc_cancel s \<longleftrightarrow> EvCancel \<in> set es)
    \<and> (sc_phase s = CancelGrace \<or> sc_phase s = Aborting \<longrightarrow> sc_cancel s)
    \<and> (\<forall>i st. tasks s i = Some st \<longrightarrow>
         job_history es i (i \<in> set (sc_invoked s)) (sc_child_cancel s i) (sc_jobs s ! i) st)"

lemma job_history_mono:
  "job_history es i iv tk j st \<Longrightarrow> job_history (es @ [e]) i iv tk j st"
  by (cases j; cases st) (auto simp: job_history_def)

lemma job_step_history:
  assumes "sched_step s e s'" "event_job e = Some i"
    and "job_task_ok (sc_jobs s ! i) st" "tasks s i = Some st"
    and "sc_cancel s \<longleftrightarrow> EvCancel \<in> set es" "sc_phase s = Aborting \<longrightarrow> sc_cancel s"
    and "job_history es i (i \<in> set (sc_invoked s)) (sc_child_cancel s i) (sc_jobs s ! i) st"
    and "tasks s' i = Some st'"
  shows "job_history (es @ [e]) i (i \<in> set (sc_invoked s')) (sc_child_cancel s' i) (sc_jobs s' ! i) st'"
  using assms
  by - (erule sched_stepE; auto simp: job_history_def sched_ops job_task_ok_def token_cancelled_def
    holds_permit_def split: job.splits)

lemma job_step_others:
  assumes "sched_step s e s'" "event_job e = Some i"
  shows "(sc_invoked s' = sc_invoked s \<or> sc_jobs s ! i = StoreRunning \<and> sc_invoked s' = sc_invoked s @ [i])
    \<and> (\<forall>k. k \<noteq> i \<longrightarrow> sc_child_cancel s' k = sc_child_cancel s k)"
  using assms by - (erule sched_stepE; simp add: sched_ops)

lemma shape_inv_task: "shape_inv s \<Longrightarrow> i < length (sc_jobs s) \<Longrightarrow> \<exists>st. tasks s i = Some st \<and> job_task_ok (sc_jobs s ! i) st"
  unfolding shape_inv_def by (metis leD option.exhaust)

lemma run_historyD:
  assumes "run_history es s"
  shows "shape_inv s" "sc_cancel s \<longleftrightarrow> EvCancel \<in> set es" "sc_phase s = Aborting \<longrightarrow> sc_cancel s"
    "sc_phase s = CancelGrace \<longrightarrow> sc_cancel s" "distinct (sc_invoked s)"
    "set (sc_invoked s) \<subseteq> {..<length (sc_jobs s)}"
    "tasks s i = Some st \<Longrightarrow>
       job_history es i (i \<in> set (sc_invoked s)) (sc_child_cancel s i) (sc_jobs s ! i) st"
  using assms unfolding run_history_def by blast+

lemma run_history_job_step:
  assumes h: "run_history es s" and st: "sched_step s e s'" and e: "event_job e = Some i"
  shows "run_history (es @ [e]) s'"
proof -
  from job_step_frame [OF st e] obtain j m where f: "i < length (sc_jobs s)"
    "sc_jobs s' = (sc_jobs s)[i := j]" "tasks s' = (tasks s)(i := m)"
    "sc_phase s' = sc_phase s" "sc_cancel s' = sc_cancel s"
    by (rule job_frameE)
  note o = job_step_others [OF st e]
  from h have inv: "shape_inv s" by (simp add: run_history_def)
  obtain t where t: "tasks s i = Some t" "job_task_ok (sc_jobs s ! i) t"
    using shape_inv_task [OF inv f(1)] by blast
  with h have hi: "job_history es i (i \<in> set (sc_invoked s)) (sc_child_cancel s i) (sc_jobs s ! i) t"
    by (simp add: run_history_def)
  have fresh: "i \<notin> set (sc_invoked s)" if "sc_jobs s ! i = StoreRunning"
    using hi that by (simp add: job_history_def)
  have "job_history (es @ [e]) k (k \<in> set (sc_invoked s')) (sc_child_cancel s' k) (sc_jobs s' ! k) st"
    if "tasks s' k = Some st" for k st
  proof (cases "k = i")
    case True
    with job_step_history [OF st e t(2,1) run_historyD(2,3) [OF h] hi] that show ?thesis by blast
  next
    case False
    with h that f(3) have "job_history es k (k \<in> set (sc_invoked s)) (sc_child_cancel s k) (sc_jobs s ! k) st"
      by (simp add: run_history_def)
    with False f(2) o show ?thesis using job_history_mono by fastforce
  qed
  moreover have "e \<noteq> EvCancel" using e by auto
  moreover have "distinct (sc_invoked s') \<and> set (sc_invoked s') \<subseteq> {..<length (sc_jobs s')}"
    using o h f(1,2) fresh by (auto simp: run_history_def)
  ultimately show ?thesis
    using run_historyD(2-4) [OF h] f(4,5) shape_inv_step [OF inv st] unfolding run_history_def
    by auto
qed

lemma finalize_history:
  "job_history es i iv tk Done st \<Longrightarrow>
   job_history es i iv tk Done (if terminal st then st else Cancelled)"
  by (cases st) (auto simp: job_history_def terminal_def)

lemma run_history_step:
  assumes h: "run_history es s" and st: "sched_step s e s'"
  shows "run_history (es @ [e]) s'"
proof (cases "event_job e")
  case (Some i)
  with assms show ?thesis by (rule run_history_job_step)
next
  case None
  have inv: "shape_inv s" "shape_inv s'" using h shape_inv_step [OF _ st] by (simp_all add: run_history_def)
  show ?thesis
  proof (cases "e = EvFinish")
    case True
    with coordinator_step [OF st None] have f: "s' = finalize s" "\<forall>i < length (sc_jobs s). sc_jobs s ! i = Done"
      by auto
    have "job_history (es @ [e]) i (i \<in> set (sc_invoked s)) (sc_child_cancel s i) (sc_jobs s ! i)
        (if terminal t then t else Cancelled)" if "tasks s i = Some t" for i t
    proof -
      have "i < length (sc_jobs s)" using inv(1) that
        unfolding shape_inv_def by (metis not_le option.distinct(1))
      with f(2) have "sc_jobs s ! i = Done" by blast
      with run_historyD(7) [OF h that] show ?thesis
        using finalize_history [OF job_history_mono] by metis
    qed
    then have "job_history (es @ [e]) i (i \<in> set (sc_invoked s')) (sc_child_cancel s' i) (sc_jobs s' ! i) st"
      if "tasks s' i = Some st" for i st using that f(1) by (auto simp: finalize_def)
    with f(1) True run_historyD [OF h] inv(2) show ?thesis
      unfolding run_history_def by (simp add: finalize_def)
  next
    case False
    with coordinator_step [OF st None] h inv(2) show ?thesis
      by (auto simp: run_history_def intro: job_history_mono)
  qed
qed

lemma run_history_start: "run_history [] (start cap grace ds)"
  using shape_inv_start [of cap grace ds]
  by (auto simp: run_history_def start_def job_history_def split: if_splits)

interpretation sched_history: step_history sched_step is_start run_history
  using run_history_start run_history_step by unfold_locales (auto simp: is_start_def)

section \<open>Progress\<close>

text \<open>The steps the engine takes by itself, whatever triggers and actions do.\<close>

definition engine_event :: "sched_event \<Rightarrow> bool" where
  "engine_event e \<longleftrightarrow>
    (case e of EvKill i \<Rightarrow> True | EvCoordinatorCancel \<Rightarrow> True | EvCoordinatorGraceOver \<Rightarrow> True
       | EvFinish \<Rightarrow> True | _ \<Rightarrow> False)"

lemma engine_event_not_cancel: "engine_event e \<Longrightarrow> e \<noteq> EvCancel"
  by (auto simp: engine_event_def)

lemma holder_progress:
  assumes "i < length (sc_jobs s)" "holds_permit (sc_jobs s ! i)"
  shows "\<exists>e s'. e \<noteq> EvCancel \<and> sched_step s e s'"
proof (cases "sc_jobs s ! i")
  case AwaitTrigger
  with assms(1) show ?thesis using trigger [of i s True] by blast
next
  case Act
  with assms(1) show ?thesis using action_returns [of i s action_success] by blast
next
  case StoreCancelled
  with assms(1) show ?thesis using store_cancelled [of i s] by blast
next
  case StoreRunning
  with assms(1) show ?thesis using store_running [of i s] by blast
next
  case DeadlineGrace
  with assms(1) show ?thesis using deadline_grace_over [of i s] by blast
next
  case StoreTimedOut
  with assms(1) show ?thesis using store_timed_out [of i s] by blast
next
  case (StoreOutcome r)
  with assms(1) show ?thesis using store_outcome [of i s r] by blast
qed (use assms(2) in \<open>simp_all add: holds_permit_def\<close>)

lemma all_done_progress:
  assumes "shape_inv s" "\<not> finished s" "\<forall>i < length (sc_jobs s). sc_jobs s ! i = Done"
  shows "\<exists>e s'. engine_event e \<and> sched_step s e s'"
proof (cases "sc_phase s = CancelGrace")
  case True
  then show ?thesis using coordinator_grace_over [of s] by (force simp: engine_event_def)
next
  case False
  with assms(1,2) have "sc_phase s = Joining \<or> sc_phase s = Aborting"
    unfolding shape_inv_def by (metis phase.exhaust)
  with assms(3) show ?thesis using finish [of s] by (force simp: engine_event_def list_all_length)
qed

lemma waiting_progress:
  assumes "permit_inv cap s" "cap \<noteq> Some 0" "job_at s i Acquire"
  shows "\<exists>e s'. e \<noteq> EvCancel \<and> sched_step s e s'"
proof (cases "sc_capacity s")
  case None
  with assms(3) show ?thesis using permit_free [of i s] by blast
next
  case (Some c)
  show ?thesis
  proof (cases c)
    case (Suc d)
    with Some assms(3) show ?thesis using permit_taken [of i s d] by blast
  next
    case 0
    with Some assms(1,2) have "holders s \<noteq> 0" by (auto simp: permit_inv_def)
    then obtain k where "k < length (sc_jobs s)" "holds_permit (sc_jobs s ! k)"
      by (auto simp: holders_def filter_empty_conv in_set_conv_nth)
    then show ?thesis by (rule holder_progress)
  qed
qed

lemma cancelled_progress:
  assumes "shape_inv s" "\<not> finished s" "sc_cancel s"
  shows "\<exists>e s'. engine_event e \<and> sched_step s e s'"
proof (cases "sc_phase s")
  case Joining
  then show ?thesis using coordinator_cancel [of s] assms(3) by (force simp: engine_event_def)
next
  case CancelGrace
  then show ?thesis using coordinator_grace_over [of s] by (force simp: engine_event_def)
next
  case Over
  with assms(1,2) show ?thesis by (simp add: shape_inv_def)
next
  case Aborting
  show ?thesis
  proof (cases "\<forall>i < length (sc_jobs s). sc_jobs s ! i = Done")
    case True
    with assms show ?thesis by (intro all_done_progress)
  next
    case False
    then obtain i where i: "i < length (sc_jobs s)" "sc_jobs s ! i \<noteq> Done" by blast
    then have "\<exists>s'. sched_step s (EvKill i) s'"
      using Aborting kill_waiting [of i s] kill [of i s] by (auto simp: holds_permit_def)
    then show ?thesis by (force simp: engine_event_def)
  qed
qed

lemma start_progress:
  assumes "runs sched_step (start cap grace ds) es s" "cap \<noteq> Some 0" "\<not> finished s"
  shows "\<exists>e s'. e \<noteq> EvCancel \<and> sched_step s e s'"
proof -
  have inv: "shape_inv s" "permit_inv cap s"
    using sched_shape.reachable_inv [OF _ assms(1)] sched_permits.reachable_inv [OF _ assms(1)]
    by (auto simp: is_start_def)
  show ?thesis
  proof (cases "\<forall>i < length (sc_jobs s). sc_jobs s ! i = Done")
    case True
    with all_done_progress [OF inv(1) assms(3)] show ?thesis using engine_event_not_cancel by blast
  next
    case False
    then obtain i where "i < length (sc_jobs s)" "sc_jobs s ! i \<noteq> Done" by blast
    then show ?thesis
      using waiting_progress [OF inv(2) assms(2)] holder_progress by (metis holds_permit_def)
  qed
qed

section \<open>Terminal tasks\<close>

lemma terminal_step:
  assumes "shape_inv s" "sched_step s e s'" "tasks s k = Some st" "terminal st"
  shows "tasks s' k = Some st"
proof (cases "event_job e")
  case None
  from coordinator_step [OF assms(2) None] assms(3,4) show ?thesis by (auto simp: finalize_def)
next
  case (Some i)
  from job_step_frame [OF assms(2) Some] show ?thesis
  proof (rule job_frameE)
    fix j m
    assume "i < length (sc_jobs s)" "tasks s' = (tasks s)(i := m)"
      and ok: "\<And>st. tasks s i = Some st \<Longrightarrow> job_task_ok (sc_jobs s ! i) st \<Longrightarrow>
        \<not> terminal st \<and> job_task_ok j (the m)"
    then show ?thesis using shape_inv_task [OF assms(1)] assms(3,4) by (cases "k = i") force+
  qed
qed


lemma terminal_runs:
  assumes "runs sched_step s es s'" "shape_inv s" "tasks s k = Some st" "terminal st"
  shows "tasks s' k = Some st"
  using assms
proof (induction rule: runs.induct)
  case (runs_step s es s1 e s2)
  then show ?case using terminal_step [of s1 e s2] sched_shape.runs_inv by blast
qed

section \<open>No permits\<close>

definition starved :: "sched \<Rightarrow> bool" where
  "starved s \<longleftrightarrow> sc_capacity s = Some 0 \<and> sc_invoked s = []
    \<and> (\<forall>i < length (sc_jobs s). sc_jobs s ! i = Acquire \<or> sc_jobs s ! i = Done \<and> sc_cancel s)
    \<and> (sc_phase s = CancelGrace \<or> sc_phase s = Aborting \<longrightarrow> sc_cancel s)"

lemma starved_step:
  assumes "starved s" "sched_step s e s'"
  shows "starved s'"
proof (cases "event_job e")
  case None
  from coordinator_step [OF assms(2) None] assms(1) show ?thesis
    by (auto simp: starved_def finalize_def)
next
  case (Some i)
  have i: "i < length (sc_jobs s) \<and> sc_jobs s ! i \<noteq> Done"
    using job_step_frame [OF assms(2) Some] by (simp add: job_frame_def)
  with assms(1) have a: "sc_jobs s ! i = Acquire" by (auto simp: starved_def)
  with assms(1) have "e = EvKill i \<and> s' = goto i Done s \<and> sc_phase s = Aborting"
    using assms(2) Some by - (erule sched_stepE; auto simp: starved_def holds_permit_def)
  with assms(1) i show ?thesis by (auto simp: starved_def goto_def nth_list_update)
qed

interpretation sched_starved: step_invariant sched_step "\<lambda>s. \<exists>grace ds. s = start (Some 0) grace ds" starved
proof
  show "starved s" if "\<exists>grace ds. s = start (Some 0) grace ds" for s
    using that by (auto simp: starved_def start_def)
  show "starved s'" if "starved s" "sched_step s e s'" for s e s'
    using that by (rule starved_step)
qed

section \<open>Properties\<close>

lemma length_filter_le_filter:
  "(\<And>x. P x \<Longrightarrow> Q x) \<Longrightarrow> length (filter P xs) \<le> length (filter Q xs)"
  by (induction xs) auto

lemma runs_jobs: "runs sched_step s es s' \<Longrightarrow> length (sc_jobs s') = length (sc_jobs s)"
proof (induction rule: runs.induct)
  case (runs_step s es s1 e s2)
  have "length (sc_jobs s2) = length (sc_jobs s1)"
  proof (cases "event_job e")
    case None
    with coordinator_step [OF runs_step.hyps(2)] show ?thesis by simp
  next
    case (Some i)
    from job_step_frame [OF runs_step.hyps(2) Some] show ?thesis
      by (rule job_frameE) simp
  qed
  with runs_step show ?case by simp
qed simp

lemma start_jobs: "length (sc_jobs (start cap grace ds)) = length ds"
  by (simp add: start_def)

lemma start_rank: "sched_rank (start cap grace ds) = 6 * length ds + 4"
  by (simp add: sched_rank_def start_def sum_list_replicate)

text \<open>
  C14. Every run of a plan is finite: a plan of \<open>n\<close> actions makes at most \<open>6 * n + 4\<close> steps. Until a
  run is finished, a step other than cancelling it can be taken, provided the cap on concurrent
  actions is not zero. After \<open>cancel\<close> the engine finishes the run by steps of its own, even when no
  trigger and no action ever resolves, whatever the cap.
\<close>

theorem run_finishes:
  assumes "runs sched_step (start cap grace ds) es s"
  shows "length es \<le> 6 * length ds + 4
    \<and> (cap \<noteq> Some 0 \<and> \<not> finished s \<longrightarrow> (\<exists>e s'. e \<noteq> EvCancel \<and> sched_step s e s'))
    \<and> (sc_cancel s \<and> \<not> finished s \<longrightarrow> (\<exists>e s'. engine_event e \<and> sched_step s e s'))"
proof -
  have "shape_inv s" using sched_shape.reachable_inv [OF _ assms] by (auto simp: is_start_def)
  moreover have "length es \<le> 6 * length ds + 4"
    using sched_measure.runs_rank [OF assms] start_rank [of cap grace ds] by simp
  ultimately show ?thesis using start_progress [OF assms] cancelled_progress by blast
qed

text \<open>
  C15. The snapshot tells the truth. Each action is called at most once and only after its trigger
  resolved to true; a task is reported as succeeded or failed only with the value its action
  returned, as timed out only after its deadline fired; and in a finished run every task is in a
  terminal state, where cancelled means that its trigger resolved to false, the run was cancelled,
  or its trigger or action panicked.
\<close>

theorem run_report_truthful:
  assumes "runs sched_step (start cap grace ds) es s" "i < length ds"
  shows "distinct (sc_invoked s) \<and> (i \<in> set (sc_invoked s) \<longrightarrow> EvTrigger i True \<in> set es)
    \<and> (\<exists>st. tasks s i = Some st
        \<and> (finished s \<longrightarrow> terminal st)
        \<and> (case st of
             Succeeded r \<Rightarrow> res_succeeded r \<and> EvReturn i r \<in> set es \<and> i \<in> set (sc_invoked s)
           | Failed r \<Rightarrow> \<not> res_succeeded r \<and> EvReturn i r \<in> set es \<and> i \<in> set (sc_invoked s)
           | TimedOut \<Rightarrow> EvDeadline i \<in> set es \<and> i \<in> set (sc_invoked s)
           | Running \<Rightarrow> i \<in> set (sc_invoked s)
           | Cancelled \<Rightarrow> EvTrigger i False \<in> set es \<or> EvCancel \<in> set es \<or> EvPanic i \<in> set es
           | Pending \<Rightarrow> True))"
proof -
  have h: "run_history es s" using sched_history.runs_hist [OF assms(1)] by (auto simp: is_start_def)
  have i: "i < length (sc_jobs s)" using runs_jobs [OF assms(1)] assms(2) by (simp add: start_jobs)
  obtain st where st: "tasks s i = Some st" "job_task_ok (sc_jobs s ! i) st"
    using shape_inv_task [OF run_historyD(1) [OF h] i] by blast
  have "finished s \<longrightarrow> terminal st" using run_historyD(1) [OF h] st(1) by (auto simp: shape_inv_def)
  with run_historyD(5) [OF h] run_historyD(7) [OF h st(1)] st show ?thesis
    by (auto simp: job_history_def job_task_ok_def terminal_def split: job.splits task_state.splits)
qed


lemma shape_inv_taskD: "shape_inv s \<Longrightarrow> tasks s i = Some st \<Longrightarrow> job_task_ok (sc_jobs s ! i) st"
  unfolding shape_inv_def by (metis not_le option.distinct(1))

lemma succeeded_truthful:
  "job_history es i iv tk j (Succeeded r) \<Longrightarrow> job_task_ok j (Succeeded r) \<Longrightarrow> res_succeeded r"
  by (cases j) (auto simp: job_history_def job_task_ok_def)

lemma report_succeeded_iff:
  assumes "\<And>i r. sn_tasks sn i = Some (Succeeded r) \<Longrightarrow> res_succeeded r"
  shows "report_succeeded n sn \<longleftrightarrow> (\<forall>i < n. \<exists>r. sn_tasks sn i = Some (Succeeded r))"
proof -
  have "(case sn_tasks sn i of Some (Succeeded r) \<Rightarrow> res_succeeded r | _ \<Rightarrow> False) \<longleftrightarrow>
      (\<exists>r. sn_tasks sn i = Some (Succeeded r))" for i
    using assms [of i] by (auto split: option.split task_state.split)
  then show ?thesis by (auto simp: report_succeeded_def list_all_iff)
qed

text \<open>
  What a task is reported as once it is terminal never changes, and the report of a finished
  run succeeds exactly when every action of the plan returned a successful result.
\<close>

theorem terminal_states_are_final:
  assumes "runs sched_step (start cap grace ds) es s" "runs sched_step s es' s'"
  shows "(\<forall>i st. tasks s i = Some st \<and> terminal st \<longrightarrow> tasks s' i = Some st)
    \<and> (finished s \<longrightarrow>
        (report_succeeded (length ds) (sc_snapshot s) \<longleftrightarrow>
          (\<forall>i < length ds. \<exists>r. tasks s i = Some (Succeeded r)))
        \<and> sc_snapshot s' = sc_snapshot s)"
proof -
  have h: "run_history es s" using sched_history.runs_hist [OF assms(1)] by (auto simp: is_start_def)
  note inv = run_historyD(1) [OF h]
  have truthful: "res_succeeded r" if "tasks s i = Some (Succeeded r)" for i r
    using run_historyD(7) [OF h that] shape_inv_taskD [OF inv that] by (rule succeeded_truthful)
  have snap: "sc_snapshot s' = sc_snapshot s" if "finished s"
    using assms(2) inv that
  proof (induction rule: runs.induct)
    case (runs_step s es s1 e s2)
    then have inv1: "shape_inv s1" and fin: "finished s1"
      using sched_shape.runs_inv by (blast, simp)
    then have "\<forall>i < length (sc_jobs s1). sc_jobs s1 ! i = Done" "sc_phase s1 = Over"
      unfolding shape_inv_def by blast+
    then have "sc_snapshot s2 = sc_snapshot s1"
      using coordinator_step [OF runs_step.hyps(2)] job_step_frame [OF runs_step.hyps(2)]
      by (cases "event_job e") (auto simp: job_frame_def)
    with runs_step show ?case by simp
  qed simp
  have "report_succeeded (length ds) (sc_snapshot s) \<longleftrightarrow>
      (\<forall>i < length ds. \<exists>r. tasks s i = Some (Succeeded r))"
    using truthful by (rule report_succeeded_iff)
  with snap terminal_runs [OF assms(2) inv] show ?thesis by blast
qed

text \<open>
  C16. A cap bounds the jobs that hold a permit, and with them the actions that are running: free
  permits and permits held always add up to the cap. A job leaves the queue only through a free
  permit or an abort, and it keeps its permit while it still waits for its trigger. With a cap of
  zero no action is ever called, and a non-empty plan finishes only after it was cancelled.
\<close>

theorem permits_are_conserved:
  assumes "runs sched_step (start (Some c) grace ds) es s"
  shows "(\<exists>free. sc_capacity s = Some free \<and> free + holders s = c)
    \<and> length (filter (\<lambda>j. j = Act) (sc_jobs s)) \<le> c
    \<and> (\<forall>i e s'. job_at s i Acquire \<and> sched_step s e s' \<and> event_job e = Some i \<longrightarrow>
          holders s < c \<or> sc_phase s = Aborting)
    \<and> (c = 0 \<longrightarrow> sc_invoked s = [] \<and> (finished s \<and> ds \<noteq> [] \<longrightarrow> EvCancel \<in> set es))"
proof -
  have "permit_inv (Some c) s" using sched_permits.reachable_inv [OF _ assms] by blast
  then obtain free where free: "sc_capacity s = Some free" "free + holders s = c"
    by (auto simp: permit_inv_def)
  have "length (filter (\<lambda>j. j = Act) (sc_jobs s)) \<le> holders s"
    unfolding holders_def by (rule length_filter_le_filter) (simp add: holds_permit_def)
  moreover have "holders s < c \<or> sc_phase s = Aborting"
    if "job_at s i Acquire" "sched_step s e s'" "event_job e = Some i" for i e s'
    using that free by - (erule sched_stepE; auto simp: holds_permit_def)
  moreover have "sc_invoked s = [] \<and> (finished s \<and> ds \<noteq> [] \<longrightarrow> EvCancel \<in> set es)" if "c = 0"
  proof -
    have st: "starved s" using sched_starved.reachable_inv [OF _ assms [unfolded that]] by blast
    have h: "run_history es s" using sched_history.runs_hist [OF assms] by (auto simp: is_start_def)
    have "length (sc_jobs s) = length ds" using runs_jobs [OF assms] by (simp add: start_jobs)
    with st run_historyD(1,2) [OF h] show ?thesis by (auto simp: starved_def shape_inv_def)
  qed
  ultimately show ?thesis using free by auto
qed

section \<open>Executing a schedule\<close>

text \<open>The step an event stands for, as a function; \<open>None\<close> where the event is not enabled.\<close>

fun sched_exec :: "sched \<Rightarrow> sched_event \<Rightarrow> sched option" where
  "sched_exec s (EvPermit i) =
    (if job_at s i Acquire
     then (case sc_capacity s of
             None \<Rightarrow> Some (goto i AwaitTrigger s)
           | Some 0 \<Rightarrow> None
           | Some (Suc c) \<Rightarrow> Some ((goto i AwaitTrigger s)\<lparr>sc_capacity := Some c\<rparr>))
     else None)"
| "sched_exec s (EvTrigger i b) =
    (if job_at s i AwaitTrigger
     then Some (goto i (if b then StoreRunning else StoreCancelled) s) else None)"
| "sched_exec s (EvTokenCancelled i) =
    (if job_at s i AwaitTrigger \<and> token_cancelled s i then Some (goto i StoreCancelled s) else None)"
| "sched_exec s (EvStore i) =
    (if \<not> i < length (sc_jobs s) then None
     else case sc_jobs s ! i of
            StoreCancelled \<Rightarrow> Some (release (goto i Done (set_state i Cancelled s)))
          | StoreRunning \<Rightarrow>
              Some ((goto i Act (set_state i Running s))\<lparr>sc_invoked := sc_invoked s @ [i]\<rparr>)
          | StoreTimedOut \<Rightarrow> Some (release (goto i Done (set_state i TimedOut s)))
          | StoreOutcome r \<Rightarrow>
              Some (release (goto i Done
                (set_state i (if res_succeeded r then Succeeded r else Failed r) s)))
          | _ \<Rightarrow> None)"
| "sched_exec s (EvReturn i r) = (if job_at s i Act then Some (goto i (StoreOutcome r) s) else None)"
| "sched_exec s (EvPanic i) =
    (if i < length (sc_jobs s) \<and> sc_jobs s ! i \<in> {AwaitTrigger, Act, DeadlineGrace}
     then Some (release (goto i Done s)) else None)"
| "sched_exec s (EvDeadline i) =
    (if job_at s i Act \<and> sc_deadline s ! i
     then Some ((goto i (if sc_grace s then DeadlineGrace else StoreTimedOut) s)
                  \<lparr>sc_child_cancel := (sc_child_cancel s)(i := True)\<rparr>)
     else None)"
| "sched_exec s (EvGraceOver i) =
    (if job_at s i DeadlineGrace then Some (goto i StoreTimedOut s) else None)"
| "sched_exec s (EvKill i) =
    (if \<not> i < length (sc_jobs s) \<or> sc_phase s \<noteq> Aborting then None
     else if sc_jobs s ! i = Acquire then Some (goto i Done s)
     else if sc_jobs s ! i = Done then None
     else Some (release (goto i Done s)))"
| "sched_exec s EvCancel = (if sc_cancel s then None else Some (s\<lparr>sc_cancel := True\<rparr>))"
| "sched_exec s EvCoordinatorCancel =
    (if sc_phase s = Joining \<and> sc_cancel s
     then Some (s\<lparr>sc_phase := if sc_grace s then CancelGrace else Aborting\<rparr>) else None)"
| "sched_exec s EvCoordinatorGraceOver =
    (if sc_phase s = CancelGrace then Some (s\<lparr>sc_phase := Aborting\<rparr>) else None)"
| "sched_exec s EvFinish =
    (if (sc_phase s = Joining \<or> sc_phase s = Aborting) \<and> list_all (\<lambda>j. j = Done) (sc_jobs s)
     then Some (finalize s) else None)"

inductive_simps sched_step_simps:
  "sched_step s (EvPermit i) s'"
  "sched_step s (EvTrigger i b) s'"
  "sched_step s (EvTokenCancelled i) s'"
  "sched_step s (EvStore i) s'"
  "sched_step s (EvReturn i r) s'"
  "sched_step s (EvPanic i) s'"
  "sched_step s (EvDeadline i) s'"
  "sched_step s (EvGraceOver i) s'"
  "sched_step s (EvKill i) s'"
  "sched_step s EvCancel s'"
  "sched_step s EvCoordinatorCancel s'"
  "sched_step s EvCoordinatorGraceOver s'"
  "sched_step s EvFinish s'"

lemma sched_exec_iff: "sched_exec s e = Some s' \<longleftrightarrow> sched_step s e s'"
  by (cases e) (auto simp: sched_step_simps holds_permit_def
    split: if_splits option.splits nat.splits job.splits)

definition sched_run :: "sched \<Rightarrow> sched_event list \<Rightarrow> sched option" where
  "sched_run s es = fold (\<lambda>e r. Option.bind r (\<lambda>s. sched_exec s e)) es (Some s)"

lemma sched_run_iff: "sched_run s es = Some s' \<longleftrightarrow> runs sched_step s es s'"
proof
  show "runs sched_step s es s'" if "sched_run s es = Some s'" for s'
    using that
  proof (induction es arbitrary: s' rule: rev_induct)
    case Nil
    then show ?case by (simp add: sched_run_def runs_start)
  next
    case (snoc e es)
    then obtain s1 where "sched_run s es = Some s1" "sched_exec s1 e = Some s'"
      by (auto simp: sched_run_def bind_eq_Some_conv)
    with snoc.IH show ?case by (auto simp: sched_exec_iff intro: runs_step)
  qed
next
  show "sched_run s es = Some s'" if "runs sched_step s es s'"
    using that by (induction rule: runs.induct) (auto simp: sched_run_def sched_exec_iff)
qed


lemma run_finishes_witness:
  "\<exists>s. sched_run (start (Some 1) False [True])
        [EvPermit 0, EvTrigger 0 True, EvStore 0, EvReturn 0 action_success, EvStore 0] = Some s
      \<and> \<not> finished s \<and> (\<exists>e s'. e \<noteq> EvCancel \<and> sched_step s e s')"
  using run_finishes [of "Some 1" False "[True]"
    "[EvPermit 0, EvTrigger 0 True, EvStore 0, EvReturn 0 action_success, EvStore 0]"]
  by (simp add: sched_run_iff [symmetric] sched_run_def start_def sched_ops action_success_def)

lemma run_report_truthful_witness:
  "\<exists>s. sched_run (start (Some 1) False [True, False])
        [EvPermit 0, EvTrigger 0 True, EvStore 0, EvDeadline 0, EvStore 0, EvPermit 1,
         EvTrigger 1 False, EvStore 1, EvFinish] = Some s
      \<and> finished s \<and> tasks s 0 = Some TimedOut \<and> tasks s 1 = Some Cancelled \<and> 0 \<in> set (sc_invoked s)"
  using run_report_truthful [of "Some 1" False "[True, False]"
    "[EvPermit 0, EvTrigger 0 True, EvStore 0, EvDeadline 0, EvStore 0, EvPermit 1,
      EvTrigger 1 False, EvStore 1, EvFinish]" _ 0]
  by (simp add: sched_run_iff [symmetric] sched_run_def start_def sched_ops finalize_def terminal_def)

lemma terminal_states_are_final_witness:
  "\<exists>s s'. sched_run (start None True [False]) [EvPermit 0, EvTrigger 0 False, EvStore 0] = Some s
      \<and> sched_run s [EvCancel, EvCoordinatorCancel, EvCoordinatorGraceOver, EvFinish] = Some s'
      \<and> tasks s 0 = Some Cancelled \<and> tasks s' 0 = Some Cancelled"
  using terminal_states_are_final [of None True "[False]"
    "[EvPermit 0, EvTrigger 0 False, EvStore 0]" _
    "[EvCancel, EvCoordinatorCancel, EvCoordinatorGraceOver, EvFinish]"]
  by (simp add: sched_run_iff [symmetric] sched_run_def start_def sched_ops finalize_def terminal_def)

lemma permits_are_conserved_witness:
  "\<exists>s. sched_run (start (Some 1) False [False, False]) [EvPermit 1] = Some s
      \<and> sc_capacity s = Some 0 \<and> holders s = 1"
  using permits_are_conserved [of 1 False "[False, False]" "[EvPermit 1]"]
  by (simp add: sched_run_iff [symmetric] sched_run_def start_def sched_ops)

end
