(* ===== verification/BTree.thy ===== *)
theory BTree
  imports Prelude "HOL-Library.List_Lexorder" "HOL-Library.Char_ord" "HOL-Library.Sublist"
begin

text \<open>
  \<open>BTreeMap\<close> of the Rust standard library, as the association list of its entries in key order. The
  key order of \<open>String\<close> is the lexicographic order of its bytes, which is the order of
  \<open>List_Lexorder\<close> on \<open>string\<close>. The components use the map through the contract \<open>ordered_map\<close>.
\<close>

section \<open>The map\<close>

type_synonym ('k, 'v) btree = "('k \<times> 'v) list"

fun bt_insert :: "'k::linorder \<Rightarrow> 'v \<Rightarrow> ('k, 'v) btree \<Rightarrow> ('k, 'v) btree" where
  "bt_insert k v [] = [(k, v)]"
| "bt_insert k v ((a, b) # m) =
    (if k < a then (k, v) # (a, b) # m
     else if k = a then (k, v) # m
     else (a, b) # bt_insert k v m)"

definition bt_remove :: "'k::linorder \<Rightarrow> ('k, 'v) btree \<Rightarrow> ('k, 'v) btree" where
  "bt_remove k m = filter (\<lambda>(a, b). a \<noteq> k) m"

definition bt_get :: "('k, 'v) btree \<Rightarrow> 'k \<Rightarrow> 'v option" where
  "bt_get m k = map_of m k"

definition bt_keys :: "('k, 'v) btree \<Rightarrow> 'k list" where
  "bt_keys m = map fst m"

definition bt_ok :: "('k::linorder, 'v) btree \<Rightarrow> bool" where
  "bt_ok m \<longleftrightarrow> sorted_wrt (<) (map fst m)"

section \<open>The contract\<close>

locale ordered_map =
  fixes empty :: "'m"
    and get :: "'m \<Rightarrow> 'k::linorder \<Rightarrow> 'v option"
    and insert :: "'k \<Rightarrow> 'v \<Rightarrow> 'm \<Rightarrow> 'm"
    and remove :: "'k \<Rightarrow> 'm \<Rightarrow> 'm"
    and keys :: "'m \<Rightarrow> 'k list"
    and ok :: "'m \<Rightarrow> bool"
  assumes ok_empty: "ok empty"
    and get_empty: "get empty k = None"
    and ok_insert: "ok m \<Longrightarrow> ok (insert k v m)"
    and get_insert: "ok m \<Longrightarrow> get (insert k v m) k' = (if k' = k then Some v else get m k')"
    and ok_remove: "ok m \<Longrightarrow> ok (remove k m)"
    and get_remove: "ok m \<Longrightarrow> get (remove k m) k' = (if k' = k then None else get m k')"
    and keys_sorted: "ok m \<Longrightarrow> sorted_wrt (<) (keys m)"
    and set_keys: "ok m \<Longrightarrow> set (keys m) = dom (get m)"
begin

lemma remove_all:
  assumes "ok m"
  shows "ok (fold remove ks m) \<and>
    get (fold remove ks m) k = (if k \<in> set ks then None else get m k)"
  using assms by (induction ks arbitrary: m) (simp_all add: ok_remove get_remove)

lemma remove_matching:
  assumes "ok m"
  shows "ok (fold remove (filter P (keys m)) m)"
    and "get (fold remove (filter P (keys m)) m) k = (if P k then None else get m k)"
  using remove_all [OF assms, of "filter P (keys m)" k] set_keys [OF assms] by auto

lemma keys_distinct: "ok m \<Longrightarrow> distinct (keys m)"
  using keys_sorted strict_sorted_iff by blast

lemma keys_determined:
  assumes "ok m" "ok m'" "dom (get m) = dom (get m')"
  shows "keys m = keys m'"
  using assms strict_sorted_equal keys_sorted set_keys by metis

lemma insert_all:
  assumes "ok m"
  shows "ok (fold (\<lambda>(k, v). insert k v) kvs m)"
  using assms by (induction kvs arbitrary: m) (auto simp: ok_insert)

end

section \<open>The map meets the contract\<close>

lemma map_of_bt_insert: "map_of (bt_insert k v m) = (map_of m)(k \<mapsto> v)"
  by (induction k v m rule: bt_insert.induct) (auto simp: fun_eq_iff)

lemma set_keys_bt_insert: "set (map fst (bt_insert k v m)) = insert k (set (map fst m))"
  by (induction k v m rule: bt_insert.induct) auto

lemma bt_ok_insert: "bt_ok m \<Longrightarrow> bt_ok (bt_insert k v m)"
proof (induction k v m rule: bt_insert.induct)
  case (2 k v a b m)
  then show ?case
    using set_keys_bt_insert [of k v m] by (auto simp: bt_ok_def intro: less_trans)
qed (simp add: bt_ok_def)

lemma bt_ok_remove: "bt_ok m \<Longrightarrow> bt_ok (bt_remove k m)"
  unfolding bt_ok_def bt_remove_def by (induction m) auto

lemma bt_get_remove: "bt_get (bt_remove k m) k' = (if k' = k then None else bt_get m k')"
  by (induction m) (auto simp: bt_get_def bt_remove_def)

lemma bt_get_insert: "bt_get (bt_insert k v m) k' = (if k' = k then Some v else bt_get m k')"
  by (simp add: bt_get_def map_of_bt_insert)

interpretation bt: ordered_map "[]" bt_get bt_insert bt_remove bt_keys bt_ok
proof
  show "set (bt_keys m) = dom (bt_get m)" for m :: "('k::linorder, 'v) btree"
    unfolding bt_keys_def bt_get_def by (simp add: dom_map_of_conv_image_fst [symmetric] fun_eq_iff dom_def)
  show "sorted_wrt (<) (bt_keys m)" if "bt_ok m" for m :: "('k::linorder, 'v) btree"
    using that by (simp add: bt_ok_def bt_keys_def)
  show "bt_ok ([] :: ('k::linorder, 'v) btree)" by (simp add: bt_ok_def)
  show "bt_get ([] :: ('k::linorder, 'v) btree) k = None" for k by (simp add: bt_get_def)
qed (rule bt_ok_insert bt_ok_remove bt_get_remove bt_get_insert; assumption?)+

lemma bt_entry: "bt_ok m \<Longrightarrow> (k, v) \<in> set m \<longleftrightarrow> bt_get m k = Some v"
  unfolding bt_ok_def bt_get_def strict_sorted_iff by (simp add: map_of_eq_Some_iff)

lemma bt_entries: "bt_ok m \<Longrightarrow> m = map (\<lambda>k. (k, the (bt_get m k))) (bt_keys m)"
  by (rule sym) (auto simp: bt_keys_def intro!: map_idI simp: bt_entry)

lemma bt_determined:
  assumes "bt_ok m" "bt_ok m'" "bt_get m = bt_get m'"
  shows "m = m'"
proof -
  have "bt_keys m = bt_keys m'" using bt.keys_determined [OF assms(1,2)] assms(3) by simp
  with bt_entries [OF assms(1)] bt_entries [OF assms(2)] assms(3) show ?thesis by metis
qed

text \<open>In the order of strings an ancestor comes before everything below it.\<close>

lemma prefix_less: "ys \<noteq> [] \<Longrightarrow> xs < xs @ (ys :: 'a::linorder list)"
  by (induction xs) (auto simp: neq_Nil_conv)

end
