(* ===== verification/Digest.thy ===== *)
theory Digest
  imports RustStr
begin

unbundle bit_operations_syntax

text \<open>
  Digests of the image store, \<^verbatim>\<open>libs/image-core/src/digest.rs\<close>: declared digests with their text
  and persisted forms, digests computed while reading, and the builder of derived identities. The
  hash functions BLAKE3, SHA-256 and SHA-512 are parameters. An incremental hasher is modelled by
  the bytes it has absorbed, since updating with two slices is updating with their concatenation.
\<close>

section \<open>Hexadecimal digits\<close>

text \<open>Lower-case digits as \<open>format!\<close> prints them.\<close>

definition hex_digit :: "nat \<Rightarrow> byte" where
  "hex_digit n = word_of_nat (if n < 10 then 48 + n else 87 + n)"

fun hex_fmt :: "nat \<Rightarrow> nat \<Rightarrow> byte list" where
  "hex_fmt 0 n = []"
| "hex_fmt (Suc k) n = hex_fmt k (n div 16) @ [hex_digit (n mod 16)]"

datatype hex_error = HexInvalidLength | HexInvalidChar

definition hex_nibble :: "byte \<Rightarrow> hex_error + byte" where
  "hex_nibble b =
    (if 48 \<le> b \<and> b \<le> 57 then Ok (b - 48)
     else if 97 \<le> b \<and> b \<le> 102 then Ok (b - 97 + 10)
     else if 65 \<le> b \<and> b \<le> 70 then Ok (b - 65 + 10)
     else Err HexInvalidChar)"

text \<open>The loop of \<open>decode_hex\<close>, two digits a byte.\<close>

fun decode_hex_pairs :: "byte list \<Rightarrow> hex_error + byte list" where
  "decode_hex_pairs (h # l # bs) =
    bindR (hex_nibble h) (\<lambda>high.
    bindR (hex_nibble l) (\<lambda>low.
    bindR (decode_hex_pairs bs) (\<lambda>rest.
    Ok ((push_bit 4 high OR low) # rest))))"
| "decode_hex_pairs _ = Ok []"

definition decode_hex :: "string \<Rightarrow> nat \<Rightarrow> hex_error + byte list" where
  "decode_hex hex expected_bytes =
    (if length hex \<noteq> expected_bytes * 2 then Err HexInvalidLength
     else decode_hex_pairs (str_bytes hex))"

section \<open>Declared and computed digests\<close>

record hashes =
  blake3_hash :: "byte list \<Rightarrow> byte list"
  sha256_hash :: "byte list \<Rightarrow> byte list"
  sha512_hash :: "byte list \<Rightarrow> byte list"

text \<open>What the digest crates document: fixed output sizes.\<close>

definition hashes_ok :: "hashes \<Rightarrow> bool" where
  "hashes_ok h \<longleftrightarrow> (\<forall>bs. length (blake3_hash h bs) = 32) \<and> (\<forall>bs. length (sha256_hash h bs) = 32)
     \<and> (\<forall>bs. length (sha512_hash h bs) = 64)"

record file_digest =
  fd_hash :: "byte list"
  fd_size :: nat

record link_digest =
  ld_hash :: "byte list"
  ld_size :: nat

datatype expected_digest =
    EBlake3 "byte list"
  | ESha256 "byte list"
  | ESha512 "byte list"

datatype computed_digest =
    CBlake3 "byte list"
  | CSha256 "byte list"
  | CSha512 "byte list"

datatype expected_digest_error =
    MissingSeparator
  | UnsupportedAlgorithm string
  | InvalidDigestLength string nat
  | InvalidHex

definition hex_report :: "string \<Rightarrow> string \<Rightarrow> hex_error \<Rightarrow> expected_digest_error" where
  "hex_report algorithm hex err =
    (case err of HexInvalidLength \<Rightarrow> InvalidDigestLength algorithm (length hex) | HexInvalidChar \<Rightarrow> InvalidHex)"

definition digest_parse :: "string \<Rightarrow> expected_digest_error + expected_digest" where
  "digest_parse s =
    (case split_once CHR '':'' s of
       None \<Rightarrow> Err MissingSeparator
     | Some (algorithm, hex) \<Rightarrow>
         if algorithm = ''blake3'' then
           bindR (mapErr (hex_report ''blake3'' hex) (decode_hex hex 32)) (\<lambda>bytes. Ok (EBlake3 bytes))
         else if algorithm = ''sha256'' then
           bindR (mapErr (hex_report ''sha256'' hex) (decode_hex hex 32)) (\<lambda>bytes. Ok (ESha256 bytes))
         else if algorithm = ''sha512'' then
           bindR (mapErr (hex_report ''sha512'' hex) (decode_hex hex 64)) (\<lambda>bytes. Ok (ESha512 bytes))
         else Err (UnsupportedAlgorithm algorithm))"

fun digest_verify :: "expected_digest \<Rightarrow> computed_digest \<Rightarrow> bool" where
  "digest_verify (EBlake3 expected) (CBlake3 actual) \<longleftrightarrow> expected = actual"
| "digest_verify (ESha256 expected) (CSha256 actual) \<longleftrightarrow> expected = actual"
| "digest_verify (ESha512 expected) (CSha512 actual) \<longleftrightarrow> expected = actual"
| "digest_verify _ _ \<longleftrightarrow> False"

fun digest_discriminant :: "expected_digest \<Rightarrow> u8" where
  "digest_discriminant (EBlake3 _) = 1"
| "digest_discriminant (ESha256 _) = 2"
| "digest_discriminant (ESha512 _) = 3"

fun digest_bytes :: "expected_digest \<Rightarrow> byte list" where
  "digest_bytes (EBlake3 bytes) = bytes"
| "digest_bytes (ESha256 bytes) = bytes"
| "digest_bytes (ESha512 bytes) = bytes"

definition digest_from_parts :: "u8 \<Rightarrow> byte list \<Rightarrow> expected_digest option" where
  "digest_from_parts discriminant bytes =
    (if discriminant = 1 \<and> length bytes = 32 then Some (EBlake3 bytes)
     else if discriminant = 2 \<and> length bytes = 32 then Some (ESha256 bytes)
     else if discriminant = 3 \<and> length bytes = 64 then Some (ESha512 bytes)
     else None)"

text \<open>The array types of the variants.\<close>

fun wf_digest :: "expected_digest \<Rightarrow> bool" where
  "wf_digest (EBlake3 bytes) \<longleftrightarrow> length bytes = 32"
| "wf_digest (ESha256 bytes) \<longleftrightarrow> length bytes = 32"
| "wf_digest (ESha512 bytes) \<longleftrightarrow> length bytes = 64"

section \<open>Derived identities\<close>

type_synonym link_builder = "byte list"

definition link_new :: "byte list \<Rightarrow> link_builder" where
  "link_new domain = be_bytes 8 (length domain) @ domain"

definition link_bytes :: "byte list \<Rightarrow> byte list \<Rightarrow> link_builder \<Rightarrow> link_builder" where
  "link_bytes tag v b = b @ be_bytes 8 (length tag) @ tag @ be_bytes 8 (length v) @ v"

definition link_str :: "byte list \<Rightarrow> string \<Rightarrow> link_builder \<Rightarrow> link_builder" where
  "link_str tag v b = link_bytes tag (str_bytes v) b"

definition link_u128 :: "byte list \<Rightarrow> u128 \<Rightarrow> link_builder \<Rightarrow> link_builder" where
  "link_u128 tag v b = b @ be_bytes 8 (length tag) @ tag @ be_bytes 16 (unat v)"

definition link_u64 :: "byte list \<Rightarrow> u64 \<Rightarrow> link_builder \<Rightarrow> link_builder" where
  "link_u64 tag v b = b @ be_bytes 8 (length tag) @ tag @ be_bytes 8 (unat v)"

definition link_finish :: "hashes \<Rightarrow> nat \<Rightarrow> link_builder \<Rightarrow> link_digest" where
  "link_finish h file_size b = \<lparr>ld_hash = blake3_hash h b, ld_size = file_size\<rparr>"

section \<open>Digits\<close>

lemma length_hex_fmt [simp]: "length (hex_fmt k n) = k"
  by (induction k arbitrary: n) simp_all

lemma hex_nibble_digits: "list_all (\<lambda>n. hex_nibble (hex_digit n) = Ok (word_of_nat n)) [0..<16]"
  by code_simp

lemma hex_nibble_digit: "n < 16 \<Longrightarrow> hex_nibble (hex_digit n) = Ok (word_of_nat n)"
  using hex_nibble_digits by (simp add: list_all_iff)

lemma nibbles_bytes:
  "list_all (\<lambda>a. list_all (\<lambda>b. push_bit 4 (word_of_nat a :: byte) OR word_of_nat b =
     word_of_nat (16 * a + b)) [0..<16]) [0..<16]"
  by code_simp

lemma nibbles_byte:
  "a < 16 \<Longrightarrow> b < 16 \<Longrightarrow>
   push_bit 4 (word_of_nat a :: byte) OR word_of_nat b = word_of_nat (16 * a + b)"
  using nibbles_bytes by (simp add: list_all_iff del: of_nat_add of_nat_mult)

section \<open>Text form\<close>

text \<open>Upper-case letters are accepted; the canonical form is the one printed with lower-case digits.\<close>

definition lower_byte :: "byte \<Rightarrow> byte" where
  "lower_byte b = (if 65 \<le> b \<and> b \<le> 90 then b + 32 else b)"

definition hex_text :: "byte list \<Rightarrow> byte list" where
  "hex_text bs = concat (map (\<lambda>b. hex_fmt 2 (unat b)) bs)"

fun digest_algorithm :: "expected_digest \<Rightarrow> string" where
  "digest_algorithm (EBlake3 _) = ''blake3''"
| "digest_algorithm (ESha256 _) = ''sha256''"
| "digest_algorithm (ESha512 _) = ''sha512''"

definition hex_lower :: "byte \<Rightarrow> bool" where
  "hex_lower b \<longleftrightarrow> 48 \<le> b \<and> b \<le> 57 \<or> 97 \<le> b \<and> b \<le> 102"

lemma hex_digits_ok: "distinct (map hex_digit [0..<16]) \<and> list_all hex_lower (map hex_digit [0..<16])"
  by code_simp

lemma hex_digit_inject: "a < 16 \<Longrightarrow> b < 16 \<Longrightarrow> hex_digit a = hex_digit b \<longleftrightarrow> a = b"
  using hex_digits_ok by (auto simp: distinct_map inj_on_def)

lemma hex_lower_digit: "a < 16 \<Longrightarrow> hex_lower (hex_digit a)"
  using hex_digits_ok by (simp add: list_all_iff)

lemma word_of_nat_unat: "word_of_nat (unat w) = w"
  by simp

lemma word_eq_unat: "(v :: 'a::len word) = w \<longleftrightarrow> unat v = unat w"
  by (metis word_of_nat_unat)

lemma unat_add_byte: "unat a + unat b < 256 \<Longrightarrow> unat (a + b :: byte) = unat a + unat b"
  using unat_add_lem [of a b] by simp

lemma hex_nibble_cases:
  "case hex_nibble b of
     Inr v \<Rightarrow> unat v < 16 \<and> lower_byte b = hex_digit (unat v)
   | Inl e \<Rightarrow> \<not> hex_lower (lower_byte b)"
proof -
  consider (digit) "48 \<le> unat b" "unat b \<le> 57" | (low) "97 \<le> unat b" "unat b \<le> 102"
    | (up) "65 \<le> unat b" "unat b \<le> 70"
    | (other) "\<not> (48 \<le> unat b \<and> unat b \<le> 57)" "\<not> (97 \<le> unat b \<and> unat b \<le> 102)" "\<not> (65 \<le> unat b \<and> unat b \<le> 70)"
    by blast
  then show ?thesis
  proof cases
    case digit
    then have "unat (b - 48) = unat b - 48" by (simp add: unat_sub word_le_nat_alt)
    with digit show ?thesis
      by (simp add: hex_nibble_def lower_byte_def hex_digit_def word_le_nat_alt word_eq_unat unat_of_nat)
  next
    case low
    then have "unat (b - 87) = unat b - 87" by (simp add: unat_sub word_le_nat_alt)
    with low show ?thesis
      by (simp add: hex_nibble_def lower_byte_def hex_digit_def word_le_nat_alt word_eq_unat unat_of_nat)
        arith
  next
    case up
    then have "unat (b - 55) = unat b - 55" by (simp add: unat_sub word_le_nat_alt)
    with up show ?thesis
      by (simp add: hex_nibble_def lower_byte_def hex_digit_def word_le_nat_alt word_eq_unat unat_of_nat unat_add_byte)
        arith
  next
    case other
    moreover have "unat (b + 32) = unat b + 32" if "unat b \<le> 90" using that by (simp add: unat_add_byte)
    ultimately show ?thesis
      by (auto simp: hex_nibble_def lower_byte_def hex_lower_def word_le_nat_alt)
  qed
qed

lemma hex_nibble_iff: "hex_nibble b = Ok v \<longleftrightarrow> unat v < 16 \<and> lower_byte b = hex_digit (unat v)"
  using hex_nibble_cases [of b] hex_lower_digit [of "unat v"]
  by (cases "hex_nibble b") (auto simp: hex_digit_inject dest: word_eq_unat [THEN iffD2])

lemma nat_digits: "l < 16 \<Longrightarrow> 16 * h + l = n \<longleftrightarrow> h = n div 16 \<and> l = n mod (16 :: nat)"
  by auto

lemma byte_nibbles:
  assumes "unat h < 16" "unat l < 16"
  shows "push_bit 4 h OR l = (b :: byte) \<longleftrightarrow> unat h = unat b div 16 \<and> unat l = unat b mod 16"
proof -
  have "push_bit 4 h OR l = word_of_nat (16 * unat h + unat l)"
    using nibbles_byte [OF assms] by (simp only: word_of_nat_unat)
  moreover have "16 * unat h + unat l < 2 ^ LENGTH(8)" using assms by simp
  ultimately have "unat (push_bit 4 h OR l) = 16 * unat h + unat l"
    by (metis mod_less unat_of_nat)
  then have "push_bit 4 h OR l = b \<longleftrightarrow> 16 * unat h + unat l = unat b"
    by (simp only: word_eq_unat)
  also have "\<dots> \<longleftrightarrow> unat h = unat b div 16 \<and> unat l = unat b mod 16"
    using assms(2) by (rule nat_digits)
  finally show ?thesis .
qed


lemma hex_text_Cons: "hex_text (b # bs) = hex_digit (unat b div 16) # hex_digit (unat b mod 16) # hex_text bs"
  using unat_byte_less [of b] by (simp add: hex_text_def numeral_2_eq_2 less_mult_imp_div_less)

lemma hex_text_Nil_iff: "[] = hex_text bs \<longleftrightarrow> bs = []"
  by (cases bs) (simp_all add: hex_text_Cons, simp add: hex_text_def)

lemma decode_hex_pairs_iff:
  "even (length hs) \<Longrightarrow> decode_hex_pairs hs = Ok bs \<longleftrightarrow> map lower_byte hs = hex_text bs"
proof (induction hs arbitrary: bs rule: induct_list012)
  case (3 h l hs)
  show ?case
  proof (cases bs)
    case Nil
    then show ?thesis by (auto simp: result_simps hex_text_def)
  next
    case (Cons b bs')
    have "unat b div 16 < 16" "unat b mod 16 < 16" using unat_byte_less [of b] by auto
    have *: "(\<exists>x y. hex_nibble h = Ok x \<and> hex_nibble l = Ok y \<and> push_bit 4 x OR y = b) \<longleftrightarrow>
        lower_byte h = hex_digit (unat b div 16) \<and> lower_byte l = hex_digit (unat b mod 16)"
      (is "?L \<longleftrightarrow> ?R")
    proof
      assume ?L
      then obtain x y where "hex_nibble h = Ok x" "hex_nibble l = Ok y" "push_bit 4 x OR y = b" by blast
      then show ?R using byte_nibbles [of x y b] by (simp add: hex_nibble_iff)
    next
      assume ?R
      with \<open>unat b div 16 < 16\<close> show ?L
        by (intro exI [of _ "word_of_nat (unat b div 16)"] exI [of _ "word_of_nat (unat b mod 16)"])
          (auto simp: hex_nibble_iff byte_nibbles unat_of_nat)
    qed
    have "decode_hex_pairs (h # l # hs) = Ok bs \<longleftrightarrow>
        (\<exists>x y. hex_nibble h = Ok x \<and> hex_nibble l = Ok y \<and> push_bit 4 x OR y = b)
        \<and> decode_hex_pairs hs = Ok bs'"
      using Cons by (auto simp: result_simps)
    moreover have "decode_hex_pairs hs = Ok bs' \<longleftrightarrow> map lower_byte hs = hex_text bs'"
      using 3 by simp
    ultimately show ?thesis using * by (simp add: Cons hex_text_Cons)
  qed
qed (auto simp: hex_text_Nil_iff)


lemma length_hex_text [simp]: "length (hex_text bs) = 2 * length bs"
  by (induction bs) (simp_all add: hex_text_Cons, simp add: hex_text_def)

lemma decode_hex_iff:
  "decode_hex hex n = Ok bs \<longleftrightarrow> length bs = n \<and> map lower_byte (str_bytes hex) = hex_text bs"
proof -
  have "length hex = 2 * length bs" if "map lower_byte (str_bytes hex) = hex_text bs"
    using arg_cong [OF that, of length] by simp
  then show ?thesis by (auto simp: decode_hex_def decode_hex_pairs_iff)
qed

text \<open>
  C23. The text form of a declared digest is \<open><algorithm>:<hex>\<close>: parsing succeeds exactly for the
  three algorithm names followed by a colon and, in any letter case, the hexadecimal digits of as
  many bytes as the algorithm has, and it returns those bytes. The persisted form is exact too: a
  discriminant and a byte string are the parts of at most one digest, which is well formed and has
  these parts; and a digest is verified only against a computed digest of its own algorithm.
\<close>

theorem digest_forms_exact:
  "(digest_parse s = Ok d \<longleftrightarrow>
      wf_digest d \<and> (\<exists>hex. s = digest_algorithm d @ CHR '':'' # hex
        \<and> map lower_byte (str_bytes hex) = hex_text (digest_bytes d)))
   \<and> (digest_from_parts k bs = Some d \<longleftrightarrow> wf_digest d \<and> digest_discriminant d = k \<and> digest_bytes d = bs)
   \<and> (digest_verify d c \<longleftrightarrow>
        (case d of EBlake3 bs \<Rightarrow> c = CBlake3 bs | ESha256 bs \<Rightarrow> c = CSha256 bs | ESha512 bs \<Rightarrow> c = CSha512 bs))"
proof -
  have "digest_parse s = Ok d \<longleftrightarrow>
      wf_digest d \<and> (\<exists>hex. split_once CHR '':'' s = Some (digest_algorithm d, hex)
        \<and> map lower_byte (str_bytes hex) = hex_text (digest_bytes d))"
    by (cases d) (auto simp: digest_parse_def result_simps decode_hex_iff split: option.splits)
  also have "\<dots> \<longleftrightarrow> wf_digest d \<and> (\<exists>hex. s = digest_algorithm d @ CHR '':'' # hex
        \<and> map lower_byte (str_bytes hex) = hex_text (digest_bytes d))"
    by (cases d) (simp_all add: split_once_eq_Some)
  finally show ?thesis
    by (cases d; cases c) (auto simp: digest_from_parts_def)
qed


section \<open>Identities determine their fields\<close>

text \<open>A chain of builder calls, as the callers write them.\<close>

datatype link_field =
    LinkBytes "byte list" "byte list"
  | LinkU128 "byte list" u128
  | LinkU64 "byte list" u64

fun link_add :: "link_field \<Rightarrow> link_builder \<Rightarrow> link_builder" where
  "link_add (LinkBytes tag v) b = link_bytes tag v b"
| "link_add (LinkU128 tag v) b = link_u128 tag v b"
| "link_add (LinkU64 tag v) b = link_u64 tag v b"

definition link_build :: "byte list \<Rightarrow> link_field list \<Rightarrow> link_builder" where
  "link_build domain fs = fold link_add fs (link_new domain)"

fun link_shape :: "link_field \<Rightarrow> nat \<times> byte list" where
  "link_shape (LinkBytes tag v) = (0, tag)"
| "link_shape (LinkU128 tag v) = (1, tag)"
| "link_shape (LinkU64 tag v) = (2, tag)"

text \<open>Slices are no longer than \<open>usize::MAX\<close>.\<close>

fun wf_link_field :: "link_field \<Rightarrow> bool" where
  "wf_link_field (LinkBytes tag v) \<longleftrightarrow> length tag \<le> usize_max \<and> length v \<le> usize_max"
| "wf_link_field (LinkU128 tag v) \<longleftrightarrow> length tag \<le> usize_max"
| "wf_link_field (LinkU64 tag v) \<longleftrightarrow> length tag \<le> usize_max"

definition link_enc :: "link_field \<Rightarrow> byte list" where
  "link_enc f = link_add f []"

lemma link_add_append: "link_add f b = b @ link_enc f"
  by (cases f) (simp_all add: link_enc_def link_bytes_def link_u128_def link_u64_def)

lemma link_build_append: "link_build domain fs = link_new domain @ concat (map link_enc fs)"
proof -
  have "fold link_add fs b = b @ concat (map link_enc fs)" for b
    by (induction fs arbitrary: b) (simp_all add: link_add_append)
  then show ?thesis by (simp add: link_build_def)
qed

lemma be_bytes_length_prefix:
  assumes "be_bytes 8 (length v) = be_bytes 8 (length v')" "v @ x = v' @ y"
    "length v \<le> usize_max" "length v' \<le> usize_max"
  shows "v = v' \<and> x = y"
proof -
  have "length v mod 256 ^ 8 = length v' mod 256 ^ 8" using assms(1) be_val_be_bytes by metis
  then have "length v = length v'" using assms(3,4) by (simp add: usize_max_def)
  with assms(2) show ?thesis by simp
qed

lemma be_bytes_inject_unat:
  "be_bytes 16 (unat (a :: u128)) = be_bytes 16 (unat b) \<longleftrightarrow> a = b"
  "be_bytes 8 (unat (c :: u64)) = be_bytes 8 (unat d) \<longleftrightarrow> c = d"
proof -
  show "be_bytes 16 (unat a) = be_bytes 16 (unat b) \<longleftrightarrow> a = b"
    using be_val_be_bytes [of 16 "unat a"] be_val_be_bytes [of 16 "unat b"] unat_le128 [of a] unat_le128 [of b]
    by (metis mod_less word_eq_unat)
  show "be_bytes 8 (unat c) = be_bytes 8 (unat d) \<longleftrightarrow> c = d"
    using be_val_be_bytes [of 8 "unat c"] be_val_be_bytes [of 8 "unat d"] unat_le64 [of c] unat_le64 [of d]
    by (metis mod_less word_eq_unat)
qed

lemma link_enc_prefix:
  assumes "link_enc f @ x = link_enc g @ y" "link_shape f = link_shape g" "wf_link_field f" "wf_link_field g"
  shows "f = g \<and> x = y"
  using assms
  by (cases f; cases g)
    (auto simp: link_enc_def link_bytes_def link_u128_def link_u64_def be_bytes_inject_unat
      dest: be_bytes_length_prefix)

lemma link_encs_inject:
  assumes "concat (map link_enc fs) = concat (map link_enc gs)" "map link_shape fs = map link_shape gs"
    "list_all wf_link_field fs" "list_all wf_link_field gs"
  shows "fs = gs"
  using assms
proof (induction fs arbitrary: gs)
  case (Cons f fs)
  then obtain g gs' where "gs = g # gs'" by (cases gs) auto
  with Cons show ?case using link_enc_prefix [of f _ g] by auto
qed simp


definition sample_hashes :: hashes where
  "sample_hashes = \<lparr>blake3_hash = (\<lambda>bs. take 32 (bs @ replicate 32 0)),
     sha256_hash = (\<lambda>bs. take 32 (bs @ replicate 32 0)), sha512_hash = (\<lambda>bs. take 64 (bs @ replicate 64 0))\<rparr>"

lemma sample_hashes_ok: "hashes_ok sample_hashes"
  by (auto simp: hashes_ok_def sample_hashes_def)


end
