(* ===== verification/ImageIo.thy ===== *)
theory ImageIo
  imports Digest
begin

text \<open>
  Atomic file staging, \<^verbatim>\<open>libs/image-core/src/ops/io.rs\<close>, over a model of the file system calls it
  makes. Every call may fail, and other processes may act between any two calls: a disk carries a
  script with one turn per call, which says what others wrote before it and whether it fails. An
  exhausted script is a disk on which nothing fails and nobody else writes. The platform's rename
  primitive is taken as atomic.
\<close>

section \<open>The file system\<close>

text \<open>A path is the list of its components.\<close>

type_synonym path = "string list"

datatype io_kind =
    NotFound
  | PermissionDenied
  | AlreadyExists
  | IsADirectory
  | InvalidInput
  | OtherError

record io_error =
  ie_kind :: io_kind
  ie_raw :: "int option"

definition io_err :: "io_kind \<Rightarrow> io_error" where
  "io_err k = \<lparr>ie_kind = k, ie_raw = None\<rparr>"

record turn =
  tn_writes :: "(path \<times> byte list option) list"
  tn_fault :: "io_error option"
  tn_partial :: nat

record disk =
  dk_files :: "path \<rightharpoonup> byte list"
  dk_dirs :: "path set"
  dk_script :: "turn list"

type_synonym 'a io = "disk \<Rightarrow> (io_error + 'a) \<times> disk"

definition foreign_writes :: "(path \<times> byte list option) list \<Rightarrow> (path \<rightharpoonup> byte list) \<Rightarrow> (path \<rightharpoonup> byte list)" where
  "foreign_writes ws files = fold (\<lambda>(p, c) files. files(p := c)) ws files"

text \<open>
  One call: others act, then the call fails or takes effect. A failing write may have written a
  part of its bytes; \<open>failed\<close> says what a failing call leaves behind.
\<close>

definition call_partial :: "(nat \<Rightarrow> disk \<Rightarrow> disk) \<Rightarrow> 'a io \<Rightarrow> 'a io" where
  "call_partial failed op d =
    (case dk_script d of
       [] \<Rightarrow> op d
     | t # ts \<Rightarrow>
         let d' = d\<lparr>dk_files := foreign_writes (tn_writes t) (dk_files d), dk_script := ts\<rparr> in
         (case tn_fault t of
            Some e \<Rightarrow> (Err e, failed (tn_partial t) d')
          | None \<Rightarrow> op d'))"

definition call :: "'a io \<Rightarrow> 'a io" where
  "call op = call_partial (\<lambda>_ d. d) op"

definition fs_rename :: "path \<Rightarrow> path \<Rightarrow> unit io" where
  "fs_rename source target =
    call (\<lambda>d. case dk_files d source of
                None \<Rightarrow> (Err (io_err NotFound), d)
              | Some bytes \<Rightarrow>
                  if target \<in> dk_dirs d then (Err (io_err IsADirectory), d)
                  else (Ok (), d\<lparr>dk_files := (dk_files d)(source := None, target := Some bytes)\<rparr>))"

definition fs_remove_file :: "path \<Rightarrow> unit io" where
  "fs_remove_file p =
    call (\<lambda>d. case dk_files d p of
                None \<Rightarrow> (Err (io_err NotFound), d)
              | Some _ \<Rightarrow> (Ok (), d\<lparr>dk_files := (dk_files d)(p := None)\<rparr>))"

definition fs_create_new :: "path \<Rightarrow> unit io" where
  "fs_create_new p =
    call (\<lambda>d. if dk_files d p \<noteq> None \<or> p \<in> dk_dirs d then (Err (io_err AlreadyExists), d)
               else (Ok (), d\<lparr>dk_files := (dk_files d)(p := Some [])\<rparr>))"

definition append_file :: "path \<Rightarrow> byte list \<Rightarrow> disk \<Rightarrow> disk" where
  "append_file p bytes d =
    (case dk_files d p of
       None \<Rightarrow> d
     | Some old \<Rightarrow> d\<lparr>dk_files := (dk_files d)(p := Some (old @ bytes))\<rparr>)"

text \<open>A write through an open handle.\<close>

definition fs_write_all :: "path \<Rightarrow> byte list \<Rightarrow> unit io" where
  "fs_write_all p bytes =
    call_partial (\<lambda>n. append_file p (take n bytes)) (\<lambda>d. (Ok (), append_file p bytes d))"

text \<open>Flushing a handle, and the other calls that change no file.\<close>

definition fs_sync :: "unit io" where
  "fs_sync = call (\<lambda>d. (Ok (), d))"

definition fs_create_dir_all :: "path \<Rightarrow> unit io" where
  "fs_create_dir_all p =
    call (\<lambda>d. if dk_files d p \<noteq> None then (Err (io_err AlreadyExists), d)
               else (Ok (), d\<lparr>dk_dirs := dk_dirs d \<union> set (prefixes p)\<rparr>))"

datatype metadata = MetaDir | MetaFile nat

definition fs_metadata :: "path \<Rightarrow> metadata io" where
  "fs_metadata p =
    call (\<lambda>d. if p \<in> dk_dirs d then (Ok MetaDir, d)
               else (case dk_files d p of
                       None \<Rightarrow> (Err (io_err NotFound), d)
                     | Some bytes \<Rightarrow> (Ok (MetaFile (length bytes)), d)))"

text \<open>
  Opening a file fixes the bytes a handle reads, since files are only replaced by renaming; the
  reads that follow can still fail.
\<close>

definition fs_open :: "path \<Rightarrow> byte list io" where
  "fs_open p =
    call (\<lambda>d. case dk_files d p of
                None \<Rightarrow> (Err (io_err NotFound), d)
              | Some bytes \<Rightarrow> (Ok bytes, d))"

definition fs_read_to_end :: "byte list \<Rightarrow> byte list io" where
  "fs_read_to_end handle = call (\<lambda>d. (Ok handle, d))"

definition bindIO :: "'a io \<Rightarrow> ('a \<Rightarrow> 'b io) \<Rightarrow> 'b io" where
  "bindIO m f d = (case m d of (Inl e, d') \<Rightarrow> (Inl e, d') | (Inr a, d') \<Rightarrow> f a d')"

text \<open>\<open>let _ = call\<close>.\<close>

definition ignoring :: "'a io \<Rightarrow> disk \<Rightarrow> disk" where
  "ignoring m d = snd (m d)"

section \<open>Errors and digests of files\<close>

datatype temp_file_error =
    TfCreate path io_error
  | TfOpen path io_error
  | TfWrite path io_error
  | TfFlush path io_error
  | TfRead path io_error
  | TfPublish path io_error

definition bytes_digest :: "hashes \<Rightarrow> byte list \<Rightarrow> file_digest" where
  "bytes_digest h bytes = \<lparr>fd_hash = blake3_hash h bytes, fd_size = length bytes\<rparr>"

definition compute_file_digest :: "hashes \<Rightarrow> path \<Rightarrow> disk \<Rightarrow> (temp_file_error + file_digest) \<times> disk" where
  "compute_file_digest h p d =
    (case fs_open p d of
       (Inl e, d) \<Rightarrow> (Err (TfOpen p e), d)
     | (Inr handle, d) \<Rightarrow>
         (case fs_read_to_end handle d of
            (Inl e, d) \<Rightarrow> (Err (TfRead p e), d)
          | (Inr bytes, d) \<Rightarrow> (Ok (bytes_digest h bytes), d)))"

section \<open>Publication\<close>

text \<open>
  Errors that mean another writer is replacing the destination. On Windows the raw codes for a
  missing file or path, denied access, sharing and lock violations, existing files and the
  \<open>ReplaceFileW\<close> family count as well.
\<close>

definition contended :: "bool \<Rightarrow> io_error \<Rightarrow> bool" where
  "contended windows e \<longleftrightarrow>
    ie_kind e = AlreadyExists \<or> ie_kind e = PermissionDenied
    \<or> windows \<and> (case ie_raw e of
         None \<Rightarrow> False
       | Some code \<Rightarrow> code \<in> {2, 3, 5, 32, 33, 183, 1175, 1176, 1177, 1178})"

definition attempt_publish :: "path \<Rightarrow> path \<Rightarrow> unit io" where
  "attempt_publish temp destination = fs_rename temp destination"

definition destination_matches :: "hashes \<Rightarrow> path \<Rightarrow> file_digest \<Rightarrow> bool io" where
  "destination_matches h p expected d =
    (case fs_metadata p d of
       (Inl e, d) \<Rightarrow> if ie_kind e = NotFound then (Ok False, d) else (Err e, d)
     | (Inr md, d) \<Rightarrow>
         if md \<noteq> MetaFile (fd_size expected) then (Ok False, d)
         else bindIO (fs_open p) (\<lambda>handle.
              bindIO (fs_read_to_end handle) (\<lambda>bytes d.
                (Ok (blake3_hash h bytes = fd_hash expected), d))) d)"

definition PUBLISH_RETRY_ATTEMPTS :: nat where
  "PUBLISH_RETRY_ATTEMPTS = 3"

datatype retry_outcome = Returned "temp_file_error + unit" | Accepted | Exhausted

text \<open>The retry loop with \<open>n\<close> rounds left.\<close>

fun publish_retry ::
  "bool \<Rightarrow> (path \<Rightarrow> path \<Rightarrow> unit io) \<Rightarrow> (path \<Rightarrow> file_digest \<Rightarrow> bool io) \<Rightarrow> path \<Rightarrow> path \<Rightarrow> file_digest \<Rightarrow>
   nat \<Rightarrow> disk \<Rightarrow> retry_outcome \<times> disk" where
  "publish_retry windows rename matches temp destination expected 0 d = (Exhausted, d)"
| "publish_retry windows rename matches temp destination expected (Suc n) d =
    (case matches destination expected d of
       (Inr True, d) \<Rightarrow> (Accepted, d)
     | (matched, d) \<Rightarrow>
         if case matched of Inl e \<Rightarrow> \<not> contended windows e | Inr _ \<Rightarrow> False
         then (Returned (Err (TfPublish destination (projl matched))), ignoring (fs_remove_file temp) d)
         else
           (case rename temp destination d of
              (Inr _, d) \<Rightarrow> (Returned (Ok ()), d)
            | (Inl e, d) \<Rightarrow>
                if contended windows e
                then publish_retry windows rename matches temp destination expected n d
                else (Returned (Err (TfPublish destination e)), ignoring (fs_remove_file temp) d)))"

definition create_parent :: "path \<Rightarrow> unit io" where
  "create_parent destination =
    (if destination = [] then (\<lambda>d. (Ok (), d)) else fs_create_dir_all (butlast destination))"

text \<open>The policy after a contended rename: accept a winner, retry, or replace stale content.\<close>

definition publish_contended ::
  "bool \<Rightarrow> (path \<Rightarrow> path \<Rightarrow> unit io) \<Rightarrow> (path \<Rightarrow> file_digest \<Rightarrow> bool io) \<Rightarrow> path \<Rightarrow> path \<Rightarrow> file_digest \<Rightarrow>
   disk \<Rightarrow> (temp_file_error + unit) \<times> disk" where
  "publish_contended windows rename matches temp destination expected d =
    (case publish_retry windows rename matches temp destination expected
            (Suc PUBLISH_RETRY_ATTEMPTS) d of
       (Returned r, d) \<Rightarrow> (r, d)
     | (Accepted, d) \<Rightarrow> (Ok (), ignoring (fs_remove_file temp) d)
     | (Exhausted, d) \<Rightarrow>
         (case rename temp destination (ignoring (fs_remove_file destination) d) of
            (Inr _, d) \<Rightarrow> (Ok (), d)
          | (Inl e, d) \<Rightarrow> (Err (TfPublish destination e), ignoring (fs_remove_file temp) d)))"

definition publish_with ::
  "bool \<Rightarrow> (path \<Rightarrow> path \<Rightarrow> unit io) \<Rightarrow> (path \<Rightarrow> file_digest \<Rightarrow> bool io) \<Rightarrow> path \<Rightarrow> path \<Rightarrow> file_digest \<Rightarrow>
   disk \<Rightarrow> (temp_file_error + unit) \<times> disk" where
  "publish_with windows rename matches temp destination expected d =
    (case create_parent destination d of
       (Inl e, d) \<Rightarrow> (Err (TfPublish destination e), d)
     | (Inr _, d) \<Rightarrow>
         (case fs_metadata destination d of
            (md, d) \<Rightarrow>
              if md = Ok MetaDir
              then (Err (TfPublish destination (io_err IsADirectory)), ignoring (fs_remove_file temp) d)
              else
                (case rename temp destination d of
                   (Inr _, d) \<Rightarrow> (Ok (), d)
                 | (Inl e, d) \<Rightarrow>
                     if \<not> contended windows e
                     then (Err (TfPublish destination e), ignoring (fs_remove_file temp) d)
                     else
                       publish_contended windows rename matches temp destination expected d)))"

definition publish :: "bool \<Rightarrow> hashes \<Rightarrow> path \<Rightarrow> path \<Rightarrow> file_digest \<Rightarrow> disk \<Rightarrow> (temp_file_error + unit) \<times> disk" where
  "publish windows h = publish_with windows attempt_publish (destination_matches h)"

text \<open>Strict replacement of an output the caller owns (the branch for Unix).\<close>

definition strict_replace :: "path \<Rightarrow> path \<Rightarrow> unit io" where
  "strict_replace staging destination = fs_rename staging destination"

definition replace_file_atomically :: "path \<Rightarrow> path \<Rightarrow> unit io" where
  "replace_file_atomically staging destination d =
    (if butlast staging \<noteq> butlast destination then (Err (io_err InvalidInput), d)
     else
       (case fs_metadata destination d of
          (md, d) \<Rightarrow>
            if md = Ok MetaDir then (Err (io_err IsADirectory), d)
            else strict_replace staging destination d))"

section \<open>The staging writer\<close>

datatype aux_hasher =
    AuxNone
  | AuxBlake3
  | AuxSha256 "byte list"
  | AuxSha512 "byte list"

definition aux_from_expected :: "expected_digest option \<Rightarrow> aux_hasher" where
  "aux_from_expected expected =
    (case expected of
       None \<Rightarrow> AuxNone
     | Some (EBlake3 _) \<Rightarrow> AuxBlake3
     | Some (ESha256 _) \<Rightarrow> AuxSha256 []
     | Some (ESha512 _) \<Rightarrow> AuxSha512 [])"

fun aux_update :: "byte list \<Rightarrow> aux_hasher \<Rightarrow> aux_hasher" where
  "aux_update bytes AuxNone = AuxNone"
| "aux_update bytes AuxBlake3 = AuxBlake3"
| "aux_update bytes (AuxSha256 absorbed) = AuxSha256 (absorbed @ bytes)"
| "aux_update bytes (AuxSha512 absorbed) = AuxSha512 (absorbed @ bytes)"

fun aux_finalize :: "hashes \<Rightarrow> aux_hasher \<Rightarrow> computed_digest option" where
  "aux_finalize h AuxNone = None"
| "aux_finalize h AuxBlake3 = None"
| "aux_finalize h (AuxSha256 absorbed) = Some (CSha256 (sha256_hash h absorbed))"
| "aux_finalize h (AuxSha512 absorbed) = Some (CSha512 (sha512_hash h absorbed))"

record published_file =
  pf_digest :: file_digest
  pf_aux :: "computed_digest option"

record temp_writer =
  tw_temp :: path
  tw_destination :: path
  tw_hasher :: "byte list"
  tw_aux :: aux_hasher
  tw_bytes_written :: nat
  tw_finished :: "published_file option"
  tw_published :: bool

text \<open>\<open>Path::file_stem\<close> of the last component, \<open>image\<close> without one.\<close>

definition file_stem :: "path \<Rightarrow> string" where
  "file_stem p =
    (if p = [] then ''image''
     else (case rsplit_once CHR ''.'' (last p) of
             Some (stem, ext) \<Rightarrow> if stem = [] then last p else stem
           | None \<Rightarrow> last p))"

text \<open>\<open>unique\<close> is the text of the version 7 UUID in the name of the temporary file.\<close>

definition temp_path_for :: "string \<Rightarrow> path \<Rightarrow> path" where
  "temp_path_for unique destination =
    butlast destination @ [''.'' @ file_stem destination @ ''.tmp-'' @ unique]"

definition tw_open :: "string \<Rightarrow> path \<Rightarrow> disk \<Rightarrow> (temp_file_error + temp_writer) \<times> disk" where
  "tw_open unique destination d =
    (let temp = temp_path_for unique destination in
     case fs_create_new temp d of
       (Inl e, d) \<Rightarrow> (Err (TfCreate temp e), d)
     | (Inr _, d) \<Rightarrow>
         (Ok \<lparr>tw_temp = temp, tw_destination = destination, tw_hasher = [], tw_aux = AuxNone,
              tw_bytes_written = 0, tw_finished = None, tw_published = False\<rparr>, d))"

definition tw_set_expected_digest :: "expected_digest option \<Rightarrow> temp_writer \<Rightarrow> temp_writer" where
  "tw_set_expected_digest expected w = w\<lparr>tw_aux := aux_from_expected expected\<rparr>"

type_synonym ('e, 'a) writer = "temp_writer \<times> disk \<Rightarrow> ('e + 'a) \<times> temp_writer \<times> disk"

definition tw_write_all :: "byte list \<Rightarrow> (temp_file_error, unit) writer" where
  "tw_write_all bytes = (\<lambda>(w, d).
    case fs_write_all (tw_temp w) bytes d of
      (Inl e, d) \<Rightarrow> (Err (TfWrite (tw_temp w) e), w, d)
    | (Inr _, d) \<Rightarrow>
        (Ok (), w\<lparr>tw_hasher := tw_hasher w @ bytes, tw_aux := aux_update bytes (tw_aux w),
                   tw_bytes_written := tw_bytes_written w + length bytes\<rparr>, d))"

definition tw_flush :: "(temp_file_error, unit) writer" where
  "tw_flush = (\<lambda>(w, d).
    case fs_sync d of
      (Inl e, d) \<Rightarrow> (Err (TfFlush (tw_temp w) e), w, d)
    | (Inr _, d) \<Rightarrow> (Ok (), w, d))"

definition tw_finish :: "hashes \<Rightarrow> (temp_file_error, published_file) writer" where
  "tw_finish h = (\<lambda>(w, d).
    case tw_finished w of
      Some done \<Rightarrow> (Ok done, w, d)
    | None \<Rightarrow>
        (case fs_sync d of
           (Inl e, d) \<Rightarrow> (Err (TfFlush (tw_temp w) e), w, d)
         | (Inr _, d) \<Rightarrow>
             (case fs_sync d of
                (Inl e, d) \<Rightarrow> (Err (TfFlush (tw_temp w) e), w, d)
              | (Inr _, d) \<Rightarrow>
                  let done = \<lparr>pf_digest = \<lparr>fd_hash = blake3_hash h (tw_hasher w),
                                           fd_size = tw_bytes_written w\<rparr>,
                              pf_aux = aux_finalize h (tw_aux w)\<rparr> in
                  (Ok done, w\<lparr>tw_hasher := [], tw_aux := AuxNone, tw_finished := Some done\<rparr>, d))))"

text \<open>\<open>Drop\<close> removes the temporary file unless it was published.\<close>

definition tw_drop :: "temp_writer \<Rightarrow> disk \<Rightarrow> disk" where
  "tw_drop w d = (if tw_published w then d else ignoring (fs_remove_file (tw_temp w)) d)"

text \<open>Publication consumes the writer, so it ends with the drop.\<close>

definition tw_publish :: "bool \<Rightarrow> hashes \<Rightarrow> temp_writer \<times> disk \<Rightarrow> (temp_file_error + published_file) \<times> disk" where
  "tw_publish windows h = (\<lambda>(w, d).
    case tw_finish h (w, d) of
      (Inl e, w, d) \<Rightarrow> (Err e, tw_drop w d)
    | (Inr done, w, d) \<Rightarrow>
        (case publish windows h (tw_temp w) (tw_destination w) (pf_digest done) d of
           (Inl e, d) \<Rightarrow> (Err e, tw_drop w d)
         | (Inr _, d) \<Rightarrow> (Ok done, tw_drop (w\<lparr>tw_published := True\<rparr>) d)))"

text \<open>The digest of the published bytes in the algorithm of a declared digest.\<close>

definition computed_for :: "published_file \<Rightarrow> expected_digest option \<Rightarrow> computed_digest option" where
  "computed_for pf expected =
    (case expected of
       None \<Rightarrow> None
     | Some (EBlake3 _) \<Rightarrow> Some (CBlake3 (fd_hash (pf_digest pf)))
     | Some _ \<Rightarrow> pf_aux pf)"

text \<open>A caller that writes its chunks and publishes, giving up at the first error.\<close>

fun tw_write_chunks :: "byte list list \<Rightarrow> (temp_file_error, unit) writer" where
  "tw_write_chunks [] = (\<lambda>s. (Ok (), s))"
| "tw_write_chunks (c # cs) = (\<lambda>s.
    case tw_write_all c s of
      (Inl e, s) \<Rightarrow> (Err e, s)
    | (Inr _, s) \<Rightarrow> tw_write_chunks cs s)"

definition stage_and_publish ::
  "bool \<Rightarrow> hashes \<Rightarrow> string \<Rightarrow> path \<Rightarrow> expected_digest option \<Rightarrow> byte list list \<Rightarrow> disk \<Rightarrow>
   (temp_file_error + published_file) \<times> disk" where
  "stage_and_publish windows h unique destination expected chunks d =
    (case tw_open unique destination d of
       (Inl e, d) \<Rightarrow> (Err e, d)
     | (Inr w, d) \<Rightarrow>
         (case tw_write_chunks chunks (tw_set_expected_digest expected w, d) of
            (Inl e, w, d) \<Rightarrow> (Err e, tw_drop w d)
          | (Inr _, w, d) \<Rightarrow> tw_publish windows h (w, d)))"

section \<open>Other publishers\<close>

text \<open>
  Destinations are derived from their content, so other processes that write the destination write
  bytes with the expected digest; and no other process knows the unique temporary path.
\<close>

definition holds_digest :: "hashes \<Rightarrow> file_digest \<Rightarrow> byte list option \<Rightarrow> bool" where
  "holds_digest h E c \<longleftrightarrow> (case c of None \<Rightarrow> False | Some bytes \<Rightarrow> bytes_digest h bytes = E)"

definition turn_ok :: "hashes \<Rightarrow> file_digest \<Rightarrow> path \<Rightarrow> path \<Rightarrow> turn \<Rightarrow> bool" where
  "turn_ok h E temp dest t \<longleftrightarrow>
    list_all (\<lambda>(p, c). p \<noteq> temp \<and> (p = dest \<longrightarrow> holds_digest h E c)) (tn_writes t)"

definition script_ok :: "hashes \<Rightarrow> file_digest \<Rightarrow> path \<Rightarrow> path \<Rightarrow> disk \<Rightarrow> bool" where
  "script_ok h E temp dest d \<longleftrightarrow> temp \<noteq> dest \<and> list_all (turn_ok h E temp dest) (dk_script d)"

text \<open>What a call that does not touch the destination may change.\<close>

definition dest_drift :: "hashes \<Rightarrow> file_digest \<Rightarrow> path \<Rightarrow> path \<Rightarrow> disk \<Rightarrow> disk \<Rightarrow> bool" where
  "dest_drift h E temp dest d d' \<longleftrightarrow> script_ok h E temp dest d'
     \<and> (dk_files d' dest = dk_files d dest \<or> holds_digest h E (dk_files d' dest))"

definition drift :: "hashes \<Rightarrow> file_digest \<Rightarrow> path \<Rightarrow> path \<Rightarrow> disk \<Rightarrow> disk \<Rightarrow> bool" where
  "drift h E temp dest d d' \<longleftrightarrow> dest_drift h E temp dest d d'
     \<and> (dk_files d' temp = dk_files d temp \<or> dk_files d' temp = None)"

lemma dest_drift_refl: "script_ok h E temp dest d \<Longrightarrow> dest_drift h E temp dest d d"
  by (simp add: dest_drift_def)

lemma drift_refl: "script_ok h E temp dest d \<Longrightarrow> drift h E temp dest d d"
  by (simp add: drift_def dest_drift_refl)

lemma dest_drift_trans:
  "dest_drift h E temp dest d1 d2 \<Longrightarrow> dest_drift h E temp dest d2 d3 \<Longrightarrow> dest_drift h E temp dest d1 d3"
  by (auto simp: dest_drift_def)

lemma drift_trans:
  "drift h E temp dest d1 d2 \<Longrightarrow> drift h E temp dest d2 d3 \<Longrightarrow> drift h E temp dest d1 d3"
  unfolding drift_def using dest_drift_trans by metis

lemma drift_script: "drift h E temp dest d d' \<Longrightarrow> script_ok h E temp dest d'"
  by (simp add: drift_def dest_drift_def)

lemma dest_drift_script: "dest_drift h E temp dest d d' \<Longrightarrow> script_ok h E temp dest d'"
  by (simp add: dest_drift_def)

lemma dest_drift_holds:
  "dest_drift h E temp dest d d' \<Longrightarrow> holds_digest h E (dk_files d dest) \<Longrightarrow> holds_digest h E (dk_files d' dest)"
  by (auto simp: dest_drift_def)

lemma foreign_writes_Cons: "foreign_writes ((p, c) # ws) files = foreign_writes ws (files(p := c))"
  by (simp add: foreign_writes_def)

lemma foreign_writes_ok:
  assumes "list_all (\<lambda>(p, c). p \<noteq> temp \<and> (p = dest \<longrightarrow> holds_digest h E c)) ws"
  shows "foreign_writes ws files temp = files temp
    \<and> (foreign_writes ws files dest = files dest \<or> holds_digest h E (foreign_writes ws files dest))"
  using assms
proof (induction ws arbitrary: files)
  case Nil
  then show ?case by (simp add: foreign_writes_def)
next
  case (Cons w ws)
  obtain p c where w: "w = (p, c)" by (cases w)
  from Cons.IH [of "files(p := c)"] Cons.prems w show ?case
    by (auto simp: foreign_writes_Cons simp del: fun_upd_apply) (auto simp: fun_upd_apply)
qed

text \<open>Others act before a call without touching the temporary file.\<close>

lemma turn_drift:
  assumes "script_ok h E temp dest d" "dk_script d = t # ts"
  shows "drift h E temp dest d (d\<lparr>dk_files := foreign_writes (tn_writes t) (dk_files d), dk_script := ts\<rparr>)"
    and "foreign_writes (tn_writes t) (dk_files d) temp = dk_files d temp"
  using assms foreign_writes_ok [of temp dest h E "tn_writes t" "dk_files d"]
  by (auto simp: drift_def dest_drift_def script_ok_def turn_ok_def)

lemma call_partial_cases:
  assumes "script_ok h E temp dest d"
  obtains d1 where "drift h E temp dest d d1" "dk_files d1 temp = dk_files d temp"
    "call_partial failed op d = op d1 \<or> (\<exists>e n. call_partial failed op d = (Inl e, failed n d1))"
proof (cases "dk_script d")
  case Nil
  show ?thesis
    by (rule that [OF drift_refl [OF assms]]) (simp_all add: call_partial_def Nil)
next
  case (Cons t ts)
  show ?thesis
    by (rule that [OF turn_drift(1) [OF assms Cons]])
      (simp_all add: call_partial_def Cons turn_drift(2) [OF assms Cons] Let_def split: option.splits, auto)
qed

lemma call_cases:
  assumes "script_ok h E temp dest d"
  obtains d1 where "drift h E temp dest d d1" "dk_files d1 temp = dk_files d temp"
    "call op d = op d1 \<or> (\<exists>e. call op d = (Inl e, d1))"
  using call_partial_cases [OF assms, where failed = "\<lambda>_ d. d" and op = op] unfolding call_def by metis

lemma call_drift:
  assumes "script_ok h E temp dest d"
    and "\<And>d1. script_ok h E temp dest d1 \<Longrightarrow> drift h E temp dest d1 (snd (op d1))"
  shows "drift h E temp dest d (snd (call op d))"
proof -
  obtain d1 where d1: "drift h E temp dest d d1" "call op d = op d1 \<or> (\<exists>e. call op d = (Inl e, d1))"
    using call_cases [OF assms(1)] by metis
  with assms(2) [OF drift_script [OF d1(1)]] show ?thesis using drift_trans by (metis snd_conv)
qed

lemma drift_dirs: "script_ok h E temp dest d \<Longrightarrow> drift h E temp dest d (d\<lparr>dk_dirs := D\<rparr>)"
  by (simp add: drift_def dest_drift_def script_ok_def)

lemma reading_drift:
  assumes "script_ok h E temp dest d"
  shows "drift h E temp dest d (snd (fs_metadata p d))"
    and "drift h E temp dest d (snd (fs_open p d))"
    and "drift h E temp dest d (snd (fs_read_to_end bytes d))"
    and "drift h E temp dest d (snd (fs_sync d))"
    and "drift h E temp dest d (snd (fs_create_dir_all p d))"
    and "drift h E temp dest d (ignoring (fs_remove_file temp) d)"
  unfolding ignoring_def fs_metadata_def fs_open_def fs_read_to_end_def fs_sync_def fs_create_dir_all_def
    fs_remove_file_def
  by (rule call_drift [OF assms];
      auto simp: drift_refl drift_dirs split: option.splits;
      auto simp: drift_def dest_drift_def script_ok_def)+

section \<open>Publication\<close>

definition staged :: "hashes \<Rightarrow> file_digest \<Rightarrow> path \<Rightarrow> disk \<Rightarrow> bool" where
  "staged h E temp d \<longleftrightarrow> (\<forall>bytes. dk_files d temp = Some bytes \<longrightarrow> bytes_digest h bytes = E)"

lemma staged_drift: "drift h E temp dest d d' \<Longrightarrow> staged h E temp d \<Longrightarrow> staged h E temp d'"
  by (auto simp: drift_def staged_def)

lemma rename_cases:
  assumes "script_ok h E temp dest d" "staged h E temp d"
  shows "case fs_rename temp dest d of
      (Inr _, d') \<Rightarrow> script_ok h E temp dest d' \<and> holds_digest h E (dk_files d' dest)
    | (Inl _, d') \<Rightarrow> drift h E temp dest d d'"
proof -
  let ?op = "\<lambda>d. case dk_files d temp of
      None \<Rightarrow> (Err (io_err NotFound), d)
    | Some bytes \<Rightarrow> if dest \<in> dk_dirs d then (Err (io_err IsADirectory), d)
        else (Ok (), d\<lparr>dk_files := (dk_files d)(temp := None, dest := Some bytes)\<rparr>)"
  obtain d1 where d1: "drift h E temp dest d d1" "dk_files d1 temp = dk_files d temp"
    "call ?op d = ?op d1 \<or> (\<exists>e. call ?op d = (Inl e, d1))"
    by (rule call_cases [OF assms(1), where op = ?op])
  have ok: "script_ok h E temp dest (d1\<lparr>dk_files := F\<rparr>)" for F
    using drift_script [OF d1(1)] by (simp add: script_ok_def)
  from d1(3) show ?thesis
  proof
    assume "call ?op d = ?op d1"
    then show ?thesis unfolding fs_rename_def
      using d1(1,2) ok assms(2) by (auto simp: staged_def holds_digest_def split: option.splits)
  next
    assume "\<exists>e. call ?op d = (Inl e, d1)"
    then show ?thesis unfolding fs_rename_def using d1(1) by auto
  qed
qed

text \<open>Removing a stale destination.\<close>

lemma remove_dest:
  assumes "script_ok h E temp dest d"
  shows "script_ok h E temp dest (ignoring (fs_remove_file dest) d)
    \<and> dk_files (ignoring (fs_remove_file dest) d) temp = dk_files d temp
    \<and> (dk_files (ignoring (fs_remove_file dest) d) dest = dk_files d dest
       \<or> dk_files (ignoring (fs_remove_file dest) d) dest = None
       \<or> holds_digest h E (dk_files (ignoring (fs_remove_file dest) d) dest))"
proof -
  let ?op = "\<lambda>d. case dk_files d dest of
      None \<Rightarrow> (Err (io_err NotFound), d)
    | Some _ \<Rightarrow> (Ok (), d\<lparr>dk_files := (dk_files d)(dest := None)\<rparr>)"
  obtain d1 where d1: "drift h E temp dest d d1" "dk_files d1 temp = dk_files d temp"
    "call ?op d = ?op d1 \<or> (\<exists>e. call ?op d = (Inl e, d1))"
    by (rule call_cases [OF assms(1), where op = ?op])
  then show ?thesis unfolding fs_remove_file_def ignoring_def
    by (auto simp: drift_def dest_drift_def script_ok_def split: option.splits)
qed

lemma open_cases:
  assumes "script_ok h E temp dest d"
  obtains e d1 where "fs_open dest d = (Inl e, d1)" "drift h E temp dest d d1"
  | bytes d1 where "fs_open dest d = (Inr bytes, d1)" "drift h E temp dest d d1" "dk_files d1 dest = Some bytes"
proof -
  let ?op = "\<lambda>d. case dk_files d dest of None \<Rightarrow> (Err (io_err NotFound), d) | Some bytes \<Rightarrow> (Ok bytes, d)"
  obtain d1 where d1: "drift h E temp dest d d1" "dk_files d1 temp = dk_files d temp"
    "call ?op d = ?op d1 \<or> (\<exists>e. call ?op d = (Inl e, d1))"
    by (rule call_cases [OF assms(1), where op = ?op])
  with that show ?thesis unfolding fs_open_def by (auto split: option.splits)
qed

lemma metadata_cases:
  assumes "script_ok h E temp dest d"
  obtains r d1 where "fs_metadata dest d = (r, d1)" "drift h E temp dest d d1"
    "\<forall>n. r = Inr (MetaFile n) \<longrightarrow> (\<exists>bytes. dk_files d1 dest = Some bytes \<and> length bytes = n)"
proof -
  let ?op = "\<lambda>d. if dest \<in> dk_dirs d then (Ok MetaDir, d)
      else (case dk_files d dest of None \<Rightarrow> (Err (io_err NotFound), d)
             | Some bytes \<Rightarrow> (Ok (MetaFile (length bytes)), d))"
  obtain d1 where d1: "drift h E temp dest d d1" "dk_files d1 temp = dk_files d temp"
    "call ?op d = ?op d1 \<or> (\<exists>e. call ?op d = (Inl e, d1))"
    by (rule call_cases [OF assms(1), where op = ?op])
  with that show ?thesis unfolding fs_metadata_def by (auto split: option.splits if_splits)
qed

lemma matches_cases:
  assumes "script_ok h E temp dest d"
  shows "drift h E temp dest d (snd (destination_matches h dest E d))"
    and "fst (destination_matches h dest E d) = Inr True \<Longrightarrow>
         holds_digest h E (dk_files (snd (destination_matches h dest E d)) dest)"
proof -
  obtain r d1 where m: "fs_metadata dest d = (r, d1)" "drift h E temp dest d d1"
    "\<forall>n. r = Inr (MetaFile n) \<longrightarrow> (\<exists>bytes. dk_files d1 dest = Some bytes \<and> length bytes = n)"
    by (rule metadata_cases [OF assms])
  note s1 = drift_script [OF m(2)]
  have "drift h E temp dest d (snd (destination_matches h dest E d))
    \<and> (fst (destination_matches h dest E d) = Inr True \<longrightarrow>
         holds_digest h E (dk_files (snd (destination_matches h dest E d)) dest))"
  proof (cases "r = Inr (MetaFile (fd_size E))")
    case False
    with m(1,2) show ?thesis by (cases r) (auto simp: destination_matches_def)
  next
    case True
    from s1 show ?thesis
    proof (cases rule: open_cases)
      case (1 e d2)
      with True m(1,2) show ?thesis using drift_trans
        by (auto simp: destination_matches_def bindIO_def)
    next
      case (2 bytes d2)
      let ?r = "fs_read_to_end bytes d2"
      have d3: "drift h E temp dest d2 (snd ?r)" using reading_drift(3) [OF drift_script [OF 2(2)]] .
      have run: "destination_matches h dest E d =
          (case ?r of (Inl e, d) \<Rightarrow> (Inl e, d) | (Inr bs, d) \<Rightarrow> (Inr (blake3_hash h bs = fd_hash E), d))"
        using True m(1) 2(1) by (simp add: destination_matches_def bindIO_def)
      have r: "fst ?r = Inr bs \<Longrightarrow> bs = bytes" for bs
        by (simp add: fs_read_to_end_def call_def call_partial_def Let_def split: list.splits option.splits)
      obtain old where old: "dk_files d1 dest = Some old" "length old = fd_size E" using m(3) True by blast
      have "holds_digest h E (dk_files d2 dest)" if "blake3_hash h bytes = fd_hash E"
        using 2(2,3) that old
        by (auto simp: drift_def dest_drift_def holds_digest_def bytes_digest_def)
      then have "holds_digest h E (dk_files (snd ?r) dest)" if "fst ?r = Inr bs" "blake3_hash h bs = fd_hash E" for bs
        using r [OF that(1)] that(2) d3 dest_drift_holds unfolding drift_def by metis
      moreover have "drift h E temp dest d (snd ?r)" using m(2) 2(2) d3 drift_trans by metis
      ultimately show ?thesis unfolding run by (cases ?r) (auto split: sum.splits)
    qed
  qed
  then show "drift h E temp dest d (snd (destination_matches h dest E d))"
    and "fst (destination_matches h dest E d) = Inr True \<Longrightarrow>
         holds_digest h E (dk_files (snd (destination_matches h dest E d)) dest)" by blast+
qed


text \<open>
  A publication that returns success leaves bytes with the expected digest at the destination. One
  that fails leaves there what was there before, such bytes, or nothing.
\<close>

definition published :: "hashes \<Rightarrow> file_digest \<Rightarrow> path \<Rightarrow> path \<Rightarrow> disk \<Rightarrow> 'e + unit \<Rightarrow> disk \<Rightarrow> bool" where
  "published h E temp dest d r d' \<longleftrightarrow> script_ok h E temp dest d' \<and>
    (case r of
       Inr _ \<Rightarrow> holds_digest h E (dk_files d' dest)
     | Inl _ \<Rightarrow> dk_files d' dest = dk_files d dest \<or> dk_files d' dest = None
                \<or> holds_digest h E (dk_files d' dest))"

lemma published_failed:
  assumes "drift h E temp dest d d'"
  shows "published h E temp dest d (Inl e) (ignoring (fs_remove_file temp) d')"
proof -
  have "drift h E temp dest d (ignoring (fs_remove_file temp) d')"
    using drift_trans [OF assms reading_drift(6) [OF drift_script [OF assms]]] .
  then show ?thesis by (auto simp: published_def drift_def dest_drift_def)
qed

lemma publish_retry_cases:
  assumes "script_ok h E temp dest d" "staged h E temp d"
  shows "case publish_retry win fs_rename (destination_matches h) temp dest E n d of
      (Returned r, d') \<Rightarrow> published h E temp dest d r d'
    | (Accepted, d') \<Rightarrow> script_ok h E temp dest d' \<and> holds_digest h E (dk_files d' dest)
    | (Exhausted, d') \<Rightarrow> drift h E temp dest d d'"
  using assms
proof (induction n arbitrary: d)
  case 0
  then show ?case by (simp add: drift_refl)
next
  case (Suc n)
  obtain m d1 where m: "destination_matches h dest E d = (m, d1)" by fastforce
  have d1: "drift h E temp dest d d1" and acc: "m = Inr True \<Longrightarrow> holds_digest h E (dk_files d1 dest)"
    using matches_cases [OF Suc.prems(1)] m by auto
  note s1 = drift_script [OF d1] staged_drift [OF d1 Suc.prems(2)]
  obtain r d2 where r: "fs_rename temp dest d1 = (r, d2)" by fastforce
  have ok2: "script_ok h E temp dest d2 \<and> holds_digest h E (dk_files d2 dest)" if "r = Inr ()" using rename_cases [OF s1] r that by simp
  have d2: "drift h E temp dest d d2" if "r = Inl e" for e
    using rename_cases [OF s1] r that drift_trans [OF d1] by simp
  show ?case
  proof (cases "m = Inr True")
    case True
    with m acc s1 show ?thesis by simp
  next
    case False
    show ?thesis
    proof (cases "\<exists>e. m = Inl e \<and> \<not> contended win e")
      case True
      with m published_failed [OF d1] show ?thesis by auto
    next
      case go: False
      have step: "publish_retry win fs_rename (destination_matches h) temp dest E (Suc n) d =
          (case r of
             Inr _ \<Rightarrow> (Returned (Ok ()), d2)
           | Inl e \<Rightarrow>
               if contended win e then publish_retry win fs_rename (destination_matches h) temp dest E n d2
               else (Returned (Err (TfPublish dest e)), ignoring (fs_remove_file temp) d2))"
        using m r False go by (auto split: sum.splits bool.splits)
      show ?thesis
      proof (cases r)
        case (Inr u)
        with step ok2 show ?thesis by (simp add: published_def)
      next
        case (Inl e)
        note d2 = d2 [OF Inl]
        show ?thesis
        proof (cases "contended win e")
          case False
          with step Inl published_failed [OF d2] show ?thesis by simp
        next
          case True
          from Suc.IH [OF drift_script [OF d2] staged_drift [OF d2 Suc.prems(2)]] step Inl True d2
          show ?thesis
            by (auto simp: published_def drift_def dest_drift_def split: prod.splits retry_outcome.splits sum.splits)
        qed
      qed
    qed
  qed
qed


lemma publish_contended_cases:
  assumes "script_ok h E temp dest d" "staged h E temp d"
  shows "case publish_contended win fs_rename (destination_matches h) temp dest E d of
    (r, d') \<Rightarrow> published h E temp dest d r d'"
proof -
  note retry = publish_retry_cases [OF assms, of win "Suc PUBLISH_RETRY_ATTEMPTS"]
  obtain oc d4 where rt: "publish_retry win fs_rename (destination_matches h) temp dest E
      (Suc PUBLISH_RETRY_ATTEMPTS) d = (oc, d4)" by fastforce
  show ?thesis
  proof (cases oc)
    case (Returned x)
    with retry rt show ?thesis by (simp add: publish_contended_def)
  next
    case Accepted
    with retry rt have a: "script_ok h E temp dest d4" "holds_digest h E (dk_files d4 dest)" by simp_all
    then show ?thesis using Accepted rt reading_drift(6) [OF a(1)] dest_drift_holds
      by (auto simp: publish_contended_def published_def drift_def intro: dest_drift_script)
  next
    case Exhausted
    with retry rt have d4: "drift h E temp dest d d4" by simp
    let ?d5 = "ignoring (fs_remove_file dest) d4"
    obtain r6 d6 where r6: "fs_rename temp dest ?d5 = (r6, d6)" by fastforce
    note rd = remove_dest [OF drift_script [OF d4]]
    then have s5: "script_ok h E temp dest ?d5" "staged h E temp ?d5"
      using staged_drift [OF d4 assms(2)] by (simp_all add: staged_def)
    show ?thesis
    proof (cases r6)
      case (Inr u)
      with Exhausted rt rename_cases [OF s5] r6 show ?thesis by (simp add: publish_contended_def published_def)
    next
      case (Inl e)
      with rename_cases [OF s5] r6 have "drift h E temp dest ?d5 d6" by simp
      from drift_trans [OF this reading_drift(6) [OF drift_script [OF this]]] rd d4
      show ?thesis using Exhausted rt r6 Inl
        by (auto simp: publish_contended_def published_def drift_def dest_drift_def)
    qed
  qed
qed

lemma published_after_drift:
  "drift h E temp dest d d1 \<Longrightarrow> published h E temp dest d1 r d' \<Longrightarrow> published h E temp dest d r d'"
  by (auto simp: published_def drift_def dest_drift_def split: sum.splits)

lemma publish_cases:
  assumes "script_ok h E temp dest d" "staged h E temp d"
  shows "case publish win h temp dest E d of (r, d') \<Rightarrow> published h E temp dest d r d'"
proof -
  obtain c d1 where c: "create_parent dest d = (c, d1)" by fastforce
  then have d1: "drift h E temp dest d d1"
    using reading_drift(5) [OF assms(1)] drift_refl [OF assms(1)]
    by (auto simp: create_parent_def split: if_splits) (metis snd_conv)
  obtain md d2 where md: "fs_metadata dest d1 = (md, d2)" by fastforce
  then have d2: "drift h E temp dest d d2"
    using drift_trans [OF d1] reading_drift(1) [OF drift_script [OF d1]] by (metis snd_conv)
  obtain r d3 where r: "fs_rename temp dest d2 = (r, d3)" by fastforce
  note s2 = drift_script [OF d2] staged_drift [OF d2 assms(2)]
  have run: "publish win h temp dest E d =
     (case c of
        Inl e \<Rightarrow> (Err (TfPublish dest e), d1)
      | Inr _ \<Rightarrow>
          if md = Ok MetaDir
          then (Err (TfPublish dest (io_err IsADirectory)), ignoring (fs_remove_file temp) d2)
          else (case r of
            Inr _ \<Rightarrow> (Ok (), d3)
          | Inl e \<Rightarrow>
              if \<not> contended win e then (Err (TfPublish dest e), ignoring (fs_remove_file temp) d3)
              else publish_contended win fs_rename (destination_matches h) temp dest E d3))"
    using c md r by (simp add: publish_def publish_with_def attempt_publish_def [abs_def] split: sum.splits)
  have tail: "case (case r of
            Inr _ \<Rightarrow> (Ok (), d3)
          | Inl e \<Rightarrow>
              if \<not> contended win e then (Err (TfPublish dest e), ignoring (fs_remove_file temp) d3)
              else publish_contended win fs_rename (destination_matches h) temp dest E d3)
        of (r, d') \<Rightarrow> published h E temp dest d r d'"
  proof (cases r)
    case (Inr u)
    with rename_cases [OF s2] r show ?thesis by (simp add: published_def)
  next
    case (Inl e)
    with rename_cases [OF s2] r have d3: "drift h E temp dest d d3" using drift_trans [OF d2] by simp
    with publish_contended_cases [OF drift_script [OF d3] staged_drift [OF d3 assms(2)], of win]
    show ?thesis using Inl published_failed [OF d3] published_after_drift [OF d3] by auto
  qed
  show ?thesis
  proof (cases c)
    case (Inl e)
    with run d1 show ?thesis by (auto simp: published_def drift_def dest_drift_def)
  next
    case (Inr u)
    with run tail published_failed [OF d2, of "TfPublish dest (io_err IsADirectory)"] show ?thesis by simp
  qed
qed

section \<open>Staged writes\<close>

definition writer_inv :: "path \<Rightarrow> path \<Rightarrow> expected_digest option \<Rightarrow> byte list \<Rightarrow> temp_writer \<Rightarrow> disk \<Rightarrow> bool" where
  "writer_inv temp dest expected bs w d \<longleftrightarrow>
    tw_temp w = temp \<and> tw_destination w = dest \<and> tw_hasher w = bs \<and> tw_bytes_written w = length bs
    \<and> tw_aux w = aux_update bs (aux_from_expected expected) \<and> tw_finished w = None
    \<and> \<not> tw_published w \<and> dk_files d temp = Some bs"

lemma aux_update_append: "aux_update (a @ b) x = aux_update b (aux_update a x)"
  by (cases x) simp_all

lemma append_drift: "drift h E temp dest d d1 \<Longrightarrow> dest_drift h E temp dest d (append_file temp x d1)"
  by (auto simp: append_file_def drift_def dest_drift_def script_ok_def split: option.splits)

lemma write_all_cases:
  assumes "script_ok h E temp dest d" "writer_inv temp dest expected bs w d"
  shows "case tw_write_all c (w, d) of
      (Inr _, w', d') \<Rightarrow> writer_inv temp dest expected (bs @ c) w' d' \<and> dest_drift h E temp dest d d'
    | (Inl _, w', d') \<Rightarrow> w' = w \<and> dest_drift h E temp dest d d'"
proof -
  let ?op = "\<lambda>d. (Ok (), append_file temp c d)"
  let ?failed = "\<lambda>n. append_file temp (take n c)"
  obtain d1 where d1: "drift h E temp dest d d1" "dk_files d1 temp = dk_files d temp"
    "call_partial ?failed ?op d = ?op d1 \<or> (\<exists>e n. call_partial ?failed ?op d = (Inl e, ?failed n d1))"
    by (rule call_partial_cases [OF assms(1), where failed = ?failed and op = ?op])
  have t: "tw_temp w = temp" "dk_files d1 temp = Some bs" using assms(2) d1(2) by (simp_all add: writer_inv_def)
  from d1(3) show ?thesis
    using append_drift [OF d1(1)] assms(2) t
    by (elim disjE exE)
      (auto simp: tw_write_all_def fs_write_all_def writer_inv_def append_file_def aux_update_append)
qed

lemma write_chunks_cases:
  assumes "script_ok h E temp dest d" "writer_inv temp dest expected bs w d"
  shows "case tw_write_chunks cs (w, d) of
      (Inr _, w', d') \<Rightarrow> writer_inv temp dest expected (bs @ concat cs) w' d' \<and> dest_drift h E temp dest d d'
    | (Inl _, w', d') \<Rightarrow> tw_temp w' = temp \<and> \<not> tw_published w' \<and> dest_drift h E temp dest d d'"
  using assms
proof (induction cs arbitrary: bs w d)
  case Nil
  then show ?case by (simp add: dest_drift_refl)
next
  case (Cons c cs)
  obtain r w1 d1 where r: "tw_write_all c (w, d) = (r, w1, d1)" by (cases "tw_write_all c (w, d)") auto
  note st = write_all_cases [OF Cons.prems, of c, unfolded r]
  show ?case
  proof (cases r)
    case (Inl e)
    with r st Cons.prems(2) show ?thesis by (simp add: writer_inv_def)
  next
    case (Inr u)
    with st have s1: "writer_inv temp dest expected (bs @ c) w1 d1" "dest_drift h E temp dest d d1" by simp_all
    from Cons.IH [OF dest_drift_script [OF s1(2)] s1(1)] show ?thesis
      using r Inr dest_drift_trans [OF s1(2)] by (auto split: prod.splits sum.splits)
  qed
qed

lemma open_writer_cases:
  assumes "script_ok h E (temp_path_for unique dest) dest d"
  shows "case tw_open unique dest d of
      (Inr w, d') \<Rightarrow> writer_inv (temp_path_for unique dest) dest None [] w d'
        \<and> dest_drift h E (temp_path_for unique dest) dest d d'
    | (Inl _, d') \<Rightarrow> dest_drift h E (temp_path_for unique dest) dest d d'"
proof -
  let ?temp = "temp_path_for unique dest"
  let ?op = "\<lambda>d. if dk_files d ?temp \<noteq> None \<or> ?temp \<in> dk_dirs d then (Err (io_err AlreadyExists), d)
               else (Ok (), d\<lparr>dk_files := (dk_files d)(?temp := Some [])\<rparr>)"
  obtain d1 where d1: "drift h E ?temp dest d d1" "dk_files d1 ?temp = dk_files d ?temp"
    "call ?op d = ?op d1 \<or> (\<exists>e. call ?op d = (Inl e, d1))"
    by (rule call_cases [OF assms, where op = ?op])
  then show ?thesis
    by (elim disjE exE)
      (auto simp: tw_open_def fs_create_new_def Let_def writer_inv_def aux_from_expected_def
        drift_def dest_drift_def script_ok_def split: if_splits)
qed

lemma finish_cases:
  assumes "script_ok h E temp dest d" "writer_inv temp dest expected bs w d"
  shows "case tw_finish h (w, d) of
      (Inr done, w', d') \<Rightarrow> drift h E temp dest d d' \<and> tw_temp w' = temp \<and> tw_destination w' = dest
        \<and> \<not> tw_published w' \<and> pf_digest done = bytes_digest h bs
        \<and> pf_aux done = aux_finalize h (aux_update bs (aux_from_expected expected))
    | (Inl _, w', d') \<Rightarrow> drift h E temp dest d d' \<and> tw_temp w' = temp \<and> \<not> tw_published w'"
proof -
  obtain r1 d1 where s1: "fs_sync d = (r1, d1)" by fastforce
  then have d1: "drift h E temp dest d d1" using reading_drift(4) [OF assms(1)] by simp
  obtain r2 d2 where s2: "fs_sync d1 = (r2, d2)" by fastforce
  then have d2: "drift h E temp dest d d2"
    using drift_trans [OF d1] reading_drift(4) [OF drift_script [OF d1]] by simp
  from assms(2) s1 s2 d1 d2 show ?thesis
    by (auto simp: tw_finish_def writer_inv_def bytes_digest_def Let_def split: sum.splits)
qed

text \<open>The digest of bytes in the algorithm of a declared digest.\<close>

fun digest_of :: "hashes \<Rightarrow> expected_digest \<Rightarrow> byte list \<Rightarrow> computed_digest" where
  "digest_of h (EBlake3 _) bs = CBlake3 (blake3_hash h bs)"
| "digest_of h (ESha256 _) bs = CSha256 (sha256_hash h bs)"
| "digest_of h (ESha512 _) bs = CSha512 (sha512_hash h bs)"

lemma computed_for_digest:
  assumes "pf_digest pf = bytes_digest h bs"
    "pf_aux pf = aux_finalize h (aux_update bs (aux_from_expected expected))"
  shows "computed_for pf expected = map_option (\<lambda>e. digest_of h e bs) expected"
  using assms
  by (auto simp: computed_for_def aux_from_expected_def bytes_digest_def
    split: option.splits expected_digest.splits)


lemma publish_writer_cases:
  assumes "script_ok h (bytes_digest h bs) temp dest d" "writer_inv temp dest expected bs w d"
  shows "case tw_publish win h (w, d) of
      (Inr pf, d') \<Rightarrow> pf_digest pf = bytes_digest h bs \<and> holds_digest h (bytes_digest h bs) (dk_files d' dest)
        \<and> computed_for pf expected = map_option (\<lambda>e. digest_of h e bs) expected
        \<and> script_ok h (bytes_digest h bs) temp dest d'
    | (Inl _, d') \<Rightarrow> dk_files d' dest = dk_files d dest \<or> dk_files d' dest = None
        \<or> holds_digest h (bytes_digest h bs) (dk_files d' dest)"
proof -
  let ?E = "bytes_digest h bs"
  obtain r w1 d1 where f: "tw_finish h (w, d) = (r, w1, d1)" by (cases "tw_finish h (w, d)") auto
  note fin = finish_cases [OF assms, unfolded f]
  have st: "staged h ?E temp d" using assms(2) by (simp add: staged_def writer_inv_def)
  show ?thesis
  proof (cases r)
    case (Inl e)
    with fin have "drift h ?E temp dest d (tw_drop w1 d1)"
      using drift_trans reading_drift(6) [OF drift_script] by (auto simp: tw_drop_def)
    then show ?thesis using f Inl by (auto simp: tw_publish_def drift_def dest_drift_def)
  next
    case (Inr pf)
    with fin have d1: "drift h ?E temp dest d d1" and w1: "tw_temp w1 = temp" "tw_destination w1 = dest"
      "\<not> tw_published w1" "pf_digest pf = ?E"
      "pf_aux pf = aux_finalize h (aux_update bs (aux_from_expected expected))" by simp_all
    obtain x d2 where x: "publish win h temp dest ?E d1 = (x, d2)" by fastforce
    with publish_cases [OF drift_script [OF d1] staged_drift [OF d1 st], of win]
    have p: "published h ?E temp dest d x d2" using published_after_drift [OF d1] by auto
    show ?thesis
    proof (cases x)
      case (Inr u)
      then show ?thesis
        using f x w1 p \<open>r = Inr pf\<close> computed_for_digest [OF w1(4,5)]
        by (simp add: tw_publish_def tw_drop_def published_def)
    next
      case (Inl e)
      have "drift h ?E temp dest d2 (tw_drop w1 d2)"
        using p w1(1,3) reading_drift(6) by (simp add: tw_drop_def published_def)
      then show ?thesis
        using f x w1 p \<open>r = Inr pf\<close> Inl
        by (auto simp: tw_publish_def published_def drift_def dest_drift_def)
    qed
  qed
qed


section \<open>Properties\<close>


lemma write_chunks_quiet:
  assumes "dk_script d = []" "dk_files d (tw_temp w) = Some bs"
  shows "tw_write_chunks cs (w, d) = (Ok (), w\<lparr>tw_hasher := tw_hasher w @ concat cs,
      tw_aux := aux_update (concat cs) (tw_aux w), tw_bytes_written := tw_bytes_written w + length (concat cs)\<rparr>,
    d\<lparr>dk_files := (dk_files d)(tw_temp w \<mapsto> bs @ concat cs)\<rparr>)"
  using assms
proof (induction cs arbitrary: w d bs)
  case Nil
  moreover have "aux_update [] x = x" for x by (cases x) simp_all
  ultimately show ?case by (simp add: fun_upd_idem)
next
  case (Cons c cs)
  let ?w = "w\<lparr>tw_hasher := tw_hasher w @ c, tw_aux := aux_update c (tw_aux w),
      tw_bytes_written := tw_bytes_written w + length c\<rparr>"
  let ?d = "d\<lparr>dk_files := (dk_files d)(tw_temp w \<mapsto> bs @ c)\<rparr>"
  have "tw_write_all c (w, d) = (Ok (), ?w, ?d)" using Cons.prems
    by (simp add: tw_write_all_def fs_write_all_def call_partial_def append_file_def)
  with Cons.IH [of ?d ?w "bs @ c"] Cons.prems show ?case by (simp add: aux_update_append cong: if_cong)
qed

lemma fs_quiet:
  assumes "dk_script d = []"
  shows "call op d = op d" "fs_sync d = (Ok (), d)"
  using assms by (simp_all add: call_def call_partial_def fs_sync_def)

lemma parent_not_below: "dest \<noteq> [] \<Longrightarrow> \<not> prefix dest (butlast dest)"
  using prefix_length_le [of dest "butlast dest"] by (cases dest rule: rev_cases) auto

lemma parent_not_temp: "butlast dest \<noteq> temp_path_for unique dest"
  using arg_cong [of "butlast dest" "temp_path_for unique dest" length] by (auto simp: temp_path_for_def)

lemma quiet_call:
  assumes "list_all (\<lambda>t. tn_writes t = []) (dk_script d)"
  obtains d1 where "dk_files d1 = dk_files d" "list_all (\<lambda>t. tn_writes t = []) (dk_script d1)"
    "call op d = op d1 \<or> (\<exists>e. call op d = (Inl e, d1))"
proof (cases "dk_script d")
  case Nil
  with that [of d] show ?thesis by (simp add: call_def call_partial_def)
next
  case (Cons t ts)
  with assms that [of "d\<lparr>dk_script := ts\<rparr>"] show ?thesis
    by (simp add: call_def call_partial_def foreign_writes_def Let_def split: option.splits)
qed

text \<open>
  Without failures and other writers staging and publishing succeeds: the destination then holds
  exactly the chunks, the temporary file is gone and no other file has changed.
\<close>

theorem fault_free_publication:
  assumes "dk_script d = []" "dest \<noteq> []" "dest \<notin> dk_dirs d" "dk_files d (butlast dest) = None"
    and "dk_files d (temp_path_for unique dest) = None" "temp_path_for unique dest \<notin> dk_dirs d"
    and "temp_path_for unique dest \<noteq> dest"
  shows "\<exists>pf d'. stage_and_publish win h unique dest expected chunks d = (Ok pf, d')
     \<and> dk_files d' = (dk_files d)(dest \<mapsto> concat chunks)"
proof -
  let ?temp = "temp_path_for unique dest"
  let ?w = "\<lparr>tw_temp = ?temp, tw_destination = dest, tw_hasher = [], tw_aux = aux_from_expected expected,
      tw_bytes_written = 0, tw_finished = None, tw_published = False\<rparr>"
  let ?d = "d\<lparr>dk_files := (dk_files d)(?temp \<mapsto> [])\<rparr>"
  have "tw_open unique dest d = (Ok (?w\<lparr>tw_aux := AuxNone\<rparr>), ?d)" using assms
    by (simp add: tw_open_def fs_create_new_def fs_quiet Let_def)
  with write_chunks_quiet [of ?d ?w "[]" chunks] assms(1)
  have run: "stage_and_publish win h unique dest expected chunks d = tw_publish win h
      (?w\<lparr>tw_hasher := concat chunks, tw_aux := aux_update (concat chunks) (aux_from_expected expected),
          tw_bytes_written := length (concat chunks)\<rparr>,
       d\<lparr>dk_files := (dk_files d)(?temp \<mapsto> concat chunks)\<rparr>)"
    by (simp add: stage_and_publish_def tw_set_expected_digest_def)
  have "(dk_files d)(dest \<mapsto> concat chunks, ?temp := None) = (dk_files d)(dest \<mapsto> concat chunks)"
    using assms(5,7) by (simp add: fun_upd_idem_iff)
  then show ?thesis unfolding run using assms parent_not_below [of dest] parent_not_temp [of dest unique]
    by (simp add: tw_publish_def tw_finish_def fs_quiet tw_drop_def publish_def publish_with_def
      create_parent_def fs_create_dir_all_def fs_metadata_def attempt_publish_def fs_rename_def Let_def
      fun_upd_twist split: option.splits)
qed


text \<open>A destination with older bytes, and a rename that is denied until the retries are used up.\<close>

definition granted :: turn where
  "granted = \<lparr>tn_writes = [], tn_fault = None, tn_partial = 0\<rparr>"

definition denied :: turn where
  "denied = \<lparr>tn_writes = [], tn_fault = Some (io_err PermissionDenied), tn_partial = 0\<rparr>"

definition contended_disk :: disk where
  "contended_disk =
    \<lparr>dk_files = [[''cache'', ''image''] \<mapsto> [1, 2], [''cache'', ''.image.tmp-7''] \<mapsto> [3]],
     dk_dirs = {[''cache'']},
     dk_script = [granted, granted, denied] @ concat (replicate 4 [granted, denied])
       @ [granted, denied, granted]\<rparr>"



text \<open>Another process publishes the same bytes while the rename is denied.\<close>

definition racing_disk :: disk where
  "racing_disk =
    \<lparr>dk_files = [[''cache'', ''image''] \<mapsto> [1, 2]], dk_dirs = {[''cache'']},
     dk_script = [granted, granted, granted, granted, granted, granted, denied,
       granted\<lparr>tn_writes := [([''cache'', ''image''], Some [3, 4])]\<rparr>]\<rparr>"


lemma fault_free_publication_witness:
  "\<exists>pf d'. stage_and_publish False sample_hashes ''7'' [''cache'', ''image''] None [[3], [4]]
      \<lparr>dk_files = Map.empty, dk_dirs = {[''cache'']}, dk_script = []\<rparr> = (Ok pf, d')
    \<and> dk_files d' = [[''cache'', ''image''] \<mapsto> [3, 4]]"
  using fault_free_publication [of "\<lparr>dk_files = Map.empty, dk_dirs = {[''cache'']}, dk_script = []\<rparr>"
    "[''cache'', ''image'']" "''7''" False sample_hashes None "[[3], [4]]"]
  by (simp add: temp_path_for_def)


end
