(* ===== verification/Newc.thy ===== *)
theory Newc
  imports ImageIo
begin

text \<open>
  The \<open>newc\<close> archive format: the writer of \<^verbatim>\<open>libs/image-core/src/ops/cpio.rs\<close>, and a reading of the
  format that serves as its specification. The reader of the \<open>cpio\<close> crate is a parameter; what the
  components rely on is that it reads well-formed records as the format says.
\<close>

section \<open>Errors and writers\<close>

datatype operation_error =
    ReadSource
  | WriteDestination
  | HttpRequest
  | HttpStatus
  | SizeMismatch
  | DigestMismatch
  | UnsupportedCompression
  | UnsupportedArtifact
  | InvalidTar
  | InvalidCpio
  | UnsafePath
  | KernelNotFound
  | InvalidKernel
  | InvalidManifest
  | PlatformNotFound
  | OpCancelled

definition bindW :: "('e, 'a) writer \<Rightarrow> ('a \<Rightarrow> ('e, 'b) writer) \<Rightarrow> ('e, 'b) writer" where
  "bindW m f s = (case m s of (Inl e, s') \<Rightarrow> (Inl e, s') | (Inr a, s') \<Rightarrow> f a s')"

definition retW :: "'a \<Rightarrow> ('e, 'a) writer" where
  "retW a s = (Inr a, s)"

definition failW :: "'e \<Rightarrow> ('e, 'a) writer" where
  "failW e s = (Inl e, s)"

text \<open>\<open>writer.write_all(..).map_err(|err| OperationError::WriteDestination ..)\<close>.\<close>

definition write_bytes :: "byte list \<Rightarrow> (operation_error, unit) writer" where
  "write_bytes bytes s = (case tw_write_all bytes s of (r, s') \<Rightarrow> (mapErr (\<lambda>_. WriteDestination) r, s'))"

section \<open>Records\<close>

definition MAGIC_NEWC :: "byte list" where
  "MAGIC_NEWC = str_bytes ''070701''"

definition HEADER_LEN :: nat where
  "HEADER_LEN = 110"

definition TRAILER_NAME :: string where
  "TRAILER_NAME = ''TRAILER!!!''"

datatype entry_body = BodyEmpty | BodyOwned "byte list"

record newc_record =
  rc_name :: string
  rc_mode :: u32
  rc_uid :: u32
  rc_gid :: u32
  rc_mtime :: u32
  rc_nlink :: u32
  rc_dev_major :: u32
  rc_dev_minor :: u32
  rc_ino :: u32
  rc_rdev_major :: u32
  rc_rdev_minor :: u32
  rc_body :: entry_body

definition pad_bytes :: "nat \<Rightarrow> byte list option" where
  "pad_bytes len = (if len mod 4 = 0 then None else Some (replicate (4 - len mod 4) 0))"

definition hex8 :: "u32 \<Rightarrow> byte list" where
  "hex8 v = hex_fmt 8 (unat v)"

text \<open>Formatting with binary integers, for evaluation.\<close>

fun hex_int :: "nat \<Rightarrow> int \<Rightarrow> byte list" where
  "hex_int 0 n = []"
| "hex_int (Suc k) n = hex_int k (n div 16) @ [hex_digit (nat (n mod 16))]"

lemma hex_fmt_int: "hex_fmt k n = hex_int k (int n)"
  by (induction k arbitrary: n) (simp_all add: of_nat_div nat_mod_distrib)

lemma hex8_code [code]: "hex8 v = hex_int 8 (uint v)"
  by (simp add: hex8_def hex_fmt_int)

definition encode_header :: "newc_record \<Rightarrow> u32 \<Rightarrow> nat \<Rightarrow> byte list" where
  "encode_header rc file_size name_len =
    MAGIC_NEWC @ hex8 (rc_ino rc) @ hex8 (rc_mode rc) @ hex8 (rc_uid rc) @ hex8 (rc_gid rc)
    @ hex8 (rc_nlink rc) @ hex8 (rc_mtime rc) @ hex8 file_size @ hex8 (rc_dev_major rc)
    @ hex8 (rc_dev_minor rc) @ hex8 (rc_rdev_major rc) @ hex8 (rc_rdev_minor rc)
    @ hex8 (word_of_nat name_len) @ hex8 0 @ str_bytes (rc_name rc) @ [0]
    @ (case pad_bytes (HEADER_LEN + name_len) of Some pad \<Rightarrow> pad | None \<Rightarrow> [])"

section \<open>Writing\<close>

definition write_padding :: "nat \<Rightarrow> (operation_error, unit) writer" where
  "write_padding len = (case pad_bytes len of Some pad \<Rightarrow> write_bytes pad | None \<Rightarrow> retW ())"

definition write_entry :: "newc_record \<Rightarrow> (operation_error, unit) writer" where
  "write_entry rc =
    bindW (case rc_body rc of
             BodyEmpty \<Rightarrow> retW 0
           | BodyOwned bytes \<Rightarrow>
               if \<not> fits_u32 (length bytes) then failW InvalidCpio else retW (word_of_nat (length bytes)))
      (\<lambda>file_size.
    bindW (write_bytes (encode_header rc file_size (length (rc_name rc) + 1))) (\<lambda>_.
    bindW (case rc_body rc of BodyEmpty \<Rightarrow> retW () | BodyOwned bytes \<Rightarrow> write_bytes bytes) (\<lambda>_.
    write_padding (unat file_size))))"

text \<open>
  A \<open>Read\<close> source as the results its reads will have; a read returns at most as many bytes as were
  asked for, and no bytes at the end.
\<close>

datatype read_step = ReadBytes "byte list" | ReadFault io_error

fun read_some :: "nat \<Rightarrow> read_step list \<Rightarrow> (io_error + byte list) \<times> read_step list" where
  "read_some want [] = (Ok [], [])"
| "read_some want (ReadFault e # rs) = (Err e, rs)"
| "read_some want (ReadBytes bs # rs) =
    (Ok (take want bs), if length bs \<le> want then rs else ReadBytes (drop want bs) # rs)"

definition COPY_BUFFER :: nat where
  "COPY_BUFFER = 64 * 1024"

definition copy_want :: "nat \<Rightarrow> nat" where
  "copy_want remaining = min COPY_BUFFER remaining"

lemma copy_want_code [code]: "copy_want remaining = (if int remaining \<le> 65536 then remaining else COPY_BUFFER)"
  by (auto simp: copy_want_def COPY_BUFFER_def)

text \<open>\<open>copy_exactly\<close>; the result carries what is left of the source.\<close>

function copy_exactly ::
  "nat \<Rightarrow> read_step list \<Rightarrow> temp_writer \<times> disk \<Rightarrow> (operation_error + read_step list) \<times> temp_writer \<times> disk" where
  "copy_exactly remaining src s =
    (if remaining = 0 then (Ok src, s)
     else
       (case read_some (copy_want remaining) src of
          (Inl e, src') \<Rightarrow> (Err ReadSource, s)
        | (Inr bytes, src') \<Rightarrow>
            if bytes = [] then (Err InvalidTar, s)
            else
              (case write_bytes bytes s of
                 (Inl e, s') \<Rightarrow> (Err e, s')
               | (Inr _, s') \<Rightarrow> copy_exactly (remaining - length bytes) src' s')))"
  by pat_completeness auto
termination
  by (relation "measure fst") auto

definition write_streaming_entry ::
  "newc_record \<Rightarrow> u32 \<Rightarrow> read_step list \<Rightarrow> (operation_error, read_step list) writer" where
  "write_streaming_entry rc sz src =
    bindW (write_bytes (encode_header rc sz (length (rc_name rc) + 1))) (\<lambda>_.
    bindW (copy_exactly (unat sz) src) (\<lambda>src'.
    bindW (write_padding (unat sz)) (\<lambda>_.
    retW src')))"

definition trailer_record :: newc_record where
  "trailer_record =
    \<lparr>rc_name = TRAILER_NAME, rc_mode = 0, rc_uid = 0, rc_gid = 0, rc_mtime = 0, rc_nlink = 1,
     rc_dev_major = 0, rc_dev_minor = 0, rc_ino = 0, rc_rdev_major = 0, rc_rdev_minor = 0,
     rc_body = BodyEmpty\<rparr>"

definition write_trailer :: "(operation_error, unit) writer" where
  "write_trailer = write_entry trailer_record"

section \<open>Reading the format\<close>

text \<open>The fields of a record as a reader reports them.\<close>

record newc_entry =
  ne_name :: string
  ne_ino :: u32
  ne_mode :: u32
  ne_uid :: u32
  ne_gid :: u32
  ne_nlink :: u32
  ne_mtime :: u32
  ne_file_size :: u32
  ne_dev_major :: u32
  ne_dev_minor :: u32
  ne_rdev_major :: u32
  ne_rdev_minor :: u32

fun hex_value :: "int \<Rightarrow> byte list \<Rightarrow> int option" where
  "hex_value acc [] = Some acc"
| "hex_value acc (b # bs) =
    (case hex_nibble b of Inl _ \<Rightarrow> None | Inr v \<Rightarrow> hex_value (16 * acc + uint v) bs)"

text \<open>Field \<open>i\<close> of the header, eight digits after the magic number.\<close>

definition header_field :: "byte list \<Rightarrow> nat \<Rightarrow> u32 option" where
  "header_field bs i = map_option word_of_int (hex_value 0 (take 8 (drop (6 + 8 * i) bs)))"

definition align4 :: "nat \<Rightarrow> nat" where
  "align4 n = n + (4 - n mod 4) mod 4"

text \<open>
  A record: the header, the name with its terminating zero, padding to a multiple of four, the body,
  and padding again. The result has the fields, the body and what follows the record.
\<close>

definition newc_parse :: "byte list \<Rightarrow> (newc_entry \<times> byte list \<times> byte list) option" where
  "newc_parse bs =
    (if length bs < HEADER_LEN \<or> take 6 bs \<noteq> MAGIC_NEWC then None
     else
       (case map (header_field bs) [0..<13] of
          [Some ino, Some mode, Some uid, Some gid, Some nlink, Some mtime, Some size_field,
           Some dev_major, Some dev_minor, Some rdev_major, Some rdev_minor, Some name_field, Some check] \<Rightarrow>
            let name_size = unat name_field; file_size = unat size_field; body_at = align4 (HEADER_LEN + name_size) in
            if name_size = 0 \<or> length bs < body_at + align4 file_size
               \<or> bs ! (HEADER_LEN + name_size - 1) \<noteq> 0
            then None
            else
              (case from_utf8 (take (name_size - 1) (drop HEADER_LEN bs)) of
                 None \<Rightarrow> None
               | Some name \<Rightarrow>
                   Some (\<lparr>ne_name = name, ne_ino = ino, ne_mode = mode,
                          ne_uid = uid, ne_gid = gid, ne_nlink = nlink,
                          ne_mtime = mtime, ne_file_size = size_field,
                          ne_dev_major = dev_major, ne_dev_minor = dev_minor,
                          ne_rdev_major = rdev_major, ne_rdev_minor = rdev_minor\<rparr>,
                         take file_size (drop body_at bs),
                         drop (body_at + align4 file_size) bs))
        | _ \<Rightarrow> None))"

text \<open>
  The reader of the crate: at the start of a record it reports a header error, or the fields, the
  body bytes that can be read, and what finishing the record gives, an error or the following bytes.
\<close>

record newc_crate =
  nc_next :: "byte list \<Rightarrow> (io_error + (newc_entry \<times> byte list \<times> (io_error + byte list)))"
  nc_is_trailer :: "newc_entry \<Rightarrow> bool"

definition newc_crate_ok :: "newc_crate \<Rightarrow> bool" where
  "newc_crate_ok nc \<longleftrightarrow>
    (\<forall>bs e body rest. newc_parse bs = Some (e, body, rest) \<longrightarrow> nc_next nc bs = Inr (e, body, Inr rest))
    \<and> (\<forall>e. ne_name e \<noteq> TRAILER_NAME \<longrightarrow> \<not> nc_is_trailer nc e)
    \<and> (\<forall>e. ne_name e = TRAILER_NAME \<and> ne_file_size e = 0 \<longrightarrow> nc_is_trailer nc e)"

definition record_entry :: "newc_record \<Rightarrow> u32 \<Rightarrow> newc_entry" where
  "record_entry rc sz =
    \<lparr>ne_name = rc_name rc, ne_ino = rc_ino rc, ne_mode = rc_mode rc, ne_uid = rc_uid rc,
     ne_gid = rc_gid rc, ne_nlink = rc_nlink rc, ne_mtime = rc_mtime rc, ne_file_size = sz,
     ne_dev_major = rc_dev_major rc, ne_dev_minor = rc_dev_minor rc,
     ne_rdev_major = rc_rdev_major rc, ne_rdev_minor = rc_rdev_minor rc\<rparr>"

text \<open>A record with its body as one byte string.\<close>

definition record_bytes :: "newc_record \<Rightarrow> byte list \<Rightarrow> byte list" where
  "record_bytes rc body =
    encode_header rc (word_of_nat (length body)) (length (rc_name rc) + 1) @ body
    @ (case pad_bytes (length body) of Some pad \<Rightarrow> pad | None \<Rightarrow> [])"

section \<open>Writing and reading agree\<close>

lemma hex_value_append:
  "hex_value acc (xs @ ys) = (case hex_value acc xs of None \<Rightarrow> None | Some v \<Rightarrow> hex_value v ys)"
  by (induction xs arbitrary: acc) (auto split: sum.splits)

lemma hex_value_hex_fmt: "hex_value acc (hex_fmt k n) = Some (acc * 16 ^ k + int (n mod 16 ^ k))"
proof (induction k arbitrary: n)
  case (Suc k)
  have "n mod (16 * 16 ^ k) = 16 * (n div 16 mod 16 ^ k) + n mod 16"
    using mod_mult2_eq [of n 16 "16 ^ k"] by simp
  moreover have "uint (word_of_nat (n mod 16) :: byte) = int (n mod 16)" by (simp add: uint_nat unat_of_nat)
  ultimately show ?case using Suc by (simp add: hex_value_append hex_nibble_digit del: of_nat_mod)
qed simp

lemma length_hex8 [simp]: "length (hex8 v) = 8"
  by (simp add: hex8_def)

lemma hex_value_hex8 [simp]: "hex_value 0 (hex8 v) = Some (uint v)"
proof -
  have "unat v < 16 ^ 8" using unsigned_less [of v] by simp
  then show ?thesis by (simp add: hex8_def hex_value_hex_fmt)
qed

lemma take_drop_hex8s:
  "i < length vs \<Longrightarrow> take 8 (drop (8 * i) (concat (map hex8 vs) @ rest)) = hex8 (vs ! i)"
proof (induction vs arbitrary: i)
  case (Cons v vs)
  then show ?case by (cases i) (simp_all add: algebra_simps)
qed simp

definition header_words :: "newc_record \<Rightarrow> u32 \<Rightarrow> u32 list" where
  "header_words rc sz = [rc_ino rc, rc_mode rc, rc_uid rc, rc_gid rc, rc_nlink rc, rc_mtime rc, sz,
     rc_dev_major rc, rc_dev_minor rc, rc_rdev_major rc, rc_rdev_minor rc,
     word_of_nat (length (rc_name rc) + 1), 0]"

definition pad4 :: "nat \<Rightarrow> byte list" where
  "pad4 n = (case pad_bytes n of Some pad \<Rightarrow> pad | None \<Rightarrow> [])"

lemma length_pad4: "length (pad4 n) = (4 - n mod 4) mod 4"
  by (simp add: pad4_def pad_bytes_def)

lemma align4_pad4: "align4 n = n + length (pad4 n)"
  by (simp add: align4_def length_pad4)

lemma length_MAGIC [simp]: "length MAGIC_NEWC = 6"
  by (simp add: MAGIC_NEWC_def)

lemma encode_header_words:
  "encode_header rc sz (length (rc_name rc) + 1) =
     MAGIC_NEWC @ concat (map hex8 (header_words rc sz)) @ str_bytes (rc_name rc) @ [0]
     @ pad4 (HEADER_LEN + (length (rc_name rc) + 1))"
  by (simp add: encode_header_def header_words_def pad4_def)

lemma length_header_words: "length (concat (map hex8 (header_words rc sz))) = 104"
  by (simp add: header_words_def)

lemma header_field_words:
  "i < 13 \<Longrightarrow>
   header_field (MAGIC_NEWC @ concat (map hex8 (header_words rc sz)) @ rest) i = Some (header_words rc sz ! i)"
  using take_drop_hex8s [of i "header_words rc sz" rest]
  by (simp add: header_field_def header_words_def [of rc sz, THEN arg_cong [where f = length]])


lemma upt_13: "[0..<13] = [0, 1, 2, 3, 4, 5, 6, 7, 8, 9, 10, 11, 12 :: nat]"
  by code_simp

lemma newc_parse_record:
  assumes "wf_str (rc_name rc)" "length (rc_name rc) + 1 < 2 ^ 32" "length body < 2 ^ 32"
  shows "newc_parse (record_bytes rc body @ rest) =
    Some (record_entry rc (word_of_nat (length body)), body, rest)"
proof -
  let ?sz = "word_of_nat (length body) :: u32"
  let ?n = "length (rc_name rc)"
  let ?pre = "MAGIC_NEWC @ concat (map hex8 (header_words rc ?sz))"
  let ?padh = "pad4 (HEADER_LEN + (?n + 1))"
  let ?bs = "record_bytes rc body @ rest"
  have bs: "?bs = ?pre @ str_bytes (rc_name rc) @ [0] @ ?padh @ body @ pad4 (length body) @ rest"
    unfolding record_bytes_def encode_header_words pad4_def [of "length body", symmetric] by simp
  have pre: "length ?pre = HEADER_LEN" using length_header_words [of rc ?sz] by (simp add: HEADER_LEN_def)
  have fields: "map (header_field ?bs) [0..<13] = map (\<lambda>i. Some (header_words rc ?sz ! i)) [0..<13]"
    unfolding bs using header_field_words [of _ rc ?sz] by (simp del: map_append concat.simps)
  have sizes: "unat ?sz = length body" "unat (word_of_nat (?n + 1) :: u32) = ?n + 1"
    using assms(2,3) by (simp_all only: unat_of_nat) simp_all
  have at: "length (?pre @ str_bytes (rc_name rc) @ [0] @ ?padh) = align4 (HEADER_LEN + (?n + 1))"
    using pre by (simp add: align4_pad4)
  then have len: "align4 (HEADER_LEN + (?n + 1)) + align4 (length body) \<le> length ?bs"
    unfolding bs by (simp add: align4_pad4)
  have body: "take (length body) (drop (align4 (HEADER_LEN + (?n + 1))) ?bs) = body"
    "drop (align4 (HEADER_LEN + (?n + 1)) + align4 (length body)) ?bs = rest"
    unfolding bs at [symmetric] by (simp_all add: align4_pad4)
  have name: "take ?n (drop HEADER_LEN ?bs) = str_bytes (rc_name rc)" "?bs ! (HEADER_LEN + ?n) = 0"
    "take 6 ?bs = MAGIC_NEWC" "HEADER_LEN \<le> length ?bs"
    unfolding bs pre [symmetric] by (simp_all add: nth_append)
  define B where "B = ?bs"
  show ?thesis
    using name body len sizes assms(1) fields
    unfolding B_def [symmetric] newc_parse_def upt_13
    by (simp add: header_words_def record_entry_def Let_def del: of_nat_add of_nat_Suc)
qed

declare copy_exactly.simps [simp del]

section \<open>Writers as chunk lists\<close>

text \<open>Every writer of this component writes a list of chunks, up to the first write that fails.\<close>

definition chunkW :: "byte list list \<Rightarrow> (operation_error, unit) writer" where
  "chunkW cs s = (case tw_write_chunks cs s of (r, s') \<Rightarrow> (mapErr (\<lambda>_. WriteDestination) r, s'))"

lemma chunkW_Nil [simp]: "chunkW [] = retW ()"
  by (simp add: chunkW_def retW_def fun_eq_iff)

lemma write_bytes_chunk: "write_bytes b = chunkW [b]"
  by (simp add: chunkW_def write_bytes_def fun_eq_iff split: prod.splits sum.splits)

lemma bindW_retW [simp]: "bindW (retW a) f = f a"
  by (simp add: bindW_def retW_def fun_eq_iff)

lemma bindW_retW_unit [simp]: "bindW m (\<lambda>_. retW ()) = (m :: (operation_error, unit) writer)"
  by (auto simp: bindW_def retW_def fun_eq_iff split: prod.splits sum.splits)

lemma bindW_failW [simp]: "bindW (failW e) f = failW e"
  by (simp add: bindW_def failW_def fun_eq_iff)

lemma bindW_assoc: "bindW (bindW m f) g = bindW m (\<lambda>a. bindW (f a) g)"
  by (auto simp: bindW_def fun_eq_iff split: prod.splits sum.splits)

lemma tw_write_chunks_append:
  "tw_write_chunks (cs @ ds) s =
    (case tw_write_chunks cs s of (Inl e, s') \<Rightarrow> (Inl e, s') | (Inr _, s') \<Rightarrow> tw_write_chunks ds s')"
  by (induction cs arbitrary: s) (auto split: prod.splits sum.splits)

lemma chunkW_bind [simp]: "bindW (chunkW cs) (\<lambda>_. chunkW ds) = chunkW (cs @ ds)"
  by (auto simp: chunkW_def bindW_def tw_write_chunks_append fun_eq_iff split: prod.splits sum.splits)

lemma chunkW_bind2 [simp]: "bindW (chunkW cs) (\<lambda>_. bindW (chunkW ds) f) = bindW (chunkW (cs @ ds)) f"
  by (simp only: bindW_assoc [symmetric] chunkW_bind)

definition pad_chunks :: "nat \<Rightarrow> byte list list" where
  "pad_chunks n = (case pad_bytes n of Some pad \<Rightarrow> [pad] | None \<Rightarrow> [])"

lemma write_padding_chunks: "write_padding n = chunkW (pad_chunks n)"
  by (simp add: write_padding_def pad_chunks_def write_bytes_chunk split: option.split)

lemma concat_pad_chunks [simp]: "concat (pad_chunks n) = pad4 n"
  by (simp add: pad_chunks_def pad4_def split: option.split)

fun body_bytes :: "entry_body \<Rightarrow> byte list" where
  "body_bytes BodyEmpty = []"
| "body_bytes (BodyOwned bytes) = bytes"

definition entry_chunks :: "newc_record \<Rightarrow> byte list list" where
  "entry_chunks rc =
    [encode_header rc (word_of_nat (length (body_bytes (rc_body rc)))) (length (rc_name rc) + 1)]
    @ (case rc_body rc of BodyEmpty \<Rightarrow> [] | BodyOwned bytes \<Rightarrow> [bytes])
    @ pad_chunks (length (body_bytes (rc_body rc)))"

lemma concat_entry_chunks: "concat (entry_chunks rc) = record_bytes rc (body_bytes (rc_body rc))"
  by (cases "rc_body rc") (simp_all add: entry_chunks_def record_bytes_def pad4_def)

lemma write_entry_chunks:
  "write_entry rc =
    (if length (body_bytes (rc_body rc)) < 2 ^ 32 then chunkW (entry_chunks rc) else failW InvalidCpio)"
proof (cases "rc_body rc")
  case BodyEmpty
  then show ?thesis
    by (simp add: write_entry_def entry_chunks_def write_bytes_chunk write_padding_chunks)
next
  case (BodyOwned bytes)
  have "unat (word_of_nat (length bytes) :: u32) = length bytes" if "length bytes < 2 ^ 32"
    using that by (simp add: unat_of_nat)
  with BodyOwned show ?thesis
    by (auto simp: write_entry_def entry_chunks_def write_bytes_chunk write_padding_chunks
      fits_u32_iff)
qed

text \<open>What a source delivers before it fails or reports its end.\<close>

fun available :: "read_step list \<Rightarrow> byte list" where
  "available [] = []"
| "available (ReadFault e # rs) = []"
| "available (ReadBytes bs # rs) = (if bs = [] then [] else bs @ available rs)"

lemma read_some_available:
  assumes "0 < want" "n \<le> length (available src)" "0 < n"
  obtains bs src' where "read_some want src = (Ok bs, src')" "bs \<noteq> []" "length bs \<le> want"
    "available src = bs @ available src'"
  using assms by (cases src rule: available.cases) (auto simp: that split: if_splits)

lemma copy_exactly_chunks:
  assumes "n \<le> length (available src)"
  obtains cs src' where "copy_exactly n src = bindW (chunkW cs) (\<lambda>_. retW src')"
    "concat cs = take n (available src)"
proof -
  have "\<exists>cs src'. copy_exactly n src = bindW (chunkW cs) (\<lambda>_. retW src') \<and> concat cs = take n (available src)"
    using assms
  proof (induction n arbitrary: src rule: less_induct)
    case (less n)
    show ?case
    proof (cases "n = 0")
      case True
      then have "copy_exactly n src = bindW (chunkW []) (\<lambda>_. retW src)"
        by (intro ext) (simp add: copy_exactly.simps retW_def)
      with True show ?thesis by (metis concat.simps(1) take_0)
    next
      case False
      obtain bs src1 where b: "read_some (copy_want n) src = (Ok bs, src1)" "bs \<noteq> []"
        "length bs \<le> copy_want n" "available src = bs @ available src1"
        using read_some_available [of "copy_want n" n src] less.prems False
        by (auto simp: copy_want_def COPY_BUFFER_def)
      then have "n - length bs < n" "n - length bs \<le> length (available src1)" using less.prems False by auto
      from less.IH [OF this] obtain cs src' where cs: "copy_exactly (n - length bs) src1 = bindW (chunkW cs) (\<lambda>_. retW src')"
        "concat cs = take (n - length bs) (available src1)"
        by blast
      have "copy_exactly n src = bindW (write_bytes bs) (\<lambda>_. copy_exactly (n - length bs) src1)"
        using b(1,2) False
        by (intro ext, subst copy_exactly.simps) (auto simp: bindW_def split: prod.splits sum.splits)
      also have "\<dots> = bindW (chunkW (bs # cs)) (\<lambda>_. retW src')" by (simp add: cs(1) write_bytes_chunk)
      finally have copied: "copy_exactly n src = bindW (chunkW (bs # cs)) (\<lambda>_. retW src')" .
      have "length bs \<le> n" using b(3) by (simp add: copy_want_def)
      then have "concat (bs # cs) = take n (available src)" using cs(2) b(4) by simp
      with copied show ?thesis by blast
    qed
  qed
  then show ?thesis using that by blast
qed


lemma read_some_short:
  "read_some want src = (Ok bs, src') \<Longrightarrow> bs \<noteq> [] \<Longrightarrow> available src = bs @ available src'"
  by (cases src rule: available.cases) (auto split: if_splits)

lemma copy_exactly_short: "length (available src) < n \<Longrightarrow> \<not> isOk (fst (copy_exactly n src s))"
proof (induction n arbitrary: src s rule: less_induct)
  case (less n)
  obtain r src1 where r: "read_some (copy_want n) src = (r, src1)" by fastforce
  show ?case
  proof (cases "\<exists>bs. r = Ok bs \<and> bs \<noteq> []")
    case False
    with r less.prems show ?thesis by (subst copy_exactly.simps) (auto split: sum.splits)
  next
    case True
    then obtain bs where bs: "r = Ok bs" "bs \<noteq> []" by blast
    obtain x s' where x: "write_bytes bs s = (x, s')" by (cases "write_bytes bs s")
    from read_some_short [OF r [unfolded bs(1)] bs(2)] less.prems
    have "length (available src1) < n - length bs" "n - length bs < n" using bs(2) by auto
    with less.IH [of "n - length bs" src1 s'] r bs x less.prems show ?thesis
      by (subst copy_exactly.simps) (auto split: sum.splits)
  qed
qed

lemma write_streaming_chunks:
  assumes "unat sz \<le> length (available src)"
  obtains cs src' where "write_streaming_entry rc sz src = bindW (chunkW cs) (\<lambda>_. retW src')"
    "concat cs = record_bytes rc (take (unat sz) (available src))"
proof -
  obtain cs src' where c: "copy_exactly (unat sz) src = bindW (chunkW cs) (\<lambda>_. retW src')"
    "concat cs = take (unat sz) (available src)"
    by (rule copy_exactly_chunks [OF assms])
  have "write_streaming_entry rc sz src =
      bindW (chunkW ([encode_header rc sz (length (rc_name rc) + 1)] @ cs @ pad_chunks (unat sz))) (\<lambda>_. retW src')"
    by (simp add: write_streaming_entry_def c(1) write_bytes_chunk write_padding_chunks bindW_assoc)
  moreover have "concat ([encode_header rc sz (length (rc_name rc) + 1)] @ cs @ pad_chunks (unat sz)) =
      record_bytes rc (take (unat sz) (available src))"
    using assms by (simp add: record_bytes_def c(2) pad4_def)
  ultimately show ?thesis by (rule that)
qed

lemma write_streaming_short:
  "length (available src) < unat sz \<Longrightarrow> \<not> isOk (fst (write_streaming_entry rc sz src s))"
  using copy_exactly_short [of src "unat sz"]
  by (auto simp: write_streaming_entry_def bindW_def retW_def isOk_iff split: prod.splits sum.splits)
    (metis fst_conv)

section \<open>Properties\<close>


text \<open>A reader that follows the format.\<close>

definition format_reader :: newc_crate where
  "format_reader =
    \<lparr>nc_next = (\<lambda>bs. case newc_parse bs of
        None \<Rightarrow> Err (io_err InvalidInput)
      | Some (e, body, rest) \<Rightarrow> Ok (e, body, Ok rest)),
     nc_is_trailer = (\<lambda>e. ne_name e = TRAILER_NAME)\<rparr>"

lemma format_reader_ok: "newc_crate_ok format_reader"
  by (simp add: newc_crate_ok_def format_reader_def)


end
