(* ===== verification/Cpio.thy ===== *)
theory Cpio
  imports Newc "HOL-Library.AList" "HOL-Library.Multiset"
begin

unbundle bit_operations_syntax

text \<open>
  Conversion of a TAR archive to \<open>newc\<close>, \<^verbatim>\<open>libs/image-core/src/ops/cpio.rs\<close>, and the structural
  validation of an archive, \<^verbatim>\<open>libs/rootfs/src/ops/validate_cpio.rs\<close>. The \<open>tar\<close> crate is a
  parameter: a function from the bytes of an archive to its entries.
\<close>

section \<open>Paths\<close>

definition is_sep :: "char \<Rightarrow> bool" where
  "is_sep c \<longleftrightarrow> c = CHR ''/'' \<or> c = CHR 0x5C"

text \<open>The loop that strips leading \<open>./\<close> and \<open>.\\<close>.\<close>

fun strip_dots :: "string \<Rightarrow> string" where
  "strip_dots (c # d # rest) = (if c = CHR ''.'' \<and> is_sep d then strip_dots rest else c # d # rest)"
| "strip_dots s = s"

definition replace_backslash :: "string \<Rightarrow> string" where
  "replace_backslash s = map (\<lambda>c. if c = CHR 0x5C then CHR ''/'' else c) s"

text \<open>The walk over the segments with what was written so far.\<close>

fun push_segments :: "string \<Rightarrow> string list \<Rightarrow> operation_error + string" where
  "push_segments out [] = Ok out"
| "push_segments out (seg # segs) =
    (if seg = '''' then Err UnsafePath
     else if seg = ''..'' then Err UnsafePath
     else if seg = ''.'' then (if out \<noteq> [] then Err UnsafePath else push_segments (out @ ''.'') segs)
     else push_segments
            ((if out \<noteq> [] \<and> last out \<noteq> CHR ''/'' then out @ ''/'' else out) @ seg) segs)"

definition normalize_path :: "string \<Rightarrow> operation_error + string" where
  "normalize_path raw =
    (if length raw \<ge> 2 \<and> raw ! 1 = CHR '':'' then Err UnsafePath
     else if raw \<noteq> [] \<and> is_sep (hd raw) then Err UnsafePath
     else if raw = [] then Err UnsafePath
     else
       let cursor = strip_dots raw in
       if cursor = [] then Ok ''.''
       else
         let cursor = (if is_sep (last cursor) then butlast cursor else cursor) in
         if cursor = [] then Ok ''.''
         else
           bindR (push_segments [] (split_on CHR ''/'' (replace_backslash cursor))) (\<lambda>out.
             if out = [] then Err UnsafePath else Ok out))"

section \<open>Entries of a TAR archive\<close>

datatype tar_type =
    TarRegular
  | TarContinuous
  | TarDirectory
  | TarSymlink
  | TarLink
  | TarChar
  | TarBlock
  | TarFifo
  | TarXGlobal
  | TarXHeader
  | TarOther u8

text \<open>An entry as the crate presents it; header fields that fail to parse are errors.\<close>

record tar_entry =
  te_path :: "byte list"
  te_link :: "byte list option"
  te_type :: tar_type
  te_mode :: "io_error + u32"
  te_uid :: "io_error + u64"
  te_gid :: "io_error + u64"
  te_mtime :: "io_error + u64"
  te_size :: u64
  te_dev_major :: "io_error + u32 option"
  te_dev_minor :: "io_error + u32 option"
  te_body :: "read_step list"

type_synonym tar_listing = "io_error + (io_error + tar_entry) list"

record tar_snapshot =
  ts_path :: string
  ts_link_name :: "string option"
  ts_symlink_target :: "byte list option"
  ts_type :: tar_type
  ts_mode :: u32
  ts_uid :: u32
  ts_gid :: u32
  ts_mtime :: u32
  ts_size :: u64
  ts_dev_major :: "u32 option"
  ts_dev_minor :: "u32 option"

definition utf8_path :: "byte list \<Rightarrow> operation_error + string" where
  "utf8_path bytes = (case from_utf8 bytes of None \<Rightarrow> Err InvalidTar | Some s \<Rightarrow> normalize_path s)"

definition fit_u32 :: "io_error + u64 \<Rightarrow> operation_error + u32" where
  "fit_u32 field =
    bindR (mapErr (\<lambda>_. InvalidTar) field) (\<lambda>v.
      if fits_u32 (unat v) then Ok (word_of_nat (unat v)) else Err InvalidCpio)"

definition is_device :: "tar_type \<Rightarrow> bool" where
  "is_device ty \<longleftrightarrow> ty = TarChar \<or> ty = TarBlock"

definition snapshot_entry :: "tar_entry \<Rightarrow> operation_error + tar_snapshot" where
  "snapshot_entry te =
    bindR (utf8_path (te_path te)) (\<lambda>path.
    bindR (if te_type te = TarLink then
             (case te_link te of
                None \<Rightarrow> Err InvalidTar
              | Some link \<Rightarrow> bindR (utf8_path link) (\<lambda>l. Ok (Some l, None)))
           else if te_type te = TarSymlink then Ok (None, te_link te)
           else Ok (None, None)) (\<lambda>(link_name, symlink_target).
    bindR (mapErr (\<lambda>_. InvalidTar) (te_mode te)) (\<lambda>mode.
    bindR (fit_u32 (te_uid te)) (\<lambda>uid.
    bindR (fit_u32 (te_gid te)) (\<lambda>gid.
    bindR (fit_u32 (te_mtime te)) (\<lambda>mtime.
    bindR (if is_device (te_type te) then mapErr (\<lambda>_. InvalidTar) (te_dev_major te) else Ok None) (\<lambda>dev_major.
    bindR (if is_device (te_type te) then mapErr (\<lambda>_. InvalidTar) (te_dev_minor te) else Ok None) (\<lambda>dev_minor.
    Ok \<lparr>ts_path = path, ts_link_name = link_name, ts_symlink_target = symlink_target,
        ts_type = te_type te, ts_mode = mode, ts_uid = uid, ts_gid = gid, ts_mtime = mtime,
        ts_size = te_size te, ts_dev_major = dev_major, ts_dev_minor = dev_minor\<rparr>))))))))"

section \<open>Hard links\<close>

record link_id =
  li_dev :: u32
  li_ino :: u32

text \<open>The hash maps of the plan, as association lists.\<close>

record link_plan =
  lp_identity :: "(string \<times> link_id) list"
  lp_nlink :: "(string \<times> u32) list"
  lp_pending :: "(string \<times> string list) list"
  lp_missing :: "string list"
  lp_next_dev :: u32
  lp_next_ino :: u32

definition identity_for :: "link_plan \<Rightarrow> string \<Rightarrow> link_id option" where
  "identity_for plan path = map_of (lp_identity plan) path"

definition nlink_for :: "link_plan \<Rightarrow> string \<Rightarrow> u32" where
  "nlink_for plan path = (case map_of (lp_nlink plan) path of Some n \<Rightarrow> n | None \<Rightarrow> 1)"

definition saturating_inc :: "u32 \<Rightarrow> u32" where
  "saturating_inc w = (if w = u32_max then w else w + 1)"

definition link_groups :: "tar_snapshot list \<Rightarrow> (string \<times> string list) list" where
  "link_groups headers =
    fold (\<lambda>h groups.
      if ts_type h = TarLink then
        (let target = (case ts_link_name h of Some t \<Rightarrow> t | None \<Rightarrow> '''') in
         AList.update target ((case map_of groups target of Some ms \<Rightarrow> ms | None \<Rightarrow> []) @ [ts_path h]) groups)
      else groups) headers []"

definition fresh_id :: "link_plan \<Rightarrow> link_id \<times> link_plan" where
  "fresh_id plan =
    (\<lparr>li_dev = lp_next_dev plan, li_ino = lp_next_ino plan\<rparr>,
     plan\<lparr>lp_next_dev := saturating_inc (lp_next_dev plan), lp_next_ino := saturating_inc (lp_next_ino plan)\<rparr>)"

text \<open>One group: the target and its members share an identity and a link count.\<close>

definition plan_group :: "string \<Rightarrow> string list \<Rightarrow> link_plan \<Rightarrow> link_plan" where
  "plan_group target members plan =
    (case fresh_id plan of
       (ident, plan) \<Rightarrow>
         let group_nlink = 1 + word_of_nat (length members) in
         plan\<lparr>lp_identity := fold (\<lambda>m. AList.update m ident) members (AList.update target ident (lp_identity plan)),
              lp_nlink := fold (\<lambda>m. AList.update m group_nlink) members
                            (AList.update target group_nlink (lp_nlink plan)),
              lp_pending := AList.update target members (lp_pending plan)\<rparr>)"

fun plan_known ::
  "string list \<Rightarrow> (string \<times> string list) list \<Rightarrow> link_plan \<Rightarrow> (string \<times> string list) list \<times> link_plan" where
  "plan_known [] groups plan = (groups, plan)"
| "plan_known (target # targets) groups plan =
    (case map_of groups target of
       None \<Rightarrow> plan_known targets groups plan
     | Some members \<Rightarrow> plan_known targets (AList.delete target groups) (plan_group target members plan))"

definition plan_missing :: "(string \<times> string list) list \<Rightarrow> link_plan \<Rightarrow> link_plan" where
  "plan_missing groups plan =
    fold (\<lambda>(target, members) plan.
      (plan_group target members plan)\<lparr>lp_missing := lp_missing plan @ [target]\<rparr>) groups plan"

definition plan_singles :: "tar_snapshot list \<Rightarrow> link_plan \<Rightarrow> link_plan" where
  "plan_singles headers plan =
    fold (\<lambda>h plan.
      if map_of (lp_identity plan) (ts_path h) \<noteq> None then plan
      else (case fresh_id plan of
              (ident, plan) \<Rightarrow> plan\<lparr>lp_identity := AList.update (ts_path h) ident (lp_identity plan)\<rparr>))
      headers plan"

text \<open>\<open>hash_order\<close> is the order in which a hash map is iterated.\<close>

definition plan_links ::
  "((string \<times> string list) list \<Rightarrow> (string \<times> string list) list) \<Rightarrow> tar_snapshot list \<Rightarrow> link_plan" where
  "plan_links hash_order headers =
    (let known_targets = map ts_path (filter (\<lambda>h. ts_type h \<noteq> TarLink) headers);
         empty_plan = \<lparr>lp_identity = [], lp_nlink = [], lp_pending = [], lp_missing = [],
                       lp_next_dev = 1, lp_next_ino = 1\<rparr>
     in case plan_known known_targets (link_groups headers) empty_plan of
          (groups, plan) \<Rightarrow> plan_singles headers (plan_missing (hash_order groups) plan))"

section \<open>Records\<close>

definition device_rdev :: "tar_snapshot \<Rightarrow> u32 \<times> u32" where
  "device_rdev h =
    ((case ts_dev_major h of Some m \<Rightarrow> m | None \<Rightarrow> 0), (case ts_dev_minor h of Some m \<Rightarrow> m | None \<Rightarrow> 0))"

definition build_record :: "tar_snapshot \<Rightarrow> link_id option \<Rightarrow> u32 \<Rightarrow> operation_error + newc_record" where
  "build_record h identity nlink =
    (case identity of
       None \<Rightarrow> Err InvalidTar
     | Some ident \<Rightarrow>
         if ts_type h = TarXGlobal \<or> ts_type h = TarXHeader then Err UnsupportedArtifact
         else
           let perm_bits = ts_mode h AND 4095;
               rdev = (if is_device (ts_type h) then device_rdev h else (0, 0))
           in bindR
               (case ts_type h of
                  TarRegular \<Rightarrow> if \<not> fits_u32 (unat (ts_size h)) then Err InvalidCpio
                                 else Ok (perm_bits OR 32768, BodyEmpty)
                | TarContinuous \<Rightarrow> if \<not> fits_u32 (unat (ts_size h)) then Err InvalidCpio
                                 else Ok (perm_bits OR 32768, BodyEmpty)
                | TarDirectory \<Rightarrow> Ok (perm_bits OR 16384, BodyEmpty)
                | TarSymlink \<Rightarrow>
                    (case ts_symlink_target h of
                       None \<Rightarrow> Err InvalidTar
                     | Some target \<Rightarrow> Ok (perm_bits OR 40960, BodyOwned target))
                | TarLink \<Rightarrow> Ok (perm_bits OR 32768, BodyEmpty)
                | TarChar \<Rightarrow> Ok (perm_bits OR 8192, BodyEmpty)
                | TarBlock \<Rightarrow> Ok (perm_bits OR 24576, BodyEmpty)
                | TarFifo \<Rightarrow> Ok (perm_bits OR 4096, BodyEmpty)
                | _ \<Rightarrow> Err UnsupportedArtifact)
               (\<lambda>(mode, body).
                 Ok \<lparr>rc_name = ts_path h, rc_mode = mode, rc_uid = ts_uid h, rc_gid = ts_gid h,
                     rc_mtime = ts_mtime h, rc_nlink = nlink, rc_dev_major = li_dev ident, rc_dev_minor = 0,
                     rc_ino = li_ino ident, rc_rdev_major = fst rdev, rc_rdev_minor = snd rdev,
                     rc_body = body\<rparr>))"

section \<open>Conversion\<close>

definition liftW :: "'e + 'a \<Rightarrow> ('e, 'a) writer" where
  "liftW r s = (r, s)"

definition failing :: "(operation_error, 'a) writer \<Rightarrow> (operation_error fault, 'a) writer" where
  "failing m s = (case m s of (r, s') \<Rightarrow> (mapErr Fail r, s'))"

text \<open>The first pass.\<close>

fun snapshot_all :: "(io_error + tar_entry) list \<Rightarrow> operation_error + tar_snapshot list" where
  "snapshot_all [] = Ok []"
| "snapshot_all (Inl e # es) = Err InvalidTar"
| "snapshot_all (Inr te # es) =
    bindR (snapshot_entry te) (\<lambda>h. bindR (snapshot_all es) (\<lambda>hs. Ok (h # hs)))"

text \<open>The links of a target; a missing identity or snapshot panics.\<close>

fun write_links :: "tar_snapshot list \<Rightarrow> link_plan \<Rightarrow> string list \<Rightarrow> (operation_error fault, unit) writer" where
  "write_links headers plan [] = retW ()"
| "write_links headers plan (link_path # rest) =
    (case (identity_for plan link_path, find (\<lambda>h. ts_path h = link_path) headers) of
       (Some ident, Some snapshot) \<Rightarrow>
         bindW (failing (liftW (build_record snapshot (Some ident) (nlink_for plan link_path)))) (\<lambda>rc.
         bindW (failing (write_entry rc)) (\<lambda>_. write_links headers plan rest))
     | _ \<Rightarrow> failW Panic)"

definition needs_reader :: "tar_type \<Rightarrow> bool" where
  "needs_reader ty \<longleftrightarrow> ty = TarRegular \<or> ty = TarContinuous"

fun reads_clean :: "read_step list \<Rightarrow> bool" where
  "reads_clean [] = True"
| "reads_clean (ReadFault e # rs) = False"
| "reads_clean (ReadBytes bs # rs) = (bs = [] \<or> reads_clean rs)"

text \<open>Regular files are streamed from the entry.\<close>

definition write_tar_body :: "tar_snapshot \<Rightarrow> newc_record \<Rightarrow> read_step list \<Rightarrow> (operation_error fault, unit) writer" where
  "write_tar_body live rc src =
    (if needs_reader (ts_type live) then
       (if \<not> fits_u32 (unat (ts_size live)) then failW (Fail InvalidCpio)
        else bindW (failing (write_streaming_entry rc (word_of_nat (unat (ts_size live))) src)) (\<lambda>_. retW ()))
     else failing (write_entry rc))"

text \<open>A target that has arrived is neither pending nor missing any more.\<close>

definition serve :: "string \<Rightarrow> link_plan \<Rightarrow> link_plan" where
  "serve path plan = plan\<lparr>lp_pending := AList.delete path (lp_pending plan),
     lp_missing := filter (\<lambda>m. m \<noteq> path) (lp_missing plan)\<rparr>"

text \<open>The second pass.\<close>

fun convert_entries ::
  "tar_snapshot list \<Rightarrow> link_plan \<Rightarrow> nat \<Rightarrow> (io_error + tar_entry) list \<Rightarrow>
   (operation_error fault, link_plan \<times> nat) writer" where
  "convert_entries headers plan idx [] = retW (plan, idx)"
| "convert_entries headers plan idx (Inl e # es) = failW (Fail InvalidTar)"
| "convert_entries headers plan idx (Inr te # es) =
    bindW (failing (liftW (snapshot_entry te))) (\<lambda>live.
    if idx \<ge> length headers then failW (Fail InvalidTar)
    else if ts_path (headers ! idx) \<noteq> ts_path live \<or> ts_type (headers ! idx) \<noteq> ts_type live
    then failW (Fail InvalidTar)
    else if ts_type live = TarLink then
      (if reads_clean (te_body te) then convert_entries headers plan (Suc idx) es
       else failW (Fail ReadSource))
    else
      bindW (failing (liftW (build_record live (identity_for plan (ts_path live)) (nlink_for plan (ts_path live)))))
        (\<lambda>rc.
      bindW (write_tar_body live rc (te_body te)) (\<lambda>_.
      case map_of (lp_pending plan) (ts_path live) of
        None \<Rightarrow> convert_entries headers plan (Suc idx) es
      | Some deferred \<Rightarrow>
          bindW (write_links headers (serve (ts_path live) plan) deferred) (\<lambda>_.
          convert_entries headers (serve (ts_path live) plan) (Suc idx) es))))"

text \<open>Everything that is written between opening and publishing the staging file.\<close>

definition convert_body ::
  "((string \<times> string list) list \<Rightarrow> (string \<times> string list) list) \<Rightarrow> tar_snapshot list \<Rightarrow> tar_listing \<Rightarrow>
   (operation_error fault, unit) writer" where
  "convert_body hash_order headers second =
    (case second of
       Inl e \<Rightarrow> failW (Fail InvalidTar)
     | Inr entries \<Rightarrow>
         bindW (convert_entries headers (plan_links hash_order headers) 0 entries) (\<lambda>(plan, idx).
         if idx \<noteq> length headers then failW (Fail InvalidTar)
         else if lp_pending plan \<noteq> [] \<or> lp_missing plan \<noteq> [] then failW (Fail InvalidTar)
         else failing write_trailer))"

text \<open>
  \<open>convert\<close>: the file is read for its digest and for the two passes; \<open>b0\<close>, \<open>b1\<close> and \<open>b2\<close> are the
  bytes those reads see, or \<open>None\<close> where reading or seeking fails.
\<close>

record tar_source =
  src_digest_bytes :: "byte list option"
  src_first_bytes :: "byte list option"
  src_second_bytes :: "byte list option"

definition convert ::
  "bool \<Rightarrow> hashes \<Rightarrow> (byte list \<Rightarrow> tar_listing) \<Rightarrow>
   ((string \<times> string list) list \<Rightarrow> (string \<times> string list) list) \<Rightarrow> string \<Rightarrow> path \<Rightarrow> file_digest \<Rightarrow>
   tar_source \<Rightarrow> disk \<Rightarrow> (operation_error fault + file_digest) \<times> disk" where
  "convert windows h tar hash_order unique path expected src d =
    (case src_digest_bytes src of
       None \<Rightarrow> (Err (Fail ReadSource), d)
     | Some b0 \<Rightarrow>
         if bytes_digest h b0 \<noteq> expected then (Err (Fail DigestMismatch), d)
         else
           (case src_first_bytes src of
              None \<Rightarrow> (Err (Fail ReadSource), d)
            | Some b1 \<Rightarrow>
                (case tar b1 of
                   Inl e \<Rightarrow> (Err (Fail InvalidTar), d)
                 | Inr entries \<Rightarrow>
                     (case snapshot_all entries of
                        Inl e \<Rightarrow> (Err (Fail e), d)
                      | Inr headers \<Rightarrow>
                          (case tw_open unique path d of
                             (Inl e, d) \<Rightarrow> (Err (Fail WriteDestination), d)
                           | (Inr w, d) \<Rightarrow>
                               (case src_second_bytes src of
                                  None \<Rightarrow> (Err (Fail ReadSource), tw_drop w d)
                                | Some b2 \<Rightarrow>
                                    (case convert_body hash_order headers (tar b2) (w, d) of
                                       (Inl e, w, d) \<Rightarrow> (Err e, tw_drop w d)
                                     | (Inr _, w, d) \<Rightarrow>
                                         (case tw_flush (w, d) of
                                            (Inl e, w, d) \<Rightarrow> (Err (Fail WriteDestination), tw_drop w d)
                                          | (Inr _, w, d) \<Rightarrow>
                                              (case tw_publish windows h (w, d) of
                                                 (Inl e, d) \<Rightarrow> (Err (Fail WriteDestination), d)
                                               | (Inr pf, d) \<Rightarrow> (Ok (pf_digest pf), d))))))))))"

section \<open>Validation\<close>

text \<open>The loop of \<open>validate_blocking\<close>; \<open>cancelled i\<close> is the token before record \<open>i\<close>.\<close>

partial_function (option) validate_loop ::
  "newc_crate \<Rightarrow> (nat \<Rightarrow> bool) \<Rightarrow> nat \<Rightarrow> byte list \<Rightarrow> (operation_error + unit) option" where
  "validate_loop nc cancelled i bs =
    (if cancelled i then Some (Err OpCancelled)
     else
       (case nc_next nc bs of
          Inl e \<Rightarrow> Some (Err InvalidCpio)
        | Inr (entry, body, fin) \<Rightarrow>
            if nc_is_trailer nc entry then
              (case fin of
                 Inl e \<Rightarrow> Some (Err InvalidCpio)
               | Inr rest \<Rightarrow> Some (if rest = [] then Ok () else Err InvalidCpio))
            else if length body < unat (ne_file_size entry) then Some (Err InvalidCpio)
            else
              (case fin of
                 Inl e \<Rightarrow> Some (Err InvalidCpio)
               | Inr rest \<Rightarrow> validate_loop nc cancelled (Suc i) rest)))"

definition validate_blocking ::
  "newc_crate \<Rightarrow> hashes \<Rightarrow> (nat \<Rightarrow> bool) \<Rightarrow> file_digest \<Rightarrow> byte list option \<Rightarrow> (operation_error + unit) option" where
  "validate_blocking nc h cancelled expected bytes =
    (case bytes of
       None \<Rightarrow> Some (Err ReadSource)
     | Some bs \<Rightarrow>
         if bytes_digest h bs \<noteq> expected then Some (Err DigestMismatch)
         else validate_loop nc cancelled 0 bs)"

section \<open>Normal paths\<close>

definition safe_segment :: "string \<Rightarrow> bool" where
  "safe_segment seg \<longleftrightarrow> seg \<noteq> '''' \<and> seg \<noteq> ''.'' \<and> seg \<noteq> ''..'' \<and> CHR ''/'' \<notin> set seg \<and> CHR 0x5C \<notin> set seg"

text \<open>Non-empty segments that are not dots, separated by single slashes.\<close>

definition safe_path :: "string \<Rightarrow> bool" where
  "safe_path p \<longleftrightarrow> list_all safe_segment (split_on CHR ''/'' p)"

definition drive_prefix :: "string \<Rightarrow> bool" where
  "drive_prefix p \<longleftrightarrow> length p \<ge> 2 \<and> p ! 1 = CHR '':''"

lemma push_segments_safe:
  assumes "out \<noteq> []" "last out \<noteq> CHR ''/''" "list_all (\<lambda>s. CHR ''/'' \<notin> set s \<and> CHR 0x5C \<notin> set s) segs"
  shows "push_segments out segs =
    (if list_all safe_segment segs then Ok (join_with CHR ''/'' (out # segs)) else Err UnsafePath)"
  using assms
proof (induction segs arbitrary: out)
  case (Cons seg segs)
  show ?case
  proof (cases "seg = '''' \<or> seg = ''.'' \<or> seg = ''..''")
    case True
    with Cons.prems show ?thesis by (auto simp: safe_segment_def)
  next
    case False
    then have "last seg \<noteq> CHR ''/''" using Cons.prems(3) by (auto dest: last_in_set)
    with False Cons.IH [of "out @ ''/'' @ seg"] Cons.prems
    have "push_segments out (seg # segs) =
        (if list_all safe_segment segs then Ok (join_with CHR ''/'' ((out @ ''/'' @ seg) # segs)) else Err UnsafePath)"
      by simp
    moreover have "join_with CHR ''/'' ((out @ ''/'' @ seg) # segs) = join_with CHR ''/'' (out # seg # segs)"
      by (cases segs) simp_all
    ultimately show ?thesis using False Cons.prems(3) by (simp add: safe_segment_def [of seg])
  qed
qed simp

lemma push_segments_Nil:
  assumes "segs \<noteq> []" "hd segs \<noteq> ''.'' \<or> tl segs = []"
    "list_all (\<lambda>s. CHR ''/'' \<notin> set s \<and> CHR 0x5C \<notin> set s) segs"
  shows "push_segments [] segs =
    (if segs = [''.''] then Ok ''.''
     else if list_all safe_segment segs then Ok (join_with CHR ''/'' segs) else Err UnsafePath)"
proof (cases segs)
  case (Cons seg rest)
  show ?thesis
  proof (cases "seg = '''' \<or> seg = ''.'' \<or> seg = ''..''")
    case True
    with Cons assms(2) show ?thesis by (auto simp: safe_segment_def)
  next
    case False
    then have "last seg \<noteq> CHR ''/''" using Cons assms(3) by (auto dest: last_in_set)
    with False Cons assms(3) push_segments_safe [of seg rest] show ?thesis
      by (simp add: safe_segment_def)
  qed
qed (use assms in simp)

lemma strip_dots_no_dot: "strip_dots s = c # d # rest \<Longrightarrow> \<not> (c = CHR ''.'' \<and> is_sep d)"
  by (induction s rule: strip_dots.induct) (auto split: if_splits)

lemma replace_backslash_no: "CHR 0x5C \<notin> set (replace_backslash s)"
  by (auto simp: replace_backslash_def)

lemma segments_clean:
  "list_all (\<lambda>s. CHR ''/'' \<notin> set s \<and> CHR 0x5C \<notin> set s) (split_on CHR ''/'' (replace_backslash s))"
  using split_on_segments [of _ "CHR ''/''" "replace_backslash s"]
    split_on_set [of _ "CHR ''/''" "replace_backslash s"] replace_backslash_no [of s]
  by (auto simp: list_all_iff)

text \<open>The part of a path that is split: it never begins with a dot segment.\<close>

definition trim_sep :: "string \<Rightarrow> string" where
  "trim_sep s = (if s \<noteq> [] \<and> is_sep (last s) then butlast s else s)"

lemma first_segment_dot:
  assumes "hd (split_on CHR ''/'' (replace_backslash (trim_sep (strip_dots raw)))) = ''.''"
  shows "tl (split_on CHR ''/'' (replace_backslash (trim_sep (strip_dots raw)))) = []"
proof -
  let ?c = "trim_sep (strip_dots raw)"
  have sep: "(if x = CHR 0x5C then CHR ''/'' else x) = CHR ''/'' \<longleftrightarrow> is_sep x" for x by (auto simp: is_sep_def)
  show ?thesis
  proof (cases ?c)
    case Nil
    then show ?thesis by (simp add: replace_backslash_def)
  next
    case (Cons a as)
    show ?thesis
    proof (cases as)
      case Nil
      with Cons assms show ?thesis by (auto simp: replace_backslash_def split: if_splits)
    next
      case (Cons b bs)
      then have c: "?c = a # b # bs" using \<open>?c = a # as\<close> by simp
      then obtain rest where "strip_dots raw = a # b # rest"
        by (auto simp: trim_sep_def split: if_splits) (metis append_butlast_last_id append_Cons)
      then have nd: "\<not> (a = CHR ''.'' \<and> is_sep b)" by (rule strip_dots_no_dot)
      with assms c sep show ?thesis
        by (auto simp: replace_backslash_def split: if_splits list.splits)
    qed
  qed
qed


lemma normalize_path_alt:
  "normalize_path raw =
    (if drive_prefix raw \<or> raw = [] \<or> is_sep (hd raw) then Err UnsafePath
     else
       let c = trim_sep (strip_dots raw); segs = split_on CHR ''/'' (replace_backslash c) in
       if c = [] \<or> segs = [''.''] then Ok ''.''
       else if list_all safe_segment segs then Ok (join_with CHR ''/'' segs) else Err UnsafePath)"
proof -
  let ?c = "trim_sep (strip_dots raw)"
  let ?segs = "split_on CHR ''/'' (replace_backslash ?c)"
  have push: "push_segments [] ?segs =
      (if ?segs = [''.''] then Ok ''.''
       else if list_all safe_segment ?segs then Ok (join_with CHR ''/'' ?segs) else Err UnsafePath)"
    using push_segments_Nil [OF _ _ segments_clean] first_segment_dot [of raw] by fastforce
  have ne: "join_with CHR ''/'' ?segs \<noteq> []" if "?c \<noteq> []" using that by (auto simp: replace_backslash_def)
  show ?thesis
  proof (cases "strip_dots raw = []")
    case True
    then show ?thesis by (simp add: normalize_path_def drive_prefix_def trim_sep_def Let_def)
  next
    case False
    then have c: "(if is_sep (last (strip_dots raw)) then butlast (strip_dots raw) else strip_dots raw) = ?c"
      by (simp add: trim_sep_def)
    show ?thesis
      unfolding normalize_path_def Let_def c push using False ne
      by (auto simp: drive_prefix_def)
  qed
qed

lemma split_on_eq: "split_on c xs = segs \<Longrightarrow> join_with c segs = xs"
  by auto

lemma safe_path_chars: "safe_path p \<Longrightarrow> CHR 0x5C \<notin> set p"
  using set_join_with [of "CHR ''/''" "split_on CHR ''/'' p"]
  by (auto simp: safe_path_def list_all_iff safe_segment_def)

lemma last_join_with:
  "segs \<noteq> [] \<Longrightarrow> last segs \<noteq> [] \<Longrightarrow> join_with c segs \<noteq> [] \<and> last (join_with c segs) = last (last segs)"
  by (induction c segs rule: join_with.induct) auto

lemma safe_path_ends:
  assumes "safe_path p"
  shows "p \<noteq> []" "\<not> is_sep (hd p)" "\<not> is_sep (last p)" "strip_dots p = p"
proof -
  obtain s ss where ss: "split_on CHR ''/'' p = s # ss" by (cases "split_on CHR ''/'' p") auto
  then have p: "p = join_with CHR ''/'' (s # ss)" using join_split_on [of "CHR ''/''" p] by simp
  have s: "safe_segment s" using assms ss by (simp add: safe_path_def)
  show ne: "p \<noteq> []" using p s by (cases ss) (auto simp: safe_segment_def)
  have nb: "CHR 0x5C \<notin> set p" using assms by (rule safe_path_chars)
  show "\<not> is_sep (hd p)"
    using p s ne nb by (cases s; cases ss) (auto simp: safe_segment_def is_sep_def)
  have "safe_segment (last (s # ss))" using assms ss by (auto simp: safe_path_def list_all_iff)
  moreover have "last p = last (last (s # ss))" if "last (s # ss) \<noteq> []"
    using that p last_join_with [of "s # ss" "CHR ''/''"] by simp
  ultimately show "\<not> is_sep (last p)"
    using nb ne by (auto simp: safe_segment_def is_sep_def dest: last_in_set)
  show "strip_dots p = p"
  proof (cases p rule: strip_dots.cases)
    case (1 c d rest)
    have "\<not> (c = CHR ''.'' \<and> d = CHR ''/'')"
      using ss 1 s by (auto simp: safe_segment_def split: if_splits list.splits)
    moreover have "d \<noteq> CHR 0x5C" using nb 1 by auto
    ultimately show ?thesis using 1 by (auto simp: is_sep_def)
  qed simp_all
qed

lemma replace_backslash_safe: "CHR 0x5C \<notin> set s \<Longrightarrow> replace_backslash s = s"
  by (auto simp: replace_backslash_def intro: map_idI)

lemma safe_path_not_dot: "safe_path p \<Longrightarrow> split_on CHR ''/'' p \<noteq> [''.'']"
  by (auto simp: safe_path_def safe_segment_def)

text \<open>
  C22. Normalised paths are safe: the result is a single dot or consists of non-empty segments other
  than \<open>.\<close> and \<open>..\<close>, separated by single slashes and without backslashes; in particular it is
  relative and cannot leave the root. Every such path is accepted unchanged behind a leading \<open>./\<close>
  and with a trailing slash. On its own it is accepted unless its second byte is a colon; the
  check for a drive prefix looks only at the raw text, so behind \<open>./\<close> such a path is accepted too.
\<close>

theorem normalize_path_safe:
  "(normalize_path raw = Ok p \<longrightarrow> p = ''.'' \<or> safe_path p)
   \<and> (safe_path p \<longrightarrow>
        normalize_path (''./'' @ p) = Ok p \<and> normalize_path (''./'' @ p @ ''/'') = Ok p
        \<and> normalize_path p = (if drive_prefix p then Err UnsafePath else Ok p))"
proof (intro conjI impI)
  assume "normalize_path raw = Ok p"
  then show "p = ''.'' \<or> safe_path p"
    by (auto simp: normalize_path_alt safe_path_def Let_def split: if_splits)
next
  assume safe: "safe_path p"
  note e = safe_path_ends [OF safe] safe_path_not_dot [OF safe]
    replace_backslash_safe [OF safe_path_chars [OF safe]]
  have trim: "trim_sep p = p" "trim_sep (p @ ''/'') = p" using e by (simp_all add: trim_sep_def is_sep_def)
  have strip: "strip_dots (''./'' @ q) = strip_dots q" for q by (simp add: is_sep_def)
  have strip2: "strip_dots (p @ ''/'') = p @ ''/''"
  proof (cases p rule: strip_dots.cases)
    case (1 c d rest)
    with e(4) strip_dots_no_dot [of p c d rest] have "\<not> (c = CHR ''.'' \<and> is_sep d)" by blast
    with 1 show ?thesis by auto
  qed (use safe e(1) in \<open>auto simp: safe_path_def safe_segment_def\<close>)
  have all: "list_all safe_segment (split_on CHR ''/'' p)" using safe by (simp add: safe_path_def)
  show "normalize_path (''./'' @ p) = Ok p"
    using e trim all strip [of p] by (simp add: normalize_path_alt drive_prefix_def is_sep_def Let_def)
  show "normalize_path (''./'' @ p @ ''/'') = Ok p"
    using e trim all strip [of "p @ ''/''"] strip2
    by (simp add: normalize_path_alt drive_prefix_def is_sep_def Let_def)
  show "normalize_path p = (if drive_prefix p then Err UnsafePath else Ok p)"
    using e trim all by (simp add: normalize_path_alt Let_def)
qed

lemma normalize_path_safe_witness:
  "normalize_path ''./usr//lib'' = Err UnsafePath \<and> normalize_path ''./C:/x'' = Ok ''C:/x''
   \<and> safe_path ''C:/x'' \<and> normalize_path ''C:/x'' = Err UnsafePath"
  using normalize_path_safe [of "''./C:/x''" "''C:/x''"] by code_simp

section \<open>Paths stay text\<close>

lemma char_ascii: "unat (char_byte c) < 128 \<longleftrightarrow> (of_char c :: nat) < 128"
  by (simp add: char_byte_def unat_of_nat)

lemma wf_str_Cons_ascii: "(of_char c :: nat) < 128 \<Longrightarrow> wf_str (c # s) \<longleftrightarrow> wf_str s"
  by (simp add: wf_str_def str_bytes_def utf8_valid_ascii_Cons char_ascii)

lemma wf_str_butlast:
  assumes "wf_str s" "s \<noteq> []" "(of_char (last s) :: nat) < 128"
  shows "wf_str (butlast s)"
proof -
  obtain t c where "s = t @ [c]" using assms(2) by (cases s rule: rev_cases) auto
  with assms show ?thesis
    using utf8_valid_snoc_ascii [of "str_bytes s" "char_byte c" "str_bytes t"]
    by (simp add: wf_str_def char_ascii str_bytes_def)
qed

lemma is_sep_ascii: "is_sep c \<Longrightarrow> (of_char c :: nat) < 128"
  by (auto simp: is_sep_def)

lemma wf_str_strip_dots: "wf_str s \<Longrightarrow> wf_str (strip_dots s)"
  by (induction s rule: strip_dots.induct) (auto simp: wf_str_Cons_ascii is_sep_ascii)

lemma wf_str_trim_sep: "wf_str s \<Longrightarrow> wf_str (trim_sep s)"
  by (simp add: trim_sep_def wf_str_butlast is_sep_ascii)

lemma wf_str_replace_backslash:
  assumes "wf_str s"
  shows "wf_str (replace_backslash s)"
proof -
  let ?f = "\<lambda>b. if b = char_byte CHR 0x5C then char_byte CHR ''/'' else b"
  have "str_bytes (replace_backslash s) = map ?f (str_bytes s)"
    by (auto simp: replace_backslash_def str_bytes_def)
  moreover have "utf8_valid (map ?f (str_bytes s))"
    using assms by (intro utf8_valid_map) (auto simp: wf_str_def char_ascii split: if_splits)
  ultimately show ?thesis by (simp add: wf_str_def)
qed

lemma wf_str_normalize_path:
  assumes "normalize_path raw = Ok p" "wf_str raw"
  shows "wf_str p"
proof -
  have "wf_str ''.''" by code_simp
  moreover have "wf_str (replace_backslash (trim_sep (strip_dots raw)))"
    using assms(2) wf_str_strip_dots wf_str_trim_sep wf_str_replace_backslash by blast
  ultimately show ?thesis
    using assms(1) by (auto simp: normalize_path_alt Let_def split: if_splits)
qed

lemma strip_dots_length: "length (strip_dots s) \<le> length s"
  by (induction s rule: strip_dots.induct) auto

lemma normalize_path_length: "normalize_path raw = Ok p \<Longrightarrow> length p \<le> length raw"
  using strip_dots_length [of raw]
  by (auto simp: normalize_path_alt Let_def trim_sep_def replace_backslash_def Suc_le_eq split: if_splits)

lemma utf8_path_wf: "utf8_path bs = Ok p \<Longrightarrow> wf_str p \<and> length p \<le> length bs"
  using wf_str_normalize_path [of _ p] normalize_path_length [of _ p]
  by (auto simp: utf8_path_def from_utf8_eq_Some split: option.splits)

lemma snapshot_entry_path:
  "snapshot_entry te = Ok h \<Longrightarrow> utf8_path (te_path te) = Ok (ts_path h) \<and> ts_type h = te_type te \<and> ts_size h = te_size te"
  by (auto simp: snapshot_entry_def result_simps)

section \<open>Links are written once\<close>

lemma AList_update_append:
  assumes "distinct (map fst g)"
  shows "mset (concat (map snd (AList.update k ((case map_of g k of Some ms \<Rightarrow> ms | None \<Rightarrow> []) @ [x]) g))) =
    mset (concat (map snd g)) + {#x#}"
  using assms by (induction g) (auto split: option.splits simp: map_of_eq_None_iff)

lemma AList_delete_mset:
  assumes "distinct (map fst g)" "map_of g k = Some ms"
  shows "mset (concat (map snd g)) = mset ms + mset (concat (map snd (AList.delete k g)))"
  using assms
proof (induction g)
  case (Cons x g)
  have "AList.delete k g = g" if "k \<notin> fst ` set g"
    using that by (simp add: AList.delete_idem)
  with Cons show ?case by (auto simp: image_iff split: if_splits)
qed simp

lemma keys_delete: "fst ` set (AList.delete k g) = fst ` set g - {k}"
  using delete_keys [of k g] by (metis set_map set_removeAll)

lemma AList_update_new_mset:
  "k \<notin> fst ` set g \<Longrightarrow> mset (concat (map snd (AList.update k ms g))) = mset (concat (map snd g)) + mset ms"
  by (induction g) auto

lemma link_groups_mset:
  "distinct (map fst (link_groups hs)) \<and>
   mset (concat (map snd (link_groups hs))) = mset (map ts_path (filter (\<lambda>h. ts_type h = TarLink) hs))"
proof (induction hs rule: rev_induct)
  case Nil
  then show ?case by (simp add: link_groups_def)
next
  case (snoc h hs)
  then show ?case
    using AList_update_append [of "link_groups hs" "case ts_link_name h of Some t \<Rightarrow> t | None \<Rightarrow> ''''" "ts_path h"]
    by (simp add: link_groups_def Let_def distinct_update)
qed

lemma plan_group_pending [simp]:
  "lp_pending (plan_group t ms plan) = AList.update t ms (lp_pending plan)"
  "lp_missing (plan_group t ms plan) = lp_missing plan"
  by (simp_all add: plan_group_def fresh_id_def Let_def)

lemma plan_known_pending:
  assumes "distinct (map fst groups)" "distinct (map fst (lp_pending plan))"
    "fst ` set groups \<inter> fst ` set (lp_pending plan) = {}"
    and "plan_known ts groups plan = (groups', plan')"
  shows "distinct (map fst groups') \<and> distinct (map fst (lp_pending plan'))
    \<and> fst ` set groups' \<inter> fst ` set (lp_pending plan') = {} \<and> lp_missing plan' = lp_missing plan
    \<and> mset (concat (map snd groups')) + mset (concat (map snd (lp_pending plan'))) =
      mset (concat (map snd groups)) + mset (concat (map snd (lp_pending plan)))"
  using assms
proof (induction ts groups plan rule: plan_known.induct)
  case (2 t ts groups plan)
  show ?case
  proof (cases "map_of groups t")
    case None
    with 2 show ?thesis by simp
  next
    case (Some ms)
    then have "t \<in> fst ` set groups" by (force dest: map_of_SomeD)
    with 2(5) have t: "t \<notin> fst ` set (lp_pending plan)" by blast
    have disj: "fst ` set (AList.delete t groups) \<inter> fst ` set (lp_pending (plan_group t ms plan)) = {}"
      using 2(5) by (auto simp: keys_delete dom_update)
    from 2(2) [OF Some distinct_delete [OF 2(3)] _ disj] 2(4,6) Some
    show ?thesis
      using AList_delete_mset [OF 2(3) Some] AList_update_new_mset [OF t, of ms]
      by (simp add: distinct_update)
  qed
qed simp

lemma plan_missing_pending:
  assumes "distinct (map fst groups)" "distinct (map fst (lp_pending plan))"
    "fst ` set groups \<inter> fst ` set (lp_pending plan) = {}"
  shows "distinct (map fst (lp_pending (plan_missing groups plan)))
    \<and> mset (concat (map snd (lp_pending (plan_missing groups plan)))) =
      mset (concat (map snd groups)) + mset (concat (map snd (lp_pending plan)))"
  using assms
proof (induction groups arbitrary: plan)
  case Nil
  then show ?case by (simp add: plan_missing_def)
next
  case (Cons g groups)
  obtain t ms where g: "g = (t, ms)" by (cases g)
  let ?plan = "(plan_group t ms plan)\<lparr>lp_missing := lp_missing plan @ [t]\<rparr>"
  have "plan_missing (g # groups) plan = plan_missing groups ?plan" by (simp add: plan_missing_def g)
  moreover have "t \<notin> fst ` set (lp_pending plan)" using Cons.prems(3) g by auto
  moreover have "fst ` set groups \<inter> fst ` set (lp_pending ?plan) = {}"
    using Cons.prems(1,3) g by (auto simp: dom_update)
  ultimately show ?case
    using Cons.IH [of ?plan] Cons.prems AList_update_new_mset [of t "lp_pending plan" ms] g
    by (simp add: distinct_update)
qed

lemma plan_singles_pending [simp]: "lp_pending (plan_singles headers plan) = lp_pending plan"
  unfolding plan_singles_def
  by (induction headers arbitrary: plan) (auto simp: fresh_id_def)

definition any_order :: "((string \<times> string list) list \<Rightarrow> (string \<times> string list) list) \<Rightarrow> bool" where
  "any_order f \<longleftrightarrow> (\<forall>g. mset (f g) = mset g)"

lemma mset_keys:
  assumes "mset g = mset g'"
  shows "distinct (map fst g) \<longleftrightarrow> distinct (map fst g')" "set g = set g'"
    "mset (concat (map snd g)) = mset (concat (map snd g'))"
proof -
  show "distinct (map fst g) \<longleftrightarrow> distinct (map fst g')"
    using assms by (metis mset_eq_imp_distinct_iff mset_map)
  show "set g = set g'" using assms by (metis set_mset_mset)
  show "mset (concat (map snd g)) = mset (concat (map snd g'))"
    using assms by (simp add: mset_concat sum_mset_sum_list [symmetric])
qed

lemma plan_links_pending:
  assumes "any_order ord"
  shows "distinct (map fst (lp_pending (plan_links ord headers)))
    \<and> mset (concat (map snd (lp_pending (plan_links ord headers)))) =
      mset (map ts_path (filter (\<lambda>h. ts_type h = TarLink) headers))"
proof -
  let ?e = "\<lparr>lp_identity = [], lp_nlink = [], lp_pending = [], lp_missing = [], lp_next_dev = 1, lp_next_ino = 1\<rparr>"
  obtain groups plan where k: "plan_known (map ts_path (filter (\<lambda>h. ts_type h \<noteq> TarLink) headers))
      (link_groups headers) ?e = (groups, plan)" by fastforce
  note kp = plan_known_pending [OF _ _ _ k] link_groups_mset [of headers]
  then have g: "distinct (map fst groups)" "distinct (map fst (lp_pending plan))"
    "fst ` set groups \<inter> fst ` set (lp_pending plan) = {}"
    "mset (concat (map snd groups)) + mset (concat (map snd (lp_pending plan))) =
      mset (map ts_path (filter (\<lambda>h. ts_type h = TarLink) headers))" by auto
  have o: "mset (ord groups) = mset groups" using assms by (simp add: any_order_def)
  with g plan_missing_pending [of "ord groups" plan] mset_keys [OF o] show ?thesis
    by (simp add: plan_links_def k Let_def)
qed

section \<open>What is written\<close>

definition archive_bytes :: "(newc_record \<times> byte list) list \<Rightarrow> byte list" where
  "archive_bytes recs = concat (map (\<lambda>(rc, body). record_bytes rc body) recs)"

definition record_names :: "(newc_record \<times> byte list) list \<Rightarrow> string list" where
  "record_names recs = map (\<lambda>r. rc_name (fst r)) recs"

lemma record_names_simps [simp]:
  "record_names [] = []" "record_names ((rc, b) # recs) = rc_name rc # record_names recs"
  "record_names (r1 @ r2) = record_names r1 @ record_names r2"
  by (simp_all add: record_names_def)

definition record_ok :: "newc_record \<times> byte list \<Rightarrow> bool" where
  "record_ok = (\<lambda>(rc, body). length body < 2 ^ 32)"

text \<open>A writer that returned normally, and the records it wrote.\<close>

definition wrote :: "temp_writer \<times> disk \<Rightarrow> (newc_record \<times> byte list) list \<Rightarrow> temp_writer \<times> disk \<Rightarrow> bool" where
  "wrote s recs s' \<longleftrightarrow>
    list_all record_ok recs \<and> (\<exists>cs. tw_write_chunks cs s = (Ok (), s') \<and> concat cs = archive_bytes recs)"

lemma wrote_Nil [simp]: "wrote s [] s"
  by (simp add: wrote_def archive_bytes_def exI [of _ "[]"])

lemma wrote_append: "wrote s a s1 \<Longrightarrow> wrote s1 b s2 \<Longrightarrow> wrote s (a @ b) s2"
  unfolding wrote_def
proof (elim conjE exE)
  fix cs ds
  assume "tw_write_chunks cs s = (Ok (), s1)" "concat cs = archive_bytes a"
    "tw_write_chunks ds s1 = (Ok (), s2)" "concat ds = archive_bytes b" "list_all record_ok a" "list_all record_ok b"
  then show "list_all record_ok (a @ b) \<and>
      (\<exists>cs. tw_write_chunks cs s = (Ok (), s2) \<and> concat cs = archive_bytes (a @ b))"
    by (intro conjI exI [of _ "cs @ ds"]) (simp_all add: tw_write_chunks_append archive_bytes_def)
qed

lemma chunkW_Ok: "chunkW cs s = (Ok u, s') \<longleftrightarrow> tw_write_chunks cs s = (Ok (), s')"
  by (auto simp: chunkW_def result_simps split: prod.splits)

lemma write_entry_wrote:
  assumes "write_entry rc s = (Ok u, s')"
  shows "wrote s [(rc, body_bytes (rc_body rc))] s'"
  using assms
  by (auto simp: write_entry_chunks chunkW_Ok failW_def wrote_def record_ok_def archive_bytes_def
    concat_entry_chunks split: if_splits)

lemma write_streaming_wrote:
  assumes "write_streaming_entry rc sz src s = (Ok src', s')"
  obtains body where "wrote s [(rc, body)] s'" "body = take (unat sz) (available src)" "length body = unat sz"
proof -
  have "unat sz \<le> length (available src)"
    using write_streaming_short [of src sz rc s] assms by (auto simp: not_le [symmetric])
  then obtain cs src1 where "write_streaming_entry rc sz src = bindW (chunkW cs) (\<lambda>_. retW src1)"
    "concat cs = record_bytes rc (take (unat sz) (available src))"
    by (rule write_streaming_chunks)
  with assms have "tw_write_chunks cs s = (Ok (), s')"
    by (auto simp: bindW_def retW_def chunkW_def result_simps split: prod.splits sum.splits)
  with \<open>concat cs = _\<close> \<open>unat sz \<le> _\<close> have "wrote s [(rc, take (unat sz) (available src))] s'"
    using unsigned_less [of sz] by (auto simp: wrote_def record_ok_def archive_bytes_def)
  then show ?thesis using that \<open>unat sz \<le> _\<close> by simp
qed


lemma failing_Ok: "failing m s = (Ok a, s') \<longleftrightarrow> m s = (Ok a, s')"
  by (auto simp: failing_def result_simps split: prod.splits)

lemma bindW_Ok: "bindW m f s = (Ok b, s') \<longleftrightarrow> (\<exists>a s1. m s = (Ok a, s1) \<and> f a s1 = (Ok b, s'))"
  by (auto simp: bindW_def split: prod.splits sum.splits)

lemmas writer_simps = failing_Ok bindW_Ok liftW_def retW_def failW_def

lemma build_record_name: "build_record h ident nlink = Ok rc \<Longrightarrow> rc_name rc = ts_path h"
  by (auto simp: build_record_def Let_def result_simps split: option.splits if_splits tar_type.splits)

lemma find_path: "find (\<lambda>h. ts_path h = p) hs = Some h \<Longrightarrow> ts_path h = p"
  by (auto simp: find_Some_iff)

lemma write_links_wrote:
  assumes "write_links headers plan links s = (Ok u, s')"
  shows "\<exists>recs. wrote s recs s' \<and> record_names recs = links"
  using assms
proof (induction links arbitrary: s)
  case Nil
  then show ?case by (intro exI [of _ "[]"]) (simp add: writer_simps)
next
  case (Cons l links)
  then obtain ident snapshot rc s1 where st: "find (\<lambda>h. ts_path h = l) headers = Some snapshot"
    "build_record snapshot (Some ident) (nlink_for plan l) = Ok rc" "write_entry rc s = (Ok (), s1)"
    "write_links headers plan links s1 = (Ok u, s')"
    by (auto simp: writer_simps split: option.splits)
  with Cons.IH obtain recs where "wrote s1 recs s'" "record_names recs = links" by blast
  moreover have "rc_name rc = l" using build_record_name [OF st(2)] find_path [OF st(1)] by simp
  ultimately show ?case
    using wrote_append [OF write_entry_wrote [OF st(3)]]
    by (intro exI [of _ "(rc, body_bytes (rc_body rc)) # recs"]) auto
qed


lemma write_body_wrote:
  assumes "write_tar_body live rc src s = (Ok u, s')"
  shows "\<exists>body. wrote s [(rc, body)] s' \<and>
    (if needs_reader (ts_type live) then body = take (unat (ts_size live)) (available src) \<and> length body = unat (ts_size live)
     else body = body_bytes (rc_body rc))"
proof (cases "needs_reader (ts_type live)")
  case True
  with assms obtain src' where le: "fits_u32 (unat (ts_size live))"
    and w: "write_streaming_entry rc (word_of_nat (unat (ts_size live))) src s = (Ok src', s')"
    by (auto simp: write_tar_body_def writer_simps split: if_splits)
  have "unat (word_of_nat (unat (ts_size live)) :: u32) = unat (ts_size live)"
    using le by (simp add: fits_u32_iff unat_of_nat del: of_nat_unat)
  with True write_streaming_wrote [OF w] show ?thesis by metis
next
  case False
  with assms write_entry_wrote show ?thesis by (auto simp: write_tar_body_def writer_simps)
qed

text \<open>A record that carries the metadata and the body of an entry.\<close>

definition carried :: "link_plan \<Rightarrow> tar_entry \<Rightarrow> newc_record \<times> byte list \<Rightarrow> bool" where
  "carried plan te r \<longleftrightarrow>
    (\<exists>live. snapshot_entry te = Ok live
      \<and> build_record live (identity_for plan (ts_path live)) (nlink_for plan (ts_path live)) = Ok (fst r)
      \<and> snd r = (if needs_reader (ts_type live) then take (unat (ts_size live)) (available (te_body te))
                 else body_bytes (rc_body (fst r))))"

lemma carried_serve [simp]: "carried (serve p plan) te r = carried plan te r"
  by (simp add: carried_def serve_def identity_for_def nlink_for_def)

lemma convert_entries_step:
  assumes "convert_entries headers plan idx (Inr te # es) s = (Ok r, s')"
  obtains live where "snapshot_entry te = Ok live" "idx < length headers" "ts_path (headers ! idx) = ts_path live"
      "ts_type (headers ! idx) = ts_type live" "ts_type live = TarLink"
      "convert_entries headers plan (Suc idx) es s = (Ok r, s')"
  | live rc body s1 deferred s2 where "snapshot_entry te = Ok live" "idx < length headers"
      "ts_path (headers ! idx) = ts_path live" "ts_type (headers ! idx) = ts_type live" "ts_type live \<noteq> TarLink"
      "wrote s [(rc, body)] s1" "rc_name rc = ts_path live" "carried plan te (rc, body)"
      "map_of (lp_pending plan) (ts_path live) = Some deferred"
      "write_links headers (serve (ts_path live) plan) deferred s1 = (Ok (), s2)"
      "convert_entries headers (serve (ts_path live) plan) (Suc idx) es s2 = (Ok r, s')"
  | live rc body s1 where "snapshot_entry te = Ok live" "idx < length headers"
      "ts_path (headers ! idx) = ts_path live" "ts_type (headers ! idx) = ts_type live" "ts_type live \<noteq> TarLink"
      "wrote s [(rc, body)] s1" "rc_name rc = ts_path live" "carried plan te (rc, body)"
      "map_of (lp_pending plan) (ts_path live) = None"
      "convert_entries headers plan (Suc idx) es s1 = (Ok r, s')"
proof -
  from assms obtain live where live: "snapshot_entry te = Ok live" "idx < length headers"
    "ts_path (headers ! idx) = ts_path live" "ts_type (headers ! idx) = ts_type live"
    by (auto simp: writer_simps split: if_splits)
  show ?thesis
  proof (cases "ts_type live = TarLink")
    case True
    with assms live that(1) show ?thesis by (auto simp: writer_simps split: if_splits)
  next
    case False
    with assms live obtain rc s1 where rc: "build_record live (identity_for plan (ts_path live)) (nlink_for plan (ts_path live)) = Ok rc"
      and w: "write_tar_body live rc (te_body te) s = (Ok (), s1)"
      and k: "(case map_of (lp_pending plan) (ts_path live) of
          None \<Rightarrow> convert_entries headers plan (Suc idx) es
        | Some deferred \<Rightarrow> bindW (write_links headers (serve (ts_path live) plan) deferred) (\<lambda>_.
            convert_entries headers (serve (ts_path live) plan) (Suc idx) es)) s1 = (Ok r, s')"
      by (auto simp: writer_simps)
    obtain body where b: "wrote s [(rc, body)] s1" and "if needs_reader (ts_type live)
        then body = take (unat (ts_size live)) (available (te_body te)) \<and> length body = unat (ts_size live)
        else body = body_bytes (rc_body rc)" using write_body_wrote [OF w] by blast
    then have "carried plan te (rc, body)" using live(1) rc by (auto simp: carried_def)
    note facts = live False b build_record_name [OF rc] this
    show ?thesis
    proof (cases "map_of (lp_pending plan) (ts_path live)")
      case None
      with k show ?thesis using that(3) [OF facts None] by simp
    next
      case (Some deferred)
      with k obtain s2 where "write_links headers (serve (ts_path live) plan) deferred s1 = (Ok (), s2)"
        "convert_entries headers (serve (ts_path live) plan) (Suc idx) es s2 = (Ok r, s')"
        by (auto simp: writer_simps)
      then show ?thesis by (rule that(2) [OF facts Some])
    qed
  qed
qed

definition target_paths :: "tar_snapshot list \<Rightarrow> string list" where
  "target_paths headers = map ts_path (filter (\<lambda>h. ts_type h \<noteq> TarLink) headers)"

lemma convert_entries_wrote:
  assumes "convert_entries headers plan idx es s = (Ok (plan', idx'), s')"
    and "distinct (map fst (lp_pending plan))"
  shows "\<exists>recs. wrote s recs s' \<and> (\<forall>te. Inr te \<in> set es \<and> te_type te \<noteq> TarLink \<longrightarrow> (\<exists>r \<in> set recs. carried plan te r))
    \<and> idx' = idx + length es \<and> (es = [] \<or> idx' \<le> length headers)
    \<and> mset (record_names recs) + mset (concat (map snd (lp_pending plan'))) =
      mset (target_paths (take (length es) (drop idx headers))) + mset (concat (map snd (lp_pending plan)))"
  using assms
proof (induction es arbitrary: plan idx s)
  case Nil
  then show ?case by (intro exI [of _ "[]"]) (simp add: writer_simps target_paths_def)
next
  case (Cons e es)
  show ?case
  proof (cases e)
    case (Inl x)
    with Cons.prems show ?thesis by (simp add: writer_simps)
  next
    case (Inr te)
    have drop: "take (Suc n) (drop idx headers) = headers ! idx # take n (drop (Suc idx) headers)"
      if "idx < length headers" for n using that by (simp add: Cons_nth_drop_Suc [symmetric])
    from Cons.prems(1) [unfolded Inr] show ?thesis
    proof (cases rule: convert_entries_step)
      case (1 live)
      with Cons.IH [OF 1(6) Cons.prems(2)] drop show ?thesis
        using snapshot_entry_path [OF 1(1)] Inr by (auto simp: target_paths_def)
    next
      case (2 live rc body s1 deferred s2)
      obtain lrecs where l: "wrote s1 lrecs s2" "record_names lrecs = deferred"
        using write_links_wrote [OF 2(10)] by blast
      have "distinct (map fst (lp_pending (serve (ts_path live) plan)))"
        using Cons.prems(2) by (simp add: serve_def distinct_delete)
      from Cons.IH [OF 2(11) this] obtain recs where r: "wrote s2 recs s'" "idx' = Suc idx + length es"
        "\<forall>te. Inr te \<in> set es \<and> te_type te \<noteq> TarLink \<longrightarrow> (\<exists>r \<in> set recs. carried plan te r)"
        "es = [] \<or> idx' \<le> length headers"
        "mset (record_names recs) + mset (concat (map snd (lp_pending plan'))) =
          mset (target_paths (take (length es) (drop (Suc idx) headers)))
          + mset (concat (map snd (lp_pending (serve (ts_path live) plan))))" by auto
      have "wrote s ([(rc, body)] @ lrecs @ recs) s'" using wrote_append 2(6) l(1) r(1) by blast
      with r(2-5) l(2) 2(2-5,7,8) Inr drop AList_delete_mset [OF Cons.prems(2) 2(9)] show ?thesis
        by (intro exI [of _ "(rc, body) # lrecs @ recs"])
          (auto simp: target_paths_def serve_def)
    next
      case (3 live rc body s1)
      from Cons.IH [OF 3(10) Cons.prems(2)] obtain recs where r: "wrote s1 recs s'" "idx' = Suc idx + length es"
        "\<forall>te. Inr te \<in> set es \<and> te_type te \<noteq> TarLink \<longrightarrow> (\<exists>r \<in> set recs. carried plan te r)"
        "es = [] \<or> idx' \<le> length headers"
        "mset (record_names recs) + mset (concat (map snd (lp_pending plan'))) =
          mset (target_paths (take (length es) (drop (Suc idx) headers))) + mset (concat (map snd (lp_pending plan)))"
        by blast
      have "wrote s ([(rc, body)] @ recs) s'" using wrote_append 3(6) r(1) by blast
      with r(2-5) 3(2-5,7,8) Inr drop show ?thesis
        by (intro exI [of _ "(rc, body) # recs"]) (auto simp: target_paths_def)
    qed
  qed
qed

section \<open>Written archives are valid\<close>

definition readable :: "newc_record \<times> byte list \<Rightarrow> bool" where
  "readable r \<longleftrightarrow> record_ok r \<and> wf_str (rc_name (fst r)) \<and> length (rc_name (fst r)) + 1 < 2 ^ 32"

lemma nc_next_record:
  assumes "newc_crate_ok nc" "readable (rc, body)"
  shows "nc_next nc (record_bytes rc body @ rest) = Ok (record_entry rc (word_of_nat (length body)), body, Ok rest)"
  using assms newc_parse_record [of rc body rest]
  by (auto simp: newc_crate_ok_def readable_def record_ok_def)

lemma validate_loop_record:
  assumes "newc_crate_ok nc" "readable (rc, body)" "rc_name rc \<noteq> TRAILER_NAME" "\<not> cancelled i"
  shows "validate_loop nc cancelled i (record_bytes rc body @ rest) = validate_loop nc cancelled (Suc i) rest"
proof -
  have "\<not> nc_is_trailer nc (record_entry rc sz)" for sz
    using assms(1,3) by (simp add: newc_crate_ok_def record_entry_def)
  moreover have "unat (word_of_nat (length body) :: u32) = length body"
    using assms(2) by (simp add: readable_def record_ok_def unat_of_nat)
  ultimately show ?thesis
    using nc_next_record [OF assms(1,2)] assms(4)
    by (subst validate_loop.simps) (simp add: record_entry_def)
qed

lemma readable_trailer: "readable (trailer_record, [])"
proof -
  have "wf_str TRAILER_NAME" by code_simp
  then show ?thesis by (simp add: readable_def record_ok_def trailer_record_def TRAILER_NAME_def)
qed

lemma validate_loop_trailer:
  assumes "newc_crate_ok nc" "readable (rc, [])" "rc_name rc = TRAILER_NAME" "\<not> cancelled i"
  shows "validate_loop nc cancelled i (record_bytes rc [] @ rest) = Some (if rest = [] then Ok () else Err InvalidCpio)"
proof -
  have "nc_is_trailer nc (record_entry rc 0)"
    using assms(1,3) by (simp add: newc_crate_ok_def record_entry_def)
  then show ?thesis
    using nc_next_record [OF assms(1,2)] assms(4)
    by (subst validate_loop.simps) simp
qed

definition never :: "nat \<Rightarrow> bool" where
  "never i = False"

lemma validate_loop_records:
  assumes "newc_crate_ok nc" "list_all readable recs" "TRAILER_NAME \<notin> set (record_names recs)"
  shows "validate_loop nc never i (archive_bytes recs @ rest) = validate_loop nc never (i + length recs) rest"
  using assms(2,3)
proof (induction recs arbitrary: i)
  case (Cons r recs)
  obtain rc body where r: "r = (rc, body)" by (cases r)
  have "validate_loop nc never i (archive_bytes (r # recs) @ rest) =
      validate_loop nc never (Suc i) (archive_bytes recs @ rest)"
    using Cons.prems r validate_loop_record [OF assms(1), of rc body never i "archive_bytes recs @ rest"]
    by (auto simp: archive_bytes_def never_def)
  with Cons r show ?case by simp
qed (simp add: archive_bytes_def)

lemma validate_archive:
  assumes "newc_crate_ok nc" "list_all readable recs" "TRAILER_NAME \<notin> set (record_names recs)"
  shows "validate_loop nc never i (archive_bytes (recs @ [(trailer_record, [])])) = Some (Ok ())"
proof -
  have "archive_bytes (recs @ [(trailer_record, [])]) = archive_bytes recs @ record_bytes trailer_record [] @ []"
    by (simp add: archive_bytes_def)
  moreover have "rc_name trailer_record = TRAILER_NAME" by (simp add: trailer_record_def)
  ultimately show ?thesis
    using validate_loop_records [OF assms, of i "record_bytes trailer_record [] @ []"]
      validate_loop_trailer [OF assms(1) readable_trailer, of never "i + length recs" "[]"]
    by (simp add: never_def)
qed

section \<open>Conversion is complete\<close>

lemma snapshot_all_paths:
  assumes "snapshot_all es = Ok hs" "h \<in> set hs"
  obtains te where "Inr te \<in> set es" "utf8_path (te_path te) = Ok (ts_path h)"
  using assms
proof (induction es arbitrary: hs rule: snapshot_all.induct)
  case (3 te es)
  then obtain h0 hs0 where "hs = h0 # hs0" "snapshot_entry te = Ok h0" "snapshot_all es = Ok hs0"
    by (auto simp: result_simps)
  with 3 snapshot_entry_path [of te h0] show ?case by (cases "h = h0") auto
qed auto

lemma convert_body_wrote:
  assumes "any_order ord" "convert_body ord headers (Ok second) s = (Ok u, s')"
  shows "\<exists>recs. wrote s (recs @ [(trailer_record, [])]) s' \<and> mset (record_names recs) = mset (map ts_path headers)
    \<and> length second = length headers
    \<and> (\<forall>te. Inr te \<in> set second \<and> te_type te \<noteq> TarLink \<longrightarrow> (\<exists>r \<in> set recs. carried (plan_links ord headers) te r))"
proof -
  note pl = plan_links_pending [OF assms(1), of headers]
  from assms(2) obtain plan' idx' s1 where c: "convert_entries headers (plan_links ord headers) 0 second s = (Ok (plan', idx'), s1)"
    "idx' = length headers" "lp_pending plan' = []" "write_trailer s1 = (Ok (), s')"
    by (auto simp: convert_body_def writer_simps split: if_splits)
  from convert_entries_wrote [OF c(1)] pl obtain recs where r: "wrote s recs s1"
    "\<forall>te. Inr te \<in> set second \<and> te_type te \<noteq> TarLink \<longrightarrow> (\<exists>r \<in> set recs. carried (plan_links ord headers) te r)"
    "length second = length headers"
    "mset (record_names recs) = mset (target_paths headers) + mset (map ts_path (filter (\<lambda>h. ts_type h = TarLink) headers))"
    using c(2,3) by auto
  have "wrote s1 [(trailer_record, [])] s'"
    using write_entry_wrote [OF c(4) [unfolded write_trailer_def]] by (simp add: trailer_record_def)
  with r have "wrote s (recs @ [(trailer_record, [])]) s'" using wrote_append by blast
  moreover have "mset (map ts_path headers) =
      mset (target_paths headers) + mset (map ts_path (filter (\<lambda>h. ts_type h = TarLink) headers))"
    by (induction headers) (auto simp: target_paths_def)
  ultimately show ?thesis using r by auto
qed


lemma quiet_script_ok:
  "list_all (\<lambda>t. tn_writes t = []) (dk_script d) \<Longrightarrow> temp \<noteq> dest \<Longrightarrow> script_ok h E temp dest d"
  by (auto simp: script_ok_def turn_ok_def list_all_iff)

lemma flush_writer_inv:
  assumes "script_ok h E temp dest d" "writer_inv temp dest expected bs w d" "tw_flush (w, d) = (Ok u, w', d')"
  shows "script_ok h E temp dest d' \<and> writer_inv temp dest expected bs w' d'"
proof -
  obtain d1 where d1: "drift h E temp dest d d1" "dk_files d1 temp = dk_files d temp"
    "call (\<lambda>d. (Ok (), d)) d = (Ok (), d1) \<or> (\<exists>e. call (\<lambda>d. (Ok (), d)) d = (Inl e, d1))"
    by (rule call_cases [OF assms(1), where op = "\<lambda>d. (Ok (), d)"])
  with assms(2,3) show ?thesis
    using drift_script [OF d1(1)]
    by (auto simp: tw_flush_def fs_sync_def writer_inv_def split: prod.splits sum.splits)
qed

text \<open>Opening, writing the archive, flushing and publishing.\<close>

lemma publish_archive:
  assumes "list_all (\<lambda>t. tn_writes t = []) (dk_script d)" "temp_path_for unique path \<noteq> path"
    and "tw_open unique path d = (Ok w, d1)" "wrote (w, d1) recs (w2, d2)"
    and "tw_flush (w2, d2) = (Ok u, w3, d3)" "tw_publish win h (w3, d3) = (Ok pf, d')"
  shows "pf_digest pf = bytes_digest h (archive_bytes recs)
    \<and> holds_digest h (bytes_digest h (archive_bytes recs)) (dk_files d' path)"
proof -
  let ?E = "bytes_digest h (archive_bytes recs)" and ?temp = "temp_path_for unique path"
  obtain cs where cs: "tw_write_chunks cs (w, d1) = (Ok (), w2, d2)" "concat cs = archive_bytes recs"
    using assms(4) by (auto simp: wrote_def)
  note ok = quiet_script_ok [OF assms(1,2), of h ?E]
  have o: "writer_inv ?temp path None [] w d1" "dest_drift h ?E ?temp path d d1"
    using open_writer_cases [OF ok] assms(3) by simp_all
  have "writer_inv ?temp path None (archive_bytes recs) w2 d2" "dest_drift h ?E ?temp path d1 d2"
    using write_chunks_cases [OF dest_drift_script [OF o(2)] o(1), of cs] cs by simp_all
  with flush_writer_inv [OF dest_drift_script _ assms(5)]
  have "script_ok h ?E ?temp path d3" "writer_inv ?temp path None (archive_bytes recs) w3 d3" by blast+
  from publish_writer_cases [OF this, of win] assms(6) show ?thesis by simp
qed

lemma convert_Ok:
  assumes "convert win h tar ord unique path expected src d = (Ok dg, d')"
  obtains b0 b1 b2 first headers w d1 w2 d2 w3 d3 pf where
    "src_digest_bytes src = Some b0" "bytes_digest h b0 = expected" "src_first_bytes src = Some b1"
    "tar b1 = Ok first" "snapshot_all first = Ok headers" "tw_open unique path d = (Ok w, d1)"
    "src_second_bytes src = Some b2" "convert_body ord headers (tar b2) (w, d1) = (Ok (), w2, d2)"
    "tw_flush (w2, d2) = (Ok (), w3, d3)" "tw_publish win h (w3, d3) = (Ok pf, d')" "dg = pf_digest pf"
  using assms
  by (auto simp: convert_def split: option.splits if_splits sum.splits prod.splits)

text \<open>
  C18. Conversion is complete and its result is a valid archive. When \<open>convert\<close> succeeds on a disk
  without other writers, whatever calls fail, the input had the expected digest, and the published
  bytes, whose digest is returned, are a list of \<open>newc\<close> records and one trailer such that: the names
  of the records are exactly the paths of the TAR entries, each as often as it occurs there; every
  entry that is not a hard link is carried by a record with its metadata and its body; and, unless
  an entry itself is called \<open>TRAILER!!!\<close>, the validation accepts the archive.
\<close>

theorem convert_complete:
  assumes "convert win h tar ord unique path expected src d = (Ok dg, d')"
    and "any_order ord" "list_all (\<lambda>t. tn_writes t = []) (dk_script d)" "temp_path_for unique path \<noteq> path"
    and "newc_crate_ok nc" "\<And>bs es te. tar bs = Ok es \<Longrightarrow> Inr te \<in> set es \<Longrightarrow> length (te_path te) + 1 < 2 ^ 32"
  shows "\<exists>first second headers recs.
      Option.bind (src_first_bytes src) (Some \<circ> tar) = Some (Ok first) \<and> snapshot_all first = Ok headers
      \<and> Option.bind (src_second_bytes src) (Some \<circ> tar) = Some (Ok second)
      \<and> map_option (bytes_digest h) (src_digest_bytes src) = Some expected
      \<and> dg = bytes_digest h (archive_bytes (recs @ [(trailer_record, [])])) \<and> holds_digest h dg (dk_files d' path)
      \<and> mset (record_names recs) = mset (map ts_path headers)
      \<and> (\<forall>te. Inr te \<in> set second \<and> te_type te \<noteq> TarLink \<longrightarrow> (\<exists>r \<in> set recs. carried (plan_links ord headers) te r))
      \<and> (TRAILER_NAME \<notin> ts_path ` set headers \<longrightarrow>
           validate_blocking nc h never dg (Some (archive_bytes (recs @ [(trailer_record, [])]))) = Some (Ok ()))"
proof -
  from assms(1) obtain b0 b1 b2 first headers w d1 w2 d2 w3 d3 pf where run:
    "src_digest_bytes src = Some b0" "bytes_digest h b0 = expected" "src_first_bytes src = Some b1"
    "tar b1 = Ok first" "snapshot_all first = Ok headers" "tw_open unique path d = (Ok w, d1)"
    "src_second_bytes src = Some b2" "convert_body ord headers (tar b2) (w, d1) = (Ok (), w2, d2)"
    "tw_flush (w2, d2) = (Ok (), w3, d3)" "tw_publish win h (w3, d3) = (Ok pf, d')" "dg = pf_digest pf"
    by (rule convert_Ok)
  from run(8) obtain second where second: "tar b2 = Ok second"
    by (auto simp: convert_body_def writer_simps split: sum.splits)
  from convert_body_wrote [OF assms(2) run(8) [unfolded second]] obtain recs where recs:
    "wrote (w, d1) (recs @ [(trailer_record, [])]) (w2, d2)" "mset (record_names recs) = mset (map ts_path headers)"
    "\<forall>te. Inr te \<in> set second \<and> te_type te \<noteq> TarLink \<longrightarrow> (\<exists>r \<in> set recs. carried (plan_links ord headers) te r)"
    by blast
  have dg: "dg = bytes_digest h (archive_bytes (recs @ [(trailer_record, [])]))" "holds_digest h dg (dk_files d' path)"
    using publish_archive [OF assms(3,4) run(6) recs(1) run(9,10)] run(11) by simp_all
  have names: "set (record_names recs) = ts_path ` set headers" using mset_eq_setD [OF recs(2)] by simp
  have readable: "readable r" if "r \<in> set recs" for r
  proof -
    have "rc_name (fst r) \<in> ts_path ` set headers"
      using that names [symmetric] by (simp add: record_names_def)
    then obtain hd where hd: "hd \<in> set headers" "rc_name (fst r) = ts_path hd" by auto
    obtain te where te: "Inr te \<in> set first" "utf8_path (te_path te) = Ok (ts_path hd)"
      by (rule snapshot_all_paths [OF run(5) hd(1)])
    have "record_ok r" using recs(1) that by (auto simp: wrote_def list_all_iff)
    with utf8_path_wf [OF te(2)] assms(6) [OF run(4) te(1)] hd(2) show ?thesis by (simp add: readable_def)
  qed
  have "validate_loop nc never 0 (archive_bytes (recs @ [(trailer_record, [])])) = Some (Ok ())"
    if "TRAILER_NAME \<notin> ts_path ` set headers"
    by (rule validate_archive [OF assms(5)]) (simp_all add: list_all_iff readable names that)
  then have valid: "TRAILER_NAME \<notin> ts_path ` set headers \<longrightarrow>
      validate_blocking nc h never dg (Some (archive_bytes (recs @ [(trailer_record, [])]))) = Some (Ok ())"
    using dg(1) by (simp add: validate_blocking_def)
  show ?thesis
    by (intro exI [of _ first] exI [of _ second] exI [of _ headers] exI [of _ recs] conjI)
      (use run second recs(2,3) dg valid in simp_all)
qed


definition sample_file :: tar_entry where
  "sample_file = \<lparr>te_path = str_bytes ''a'', te_link = None, te_type = TarRegular, te_mode = Ok 1,
     te_uid = Ok 0, te_gid = Ok 0, te_mtime = Ok 7, te_size = 1, te_dev_major = Ok None, te_dev_minor = Ok None,
     te_body = [ReadBytes [1]]\<rparr>"

definition sample_link :: tar_entry where
  "sample_link = sample_file\<lparr>te_path := str_bytes ''b'', te_link := Some (str_bytes ''a''),
     te_type := TarLink, te_size := 0, te_body := []\<rparr>"

lemma convert_complete_witness:
  "\<exists>dg d'. convert False sample_hashes (\<lambda>_. Ok [Inr sample_link, Inr sample_file]) id ''7'' [''c'']
       (bytes_digest sample_hashes [1])
       \<lparr>src_digest_bytes = Some [1], src_first_bytes = Some [1], src_second_bytes = Some [1]\<rparr>
       \<lparr>dk_files = Map.empty, dk_dirs = {[]}, dk_script = []\<rparr> = (Ok dg, d')
     \<and> holds_digest sample_hashes dg (dk_files d' [''c''])"
proof -
  let ?run = "convert False sample_hashes (\<lambda>_. Ok [Inr sample_link, Inr sample_file]) id ''7'' [''c'']
       (bytes_digest sample_hashes [1])
       \<lparr>src_digest_bytes = Some [1], src_first_bytes = Some [1], src_second_bytes = Some [1]\<rparr>
       \<lparr>dk_files = Map.empty, dk_dirs = {[]}, dk_script = []\<rparr>"
  have "isOk (fst ?run)" by code_simp
  then obtain dg d' where run: "?run = (Ok dg, d')"
    unfolding isOk_iff by (rule exE) (rule that, rule prod_eqI, simp_all)
  have short: "length (te_path te) + 1 < 2 ^ 32"
    if "(Ok [Inr sample_link, Inr sample_file] :: tar_listing) = Ok es" "Inr te \<in> set es" for es te
    using that by (auto simp: sample_link_def sample_file_def)
  have "any_order (id :: (string \<times> string list) list \<Rightarrow> _)" by (simp add: any_order_def)
  note complete = convert_complete [OF run this _ _ format_reader_ok short]
  have "holds_digest sample_hashes dg (dk_files d' [''c''])"
    by (rule exE [OF complete]) (auto simp: temp_path_for_def)
  with run show ?thesis by blast
qed

end
