(* ===== verification/Layers.thy ===== *)
theory Layers
  imports BTree Cpio
begin

text \<open>
  The state of \<open>image-core/src/ops/flatten.rs\<close>: the ordered map of the entries that survive the
  layers so far, whiteouts, substitution of entries and the resolution of symbolic links in the
  directory part of a path. The overlay of one layer is shown to refine a description on partial
  functions from paths, in which whiteouts are stated on the components of paths.
\<close>

section \<open>Entries\<close>

definition S_IFMT :: u32 where "S_IFMT = 61440"

definition S_IFREG :: u32 where "S_IFREG = 32768"

definition S_IFDIR :: u32 where "S_IFDIR = 16384"

definition S_IFLNK :: u32 where "S_IFLNK = 40960"

definition MAX_SYMLINK_RESOLUTION_DEPTH :: nat where "MAX_SYMLINK_RESOLUTION_DEPTH = 40"

record spool_range =
  sr_offset :: nat
  sr_size :: u32

datatype layer_body = LbEmpty | LbSymlink "byte list" | LbSpool "spool_range option"

record layer_meta =
  lm_mode :: u32
  lm_uid :: u32
  lm_gid :: u32
  lm_mtime :: u32
  lm_dev_major :: u32
  lm_ino :: u32
  lm_rdev_major :: u32
  lm_rdev_minor :: u32
  lm_nlink_source :: u32
  lm_source_layer :: nat
  lm_body :: layer_body

definition is_directory :: "layer_meta \<Rightarrow> bool" where
  "is_directory md \<longleftrightarrow> lm_mode md AND S_IFMT = S_IFDIR"

definition is_regular :: "layer_meta \<Rightarrow> bool" where
  "is_regular md \<longleftrightarrow> lm_mode md AND S_IFMT = S_IFREG"

definition link_key :: "layer_meta \<Rightarrow> nat \<times> u32 \<times> u32" where
  "link_key md = (lm_source_layer md, lm_dev_major md, lm_ino md)"

datatype whiteout = WhNamed string string | WhOpaque string

datatype layer_entry = LayerRegular string layer_meta | LayerWhiteout whiteout

type_synonym entries = "(string, layer_meta) btree"

definition parent_dir_of :: "string \<Rightarrow> string" where
  "parent_dir_of path = (case rsplit_once CHR ''/'' path of Some (parent, _) \<Rightarrow> parent | None \<Rightarrow> '''')"

text \<open>The markers \<open>.wh.<name>\<close> and \<open>.wh..wh..opq\<close>, by the last component of the normalised name.\<close>

definition whiteout_of :: "string \<Rightarrow> whiteout option" where
  "whiteout_of normalized =
    map_option (\<lambda>rest.
        if rest = ''.wh..opq'' then WhOpaque (parent_dir_of normalized)
        else WhNamed (parent_dir_of normalized) rest)
      (strip_prefix ''.wh.'' (last (split_on CHR ''/'' normalized)))"

section \<open>Symbolic links in the directory part\<close>

fun push_component :: "string \<Rightarrow> string list \<Rightarrow> string list" where
  "push_component c out =
    (if c = '''' \<or> c = ''.'' then out else if c = ''..'' then butlast out else out @ [c])"

declare push_component.simps [simp del]

definition join_symlink_target :: "string \<Rightarrow> string \<Rightarrow> string \<Rightarrow> string option" where
  "join_symlink_target symlink_path target remainder =
    (if target = '''' then None
     else
       let base = (if \<not> prefix ''/'' target then
                     (case rsplit_once CHR ''/'' symlink_path of
                        Some (parent, _) \<Rightarrow> split_on CHR ''/'' parent
                      | None \<Rightarrow> [])
                   else []);
           components = base @ split_on CHR ''/'' target @ split_on CHR ''/'' remainder
       in Some (join_with CHR ''/'' (fold push_component components [])))"

text \<open>One pass over the ancestors: none is a link, the path is kept as it is, or it is replaced.\<close>

datatype link_scan = ScanNone | ScanKeep | ScanNext string

fun scan_ancestors :: "(string \<Rightarrow> layer_meta option) \<Rightarrow> string \<Rightarrow> string list \<Rightarrow> link_scan" where
  "scan_ancestors get pre (component # nxt # rest) =
    (let pre = (if pre \<noteq> '''' then pre @ ''/'' else pre) @ component;
         continue = scan_ancestors get pre (nxt # rest)
     in case get pre of
          None \<Rightarrow> continue
        | Some md \<Rightarrow>
            (case lm_body md of
               LbSymlink bytes \<Rightarrow>
                 (case from_utf8 bytes of
                    None \<Rightarrow> continue
                  | Some target \<Rightarrow>
                      (case join_symlink_target pre target (join_with CHR ''/'' (nxt # rest)) of
                         None \<Rightarrow> ScanKeep
                       | Some path \<Rightarrow> ScanNext path))
             | _ \<Rightarrow> continue))"
| "scan_ancestors get pre _ = ScanNone"

fun resolve_loop :: "nat \<Rightarrow> (string \<Rightarrow> layer_meta option) \<Rightarrow> string \<Rightarrow> string" where
  "resolve_loop 0 get resolved = resolved"
| "resolve_loop (Suc n) get resolved =
    (case scan_ancestors get '''' (split_on CHR ''/'' resolved) of
       ScanNext path \<Rightarrow> resolve_loop n get path
     | _ \<Rightarrow> resolved)"

definition resolve_symlink_ancestors :: "string \<Rightarrow> entries \<Rightarrow> string" where
  "resolve_symlink_ancestors path entries = resolve_loop MAX_SYMLINK_RESOLUTION_DEPTH (bt_get entries) path"

section \<open>Whiteouts and substitution\<close>

definition remove_matching :: "(string \<Rightarrow> bool) \<Rightarrow> entries \<Rightarrow> entries" where
  "remove_matching P m = fold bt_remove (filter P (bt_keys m)) m"

definition remove_subtree :: "string \<Rightarrow> entries \<Rightarrow> entries" where
  "remove_subtree target = remove_matching (\<lambda>key. key = target \<or> prefix (target @ ''/'') key)"

definition remove_descendants :: "string \<Rightarrow> entries \<Rightarrow> entries" where
  "remove_descendants path = remove_matching (\<lambda>key. prefix (path @ ''/'') key)"

fun apply_whiteout :: "whiteout \<Rightarrow> entries \<Rightarrow> entries" where
  "apply_whiteout (WhNamed parent name) m =
    remove_subtree (if parent = '''' then name else parent @ ''/'' @ name) m"
| "apply_whiteout (WhOpaque parent) m =
    (let below = (if parent = '''' then '''' else parent @ ''/'') in
     remove_matching (\<lambda>key. below = '''' \<or> prefix below key) m)"

definition insert_and_replace :: "string \<Rightarrow> layer_meta \<Rightarrow> entries \<Rightarrow> entries" where
  "insert_and_replace path md m =
    bt_insert path md
      (case bt_get m path of
         Some existing \<Rightarrow>
           if is_directory existing \<and> \<not> is_directory md then remove_descendants path m
           else if is_directory md \<and> \<not> is_directory existing then bt_remove path m
           else m
       | None \<Rightarrow> m)"

text \<open>One layer on the accumulated state: first the whiteouts, then the entries in archive order.\<close>

fun split_layer :: "layer_entry list \<Rightarrow> entries \<Rightarrow> (string \<times> layer_meta) list \<Rightarrow> entries \<times> (string \<times> layer_meta) list" where
  "split_layer [] m regulars = (m, regulars)"
| "split_layer (LayerWhiteout wh # rest) m regulars = split_layer rest (apply_whiteout wh m) regulars"
| "split_layer (LayerRegular path md # rest) m regulars = split_layer rest m (regulars @ [(path, md)])"

definition insert_entry :: "string \<times> layer_meta \<Rightarrow> entries \<Rightarrow> entries" where
  "insert_entry = (\<lambda>(path, md) m. insert_and_replace (resolve_symlink_ancestors path m) md m)"

definition apply_layer :: "layer_entry list \<Rightarrow> entries \<Rightarrow> entries" where
  "apply_layer decoded m = (case split_layer decoded m [] of (m, regulars) \<Rightarrow> fold insert_entry regulars m)"

section \<open>Overlays on partial functions\<close>

text \<open>
  The specification works on the components of a path. A named marker hides the named path and
  everything below it; an opaque marker hides what is strictly below its directory, which is
  everything for a marker at the top.
\<close>

definition components :: "string \<Rightarrow> string list" where
  "components path = split_on CHR ''/'' path"

definition dir_components :: "string \<Rightarrow> string list" where
  "dir_components dir = (if dir = '''' then [] else components dir)"

fun hides :: "whiteout \<Rightarrow> string list \<Rightarrow> bool" where
  "hides (WhNamed parent name) cs \<longleftrightarrow> prefix (dir_components parent @ [name]) cs"
| "hides (WhOpaque parent) cs \<longleftrightarrow> strict_prefix (dir_components parent) cs"

type_synonym file_tree = "string \<Rightarrow> layer_meta option"

text \<open>A new entry takes the place of an old one; below a directory that it replaces nothing is left.\<close>

definition put_entry :: "string \<times> layer_meta \<Rightarrow> file_tree \<Rightarrow> file_tree" where
  "put_entry = (\<lambda>(path, md) t.
    let p = resolve_loop MAX_SYMLINK_RESOLUTION_DEPTH t path;
        gone = (\<lambda>k. \<not> is_directory md \<and> (\<exists>old. t p = Some old \<and> is_directory old)
                   \<and> strict_prefix (components p) (components k))
    in (\<lambda>k. if k = p then Some md else if gone k then None else t k))"

definition layer_regulars :: "layer_entry list \<Rightarrow> (string \<times> layer_meta) list" where
  "layer_regulars decoded = concat (map (\<lambda>e. case e of LayerRegular p md \<Rightarrow> [(p, md)] | _ \<Rightarrow> []) decoded)"

definition hidden_by :: "layer_entry list \<Rightarrow> string \<Rightarrow> bool" where
  "hidden_by decoded k \<longleftrightarrow> (\<exists>wh. LayerWhiteout wh \<in> set decoded \<and> hides wh (components k))"

definition overlay :: "layer_entry list \<Rightarrow> file_tree \<Rightarrow> file_tree" where
  "overlay decoded t =
    fold put_entry (layer_regulars decoded) (\<lambda>k. if hidden_by decoded k then None else t k)"

section \<open>Prefixes of paths\<close>

lemma join_with_append:
  "xs \<noteq> [] \<Longrightarrow> ys \<noteq> [] \<Longrightarrow> join_with c (xs @ ys) = join_with c xs @ c # join_with c ys"
proof (induction xs)
  case (Cons x xs)
  then show ?case by (cases "xs = []") (simp_all add: join_with_Cons)
qed simp

lemma split_on_append: "split_on c (xs @ c # ys) = split_on c xs @ split_on c ys"
proof -
  have "split_on c (join_with c (split_on c xs @ split_on c ys)) = split_on c xs @ split_on c ys"
    by (rule split_on_join) (auto dest: split_on_segments)
  then show ?thesis by (simp add: join_with_append)
qed

lemma prefix_components_iff:
  "prefix (split_on c t) (split_on c k) \<longleftrightarrow> k = t \<or> prefix (t @ [c]) k"
proof
  assume "prefix (split_on c t) (split_on c k)"
  then obtain rest where "split_on c k = split_on c t @ rest" by (auto simp: prefix_def)
  then have "k = join_with c (split_on c t @ rest)" by (metis join_split_on)
  then show "k = t \<or> prefix (t @ [c]) k"
    by (cases "rest = []") (simp_all add: join_with_append)
next
  assume "k = t \<or> prefix (t @ [c]) k"
  then show "prefix (split_on c t) (split_on c k)"
    by (auto simp: prefix_def split_on_append)
qed

lemma strict_prefix_components_iff:
  "strict_prefix (split_on c t) (split_on c k) \<longleftrightarrow> prefix (t @ [c]) k"
proof -
  have "split_on c t = split_on c k \<longleftrightarrow> t = k" by (metis join_split_on)
  moreover have "prefix (t @ [c]) k \<Longrightarrow> t \<noteq> k" by (auto simp: prefix_def)
  ultimately show ?thesis using prefix_components_iff [of c t k] by (auto simp: strict_prefix_def)
qed

lemma named_components:
  "CHR ''/'' \<notin> set name \<Longrightarrow>
   dir_components parent @ [name] = components (if parent = '''' then name else parent @ ''/'' @ name)"
  by (simp add: dir_components_def components_def split_on_append split_on_no_sep)

section \<open>The overlay of a layer\<close>

lemma remove_matching_get:
  assumes "bt_ok m"
  shows "bt_ok (remove_matching P m)" "bt_get (remove_matching P m) = (\<lambda>k. if P k then None else bt_get m k)"
  using bt.remove_matching [OF assms, of P] by (auto simp: remove_matching_def)

definition slash_free :: "layer_entry \<Rightarrow> bool" where
  "slash_free e \<longleftrightarrow> (case e of LayerWhiteout (WhNamed _ name) \<Rightarrow> CHR ''/'' \<notin> set name | _ \<Rightarrow> True)"

lemma apply_whiteout_get:
  assumes "bt_ok m" "slash_free (LayerWhiteout wh)"
  shows "bt_ok (apply_whiteout wh m) \<and>
    bt_get (apply_whiteout wh m) = (\<lambda>k. if hides wh (components k) then None else bt_get m k)"
proof (cases wh)
  case (WhNamed parent name)
  let ?t = "if parent = '''' then name else parent @ ''/'' @ name"
  have "hides wh (components k) \<longleftrightarrow> k = ?t \<or> prefix (?t @ ''/'') k" for k
    using assms(2) prefix_components_iff [of "CHR ''/''" ?t k]
    by (simp add: WhNamed slash_free_def named_components components_def del: append.simps)
  with WhNamed remove_matching_get [OF assms(1)] show ?thesis
    by (simp add: remove_subtree_def del: hides.simps)
next
  case (WhOpaque parent)
  have "hides wh (components k) \<longleftrightarrow> parent = '''' \<or> prefix (parent @ ''/'') k" for k
    using strict_prefix_components_iff [of "CHR ''/''" parent k] not_sym [OF split_on_neq_Nil [of "CHR ''/''" k]]
    by (auto simp: WhOpaque dir_components_def components_def strict_prefix_def)
  with WhOpaque remove_matching_get [OF assms(1)] show ?thesis
    by (simp add: Let_def fun_eq_iff del: hides.simps)
qed

lemma split_layer_spec:
  assumes "bt_ok m" "list_all slash_free decoded"
  shows "\<exists>m'. split_layer decoded m rs = (m', rs @ layer_regulars decoded) \<and> bt_ok m'
    \<and> bt_get m' = (\<lambda>k. if hidden_by decoded k then None else bt_get m k)"
  using assms
proof (induction decoded m rs rule: split_layer.induct)
  case (2 wh rest m rs)
  from 2 apply_whiteout_get [of m wh] obtain m' where
    "split_layer rest (apply_whiteout wh m) rs = (m', rs @ layer_regulars rest)" "bt_ok m'"
    "bt_get m' = (\<lambda>k. if hidden_by rest k then None else bt_get (apply_whiteout wh m) k)" by auto
  with 2 apply_whiteout_get [of m wh] show ?case by (auto simp: layer_regulars_def hidden_by_def fun_eq_iff)
qed (auto simp: layer_regulars_def hidden_by_def)

lemma insert_entry_get:
  assumes "bt_ok m"
  shows "bt_ok (insert_entry e m) \<and> bt_get (insert_entry e m) = put_entry e (bt_get m)"
proof -
  obtain path md where e: "e = (path, md)" by force
  note rm = remove_matching_get [OF assms]
  show ?thesis
    using bt.ok_remove [OF assms] assms strict_prefix_components_iff [of "CHR ''/''"]
    by (auto simp: e insert_entry_def insert_and_replace_def put_entry_def resolve_symlink_ancestors_def Let_def
      remove_descendants_def bt.get_insert bt.ok_insert bt.get_remove rm components_def fun_eq_iff
      split: option.splits)
qed

lemma insert_entries_get:
  "bt_ok m \<Longrightarrow> bt_ok (fold insert_entry es m) \<and> bt_get (fold insert_entry es m) = fold put_entry es (bt_get m)"
  by (induction es arbitrary: m) (simp_all add: insert_entry_get)

lemma apply_layer_refines:
  assumes "bt_ok m" "list_all slash_free decoded"
  shows "bt_ok (apply_layer decoded m) \<and> bt_get (apply_layer decoded m) = overlay decoded (bt_get m)"
proof -
  obtain m' where "split_layer decoded m [] = (m', layer_regulars decoded)" "bt_ok m'"
    "bt_get m' = (\<lambda>k. if hidden_by decoded k then None else bt_get m k)"
    using split_layer_spec [OF assms, of "[]"] by auto
  then show ?thesis using insert_entries_get [of m'] by (simp add: apply_layer_def overlay_def)
qed

section \<open>Resolution stays inside the root\<close>

definition clean_component :: "string \<Rightarrow> bool" where
  "clean_component c \<longleftrightarrow> c \<noteq> '''' \<and> c \<noteq> ''.'' \<and> c \<noteq> ''..'' \<and> CHR ''/'' \<notin> set c"

definition clean_path :: "string \<Rightarrow> bool" where
  "clean_path p \<longleftrightarrow> list_all clean_component (components p)"

text \<open>Relative paths that stay below the root, and the root itself.\<close>

definition rooted :: "string \<Rightarrow> bool" where
  "rooted p \<longleftrightarrow> p = ''.'' \<or> clean_path p"

lemma safe_path_clean: "safe_path p \<Longrightarrow> clean_path p"
  by (auto simp: safe_path_def clean_path_def components_def safe_segment_def clean_component_def list_all_iff)

lemma push_component_clean:
  "CHR ''/'' \<notin> set c \<Longrightarrow> list_all clean_component out \<Longrightarrow> list_all clean_component (push_component c out)"
  by (auto simp: push_component.simps clean_component_def list_all_iff dest: in_set_butlastD)

lemma push_components_clean:
  "\<forall>c \<in> set cs. CHR ''/'' \<notin> set c \<Longrightarrow> list_all clean_component out \<Longrightarrow>
   list_all clean_component (fold push_component cs out)"
  by (induction cs arbitrary: out) (simp_all add: push_component_clean)

lemma push_components_append: "list_all clean_component cs \<Longrightarrow> fold push_component cs out = out @ cs"
  by (induction cs arbitrary: out) (auto simp: push_component.simps clean_component_def)

lemma components_join:
  "list_all clean_component cs \<Longrightarrow> cs \<noteq> [] \<Longrightarrow> components (join_with CHR ''/'' cs) = cs"
  unfolding components_def by (rule split_on_join) (auto simp: list_all_iff clean_component_def)

lemma join_symlink_target_clean:
  assumes "join_symlink_target p target (join_with CHR ''/'' rest) = Some q"
    and "list_all clean_component rest" "rest \<noteq> []"
  shows "clean_path q \<and> (\<exists>base. components q = base @ rest)"
proof -
  define base where "base = (if \<not> prefix ''/'' target then (case rsplit_once CHR ''/'' p of
      Some (parent, _) \<Rightarrow> split_on CHR ''/'' parent | None \<Rightarrow> []) else []) @ split_on CHR ''/'' target"
  have free: "\<forall>c \<in> set base. CHR ''/'' \<notin> set c"
  proof
    fix c
    assume "c \<in> set base"
    then obtain x where "c \<in> set (split_on CHR ''/'' x)"
      unfolding base_def by (cases "rsplit_once CHR ''/'' p"; cases "prefix ''/'' target") auto
    then show "CHR ''/'' \<notin> set c" by (rule split_on_segments)
  qed
  have q: "q = join_with CHR ''/'' (fold push_component (base @ components (join_with CHR ''/'' rest)) [])"
    using assms(1) by (auto simp: join_symlink_target_def Let_def components_def base_def split: if_splits)
  have "list_all clean_component (fold push_component base [])" by (rule push_components_clean [OF free]) simp
  with assms(2,3) q show ?thesis
    by (simp add: components_join push_components_append clean_path_def)
qed

text \<open>What a path that is a usable link points to.\<close>

definition link_target :: "file_tree \<Rightarrow> string \<Rightarrow> string option" where
  "link_target t p =
    (case t p of
       Some md \<Rightarrow> (case lm_body md of LbSymlink bytes \<Rightarrow> from_utf8 bytes | _ \<Rightarrow> None)
     | None \<Rightarrow> None)"

definition extend :: "string \<Rightarrow> string \<Rightarrow> string" where
  "extend pre c = (if pre \<noteq> '''' then pre @ ''/'' else pre) @ c"

lemma scan_ancestors_step:
  "scan_ancestors t pre (c # d # rest) =
    (case link_target t (extend pre c) of
       None \<Rightarrow> scan_ancestors t (extend pre c) (d # rest)
     | Some target \<Rightarrow>
         (case join_symlink_target (extend pre c) target (join_with CHR ''/'' (d # rest)) of
            None \<Rightarrow> ScanKeep
          | Some path \<Rightarrow> ScanNext path))"
  by (simp add: link_target_def extend_def Let_def split: option.splits layer_body.splits)

declare scan_ancestors.simps(1) [simp del]

lemma extend_join:
  "list_all clean_component (pcs @ [c]) \<Longrightarrow> extend (join_with CHR ''/'' pcs) c = join_with CHR ''/'' (pcs @ [c])"
proof (cases "pcs = []")
  case False
  assume "list_all clean_component (pcs @ [c])"
  with False have "join_with CHR ''/'' pcs \<noteq> ''''"
    by (cases pcs rule: list.exhaust; cases "tl pcs") (auto simp: clean_component_def join_with_Cons neq_Nil_conv)
  with False show ?thesis by (simp add: extend_def join_with_append)
qed (simp add: extend_def)

text \<open>The links among the ancestors, from the root on.\<close>

definition ancestor_link :: "file_tree \<Rightarrow> string list \<Rightarrow> nat \<Rightarrow> string option" where
  "ancestor_link t cs i = link_target t (join_with CHR ''/'' (take i cs))"

lemma scan_ancestors_cases:
  assumes "list_all clean_component (pcs @ cs)"
  shows "case scan_ancestors t (join_with CHR ''/'' pcs) cs of
      ScanNone \<Rightarrow> \<forall>i. length pcs < i \<and> i < length (pcs @ cs) \<longrightarrow> ancestor_link t (pcs @ cs) i = None
    | ScanKeep \<Rightarrow> \<exists>i. length pcs < i \<and> i < length (pcs @ cs) \<and> ancestor_link t (pcs @ cs) i = Some ''''
    | ScanNext q \<Rightarrow> clean_path q"
  using assms
proof (induction cs arbitrary: pcs)
  case (Cons c cs)
  show ?case
  proof (cases cs)
    case Nil
    then show ?thesis by auto
  next
    case (Cons d rest)
    have link: "link_target t (extend (join_with CHR ''/'' pcs) c) = ancestor_link t (pcs @ c # d # rest) (Suc (length pcs))"
      using Cons.prems by (simp add: ancestor_link_def extend_join)
    note step = scan_ancestors_step [of t "join_with CHR ''/'' pcs" c d rest, unfolded link]
    show ?thesis
    proof (cases "ancestor_link t (pcs @ c # d # rest) (Suc (length pcs))")
      case None
      have e: "extend (join_with CHR ''/'' pcs) c = join_with CHR ''/'' (pcs @ [c])"
        using Cons.prems by (simp add: extend_join)
      have "scan_ancestors t (join_with CHR ''/'' pcs) (c # cs) = scan_ancestors t (join_with CHR ''/'' (pcs @ [c])) cs"
        using None \<open>cs = _\<close> step e by simp
      moreover have "length pcs < i \<longleftrightarrow> i = Suc (length pcs) \<or> Suc (length pcs) < i" for i by auto
      ultimately show ?thesis using Cons.IH [of "pcs @ [c]"] Cons.prems None \<open>cs = _\<close>
        by (cases "scan_ancestors t (join_with CHR ''/'' (pcs @ [c])) cs") auto
    next
      case (Some target)
      show ?thesis
      proof (cases "join_symlink_target (extend (join_with CHR ''/'' pcs) c) target (join_with CHR ''/'' (d # rest))")
        case None
        then have "target = ''''" by (auto simp: join_symlink_target_def Let_def split: if_splits)
        with Some None step \<open>cs = _\<close> show ?thesis by (auto intro!: exI [of _ "Suc (length pcs)"])
      next
        case (Some q)
        with join_symlink_target_clean [OF Some] Cons.prems \<open>cs = _\<close> \<open>ancestor_link _ _ _ = _\<close> step
        show ?thesis by simp
      qed
    qed
  qed
qed auto

text \<open>One replacement of a link, and the paths that need none.\<close>

definition follows :: "file_tree \<Rightarrow> string \<Rightarrow> string \<Rightarrow> bool" where
  "follows t p q \<longleftrightarrow> scan_ancestors t '''' (components p) = ScanNext q"

definition settled :: "file_tree \<Rightarrow> string \<Rightarrow> bool" where
  "settled t p \<longleftrightarrow>
    (\<forall>i. 0 < i \<and> i < length (components p) \<longrightarrow> ancestor_link t (components p) i = None)
    \<or> (\<exists>i. 0 < i \<and> i < length (components p) \<and> ancestor_link t (components p) i = Some '''')"

lemma scan_clean:
  assumes "clean_path p"
  shows "case scan_ancestors t '''' (components p) of ScanNext q \<Rightarrow> clean_path q | _ \<Rightarrow> settled t p"
  using scan_ancestors_cases [of "[]" "components p" t] assms
  by (auto simp: clean_path_def settled_def split: link_scan.splits)

lemma resolve_loop_spec:
  assumes "clean_path p"
  shows "clean_path (resolve_loop n t p) \<and>
    (\<exists>k \<le> n. (follows t ^^ k) p (resolve_loop n t p) \<and> (k < n \<longrightarrow> settled t (resolve_loop n t p)))"
  using assms
proof (induction n arbitrary: p)
  case 0
  then show ?case by simp
next
  case (Suc n)
  show ?case
  proof (cases "scan_ancestors t '''' (components p)")
    case (ScanNext q)
    then have q: "follows t p q" "clean_path q" "resolve_loop (Suc n) t p = resolve_loop n t q"
      using scan_clean [OF Suc.prems, of t] by (simp_all add: follows_def components_def)
    from Suc.IH [OF q(2)] obtain k where k: "k \<le> n" "(follows t ^^ k) q (resolve_loop n t q)"
      "k < n \<longrightarrow> settled t (resolve_loop n t q)" "clean_path (resolve_loop n t q)" by blast
    have "(follows t ^^ Suc k) p (resolve_loop n t q)" using q(1) k(2) by (rule relpowp_Suc_I2)
    with k q(3) show ?thesis by (intro conjI exI [of _ "Suc k"]) auto
  qed (use scan_clean [OF Suc.prems, of t] Suc.prems in \<open>auto simp: components_def intro!: exI [of _ 0]\<close>)
qed

lemma resolve_root: "resolve_loop n t ''.'' = ''.''"
  by (cases n) simp_all

lemma resolve_rooted: "rooted p \<Longrightarrow> rooted (resolve_loop n t p)"
  using resolve_loop_spec [of p n t] by (auto simp: rooted_def resolve_root)

definition entry_path :: "(string \<Rightarrow> bool) \<Rightarrow> layer_entry \<Rightarrow> bool" where
  "entry_path Q e \<longleftrightarrow> (case e of LayerRegular p _ \<Rightarrow> Q p | _ \<Rightarrow> True)"

text \<open>What holds of the paths of all entries and is kept by the resolution holds of all keys.\<close>

locale path_property =
  fixes Q :: "string \<Rightarrow> bool"
  assumes resolve_kept: "Q p \<Longrightarrow> Q (resolve_loop n t p)"
begin

lemma put_entry_kept:
  assumes "Q path" "\<forall>k \<in> dom t. Q k"
  shows "\<forall>k \<in> dom (put_entry (path, md) t). Q k"
  using resolve_kept [OF assms(1), of MAX_SYMLINK_RESOLUTION_DEPTH t] assms(2)
  by (auto simp: put_entry_def Let_def dom_def split: if_split_asm)

lemma put_entries_kept:
  "list_all (\<lambda>(p, md). Q p) es \<Longrightarrow> \<forall>k \<in> dom t. Q k \<Longrightarrow> \<forall>k \<in> dom (fold put_entry es t). Q k"
proof (induction es arbitrary: t)
  case (Cons e es)
  obtain p md where e: "e = (p, md)" by force
  have "\<forall>k \<in> dom (fold put_entry es (put_entry e t)). Q k"
    by (rule Cons.IH) (use Cons.prems put_entry_kept [of p t md] e in simp_all)
  then show ?case by simp
qed simp

lemma overlay_kept:
  assumes "list_all (entry_path Q) decoded" "\<forall>k \<in> dom t. Q k"
  shows "\<forall>k \<in> dom (overlay decoded t). Q k"
  unfolding overlay_def
proof (rule put_entries_kept)
  show "list_all (\<lambda>(p, md). Q p) (layer_regulars decoded)"
    using assms(1) by (auto simp: list_all_iff layer_regulars_def entry_path_def split: layer_entry.splits)
  show "\<forall>k \<in> dom (\<lambda>k. if hidden_by decoded k then None else t k). Q k"
    using assms(2) by (auto split: if_splits)
qed

lemma overlays_kept:
  "list_all (list_all (entry_path Q)) layers \<Longrightarrow> \<forall>k \<in> dom t. Q k \<Longrightarrow> \<forall>k \<in> dom (fold overlay layers t). Q k"
proof (induction layers arbitrary: t)
  case (Cons l layers)
  have "\<forall>k \<in> dom (fold overlay layers (overlay l t)). Q k"
    by (rule Cons.IH) (use Cons.prems overlay_kept [of l t] in simp_all)
  then show ?case by simp
qed simp

end

interpretation rooted_paths: path_property rooted
  by unfold_locales (rule resolve_rooted)

text \<open>Replacing links keeps paths valid UTF-8.\<close>

lemma slash_ascii: "unat (char_byte CHR ''/'') < 128"
  by (simp add: char_ascii)

lemma wf_str_push_components:
  "list_all wf_str cs \<Longrightarrow> list_all wf_str out \<Longrightarrow> list_all wf_str (fold push_component cs out)"
proof (induction cs arbitrary: out)
  case (Cons c cs)
  then have "list_all wf_str (push_component c out)"
    by (auto simp: push_component.simps list_all_iff dest: in_set_butlastD)
  with Cons show ?case by simp
qed simp

lemma join_symlink_target_wf:
  assumes "join_symlink_target p target rest = Some q" "wf_str p" "wf_str target" "wf_str rest"
  shows "wf_str q"
proof -
  have "wf_str parent" if "rsplit_once CHR ''/'' p = Some (parent, x)" for parent x
    using that assms(2) wf_str_append_ascii [OF slash_ascii] by (auto simp: rsplit_once_eq_Some)
  then show ?thesis
    using assms
    by (auto simp: join_symlink_target_def Let_def wf_str_join_with [OF slash_ascii] wf_str_split_on [OF slash_ascii]
      intro!: wf_str_push_components split: if_split_asm option.split_asm)
qed

lemma scan_ancestors_wf:
  "scan_ancestors t pre cs = ScanNext q \<Longrightarrow> list_all wf_str cs \<Longrightarrow> wf_str pre \<Longrightarrow> wf_str q"
proof (induction t pre cs rule: scan_ancestors.induct)
  case (1 t pre c d rest)
  let ?pre = "extend pre c"
  have pre: "wf_str ?pre"
    using 1(3,4) wf_str_append_ascii [OF slash_ascii, of pre c] by (simp add: extend_def)
  show ?case
  proof (cases "link_target t ?pre")
    case None
    with 1(2) have "scan_ancestors t ?pre (d # rest) = ScanNext q" by (simp add: scan_ancestors_step)
    with 1(1) 1(3) pre show ?thesis by (simp add: extend_def)
  next
    case (Some target)
    then have "wf_str target" by (auto simp: link_target_def from_utf8_eq_Some split: option.splits layer_body.splits)
    moreover have "wf_str (join_with CHR ''/'' (d # rest))" using 1(3) wf_str_join_with [OF slash_ascii] by simp
    ultimately show ?thesis
      using 1(2) Some join_symlink_target_wf [OF _ pre]
      by (auto simp: scan_ancestors_step simp del: join_with.simps split: option.splits)
  qed
qed simp_all

lemma resolve_wf: "wf_str p \<Longrightarrow> wf_str (resolve_loop n t p)"
proof (induction n arbitrary: p)
  case (Suc n)
  then have "list_all wf_str (split_on CHR ''/'' p)" using wf_str_split_on [OF slash_ascii] by simp
  with Suc scan_ancestors_wf [of t "''''" "split_on CHR ''/'' p"] show ?case by (auto split: link_scan.splits)
qed simp

interpretation wf_paths: path_property wf_str
  by unfold_locales (rule resolve_wf)

lemma apply_layers_refine:
  "bt_ok m \<Longrightarrow> list_all (list_all slash_free) layers \<Longrightarrow>
   bt_ok (fold apply_layer layers m) \<and> bt_get (fold apply_layer layers m) = fold overlay layers (bt_get m)"
  by (induction layers arbitrary: m) (simp_all add: apply_layer_refines)

section \<open>Decoded layers\<close>

text \<open>
  The name of a record is normalised and then read as a marker or as the path of an entry.
\<close>

definition decode_named :: "string \<Rightarrow> layer_meta \<Rightarrow> layer_entry" where
  "decode_named normalized md =
    (case whiteout_of normalized of Some wh \<Rightarrow> LayerWhiteout wh | None \<Rightarrow> LayerRegular normalized md)"

definition decoded_entry :: "layer_entry \<Rightarrow> bool" where
  "decoded_entry e \<longleftrightarrow> (\<exists>raw normalized md. normalize_path raw = Ok normalized \<and> e = decode_named normalized md)"

lemma normalize_path_rooted:
  assumes "normalize_path raw = Ok p"
  shows "rooted p"
proof -
  have "p = ''.'' \<or> safe_path p"
    using assms by (auto simp: normalize_path_alt safe_path_def Let_def split: if_splits)
  then show ?thesis by (auto simp: rooted_def safe_path_clean)
qed

lemma decoded_entry_ok:
  assumes "decoded_entry e"
  shows "slash_free e" "entry_path rooted e"
proof -
  obtain raw p md where p: "normalize_path raw = Ok p" "e = decode_named p md"
    using assms by (auto simp: decoded_entry_def)
  have "CHR ''/'' \<notin> set (last (split_on CHR ''/'' p))"
    by (rule split_on_segments [of _ _ p]) simp
  then have "CHR ''/'' \<notin> set rest" if "strip_prefix ''.wh.'' (last (split_on CHR ''/'' p)) = Some rest" for rest
    using that by (simp add: strip_prefix_eq_Some)
  then show "slash_free e"
    by (auto simp: p(2) slash_free_def decode_named_def whiteout_of_def split: option.splits if_splits)
  show "entry_path rooted e"
    using normalize_path_rooted [OF p(1)] by (auto simp: p(2) entry_path_def decode_named_def split: option.splits)
qed

lemma decoded_layers_ok:
  assumes "list_all (list_all decoded_entry) layers"
  shows "list_all (list_all slash_free) layers" "list_all (list_all (entry_path rooted)) layers"
  using assms decoded_entry_ok by (auto simp: list_all_iff)

section \<open>Properties\<close>


text \<open>
  C28. Symbolic links in the directory part of a path cannot lead out of the root, and their
  resolution ends. For a path without empty, \<open>.\<close> or \<open>..\<close> components and any targets of links,
  absolute ones and ones full of \<open>..\<close> included, the result is again such a path; it is reached by
  replacing the first link among the ancestors at most 40 times; and with fewer replacements no
  ancestor of the result is a link that could be followed, or one has the empty target.
\<close>

theorem symlink_resolution_contained:
  assumes "clean_path path"
  shows "clean_path (resolve_symlink_ancestors path m) \<and>
    (\<exists>k \<le> 40. (follows (bt_get m) ^^ k) path (resolve_symlink_ancestors path m)
      \<and> (k < 40 \<longrightarrow> settled (bt_get m) (resolve_symlink_ancestors path m)))"
  using resolve_loop_spec [OF assms, of 40 "bt_get m"]
  by (simp only: resolve_symlink_ancestors_def MAX_SYMLINK_RESOLUTION_DEPTH_def)

definition sample_meta :: layer_meta where
  "sample_meta = \<lparr>lm_mode = 33188, lm_uid = 0, lm_gid = 0, lm_mtime = 0, lm_dev_major = 0, lm_ino = 0,
     lm_rdev_major = 0, lm_rdev_minor = 0, lm_nlink_source = 1, lm_source_layer = 0, lm_body = LbEmpty\<rparr>"

definition usr_merge :: entries where
  "usr_merge = [(''lib'', sample_meta\<lparr>lm_body := LbSymlink (str_bytes ''../usr/lib'')\<rparr>)]"


lemma symlink_resolution_contained_witness:
  "resolve_symlink_ancestors ''lib/modules/x.ko'' usr_merge = ''usr/lib/modules/x.ko''
   \<and> clean_path (resolve_symlink_ancestors ''lib/modules/x.ko'' usr_merge)"
proof -
  have clean: "clean_path ''lib/modules/x.ko''" by code_simp
  moreover have "resolve_symlink_ancestors ''lib/modules/x.ko'' usr_merge = ''usr/lib/modules/x.ko''" by code_simp
  ultimately show ?thesis using symlink_resolution_contained [OF clean, of usr_merge] by simp
qed

end
