(* ===== verification/HardLinks.thy ===== *)
theory HardLinks
  imports Layers "HOL-Library.Product_Lexorder"
begin

text \<open>
  The hard link plan of \<open>image-core/src/ops/flatten.rs\<close>: surviving names of one inode of one layer
  form a group with a common identity, a link count and one member that carries the body. The plan
  is shown to give exactly the names of a group the same identity.
\<close>

section \<open>The plan\<close>

definition body_size_of :: "layer_meta \<Rightarrow> u32" where
  "body_size_of md =
    (case lm_body md of
       LbEmpty \<Rightarrow> 0
     | LbSymlink bytes \<Rightarrow> word_of_nat (length bytes)
     | LbSpool (Some rg) \<Rightarrow> sr_size rg
     | LbSpool None \<Rightarrow> 0)"

type_synonym assignment = "u32 \<times> u32"

text \<open>The plan, with the counters of \<open>plan_hardlinks\<close>.\<close>

record hardlink_plan =
  hp_identity :: "(string, assignment) btree"
  hp_nlink :: "(assignment, u32) btree"
  hp_canonical :: "(assignment, string) btree"
  hp_next_dev :: u32
  hp_next_ino :: u32

definition assignment_for :: "hardlink_plan \<Rightarrow> string \<Rightarrow> (assignment \<times> bool) option" where
  "assignment_for plan path =
    (case bt_get (hp_identity plan) path of
       None \<Rightarrow> None
     | Some a \<Rightarrow>
         let canonical = (case bt_get (hp_canonical plan) a of Some c \<Rightarrow> c | None \<Rightarrow> path) in
         Some (a, canonical = path))"

definition plan_nlink_for :: "hardlink_plan \<Rightarrow> string \<Rightarrow> u32 option" where
  "plan_nlink_for plan path =
    (case bt_get (hp_identity plan) path of
       None \<Rightarrow> None
     | Some a \<Rightarrow> Some (case bt_get (hp_nlink plan) a of Some n \<Rightarrow> n | None \<Rightarrow> 1))"

definition linkable :: "layer_meta \<Rightarrow> bool" where
  "linkable md \<longleftrightarrow> is_regular md \<and> \<not> lm_nlink_source md \<le> 1"

type_synonym inode_groups = "(nat \<times> u32 \<times> u32, string list) btree"

definition add_to_group :: "string \<times> layer_meta \<Rightarrow> inode_groups \<Rightarrow> inode_groups" where
  "add_to_group = (\<lambda>(path, md) groups.
    if \<not> linkable md then groups
    else bt_insert (link_key md)
      ((case bt_get groups (link_key md) of Some members \<Rightarrow> members | None \<Rightarrow> []) @ [path]) groups)"

text \<open>The member with the largest body, the first one among equals; an unplanned entry panics.\<close>

fun reduce_members :: "entries \<Rightarrow> string \<Rightarrow> string list \<Rightarrow> string option" where
  "reduce_members entries best [] = Some best"
| "reduce_members entries best (current # rest) =
    (case (bt_get entries best, bt_get entries current) of
       (Some b, Some c) \<Rightarrow>
         reduce_members entries (if body_size_of c > body_size_of b then current else best) rest
     | _ \<Rightarrow> None)"

definition canonical_member :: "entries \<Rightarrow> string list \<Rightarrow> string option" where
  "canonical_member entries members =
    (case members of [] \<Rightarrow> None | m # ms \<Rightarrow> reduce_members entries m ms)"

text \<open>The next identity for a list of members with its canonical one.\<close>

definition assign_group :: "string list \<times> string \<Rightarrow> hardlink_plan \<Rightarrow> hardlink_plan" where
  "assign_group = (\<lambda>(members, canonical) plan.
    let a = (hp_next_dev plan, hp_next_ino plan) in
    \<lparr>hp_identity = fold (\<lambda>m. bt_insert m a) members (hp_identity plan),
     hp_nlink = bt_insert a (word_of_nat (length members)) (hp_nlink plan),
     hp_canonical = bt_insert a canonical (hp_canonical plan),
     hp_next_dev = saturating_inc (hp_next_dev plan),
     hp_next_ino = saturating_inc (hp_next_ino plan)\<rparr>)"

fun assign_groups :: "entries \<Rightarrow> string list list \<Rightarrow> hardlink_plan \<Rightarrow> hardlink_plan option" where
  "assign_groups entries [] plan = Some plan"
| "assign_groups entries (members # rest) plan =
    (case canonical_member entries (sort members) of
       None \<Rightarrow> None
     | Some canonical \<Rightarrow> assign_groups entries rest (assign_group (sort members, canonical) plan))"

definition assign_single :: "string \<Rightarrow> hardlink_plan \<Rightarrow> hardlink_plan" where
  "assign_single path plan =
    (if bt_get (hp_identity plan) path \<noteq> None then plan else assign_group ([path], path) plan)"

definition empty_plan :: hardlink_plan where
  "empty_plan = \<lparr>hp_identity = [], hp_nlink = [], hp_canonical = [], hp_next_dev = 1, hp_next_ino = 1\<rparr>"

definition plan_hardlinks :: "entries \<Rightarrow> hardlink_plan option" where
  "plan_hardlinks entries =
    map_option (fold assign_single (bt_keys entries))
      (assign_groups entries (map snd (fold add_to_group entries [])) empty_plan)"

section \<open>Consecutive identities\<close>

text \<open>Identity \<open>i\<close>, from zero on.\<close>

definition nth_id :: "nat \<Rightarrow> assignment" where
  "nth_id i = (word_of_nat (Suc i), word_of_nat (Suc i))"

lemma unat_word_of_nat32: "n < 2 ^ 32 \<Longrightarrow> unat (word_of_nat n :: u32) = n"
  by (simp add: unat_of_nat)

lemma nth_id_inject: "Suc i < 2 ^ 32 \<Longrightarrow> Suc j < 2 ^ 32 \<Longrightarrow> nth_id i = nth_id j \<longleftrightarrow> i = j"
  using unat_word_of_nat32 [of "Suc i"] unat_word_of_nat32 [of "Suc j"]
  unfolding nth_id_def by (metis fst_conv nat.inject)

lemma saturating_inc_nth: "Suc n < 2 ^ 32 \<Longrightarrow> saturating_inc (word_of_nat n) = word_of_nat (Suc n)"
proof -
  assume n: "Suc n < 2 ^ 32"
  have "unat u32_max = 2 ^ 32 - 1"
    by (simp add: u32_max_def unsigned_minus_1_eq_mask mask_eq_exp_minus_1)
  with unat_word_of_nat32 [of n] n have "word_of_nat n \<noteq> u32_max" by force
  then show ?thesis by (simp add: saturating_inc_def add.commute)
qed

text \<open>A plan after the groups in \<open>L\<close>, each with its canonical member.\<close>

definition planned :: "(string list \<times> string) list \<Rightarrow> hardlink_plan \<Rightarrow> bool" where
  "planned L plan \<longleftrightarrow>
    bt_ok (hp_identity plan) \<and> bt_ok (hp_nlink plan) \<and> bt_ok (hp_canonical plan)
    \<and> (Suc (length L) < 2 ^ 32 \<longrightarrow> (hp_next_dev plan, hp_next_ino plan) = nth_id (length L))
    \<and> (\<forall>p. bt_get (hp_identity plan) p \<noteq> None \<longleftrightarrow> p \<in> \<Union> (set ` fst ` set L))
    \<and> (\<forall>i < length L.
         (\<forall>p \<in> set (fst (L ! i)). bt_get (hp_identity plan) p = Some (nth_id i))
         \<and> bt_get (hp_nlink plan) (nth_id i) = Some (word_of_nat (length (fst (L ! i))))
         \<and> bt_get (hp_canonical plan) (nth_id i) = Some (snd (L ! i)))"

definition members_of :: "(string list \<times> string) list \<Rightarrow> string set" where
  "members_of L = \<Union> (set ` fst ` set L)"

lemma members_of_simps [simp]:
  "members_of [] = {}" "members_of (L @ L') = members_of L \<union> members_of L'" "members_of ((ms, c) # L) = set ms \<union> members_of L"
  by (auto simp: members_of_def)

lemma fold_insert_same:
  "bt_ok m \<Longrightarrow> bt_ok (fold (\<lambda>p. bt_insert p a) ps m) \<and>
   bt_get (fold (\<lambda>p. bt_insert p a) ps m) q = (if q \<in> set ps then Some a else bt_get m q)"
  by (induction ps arbitrary: m) (auto simp: bt.ok_insert bt.get_insert)

lemma planned_Nil: "planned [] empty_plan"
  by (simp add: planned_def empty_plan_def bt.ok_empty bt.get_empty nth_id_def)

lemma planned_snoc:
  assumes "planned L plan" "Suc (length L) < 2 ^ 32" "set members \<inter> members_of L = {}"
  shows "planned (L @ [(members, c)]) (assign_group (members, c) plan)"
proof -
  have next_id: "(hp_next_dev plan, hp_next_ino plan) = nth_id (length L)"
    and ok: "bt_ok (hp_identity plan)" "bt_ok (hp_nlink plan)" "bt_ok (hp_canonical plan)"
    and dom: "\<And>p. bt_get (hp_identity plan) p \<noteq> None \<longleftrightarrow> p \<in> members_of L"
    and old: "\<And>i. i < length L \<Longrightarrow> (\<forall>p \<in> set (fst (L ! i)). bt_get (hp_identity plan) p = Some (nth_id i))
      \<and> bt_get (hp_nlink plan) (nth_id i) = Some (word_of_nat (length (fst (L ! i))))
      \<and> bt_get (hp_canonical plan) (nth_id i) = Some (snd (L ! i))"
    using assms(1,2) by (simp_all add: planned_def members_of_def)
  have mem: "set (fst (L ! i)) \<subseteq> members_of L" if "i < length L" for i
    using that by (auto simp: members_of_def intro!: bexI [of _ "L ! i"])
  have new_id: "nth_id i \<noteq> nth_id (length L)" if "i < length L" for i
    using that assms(2) by (subst nth_id_inject) auto
  have "hp_next_dev plan = word_of_nat (Suc (length L))" "hp_next_ino plan = word_of_nat (Suc (length L))"
    using next_id by (simp_all add: nth_id_def)
  then have counters: "(saturating_inc (hp_next_dev plan), saturating_inc (hp_next_ino plan)) = nth_id (Suc (length L))"
    if "Suc (Suc (length L)) < 2 ^ 32"
    using that saturating_inc_nth [of "Suc (length L)"] by (simp add: nth_id_def del: of_nat_Suc)
  have keep: "p \<notin> set members" if "i < length L" "p \<in> set (fst (L ! i))" for i p
    using mem [OF that(1)] that(2) assms(3) by blast
  note ins = fold_insert_same [OF ok(1), of "nth_id (length L)" members]
  show ?thesis
    unfolding planned_def members_of_def [symmetric]
  proof (intro conjI allI impI)
    fix p
    show "(bt_get (hp_identity (assign_group (members, c) plan)) p \<noteq> None) = (p \<in> members_of (L @ [(members, c)]))"
      using ins [of p] dom [of p] by (auto simp: assign_group_def next_id Let_def)
  next
    fix i
    assume i: "i < length (L @ [(members, c)])"
    show "\<forall>p \<in> set (fst ((L @ [(members, c)]) ! i)). bt_get (hp_identity (assign_group (members, c) plan)) p = Some (nth_id i)"
      using i old [of i] keep [of i] ins
      by (cases "i < length L") (auto simp: assign_group_def next_id Let_def nth_append less_Suc_eq)
    show "bt_get (hp_nlink (assign_group (members, c) plan)) (nth_id i) = Some (word_of_nat (length (fst ((L @ [(members, c)]) ! i))))"
      using i old [of i] new_id [of i] ok
      by (cases "i < length L") (auto simp: assign_group_def next_id Let_def nth_append bt.get_insert less_Suc_eq)
    show "bt_get (hp_canonical (assign_group (members, c) plan)) (nth_id i) = Some (snd ((L @ [(members, c)]) ! i))"
      using i old [of i] new_id [of i] ok
      by (cases "i < length L") (auto simp: assign_group_def next_id Let_def nth_append bt.get_insert less_Suc_eq)
  qed (use ok ins counters in \<open>auto simp: assign_group_def Let_def next_id bt.ok_insert\<close>)
qed

lemma planned_singles:
  assumes "planned L plan" "distinct ps" "length L + length ps < 2 ^ 32"
  shows "planned (L @ map (\<lambda>p. ([p], p)) (filter (\<lambda>p. p \<notin> members_of L) ps)) (fold assign_single ps plan)"
  using assms
proof (induction ps arbitrary: L plan)
  case (Cons p ps)
  have d: "bt_get (hp_identity plan) p \<noteq> None \<longleftrightarrow> p \<in> members_of L"
    using Cons.prems(1) by (simp add: planned_def members_of_def)
  show ?case
  proof (cases "p \<in> members_of L")
    case True
    with d Cons.IH [OF Cons.prems(1)] Cons.prems show ?thesis by (simp add: assign_single_def)
  next
    case False
    have "planned (L @ [([p], p)]) (assign_group ([p], p) plan)"
      by (rule planned_snoc [OF Cons.prems(1)]) (use Cons.prems False in simp_all)
    from Cons.IH [OF this] Cons.prems
    have "planned ((L @ [([p], p)]) @ map (\<lambda>p. ([p], p)) (filter (\<lambda>q. q \<notin> members_of (L @ [([p], p)])) ps))
        (fold assign_single ps (assign_group ([p], p) plan))" by simp
    moreover have "filter (\<lambda>q. q \<notin> members_of (L @ [([p], p)])) ps = filter (\<lambda>q. q \<notin> members_of L) ps"
      using Cons.prems(2) by (intro filter_cong) auto
    moreover have "assign_single p plan = assign_group ([p], p) plan" using d False by (simp add: assign_single_def)
    ultimately show ?thesis using False by simp
  qed
qed simp

section \<open>Canonical members\<close>

text \<open>The size of the body behind a name.\<close>

definition size_at :: "entries \<Rightarrow> string \<Rightarrow> u32" where
  "size_at entries p = body_size_of (the (bt_get entries p))"

text \<open>At least as good a carrier of the body: larger, or as large and not later in the order.\<close>

definition outranks :: "entries \<Rightarrow> string \<Rightarrow> string \<Rightarrow> bool" where
  "outranks entries c m \<longleftrightarrow> size_at entries m < size_at entries c \<or> size_at entries m = size_at entries c \<and> c \<le> m"

lemma reduce_members_spec:
  assumes "set (best # rest) \<subseteq> dom (bt_get entries)" "best \<in> seen" "\<forall>m \<in> seen. outranks entries best m"
    and "\<forall>m \<in> seen. \<forall>r \<in> set rest. m < r" "sorted_wrt (<) rest"
  shows "\<exists>c. reduce_members entries best rest = Some c \<and> c \<in> seen \<union> set rest
    \<and> (\<forall>m \<in> seen \<union> set rest. outranks entries c m)"
  using assms
proof (induction rest arbitrary: best seen)
  case (Cons r rest)
  let ?best = "if size_at entries r > size_at entries best then r else best"
  obtain b c where bc: "bt_get entries best = Some b" "bt_get entries r = Some c" using Cons.prems(1) by auto
  then have step: "reduce_members entries best (r # rest) = reduce_members entries ?best rest"
    by (simp add: size_at_def)
  have "best < r" using Cons.prems(2,4) by auto
  have rank: "\<forall>m \<in> insert r seen. outranks entries ?best m"
  proof
    fix m
    assume "m \<in> insert r seen"
    then show "outranks entries ?best m"
      using Cons.prems(2-4) \<open>best < r\<close> by (auto simp: outranks_def intro: less_imp_le dest: less_trans le_less_trans)
  qed
  have "\<exists>c. reduce_members entries ?best rest = Some c \<and> c \<in> insert r seen \<union> set rest
      \<and> (\<forall>m \<in> insert r seen \<union> set rest. outranks entries c m)"
    by (rule Cons.IH) (use Cons.prems rank in auto)
  with step show ?case by auto
qed simp

lemma canonical_member_spec:
  assumes "members \<noteq> []" "set members \<subseteq> dom (bt_get entries)" "sorted_wrt (<) members"
  shows "\<exists>c. canonical_member entries members = Some c \<and> c \<in> set members \<and> (\<forall>m \<in> set members. outranks entries c m)"
proof -
  obtain m ms where ms: "members = m # ms" using assms(1) by (cases members) auto
  have "\<exists>c. reduce_members entries m ms = Some c \<and> c \<in> {m} \<union> set ms \<and> (\<forall>x \<in> {m} \<union> set ms. outranks entries c x)"
    by (rule reduce_members_spec) (use assms ms in \<open>auto simp: outranks_def\<close>)
  with ms show ?thesis by (simp add: canonical_member_def)
qed

section \<open>Groups\<close>

definition group_names :: "entries \<Rightarrow> nat \<times> u32 \<times> u32 \<Rightarrow> string list" where
  "group_names es k = map fst (filter (\<lambda>(p, md). linkable md \<and> link_key md = k) es)"

lemma groups_get:
  "bt_ok (fold add_to_group es []) \<and>
   bt_get (fold add_to_group es []) k = (if group_names es k = [] then None else Some (group_names es k))"
proof (induction es arbitrary: k rule: rev_induct)
  case Nil
  then show ?case by (simp add: bt.ok_empty bt.get_empty group_names_def)
next
  case (snoc e es)
  obtain p md where e: "e = (p, md)" by force
  from snoc [of k] snoc [of "link_key md"] show ?case
    by (auto simp: e add_to_group_def bt.ok_insert bt.get_insert group_names_def)
qed

lemma in_group_names:
  "bt_ok es \<Longrightarrow> p \<in> set (group_names es k) \<longleftrightarrow> (\<exists>md. bt_get es p = Some md \<and> linkable md \<and> link_key md = k)"
  by (auto simp: group_names_def bt_entry [symmetric] image_iff)

lemma group_names_sorted: "bt_ok es \<Longrightarrow> sorted_wrt (<) (group_names es k)"
  unfolding bt_ok_def group_names_def by (induction es) auto

lemma sort_group_names [simp]: "bt_ok es \<Longrightarrow> sort (group_names es k) = group_names es k"
  using group_names_sorted [of es k] strict_sorted_iff sort_key_id_if_sorted [of "\<lambda>x. x"] by auto

text \<open>The groups in the order of the plan.\<close>

definition group_keys :: "entries \<Rightarrow> (nat \<times> u32 \<times> u32) list" where
  "group_keys es = bt_keys (fold add_to_group es [])"

lemma groups_eq:
  "map snd (fold add_to_group es []) = map (group_names es) (group_keys es)"
proof -
  have ok: "bt_ok (fold add_to_group es [])" using groups_get by blast
  have "snd kv = group_names es (fst kv)" if "kv \<in> set (fold add_to_group es [])" for kv
  proof -
    obtain k v where kv: "kv = (k, v)" by (cases kv)
    with that have "bt_get (fold add_to_group es []) k = Some v" using bt_entry [OF ok] by simp
    with groups_get [of es k] kv show ?thesis by (simp split: if_splits)
  qed
  then show ?thesis by (simp add: group_keys_def bt_keys_def)
qed

lemma group_keys_props: "distinct (group_keys es)" "k \<in> set (group_keys es) \<longleftrightarrow> group_names es k \<noteq> []"
proof -
  have ok: "bt_ok (fold add_to_group es [])" using groups_get by blast
  show "distinct (group_keys es)" unfolding group_keys_def by (rule bt.keys_distinct [OF ok])
  show "k \<in> set (group_keys es) \<longleftrightarrow> group_names es k \<noteq> []"
    using bt.set_keys [OF ok] groups_get [of es k] by (auto simp: group_keys_def split: if_splits)
qed

definition carrier :: "entries \<Rightarrow> string list \<Rightarrow> string" where
  "carrier es members = the (canonical_member es members)"

definition grouped :: "entries \<Rightarrow> (nat \<times> u32 \<times> u32) list \<Rightarrow> (string list \<times> string) list" where
  "grouped es ks = map (\<lambda>k. (group_names es k, carrier es (group_names es k))) ks"

lemma length_grouped [simp]: "length (grouped es ks) = length ks"
  by (simp add: grouped_def)

lemma group_carrier:
  assumes "bt_ok es" "group_names es k \<noteq> []"
  shows "canonical_member es (group_names es k) = Some (carrier es (group_names es k))"
    and "carrier es (group_names es k) \<in> set (group_names es k)"
    and "m \<in> set (group_names es k) \<Longrightarrow> outranks es (carrier es (group_names es k)) m"
proof -
  have "set (group_names es k) \<subseteq> dom (bt_get es)" using in_group_names [OF assms(1), of _ k] by auto
  from canonical_member_spec [OF assms(2) this group_names_sorted [OF assms(1)]]
  show "canonical_member es (group_names es k) = Some (carrier es (group_names es k))"
    "carrier es (group_names es k) \<in> set (group_names es k)"
    "m \<in> set (group_names es k) \<Longrightarrow> outranks es (carrier es (group_names es k)) m"
    by (auto simp: carrier_def)
qed

lemma members_of_grouped: "p \<in> members_of (grouped es ks) \<longleftrightarrow> (\<exists>k \<in> set ks. p \<in> set (group_names es k))"
  by (auto simp: members_of_def grouped_def)

lemma group_names_disjoint:
  "bt_ok es \<Longrightarrow> p \<in> set (group_names es k) \<Longrightarrow> p \<in> set (group_names es k') \<Longrightarrow> k = k'"
  by (auto simp: in_group_names)

lemma assign_groups_planned:
  assumes "bt_ok es" "planned (grouped es done_keys) plan" "distinct (done_keys @ ks)"
    and "\<forall>k \<in> set ks. group_names es k \<noteq> []" "length done_keys + length ks < 2 ^ 32"
  shows "\<exists>plan'. assign_groups es (map (group_names es) ks) plan = Some plan' \<and> planned (grouped es (done_keys @ ks)) plan'"
  using assms(2-)
proof (induction ks arbitrary: done_keys plan)
  case (Cons k ks)
  have "k \<notin> set done_keys" using Cons.prems(2) by simp
  then have disj: "set (group_names es k) \<inter> members_of (grouped es done_keys) = {}"
    unfolding disjoint_iff members_of_grouped using group_names_disjoint [OF assms(1)] by blast
  have "planned (grouped es done_keys @ [(group_names es k, carrier es (group_names es k))])
      (assign_group (group_names es k, carrier es (group_names es k)) plan)"
    by (rule planned_snoc [OF Cons.prems(1) _ disj])
      (use Cons.prems(4) in \<open>simp_all add: grouped_def\<close>)
  then have "planned (grouped es (done_keys @ [k])) (assign_group (group_names es k, carrier es (group_names es k)) plan)"
    by (simp add: grouped_def)
  from Cons.IH [OF this] Cons.prems group_carrier(1) [OF assms(1), of k] assms(1) show ?case by simp
qed simp

section \<open>Names of one inode\<close>

definition same_inode :: "entries \<Rightarrow> string \<Rightarrow> string \<Rightarrow> bool" where
  "same_inode es p q \<longleftrightarrow> p = q \<or>
    (\<exists>mp mq. bt_get es p = Some mp \<and> bt_get es q = Some mq \<and> linkable mp \<and> linkable mq \<and> link_key mp = link_key mq)"

definition inode_names :: "entries \<Rightarrow> string \<Rightarrow> string list" where
  "inode_names es p =
    (case bt_get es p of Some md \<Rightarrow> if linkable md then group_names es (link_key md) else [p] | None \<Rightarrow> [p])"

lemma in_inode_names: "bt_ok es \<Longrightarrow> q \<in> set (inode_names es p) \<longleftrightarrow> same_inode es p q"
  by (auto simp: inode_names_def same_inode_def in_group_names split: option.splits)

lemma inode_names_eq: "bt_ok es \<Longrightarrow> same_inode es p q \<Longrightarrow> inode_names es p = inode_names es q"
  by (auto simp: inode_names_def same_inode_def)

lemma group_names_distinct: "bt_ok es \<Longrightarrow> distinct (group_names es k)"
  using group_names_sorted [of es k] strict_sorted_iff by blast

lemma inode_names_distinct: "bt_ok es \<Longrightarrow> distinct (inode_names es p)"
  by (simp add: inode_names_def group_names_distinct split: option.splits)

definition all_groups :: "entries \<Rightarrow> (string list \<times> string) list" where
  "all_groups es = grouped es (group_keys es) @
    map (\<lambda>p. ([p], p)) (filter (\<lambda>p. p \<notin> members_of (grouped es (group_keys es))) (bt_keys es))"

lemma length_group_keys: "length (group_keys es) \<le> length es"
proof -
  have "set (group_keys es) \<subseteq> (\<lambda>(p, md). link_key md) ` set es"
    by (auto simp: group_keys_props group_names_def filter_empty_conv) force
  then have "card (set (group_keys es)) \<le> card (set es)" by (meson card_image_le card_mono finite_imageI finite_set le_trans)
  with distinct_card [OF group_keys_props(1)] card_length [of es] show ?thesis by (metis le_trans)
qed

lemma plan_hardlinks_planned:
  assumes "bt_ok es" "length es < 2 ^ 31"
  obtains plan where "plan_hardlinks es = Some plan" "planned (all_groups es) plan" "length (all_groups es) < 2 ^ 32 - 1"
proof -
  have small: "length (group_keys es) + length (bt_keys es) < 2 ^ 32 - 1"
    using length_group_keys [of es] assms(2) by (simp add: bt_keys_def)
  obtain plan where p: "assign_groups es (map (group_names es) (group_keys es)) empty_plan = Some plan"
    "planned (grouped es (group_keys es)) plan"
    using assign_groups_planned [OF assms(1), of "[]" empty_plan "group_keys es"] planned_Nil small
    by (auto simp: grouped_def group_keys_props)
  have "planned (all_groups es) (fold assign_single (bt_keys es) plan)"
    unfolding all_groups_def
    by (rule planned_singles [OF p(2)]) (use small bt.keys_distinct [OF assms(1)] in simp_all)
  moreover have "length (all_groups es) < 2 ^ 32 - 1"
    by (rule le_less_trans [OF _ small]) (simp add: all_groups_def)
  ultimately show ?thesis using that p(1) by (simp add: plan_hardlinks_def groups_eq)
qed

lemma group_of:
  assumes "bt_ok es" "bt_get es p \<noteq> None"
  obtains i c where "i < length (all_groups es)" "all_groups es ! i = (inode_names es p, c)"
    "c \<in> set (inode_names es p)" "\<And>q. same_inode es p q \<Longrightarrow> outranks es c q"
proof -
  obtain md where md: "bt_get es p = Some md" using assms(2) by auto
  have "\<exists>c. (inode_names es p, c) \<in> set (all_groups es) \<and> c \<in> set (inode_names es p)
    \<and> (\<forall>q \<in> set (inode_names es p). outranks es c q)"
  proof (cases "linkable md")
    case True
    then have "p \<in> set (group_names es (link_key md))" using md in_group_names [OF assms(1)] by blast
    then have "group_names es (link_key md) \<noteq> []" by auto
    with group_carrier [OF assms(1) this] True md show ?thesis
      by (intro exI [of _ "carrier es (group_names es (link_key md))"])
        (auto simp: inode_names_def all_groups_def grouped_def group_keys_props)
  next
    case False
    then have "p \<notin> members_of (grouped es (group_keys es))"
      using md in_group_names [OF assms(1), of p] unfolding members_of_grouped by (metis option.inject)
    moreover have "p \<in> set (bt_keys es)" using bt.set_keys [OF assms(1)] md by auto
    ultimately show ?thesis using False md
      by (intro exI [of _ p]) (auto simp: inode_names_def all_groups_def outranks_def)
  qed
  then show ?thesis using that in_inode_names [OF assms(1)] by (metis in_set_conv_nth)
qed

lemma planned_entry:
  assumes "planned L plan" "i < length L" "L ! i = (members, c)" "p \<in> set members"
  shows "bt_get (hp_identity plan) p = Some (nth_id i)" "assignment_for plan p = Some (nth_id i, c = p)"
    "plan_nlink_for plan p = Some (word_of_nat (length members))"
proof -
  show id: "bt_get (hp_identity plan) p = Some (nth_id i)" using assms by (auto simp: planned_def)
  have "bt_get (hp_canonical plan) (nth_id i) = Some c" "bt_get (hp_nlink plan) (nth_id i) = Some (word_of_nat (length members))"
    using assms by (auto simp: planned_def)
  then show "assignment_for plan p = Some (nth_id i, c = p)" "plan_nlink_for plan p = Some (word_of_nat (length members))"
    by (simp_all add: assignment_for_def plan_nlink_for_def id)
qed

lemma outranks_antisym: "outranks es a b \<Longrightarrow> outranks es b a \<Longrightarrow> a = b"
  by (auto simp: outranks_def)


definition sample_links :: entries where
  "sample_links =
    [(''a'', sample_meta\<lparr>lm_nlink_source := 2, lm_ino := 5\<rparr>),
     (''b'', sample_meta\<lparr>lm_nlink_source := 2, lm_ino := 5, lm_body := LbSpool (Some \<lparr>sr_offset = 0, sr_size = 3\<rparr>)\<rparr>),
     (''c'', sample_meta)]"


end
