(* ===== verification/Artifact.thy ===== *)
theory Artifact
  imports Digest "HOL-Library.Product_Lexorder" "HOL-Library.Monad_Syntax"
begin

text \<open>
  The records of the image store: the tags of \<^verbatim>\<open>libs/image-core/src/artifact/ty.rs\<close>,
  \<^verbatim>\<open>compression.rs\<close> and \<^verbatim>\<open>storage/namespace.rs\<close> with their persisted bytes, links to sources
  (\<^verbatim>\<open>artifact/link.rs\<close>) and the references and blueprints of \<^verbatim>\<open>storage/*.rs\<close>. Namespaces are
  ordered by their persisted byte, which is how the index orders its keys.
\<close>

section \<open>Tags\<close>

datatype artifact_type = ArtCompressed | ArtContainerTar | ArtContainerCpio | ArtFileBzImage

fun type_to_bytes :: "artifact_type \<Rightarrow> u8" where
  "type_to_bytes ArtCompressed = 1"
| "type_to_bytes ArtContainerTar = 2"
| "type_to_bytes ArtContainerCpio = 3"
| "type_to_bytes ArtFileBzImage = 4"

definition type_from_bytes :: "u8 \<Rightarrow> artifact_type option" where
  "type_from_bytes v =
    (if v = 1 then Some ArtCompressed else if v = 2 then Some ArtContainerTar
     else if v = 3 then Some ArtContainerCpio else if v = 4 then Some ArtFileBzImage else None)"

datatype artifact_compression = CompNone | CompGzip | CompZstd

fun compression_to_bytes :: "artifact_compression \<Rightarrow> u8" where
  "compression_to_bytes CompNone = 1"
| "compression_to_bytes CompGzip = 2"
| "compression_to_bytes CompZstd = 3"

definition compression_from_bytes :: "u8 \<Rightarrow> artifact_compression option" where
  "compression_from_bytes v =
    (if v = 1 then Some CompNone else if v = 2 then Some CompGzip
     else if v = 3 then Some CompZstd else None)"

datatype namespace = NsKernel | NsRootfs | NsLayers | NsModules

fun ns_to_bytes :: "namespace \<Rightarrow> u8" where
  "ns_to_bytes NsKernel = 1"
| "ns_to_bytes NsRootfs = 2"
| "ns_to_bytes NsLayers = 3"
| "ns_to_bytes NsModules = 4"

definition ns_from_bytes :: "u8 \<Rightarrow> namespace option" where
  "ns_from_bytes v =
    (if v = 1 then Some NsKernel else if v = 2 then Some NsRootfs
     else if v = 3 then Some NsLayers else if v = 4 then Some NsModules else None)"

lemma type_from_bytes_iff: "type_from_bytes v = Some t \<longleftrightarrow> v = type_to_bytes t"
  by (cases t) (auto simp: type_from_bytes_def)

lemma compression_from_bytes_iff: "compression_from_bytes v = Some c \<longleftrightarrow> v = compression_to_bytes c"
  by (cases c) (auto simp: compression_from_bytes_def)

lemma ns_from_bytes_iff: "ns_from_bytes v = Some n \<longleftrightarrow> v = ns_to_bytes n"
  by (cases n) (auto simp: ns_from_bytes_def)

lemma tag_round_trips [simp]:
  "type_from_bytes (type_to_bytes t) = Some t" "compression_from_bytes (compression_to_bytes c) = Some c"
  "ns_from_bytes (ns_to_bytes n) = Some n"
  by (simp_all add: type_from_bytes_iff compression_from_bytes_iff ns_from_bytes_iff)

lemma ns_to_bytes_inject [simp]: "ns_to_bytes m = ns_to_bytes n \<longleftrightarrow> m = n"
  by (cases m; cases n) simp_all

instantiation namespace :: linorder
begin

definition less_eq_namespace :: "namespace \<Rightarrow> namespace \<Rightarrow> bool" where
  "less_eq_namespace m n \<longleftrightarrow> ns_to_bytes m \<le> ns_to_bytes n"

definition less_namespace :: "namespace \<Rightarrow> namespace \<Rightarrow> bool" where
  "less_namespace m n \<longleftrightarrow> ns_to_bytes m < ns_to_bytes n"

instance
proof
  fix x y z :: namespace
  show "(x < y) = (x \<le> y \<and> \<not> y \<le> x)"
    unfolding less_eq_namespace_def less_namespace_def by (rule less_le_not_le)
  show "x \<le> x" by (simp add: less_eq_namespace_def)
  show "x \<le> y \<Longrightarrow> y \<le> z \<Longrightarrow> x \<le> z" by (simp add: less_eq_namespace_def)
  show "x \<le> y \<Longrightarrow> y \<le> x \<Longrightarrow> x = y"
    unfolding less_eq_namespace_def by (drule (1) order.antisym) simp
  show "x \<le> y \<or> y \<le> x" unfolding less_eq_namespace_def by (rule linear)
qed

end

section \<open>Links\<close>

text \<open>
  A path of the host as the platform stores it: bytes on Unix, UTF-16 code units, paired or not, on
  Windows.
\<close>

datatype os_path = UnixPath "byte list" | WidePath "u16 list"

datatype artifact_link =
    LinkLocal os_path u128
  | LinkBytes "byte list" u128
  | LinkHttp string u128

fun link_size :: "artifact_link \<Rightarrow> u128" where
  "link_size (LinkLocal _ n) = n"
| "link_size (LinkBytes _ n) = n"
| "link_size (LinkHttp _ n) = n"

definition artifact_link_bytes :: "byte list \<Rightarrow> artifact_link" where
  "artifact_link_bytes bytes = LinkBytes bytes (word_of_nat (length bytes))"

section \<open>References and blueprints\<close>

type_synonym uuid = "byte list"

record artifact_id =
  ai_namespace :: namespace
  ai_uuid :: uuid

record namespaced_link_digest =
  nl_namespace :: namespace
  nl_link_digest :: link_digest

record namespaced_file_digest =
  nf_namespace :: namespace
  nf_file_digest :: file_digest

record link_ref =
  lr_uuid :: uuid
  lr_namespace :: namespace
  lr_link_digest :: link_digest

record file_ref =
  fr_uuid :: uuid
  fr_namespace :: namespace
  fr_file_digest :: file_digest
  fr_type :: artifact_type
  fr_compression :: artifact_compression

record layer =
  ly_uuid :: uuid
  ly_link :: artifact_link
  ly_expected_digest :: expected_digest
  ly_link_digest :: link_digest

record blueprint =
  bp_target_uuid :: uuid
  bp_target_namespace :: namespace
  bp_layers :: "layer list"
  bp_extract :: "os_path option"

definition link_ref_id :: "link_ref \<Rightarrow> artifact_id" where
  "link_ref_id r = \<lparr>ai_namespace = lr_namespace r, ai_uuid = lr_uuid r\<rparr>"

definition link_ref_digest :: "link_ref \<Rightarrow> namespaced_link_digest" where
  "link_ref_digest r = \<lparr>nl_namespace = lr_namespace r, nl_link_digest = lr_link_digest r\<rparr>"

definition file_ref_id :: "file_ref \<Rightarrow> artifact_id" where
  "file_ref_id r = \<lparr>ai_namespace = fr_namespace r, ai_uuid = fr_uuid r\<rparr>"

definition file_ref_digest :: "file_ref \<Rightarrow> namespaced_file_digest" where
  "file_ref_digest r = \<lparr>nf_namespace = fr_namespace r, nf_file_digest = fr_file_digest r\<rparr>"

definition blueprint_id :: "blueprint \<Rightarrow> artifact_id" where
  "blueprint_id b = \<lparr>ai_namespace = bp_target_namespace b, ai_uuid = bp_target_uuid b\<rparr>"

definition layer_id :: "layer \<Rightarrow> artifact_id" where
  "layer_id l = \<lparr>ai_namespace = NsLayers, ai_uuid = ly_uuid l\<rparr>"

definition layer_digest :: "layer \<Rightarrow> namespaced_link_digest" where
  "layer_digest l = \<lparr>nl_namespace = NsLayers, nl_link_digest = ly_link_digest l\<rparr>"

section \<open>The types of the fields\<close>

text \<open>What the array and integer types of the source guarantee of every value.\<close>

definition wf_uuid :: "uuid \<Rightarrow> bool" where
  "wf_uuid u \<longleftrightarrow> length u = 16"

definition wf_link_digest :: "link_digest \<Rightarrow> bool" where
  "wf_link_digest d \<longleftrightarrow> length (ld_hash d) = 32 \<and> ld_size d < 2 ^ 128"

definition wf_file_digest :: "file_digest \<Rightarrow> bool" where
  "wf_file_digest d \<longleftrightarrow> length (fd_hash d) = 32 \<and> fd_size d < 2 ^ 128"

definition wf_id :: "artifact_id \<Rightarrow> bool" where
  "wf_id i \<longleftrightarrow> wf_uuid (ai_uuid i)"

definition wf_link_key :: "namespaced_link_digest \<Rightarrow> bool" where
  "wf_link_key k \<longleftrightarrow> wf_link_digest (nl_link_digest k)"

definition wf_file_key :: "namespaced_file_digest \<Rightarrow> bool" where
  "wf_file_key k \<longleftrightarrow> wf_file_digest (nf_file_digest k)"

definition wf_link_ref :: "link_ref \<Rightarrow> bool" where
  "wf_link_ref r \<longleftrightarrow> wf_uuid (lr_uuid r) \<and> wf_link_digest (lr_link_digest r)"

definition wf_file_ref :: "file_ref \<Rightarrow> bool" where
  "wf_file_ref r \<longleftrightarrow> wf_uuid (fr_uuid r) \<and> wf_file_digest (fr_file_digest r)"

fun wf_path :: "bool \<Rightarrow> os_path \<Rightarrow> bool" where
  "wf_path unix (UnixPath _) \<longleftrightarrow> unix"
| "wf_path unix (WidePath _) \<longleftrightarrow> \<not> unix"

fun wf_link :: "bool \<Rightarrow> artifact_link \<Rightarrow> bool" where
  "wf_link unix (LinkLocal p _) \<longleftrightarrow> wf_path unix p"
| "wf_link unix (LinkBytes _ _) \<longleftrightarrow> True"
| "wf_link unix (LinkHttp url _) \<longleftrightarrow> wf_str url"

definition wf_layer :: "bool \<Rightarrow> layer \<Rightarrow> bool" where
  "wf_layer unix l \<longleftrightarrow> wf_uuid (ly_uuid l) \<and> wf_link unix (ly_link l) \<and> wf_digest (ly_expected_digest l)
     \<and> wf_link_digest (ly_link_digest l)"

definition wf_blueprint :: "bool \<Rightarrow> blueprint \<Rightarrow> bool" where
  "wf_blueprint unix b \<longleftrightarrow> wf_uuid (bp_target_uuid b) \<and> list_all (wf_layer unix) (bp_layers b)
     \<and> pred_option (wf_path unix) (bp_extract b)"

lemmas wf_defs = wf_id_def wf_link_key_def wf_file_key_def wf_link_ref_def wf_file_ref_def
  wf_uuid_def wf_link_digest_def wf_file_digest_def

lemma wf_ids [simp]:
  "wf_link_ref r \<Longrightarrow> wf_id (link_ref_id r)" "wf_link_ref r \<Longrightarrow> wf_link_key (link_ref_digest r)"
  "wf_file_ref f \<Longrightarrow> wf_id (file_ref_id f)" "wf_file_ref f \<Longrightarrow> wf_file_key (file_ref_digest f)"
  "wf_blueprint unix b \<Longrightarrow> wf_id (blueprint_id b)"
  by (simp_all add: wf_defs wf_blueprint_def link_ref_id_def link_ref_digest_def file_ref_id_def
      file_ref_digest_def blueprint_id_def)

end
