(* ===== verification/Flatten.thy ===== *)
theory Flatten
  imports HardLinks Artifact
begin

text \<open>
  The rest of \<open>image-core/src/ops/flatten.rs\<close>: reading layers, keeping the bodies of regular files in
  a spool file, and writing the flattened archive. The disk is that of \<open>ImageIo\<close>, the records are
  read through the crate parameter of \<open>Newc\<close>. \<open>reads\<close> is how a reader hands out given bytes: in
  which portions, and whether it fails on the way.
\<close>

section \<open>The spool\<close>

record spool =
  sp_path :: path
  sp_cursor :: nat

definition spool_stem :: "path \<Rightarrow> string" where
  "spool_stem destination = (if destination = [] then ''rootfs'' else file_stem destination)"

definition spool_path_for :: "string \<Rightarrow> path \<Rightarrow> path" where
  "spool_path_for unique destination =
    butlast destination @ [''.'' @ spool_stem destination @ ''.flatten-spool-'' @ unique]"

definition spool_open :: "string \<Rightarrow> path \<Rightarrow> disk \<Rightarrow> (operation_error + spool) \<times> disk" where
  "spool_open unique destination d =
    (case fs_create_dir_all (butlast destination) d of
       (Inl e, d) \<Rightarrow> (Err WriteDestination, d)
     | (Inr _, d) \<Rightarrow>
         let path = spool_path_for unique destination in
         (case fs_create_new path d of
            (Inl e, d) \<Rightarrow> (Err WriteDestination, d)
          | (Inr _, d) \<Rightarrow> (Ok \<lparr>sp_path = path, sp_cursor = 0\<rparr>, d)))"

definition spool_drop :: "spool \<Rightarrow> disk \<Rightarrow> disk" where
  "spool_drop sp d = ignoring (fs_remove_file (sp_path sp)) d"

type_synonym 'a spooler = "spool \<times> disk \<Rightarrow> (operation_error + 'a) \<times> spool \<times> disk"

text \<open>The loop of \<open>append_body\<close>.\<close>

function spool_copy :: "nat \<Rightarrow> read_step list \<Rightarrow> unit spooler" where
  "spool_copy remaining src (sp, d) =
    (if remaining = 0 then (Ok (), sp, d)
     else
       (case read_some (copy_want remaining) src of
          (Inl e, src') \<Rightarrow> (Err ReadSource, sp, d)
        | (Inr bytes, src') \<Rightarrow>
            if bytes = [] then (Err InvalidCpio, sp, d)
            else
              (case fs_write_all (sp_path sp) bytes d of
                 (Inl e, d') \<Rightarrow> (Err WriteDestination, sp, d')
               | (Inr _, d') \<Rightarrow>
                   spool_copy (remaining - length bytes) src'
                     (sp\<lparr>sp_cursor := sp_cursor sp + length bytes\<rparr>, d'))))"
  by pat_completeness auto
termination
  by (relation "measure fst") auto

declare spool_copy.simps [simp del]

text \<open>The result of the final flush is ignored.\<close>

definition append_body :: "read_step list \<Rightarrow> u32 \<Rightarrow> spool_range spooler" where
  "append_body src sz = (\<lambda>(sp, d).
    case spool_copy (unat sz) src (sp, d) of
      (Inl e, s) \<Rightarrow> (Err e, s)
    | (Inr _, sp', d') \<Rightarrow> (Ok \<lparr>sr_offset = sp_cursor sp, sr_size = sz\<rparr>, sp', ignoring fs_sync d'))"

section \<open>Reading a layer\<close>

definition MAX_IN_MEMORY_ENTRY_BYTES :: u32 where
  "MAX_IN_MEMORY_ENTRY_BYTES = 67108864"

definition finish_reader :: "io_error + byte list \<Rightarrow> operation_error + byte list" where
  "finish_reader fin = mapErr (\<lambda>_. InvalidCpio) fin"

text \<open>\<open>read_exact\<close> into a buffer of the given size.\<close>

definition read_exact :: "nat \<Rightarrow> read_step list \<Rightarrow> byte list option" where
  "read_exact n src = (let got = available src in if length got < n then None else Some (take n got))"

definition entry_meta :: "newc_entry \<Rightarrow> nat \<Rightarrow> layer_body \<Rightarrow> layer_meta" where
  "entry_meta entry source_layer body =
    \<lparr>lm_mode = ne_mode entry, lm_uid = ne_uid entry, lm_gid = ne_gid entry, lm_mtime = ne_mtime entry,
     lm_dev_major = ne_dev_major entry, lm_ino = ne_ino entry, lm_rdev_major = ne_rdev_major entry,
     lm_rdev_minor = ne_rdev_minor entry, lm_nlink_source = ne_nlink entry,
     lm_source_layer = source_layer, lm_body = body\<rparr>"

definition decode_entry_metadata ::
  "(byte list \<Rightarrow> read_step list) \<Rightarrow> newc_entry \<Rightarrow> byte list \<Rightarrow> io_error + byte list \<Rightarrow> nat \<Rightarrow> (layer_meta \<times> byte list) spooler" where
  "decode_entry_metadata reads entry body fin source_layer s =
    (let file_type = ne_mode entry AND S_IFMT in
     if file_type = S_IFREG then
       (case append_body (reads body) (ne_file_size entry) s of
          (Inl e, s) \<Rightarrow> (Err e, s)
        | (Inr rg, s) \<Rightarrow>
            (bindR (finish_reader fin) (\<lambda>rest. Ok (entry_meta entry source_layer (LbSpool (Some rg)), rest)), s))
     else if file_type = S_IFLNK then
       (if ne_file_size entry > MAX_IN_MEMORY_ENTRY_BYTES then (Err InvalidCpio, s)
        else
          (case read_exact (unat (ne_file_size entry)) (reads body) of
             None \<Rightarrow> (Err InvalidCpio, s)
           | Some target \<Rightarrow>
               (bindR (finish_reader fin) (\<lambda>rest. Ok (entry_meta entry source_layer (LbSymlink target), rest)), s)))
     else
       (bindR (finish_reader fin) (\<lambda>rest. Ok (entry_meta entry source_layer LbEmpty, rest)), s))"

text \<open>The loop of \<open>read_layer\<close>; \<open>cancelled i\<close> is the token before record \<open>i\<close>.\<close>

partial_function (option) read_layer_loop ::
  "newc_crate \<Rightarrow> (byte list \<Rightarrow> read_step list) \<Rightarrow> (nat \<Rightarrow> bool) \<Rightarrow> nat \<Rightarrow> nat \<Rightarrow> byte list \<Rightarrow> layer_entry list \<Rightarrow>
   spool \<times> disk \<Rightarrow> ((operation_error + layer_entry list) \<times> spool \<times> disk) option" where [code]:
  "read_layer_loop nc reads cancelled source_layer i bs decoded s =
    (if cancelled i then Some (Err OpCancelled, s)
     else
       (case nc_next nc bs of
          Inl e \<Rightarrow> Some (Err InvalidCpio, s)
        | Inr (entry, body, fin) \<Rightarrow>
            if nc_is_trailer nc entry then
              (case fin of
                 Inl e \<Rightarrow> Some (Err InvalidCpio, s)
               | Inr rest \<Rightarrow> Some (if rest = [] then Ok decoded else Err InvalidCpio, s))
            else
              (case normalize_path (ne_name entry) of
                 Inl e \<Rightarrow> Some (Err e, s)
               | Inr normalized \<Rightarrow>
                   (case whiteout_of normalized of
                      Some wh \<Rightarrow>
                        (case fin of
                           Inl e \<Rightarrow> Some (Err InvalidCpio, s)
                         | Inr rest \<Rightarrow>
                             read_layer_loop nc reads cancelled source_layer (Suc i) rest
                               (decoded @ [LayerWhiteout wh]) s)
                    | None \<Rightarrow>
                        (case decode_entry_metadata reads entry body fin source_layer s of
                           (Inl e, s) \<Rightarrow> Some (Err e, s)
                         | (Inr (md, rest), s) \<Rightarrow>
                             read_layer_loop nc reads cancelled source_layer (Suc i) rest
                               (decoded @ [LayerRegular normalized md]) s)))))"

text \<open>A layer: its digest and the bytes read through its handle, \<open>None\<close> where that fails.\<close>

record layer_file =
  lf_digest :: file_digest
  lf_bytes :: "byte list option"

definition read_layer ::
  "newc_crate \<Rightarrow> hashes \<Rightarrow> (byte list \<Rightarrow> read_step list) \<Rightarrow> (nat \<Rightarrow> bool) \<Rightarrow> nat \<Rightarrow> layer_file \<Rightarrow>
   spool \<times> disk \<Rightarrow> ((operation_error + layer_entry list) \<times> spool \<times> disk) option" where
  "read_layer nc h reads cancelled source_layer layer s =
    (case lf_bytes layer of
       None \<Rightarrow> Some (Err ReadSource, s)
     | Some bs \<Rightarrow>
         if bytes_digest h bs \<noteq> lf_digest layer then Some (Err DigestMismatch, s)
         else read_layer_loop nc reads cancelled source_layer 0 bs [] s)"

fun build_state ::
  "newc_crate \<Rightarrow> hashes \<Rightarrow> (byte list \<Rightarrow> read_step list) \<Rightarrow> (nat \<Rightarrow> nat \<Rightarrow> bool) \<Rightarrow> nat \<Rightarrow> layer_file list \<Rightarrow> entries \<Rightarrow>
   spool \<times> disk \<Rightarrow> ((operation_error + entries) \<times> spool \<times> disk) option" where
  "build_state nc h reads cancelled index [] m s = Some (Ok m, s)"
| "build_state nc h reads cancelled index (layer # layers) m s =
    (case read_layer nc h reads (cancelled index) index layer s of
       None \<Rightarrow> None
     | Some (Inl e, s) \<Rightarrow> Some (Err e, s)
     | Some (Inr decoded, s) \<Rightarrow>
         build_state nc h reads cancelled (Suc index) layers (apply_layer decoded m) s)"

section \<open>Emission\<close>

definition flat_record :: "string \<Rightarrow> layer_meta \<Rightarrow> assignment \<Rightarrow> u32 \<Rightarrow> newc_record" where
  "flat_record path md a nlink =
    \<lparr>rc_name = path, rc_mode = lm_mode md, rc_uid = lm_uid md, rc_gid = lm_gid md, rc_mtime = lm_mtime md,
     rc_nlink = nlink, rc_dev_major = fst a, rc_dev_minor = 0, rc_ino = snd a,
     rc_rdev_major = lm_rdev_major md, rc_rdev_minor = lm_rdev_minor md, rc_body = BodyEmpty\<rparr>"

text \<open>The handle of the spool is opened at the first body; \<open>handle\<close> are the bytes it reads.\<close>

definition spool_handle :: "path \<Rightarrow> byte list option \<Rightarrow> (operation_error, byte list) writer" where
  "spool_handle path handle = (\<lambda>(w, d).
    case handle of
      Some bytes \<Rightarrow> (Ok bytes, w, d)
    | None \<Rightarrow> (case fs_open path d of (Inl e, d) \<Rightarrow> (Err ReadSource, w, d) | (Inr bytes, d) \<Rightarrow> (Ok bytes, w, d)))"

definition emit_entry ::
  "(byte list \<Rightarrow> read_step list) \<Rightarrow> path \<Rightarrow> newc_record \<Rightarrow> layer_body \<Rightarrow> bool \<Rightarrow> byte list option \<Rightarrow>
   (operation_error, byte list option) writer" where
  "emit_entry reads spool_path rc body is_canonical handle =
    (case body of
       LbEmpty \<Rightarrow> bindW (write_entry rc) (\<lambda>_. retW handle)
     | LbSymlink bytes \<Rightarrow>
         if \<not> fits_u32 (length bytes) then failW InvalidCpio
         else bindW (write_streaming_entry rc (word_of_nat (length bytes)) [ReadBytes bytes]) (\<lambda>_. retW handle)
     | LbSpool (Some rg) \<Rightarrow>
         if is_canonical then
           bindW (spool_handle spool_path handle) (\<lambda>bytes.
           bindW (write_streaming_entry rc (sr_size rg)
                   (reads (take (unat (sr_size rg)) (drop (sr_offset rg) bytes)))) (\<lambda>_.
           retW (Some bytes)))
         else bindW (write_entry rc) (\<lambda>_. retW handle)
     | LbSpool None \<Rightarrow> bindW (write_entry rc) (\<lambda>_. retW handle))"

text \<open>An entry without a planned identity panics.\<close>

fun emit_entries ::
  "(byte list \<Rightarrow> read_step list) \<Rightarrow> path \<Rightarrow> hardlink_plan \<Rightarrow> entries \<Rightarrow> byte list option \<Rightarrow>
   (operation_error fault, unit) writer" where
  "emit_entries reads spool_path plan [] handle = retW ()"
| "emit_entries reads spool_path plan ((path, md) # rest) handle =
    (case (assignment_for plan path, plan_nlink_for plan path) of
       (Some (a, is_canonical), Some nlink) \<Rightarrow>
         bindW (failing (emit_entry reads spool_path (flat_record path md a nlink) (lm_body md) is_canonical handle))
           (\<lambda>handle. emit_entries reads spool_path plan rest handle)
     | _ \<Rightarrow> failW Panic)"

definition emit ::
  "bool \<Rightarrow> hashes \<Rightarrow> (byte list \<Rightarrow> read_step list) \<Rightarrow> string \<Rightarrow> path \<Rightarrow> path \<Rightarrow> entries \<Rightarrow> disk \<Rightarrow>
   (operation_error fault + published_file) \<times> disk" where
  "emit windows h reads unique destination spool_path m d =
    (case tw_open unique destination d of
       (Inl e, d) \<Rightarrow> (Err (Fail WriteDestination), d)
     | (Inr w, d) \<Rightarrow>
         (case plan_hardlinks m of
            None \<Rightarrow> (Err Panic, tw_drop w d)
          | Some plan \<Rightarrow>
              (case bindW (emit_entries reads spool_path plan m None) (\<lambda>_. failing write_trailer) (w, d) of
                 (Inl e, w, d) \<Rightarrow> (Err e, tw_drop w d)
               | (Inr _, w, d) \<Rightarrow>
                   (case tw_flush (w, d) of
                      (Inl e, w, d) \<Rightarrow> (Err (Fail WriteDestination), tw_drop w d)
                    | (Inr _, w, d) \<Rightarrow>
                        (case tw_publish windows h (w, d) of
                           (Inl e, d) \<Rightarrow> (Err (Fail WriteDestination), d)
                         | (Inr pf, d) \<Rightarrow> (Ok pf, d))))))"

definition run_blocking ::
  "newc_crate \<Rightarrow> bool \<Rightarrow> hashes \<Rightarrow> (byte list \<Rightarrow> read_step list) \<Rightarrow> (nat \<Rightarrow> nat \<Rightarrow> bool) \<Rightarrow> string \<Rightarrow> string \<Rightarrow>
   path \<Rightarrow> layer_file list \<Rightarrow> disk \<Rightarrow> ((operation_error fault + file_digest) \<times> disk) option" where
  "run_blocking nc windows h reads cancelled spool_unique unique destination layers d =
    (case spool_open spool_unique destination d of
       (Inl e, d) \<Rightarrow> Some (Err (Fail e), d)
     | (Inr sp, d) \<Rightarrow>
         (case build_state nc h reads cancelled 0 layers [] (sp, d) of
            None \<Rightarrow> None
          | Some (Inl e, sp, d) \<Rightarrow> Some (Err (Fail e), spool_drop sp d)
          | Some (Inr m, sp, d) \<Rightarrow>
              (case emit windows h reads unique destination (sp_path sp) m d of
                 (Inl e, d) \<Rightarrow> Some (Err e, spool_drop sp d)
               | (Inr pf, d) \<Rightarrow> Some (Ok (pf_digest pf), spool_drop sp d))))"

text \<open>The checks of \<open>flatten\<close> before anything is read.\<close>

record flatten_source =
  fs_type :: artifact_type
  fs_compression :: artifact_compression
  fs_layer :: layer_file

fun check_layers :: "flatten_source list \<Rightarrow> operation_error + layer_file list" where
  "check_layers [] = Ok []"
| "check_layers (src # rest) =
    (if fs_type src \<noteq> ArtContainerCpio then Err UnsupportedArtifact
     else if fs_compression src \<noteq> CompNone then Err UnsupportedCompression
     else bindR (check_layers rest) (\<lambda>ls. Ok (fs_layer src # ls)))"

text \<open>
  \<open>flatten\<close> up to the joining of the blocking task: \<open>cancelled_before\<close> is the token when the task
  starts.
\<close>

definition flatten ::
  "newc_crate \<Rightarrow> bool \<Rightarrow> hashes \<Rightarrow> (byte list \<Rightarrow> read_step list) \<Rightarrow> (nat \<Rightarrow> nat \<Rightarrow> bool) \<Rightarrow> bool \<Rightarrow> string \<Rightarrow> string \<Rightarrow>
   namespace \<Rightarrow> path \<Rightarrow> flatten_source list \<Rightarrow> disk \<Rightarrow> ((operation_error fault + file_digest) \<times> disk) option" where
  "flatten nc windows h reads cancelled cancelled_before spool_unique unique ns destination src d =
    (if ns \<noteq> NsRootfs then Some (Err (Fail UnsupportedArtifact), d)
     else
       (case check_layers src of
          Inl e \<Rightarrow> Some (Err (Fail e), d)
        | Inr layers \<Rightarrow>
            if cancelled_before then Some (Err (Fail OpCancelled), d)
            else run_blocking nc windows h reads cancelled spool_unique unique destination layers d))"

section \<open>Disks without other writers\<close>

definition quiet :: "disk \<Rightarrow> bool" where
  "quiet d \<longleftrightarrow> list_all (\<lambda>t. tn_writes t = []) (dk_script d)"

text \<open>Only the files in \<open>P\<close> may have changed.\<close>

definition frame :: "path set \<Rightarrow> disk \<Rightarrow> disk \<Rightarrow> bool" where
  "frame P d d' \<longleftrightarrow> quiet d' \<and> (\<forall>q. q \<notin> P \<longrightarrow> dk_files d' q = dk_files d q)"

lemma frame_refl: "quiet d \<Longrightarrow> frame P d d"
  by (simp add: frame_def)

lemma frame_trans: "frame P d d1 \<Longrightarrow> frame P d1 d2 \<Longrightarrow> frame P d d2"
  by (simp add: frame_def)

lemma frame_mono: "frame P d d1 \<Longrightarrow> P \<subseteq> Q \<Longrightarrow> frame Q d d1"
  by (auto simp: frame_def)

lemma frame_quiet: "frame P d d' \<Longrightarrow> quiet d'"
  by (simp add: frame_def)

lemma call_partial_quiet:
  assumes "quiet d"
  obtains d1 where "quiet d1" "dk_files d1 = dk_files d" "dk_dirs d1 = dk_dirs d"
    "call_partial failed op d = op d1 \<or> (\<exists>e n. call_partial failed op d = (Inl e, failed n d1))"
proof (cases "dk_script d")
  case Nil
  show ?thesis by (rule that [OF assms]) (simp_all add: call_partial_def Nil)
next
  case (Cons t ts)
  with assms have "tn_writes t = []" by (simp add: quiet_def)
  with Cons assms show ?thesis
    by (intro that [of "d\<lparr>dk_script := ts\<rparr>"])
      (auto simp: call_partial_def foreign_writes_def quiet_def Let_def split: option.splits)
qed

lemma call_quiet:
  assumes "quiet d"
  obtains d1 where "quiet d1" "dk_files d1 = dk_files d" "call op d = op d1 \<or> (\<exists>e. call op d = (Inl e, d1))"
  using call_partial_quiet [OF assms, where failed = "\<lambda>_ d. d" and op = op] unfolding call_def by metis

lemma quiet_update [simp]:
  "quiet (d\<lparr>dk_files := f\<rparr>) = quiet d" "quiet (d\<lparr>dk_dirs := D\<rparr>) = quiet d"
  by (simp_all add: quiet_def)

lemma fs_write_all_quiet:
  assumes "quiet d" "dk_files d p = Some c"
  shows "frame {p} d (snd (fs_write_all p bytes d)) \<and>
    (isOk (fst (fs_write_all p bytes d)) \<longrightarrow> dk_files (snd (fs_write_all p bytes d)) p = Some (c @ bytes))"
proof -
  obtain d1 where d1: "quiet d1" "dk_files d1 = dk_files d" "fs_write_all p bytes d = (Ok (), append_file p bytes d1) \<or>
      (\<exists>e n. fs_write_all p bytes d = (Inl e, append_file p (take n bytes) d1))"
    unfolding fs_write_all_def
    by (rule call_partial_quiet [OF assms(1), where failed = "\<lambda>n. append_file p (take n bytes)"
      and op = "\<lambda>d. (Ok (), append_file p bytes d)"])
  then show ?thesis using assms by (auto simp: frame_def append_file_def)
qed

lemma fs_create_new_quiet:
  assumes "quiet d"
  shows "frame {p} d (snd (fs_create_new p d)) \<and>
    (isOk (fst (fs_create_new p d)) \<longrightarrow> dk_files (snd (fs_create_new p d)) p = Some [])"
proof -
  obtain d1 where d1: "quiet d1" "dk_files d1 = dk_files d" "fs_create_new p d =
      (if dk_files d1 p \<noteq> None \<or> p \<in> dk_dirs d1 then (Err (io_err AlreadyExists), d1)
               else (Ok (), d1\<lparr>dk_files := (dk_files d1)(p := Some [])\<rparr>)) \<or> (\<exists>e. fs_create_new p d = (Inl e, d1))"
    unfolding fs_create_new_def
    by (rule call_quiet [OF assms, where op = "\<lambda>d. if dk_files d p \<noteq> None \<or> p \<in> dk_dirs d
      then (Err (io_err AlreadyExists), d) else (Ok (), d\<lparr>dk_files := (dk_files d)(p := Some [])\<rparr>)"])
  then show ?thesis using assms by (auto simp: frame_def)
qed

lemma reading_quiet:
  assumes "quiet d"
  shows "frame {} d (snd (fs_sync d))" "frame {} d (snd (fs_create_dir_all p d))" "frame {} d (snd (fs_open p d))"
    "fst (fs_open p d) = Ok bytes \<Longrightarrow> dk_files d p = Some bytes"
proof -
  obtain d1 where "quiet d1" "dk_files d1 = dk_files d" "fs_sync d = (Ok (), d1) \<or> (\<exists>e. fs_sync d = (Inl e, d1))"
    unfolding fs_sync_def by (rule call_quiet [OF assms, where op = "\<lambda>d. (Ok (), d)"])
  then show "frame {} d (snd (fs_sync d))" by (auto simp: frame_def)
  obtain d1 where "quiet d1" "dk_files d1 = dk_files d" "fs_create_dir_all p d =
      (if dk_files d1 p \<noteq> None then (Err (io_err AlreadyExists), d1)
               else (Ok (), d1\<lparr>dk_dirs := dk_dirs d1 \<union> set (prefixes p)\<rparr>)) \<or> (\<exists>e. fs_create_dir_all p d = (Inl e, d1))"
    unfolding fs_create_dir_all_def by (rule call_quiet [OF assms, where op = "\<lambda>d. if dk_files d p \<noteq> None then (Err (io_err AlreadyExists), d)
               else (Ok (), d\<lparr>dk_dirs := dk_dirs d \<union> set (prefixes p)\<rparr>)"])
  then show "frame {} d (snd (fs_create_dir_all p d))" by (auto simp: frame_def)
  obtain d1 where "quiet d1" "dk_files d1 = dk_files d" "fs_open p d =
      (case dk_files d1 p of None \<Rightarrow> (Err (io_err NotFound), d1) | Some bytes \<Rightarrow> (Ok bytes, d1)) \<or> (\<exists>e. fs_open p d = (Inl e, d1))"
    unfolding fs_open_def by (rule call_quiet [OF assms, where op = "\<lambda>d. case dk_files d p of
      None \<Rightarrow> (Err (io_err NotFound), d) | Some bytes \<Rightarrow> (Ok bytes, d)"])
  then show "frame {} d (snd (fs_open p d))" "fst (fs_open p d) = Ok bytes \<Longrightarrow> dk_files d p = Some bytes"
    by (auto simp: frame_def split: option.splits)
qed

lemma tw_write_all_frame:
  assumes "quiet d" "tw_write_all bytes (w, d) = (r, w', d')"
  shows "tw_temp w' = tw_temp w \<and> frame {tw_temp w} d d'"
proof -
  obtain d1 where d1: "quiet d1" "dk_files d1 = dk_files d" "fs_write_all (tw_temp w) bytes d = (Ok (), append_file (tw_temp w) bytes d1) \<or>
      (\<exists>e n. fs_write_all (tw_temp w) bytes d = (Inl e, append_file (tw_temp w) (take n bytes) d1))"
    unfolding fs_write_all_def
    by (rule call_partial_quiet [OF assms(1), where failed = "\<lambda>n. append_file (tw_temp w) (take n bytes)"
      and op = "\<lambda>d. (Ok (), append_file (tw_temp w) bytes d)"])
  then show ?thesis
    using assms(2) by (auto simp: tw_write_all_def frame_def append_file_def split: option.splits)
qed

lemma tw_write_chunks_frame:
  "quiet d \<Longrightarrow> tw_write_chunks cs (w, d) = (r, w', d') \<Longrightarrow> tw_temp w' = tw_temp w \<and> frame {tw_temp w} d d'"
proof (induction cs arbitrary: w d)
  case Nil
  then show ?case by (simp add: frame_refl)
next
  case (Cons c cs)
  obtain r1 w1 d1 where step: "tw_write_all c (w, d) = (r1, w1, d1)" by (cases "tw_write_all c (w, d)") auto
  note f = tw_write_all_frame [OF Cons.prems(1) step]
  show ?case
  proof (cases r1)
    case (Inl e)
    with step Cons.prems(2) f show ?thesis by simp
  next
    case (Inr u)
    with step Cons.prems(2) have "tw_write_chunks cs (w1, d1) = (r, w', d')" by simp
    with Cons.IH f frame_quiet frame_trans show ?thesis by metis
  qed
qed

lemma wrote_frame:
  assumes "wrote (w, d) recs (w', d')" "quiet d"
  shows "tw_temp w' = tw_temp w" "frame {tw_temp w} d d'"
  using assms tw_write_chunks_frame by (auto simp: wrote_def)

section \<open>What the spool holds\<close>

definition spooled :: "spool \<times> disk \<Rightarrow> byte list \<Rightarrow> bool" where
  "spooled s c \<longleftrightarrow> quiet (snd s) \<and> dk_files (snd s) (sp_path (fst s)) = Some c \<and> sp_cursor (fst s) = length c"

lemma read_some_length: "read_some want src = (Ok bs, src') \<Longrightarrow> length bs \<le> want"
  by (cases src rule: available.cases) (auto split: if_splits)

lemma spool_copy_ok:
  assumes "spooled (sp, d) c" "spool_copy n src (sp, d) = (Ok u, sp', d')"
  shows "n \<le> length (available src) \<and> sp_path sp' = sp_path sp \<and> spooled (sp', d') (c @ take n (available src))"
  using assms
proof (induction n arbitrary: src sp d c rule: less_induct)
  case (less n)
  show ?case
  proof (cases "n = 0")
    case True
    with less.prems show ?thesis by (simp add: spool_copy.simps)
  next
    case False
    obtain r src1 where r: "read_some (copy_want n) src = (r, src1)" by fastforce
    from less.prems(2) r False obtain bs d1 where bs: "r = Ok bs" "bs \<noteq> []" "fs_write_all (sp_path sp) bs d = (Ok (), d1)"
      and rec: "spool_copy (n - length bs) src1 (sp\<lparr>sp_cursor := sp_cursor sp + length bs\<rparr>, d1) = (Ok u, sp', d')"
      by (subst (asm) spool_copy.simps) (auto split: sum.splits if_splits prod.splits)
    have av: "available src = bs @ available src1" using read_some_short [of _ src bs src1] r bs by simp
    have len: "length bs \<le> n" using r bs(1) read_some_length [of "copy_want n" src bs src1] by (simp add: copy_want_def)
    have "spooled (sp\<lparr>sp_cursor := sp_cursor sp + length bs\<rparr>, d1) (c @ bs)"
      using fs_write_all_quiet [of d "sp_path sp" c bs] bs(3) less.prems(1) by (auto simp: spooled_def frame_def)
    from less.IH [OF _ this rec] bs(2) False len av show ?thesis by (simp add: le_diff_conv)
  qed
qed

text \<open>The bytes of a body, from the spool or from memory.\<close>

fun stored :: "byte list \<Rightarrow> layer_body \<Rightarrow> byte list" where
  "stored c LbEmpty = []"
| "stored c (LbSymlink target) = target"
| "stored c (LbSpool None) = []"
| "stored c (LbSpool (Some rg)) = take (unat (sr_size rg)) (drop (sr_offset rg) c)"

fun in_spool :: "byte list \<Rightarrow> layer_body \<Rightarrow> bool" where
  "in_spool c (LbSpool (Some rg)) \<longleftrightarrow> sr_offset rg + unat (sr_size rg) \<le> length c"
| "in_spool c _ \<longleftrightarrow> True"

lemma stored_append: "in_spool c lb \<Longrightarrow> stored (c @ x) lb = stored c lb \<and> in_spool (c @ x) lb"
  by (cases "(c, lb)" rule: in_spool.cases) auto

text \<open>A reader hands out its bytes in order, possibly failing before the end.\<close>

definition reads_ok :: "(byte list \<Rightarrow> read_step list) \<Rightarrow> bool" where
  "reads_ok reads \<longleftrightarrow> (\<forall>b. prefix (available (reads b)) b)"

lemma reads_take:
  assumes "reads_ok reads" "n \<le> length (available (reads b))"
  shows "take n (available (reads b)) = take n b" "n \<le> length b"
proof -
  obtain zs where "b = available (reads b) @ zs" using assms(1) by (auto simp: reads_ok_def prefix_def)
  then show "take n (available (reads b)) = take n b" "n \<le> length b"
    using assms(2) by (metis take_append take_all_iff append_Nil2 diff_is_0_eq take0, metis length_append trans_le_add1)
qed

lemma append_body_ok:
  assumes "spooled s c" "append_body (reads body) sz s = (Ok rg, s')" "reads_ok reads"
  shows "sp_path (fst s') = sp_path (fst s) \<and> unat sz \<le> length body \<and> spooled s' (c @ take (unat sz) body)
    \<and> rg = \<lparr>sr_offset = length c, sr_size = sz\<rparr>"
proof -
  obtain sp d where s: "s = (sp, d)" by force
  from assms(2) s obtain sp' d1 where c: "spool_copy (unat sz) (reads body) (sp, d) = (Ok (), sp', d1)"
    "s' = (sp', ignoring fs_sync d1)" "rg = \<lparr>sr_offset = sp_cursor sp, sr_size = sz\<rparr>"
    by (auto simp: append_body_def split: sum.splits prod.splits)
  note k = spool_copy_ok [OF assms(1) [unfolded s] c(1)]
  then have "spooled s' (c @ take (unat sz) (available (reads body)))"
    using reading_quiet(1) [of d1] by (auto simp: c(2) spooled_def ignoring_def frame_def)
  with k c(2,3) s assms(1) reads_take [OF assms(3)] show ?thesis by (simp add: spooled_def)
qed

section \<open>Reading valid layers\<close>

text \<open>A record whose body is kept: a regular file or a symbolic link.\<close>

definition keeps_body :: "u32 \<Rightarrow> bool" where
  "keeps_body mode \<longleftrightarrow> mode AND S_IFMT = S_IFREG \<or> mode AND S_IFMT = S_IFLNK"

lemma decode_entry_metadata_ok:
  assumes "spooled s c" "reads_ok reads"
    and "decode_entry_metadata reads entry body (Ok rest) k s = (Ok (md, rest'), s')"
  shows "rest' = rest \<and> sp_path (fst s') = sp_path (fst s) \<and> (\<exists>x lb. spooled s' (c @ x) \<and> md = entry_meta entry k lb
    \<and> in_spool (c @ x) lb
    \<and> stored (c @ x) lb = (if keeps_body (ne_mode entry) then take (unat (ne_file_size entry)) body else []))"
proof (cases "ne_mode entry AND S_IFMT = S_IFREG")
  case True
  with assms(3) obtain rg where rg: "append_body (reads body) (ne_file_size entry) s = (Ok rg, s')"
    "md = entry_meta entry k (LbSpool (Some rg))" "rest' = rest"
    by (auto simp: decode_entry_metadata_def finish_reader_def Let_def split: prod.splits sum.splits)
  from append_body_ok [OF assms(1) rg(1) assms(2)] rg True show ?thesis
    by (auto simp: keeps_body_def intro!: exI [of _ "take (unat (ne_file_size entry)) body"])
next
  case False
  then show ?thesis
    using assms reads_take [OF assms(2), of _ body]
    by (auto simp: decode_entry_metadata_def finish_reader_def read_exact_def keeps_body_def Let_def not_less
      S_IFREG_def S_IFLNK_def intro!: exI [of _ "[]"] split: if_splits option.splits)
qed

text \<open>What layer \<open>k\<close> contributes for a record, with the bodies in the spool \<open>c\<close>.\<close>

definition decodes :: "byte list \<Rightarrow> nat \<Rightarrow> newc_record \<times> byte list \<Rightarrow> layer_entry \<Rightarrow> bool" where
  "decodes c k = (\<lambda>(rc, body) e. \<exists>name lb. normalize_path (rc_name rc) = Ok name
     \<and> e = decode_named name (entry_meta (record_entry rc (word_of_nat (length body))) k lb)
     \<and> (whiteout_of name = None \<longrightarrow> in_spool c lb \<and> stored c lb = (if keeps_body (rc_mode rc) then body else [])))"

lemma decodes_append: "decodes c k r e \<Longrightarrow> decodes (c @ x) k r e"
  using stored_append by (fastforce simp: decodes_def split: prod.splits)

lemma decodes_entry: "decodes c k r e \<Longrightarrow> decoded_entry e"
  by (auto simp: decodes_def decoded_entry_def split: prod.splits)

definition layer_bytes :: "(newc_record \<times> byte list) list \<Rightarrow> byte list" where
  "layer_bytes recs = archive_bytes (recs @ [(trailer_record, [])])"

definition layer_ok :: "(newc_record \<times> byte list) list \<Rightarrow> bool" where
  "layer_ok recs \<longleftrightarrow> list_all readable recs \<and> TRAILER_NAME \<notin> set (record_names recs)"

lemma layer_bytes_simps:
  "layer_bytes [] = record_bytes trailer_record [] @ []"
  "layer_bytes ((rc, body) # recs) = record_bytes rc body @ layer_bytes recs"
  by (simp_all add: layer_bytes_def archive_bytes_def)

lemma readable_size: "readable (rc, body) \<Longrightarrow> unat (word_of_nat (length body) :: u32) = length body"
  by (simp add: readable_def record_ok_def unat_of_nat)

text \<open>A successful read adds what the records decode to, and their bodies to the spool.\<close>

definition layer_read ::
  "nat \<Rightarrow> (newc_record \<times> byte list) list \<Rightarrow> layer_entry list \<Rightarrow> byte list \<Rightarrow> spool \<times> disk \<Rightarrow>
   operation_error + layer_entry list \<Rightarrow> spool \<times> disk \<Rightarrow> bool" where
  "layer_read k recs decoded c s r s' \<longleftrightarrow>
    (\<forall>out. r = Ok out \<longrightarrow> sp_path (fst s') = sp_path (fst s) \<and>
      (\<exists>new x. out = decoded @ new \<and> spooled s' (c @ x) \<and> list_all2 (decodes (c @ x) k) recs new))"

lemma layer_read_error: "layer_read k recs decoded c s (Err e) s'"
  by (simp add: layer_read_def)

lemma layer_read_Nil: "spooled s c \<Longrightarrow> layer_read k [] decoded c s (Ok decoded) s"
  unfolding layer_read_def by (auto intro!: exI [of _ "[]"])

lemma layer_read_Cons:
  assumes "layer_read k recs (decoded @ [e]) (c @ x) s1 r s'" "sp_path (fst s1) = sp_path (fst s)" "decodes (c @ x) k rb e"
  shows "layer_read k (rb # recs) decoded c s r s'"
  unfolding layer_read_def
proof (intro allI impI)
  fix out
  assume "r = Ok out"
  with assms(1) obtain new y where n: "sp_path (fst s') = sp_path (fst s1)" "out = decoded @ e # new"
    "spooled s' (c @ x @ y)" "list_all2 (decodes (c @ x @ y) k) recs new"
    by (auto simp: layer_read_def)
  moreover have "decodes (c @ x @ y) k rb e" using decodes_append [OF assms(3), of y] by simp
  ultimately show "sp_path (fst s') = sp_path (fst s) \<and>
      (\<exists>new x. out = decoded @ new \<and> spooled s' (c @ x) \<and> list_all2 (decodes (c @ x) k) (rb # recs) new)"
    using assms(2) by (intro conjI exI [of _ "e # new"] exI [of _ "x @ y"]) simp_all
qed

lemma read_layer_loop_valid:
  assumes "newc_crate_ok nc" "reads_ok reads"
  shows "layer_ok recs \<Longrightarrow> spooled s c \<Longrightarrow>
    \<exists>r s'. read_layer_loop nc reads cancelled k i (layer_bytes recs) decoded s = Some (r, s')
      \<and> layer_read k recs decoded c s r s'"
proof (induction recs arbitrary: i decoded s c)
  case Nil
  have "nc_next nc (layer_bytes []) = Ok (record_entry trailer_record 0, [], Ok [])"
    using nc_next_record [OF assms(1) readable_trailer, of "[]"] by (simp add: layer_bytes_simps)
  moreover have "nc_is_trailer nc (record_entry trailer_record 0)"
    using assms(1) by (simp add: newc_crate_ok_def record_entry_def trailer_record_def)
  ultimately have "read_layer_loop nc reads cancelled k i (layer_bytes []) decoded s =
      Some (if cancelled i then Err OpCancelled else Ok decoded, s)"
    by (subst read_layer_loop.simps) simp
  with layer_read_Nil [OF Nil(2)] layer_read_error show ?case by (simp split: if_splits)
next
  case (Cons r recs)
  obtain rc body where r: "r = (rc, body)" by (cases r)
  let ?entry = "record_entry rc (word_of_nat (length body))" and ?rest = "layer_bytes recs"
  have ok: "readable (rc, body)" "rc_name rc \<noteq> TRAILER_NAME" "layer_ok recs"
    using Cons.prems(1) r by (auto simp: layer_ok_def)
  have nx: "nc_next nc (layer_bytes (r # recs)) = Ok (?entry, body, Ok ?rest)"
    using nc_next_record [OF assms(1) ok(1)] by (simp add: r layer_bytes_simps)
  have nt: "\<not> nc_is_trailer nc ?entry" using assms(1) ok(2) by (simp add: newc_crate_ok_def record_entry_def)
  have entry: "ne_name ?entry = rc_name rc" "ne_mode ?entry = rc_mode rc" "unat (ne_file_size ?entry) = length body"
    using readable_size [OF ok(1)] by (simp_all add: record_entry_def)
  have loop: "read_layer_loop nc reads cancelled k i (layer_bytes (r # recs)) decoded s =
      (if cancelled i then Some (Err OpCancelled, s)
       else (case normalize_path (rc_name rc) of
          Inl e \<Rightarrow> Some (Err e, s)
        | Inr name \<Rightarrow> (case whiteout_of name of
            Some wh \<Rightarrow> read_layer_loop nc reads cancelled k (Suc i) ?rest (decoded @ [LayerWhiteout wh]) s
          | None \<Rightarrow> (case decode_entry_metadata reads ?entry body (Ok ?rest) k s of
              (Inl e, s) \<Rightarrow> Some (Err e, s)
            | (Inr (md, rest), s) \<Rightarrow>
                read_layer_loop nc reads cancelled k (Suc i) rest (decoded @ [LayerRegular name md]) s))))"
    by (subst read_layer_loop.simps) (simp add: nx nt entry cong: option.case_cong sum.case_cong)
  show ?case
  proof (cases "normalize_path (rc_name rc)")
    case (Inl e)
    with loop layer_read_error show ?thesis by simp
  next
    case name: (Inr name)
    show ?thesis
    proof (cases "whiteout_of name")
      case (Some wh)
      have "decodes (c @ []) k r (LayerWhiteout wh)" using Some name by (auto simp: decodes_def r decode_named_def)
      note step = layer_read_Cons [OF _ refl this, of recs decoded s]
      from Cons.IH [OF ok(3) Cons.prems(2), of "Suc i" "decoded @ [LayerWhiteout wh]"] Some name loop step layer_read_error
      show ?thesis by (cases "cancelled i") auto
    next
      case None
      obtain res s1 where res: "decode_entry_metadata reads ?entry body (Ok ?rest) k s = (res, s1)"
        by (cases "decode_entry_metadata reads ?entry body (Ok ?rest) k s")
      show ?thesis
      proof (cases "\<exists>md rest. res = Ok (md, rest) \<and> \<not> cancelled i")
        case False
        with None name loop res layer_read_error show ?thesis by (auto split: sum.splits)
      next
        case True
        then obtain md rest where md: "res = Ok (md, rest)" "\<not> cancelled i" by blast
        from decode_entry_metadata_ok [OF Cons.prems(2) assms(2) res [unfolded md]] entry obtain x lb where
          d: "rest = ?rest" "sp_path (fst s1) = sp_path (fst s)" "spooled s1 (c @ x)" "md = entry_meta ?entry k lb"
            "in_spool (c @ x) lb" "stored (c @ x) lb = (if keeps_body (rc_mode rc) then body else [])" by auto
        have "decodes (c @ x) k r (LayerRegular name md)" using None name d by (auto simp: decodes_def r decode_named_def)
        note step = layer_read_Cons [OF _ d(2) this, of recs decoded]
        from Cons.IH [OF ok(3) d(3), of "Suc i" "decoded @ [LayerRegular name md]"] None name loop res md d(1) step
        show ?thesis by auto
      qed
    qed
  qed
qed

text \<open>A stack of archives and what its layers decode to, from layer \<open>k\<close> on.\<close>

fun decoded_stack :: "byte list \<Rightarrow> nat \<Rightarrow> (newc_record \<times> byte list) list list \<Rightarrow> layer_entry list list \<Rightarrow> bool" where
  "decoded_stack c k [] [] \<longleftrightarrow> True"
| "decoded_stack c k (recs # archives) (dec # decs) \<longleftrightarrow>
    list_all2 (decodes c k) recs dec \<and> decoded_stack c (Suc k) archives decs"
| "decoded_stack c k _ _ \<longleftrightarrow> False"

lemma decoded_stack_append: "decoded_stack c k archives decs \<Longrightarrow> decoded_stack (c @ x) k archives decs"
proof (induction c k archives decs rule: decoded_stack.induct)
  case (2 c k recs archives dec decs)
  then have "list_all2 (decodes (c @ x) k) recs dec" using decodes_append by (auto elim!: list_all2_mono)
  with 2 show ?case by simp
qed simp_all

lemma list_all2_right: "list_all2 P xs ys \<Longrightarrow> (\<And>x y. P x y \<Longrightarrow> Q y) \<Longrightarrow> list_all Q ys"
  by (induction rule: list_all2_induct) auto

lemma decoded_stack_entries: "decoded_stack c k archives decs \<Longrightarrow> list_all (list_all decoded_entry) decs"
proof (induction c k archives decs rule: decoded_stack.induct)
  case (2 c k recs archives dec decs)
  then have "list_all decoded_entry dec"
    using list_all2_right [of "decodes c k" recs dec decoded_entry] decodes_entry by auto
  with 2 show ?case by simp
qed simp_all

definition valid_layer :: "layer_file \<Rightarrow> (newc_record \<times> byte list) list \<Rightarrow> bool" where
  "valid_layer lf recs \<longleftrightarrow> lf_bytes lf = Some (layer_bytes recs) \<and> layer_ok recs"

definition state_built ::
  "nat \<Rightarrow> (newc_record \<times> byte list) list list \<Rightarrow> entries \<Rightarrow> byte list \<Rightarrow> spool \<times> disk \<Rightarrow>
   operation_error + entries \<Rightarrow> spool \<times> disk \<Rightarrow> bool" where
  "state_built k archives m c s r s' \<longleftrightarrow>
    (\<forall>out. r = Ok out \<longrightarrow> sp_path (fst s') = sp_path (fst s) \<and>
      (\<exists>decs x. out = fold apply_layer decs m \<and> spooled s' (c @ x) \<and> decoded_stack (c @ x) k archives decs))"

lemma state_built_Cons:
  assumes "layer_read k recs [] c s (Ok dec) s1" "\<And>x. spooled s1 (c @ x) \<Longrightarrow> state_built (Suc k) archives (apply_layer dec m) (c @ x) s1 r s'"
  shows "state_built k (recs # archives) m c s r s'"
proof -
  from assms(1) obtain x where x: "sp_path (fst s1) = sp_path (fst s)" "spooled s1 (c @ x)" "list_all2 (decodes (c @ x) k) recs dec"
    by (auto simp: layer_read_def)
  have dec: "list_all2 (decodes (c @ x @ y) k) recs dec" for y
    using x(3) decodes_append [of "c @ x"] by (auto elim: list_all2_mono)
  show ?thesis
    unfolding state_built_def
  proof (intro allI impI)
    fix out
    assume "r = Ok out"
    with assms(2) [OF x(2)] obtain decs y where "sp_path (fst s') = sp_path (fst s1)" "out = fold apply_layer decs (apply_layer dec m)"
      "spooled s' (c @ x @ y)" "decoded_stack (c @ x @ y) (Suc k) archives decs"
      by (auto simp: state_built_def)
    with x(1) dec show "sp_path (fst s') = sp_path (fst s) \<and>
      (\<exists>decs x. out = fold apply_layer decs m \<and> spooled s' (c @ x) \<and> decoded_stack (c @ x) k (recs # archives) decs)"
      by (intro conjI exI [of _ "dec # decs"] exI [of _ "x @ y"]) simp_all
  qed
qed

lemma build_state_valid:
  assumes "newc_crate_ok nc" "reads_ok reads"
  shows "list_all2 valid_layer layers archives \<Longrightarrow> spooled s c \<Longrightarrow>
    \<exists>r s'. build_state nc h reads cancelled k layers m s = Some (r, s') \<and> state_built k archives m c s r s'"
proof (induction layers arbitrary: archives k m s c)
  case Nil
  then show ?case by (auto simp: state_built_def intro!: exI [of _ "[]"])
next
  case (Cons lf layers)
  then obtain recs archives' where a: "archives = recs # archives'" "valid_layer lf recs" "list_all2 valid_layer layers archives'"
    by (auto simp: list_all2_Cons1)
  obtain r1 s1 where r1: "read_layer nc h reads (cancelled k) k lf s = Some (r1, s1)" "layer_read k recs [] c s r1 s1"
  proof (cases "bytes_digest h (layer_bytes recs) = lf_digest lf")
    case True
    with read_layer_loop_valid [OF assms _ Cons.prems(2), of recs "cancelled k" k 0 "[]"] a(2) that
    show ?thesis by (auto simp: read_layer_def valid_layer_def)
  next
    case False
    then show ?thesis
      using a(2) by (intro that [OF _ layer_read_error]) (simp add: read_layer_def valid_layer_def)
  qed
  show ?case
  proof (cases r1)
    case (Inl e)
    with r1 a(1) show ?thesis by (auto simp: state_built_def)
  next
    case (Inr dec)
    then obtain x where "spooled s1 (c @ x)" using r1(2) by (auto simp: layer_read_def)
    from Cons.IH [OF a(3) this, of "Suc k" "apply_layer dec m"] obtain r s' where
      rs: "build_state nc h reads cancelled (Suc k) layers (apply_layer dec m) s1 = Some (r, s')" by blast
    have "state_built (Suc k) archives' (apply_layer dec m) (c @ y) s1 r s'" if "spooled s1 (c @ y)" for y
      using Cons.IH [OF a(3) that, of "Suc k" "apply_layer dec m"] rs by simp
    with r1(2) have "state_built k (recs # archives') m c s r s'" unfolding Inr by (rule state_built_Cons)
    with rs r1(1) Inr a(1) show ?thesis by simp
  qed
qed

section \<open>What is emitted\<close>

text \<open>The record of an entry, and the body it carries.\<close>

definition emitted :: "hardlink_plan \<Rightarrow> byte list \<Rightarrow> string \<times> layer_meta \<Rightarrow> newc_record \<times> byte list \<Rightarrow> bool" where
  "emitted plan c = (\<lambda>(p, md) (rc, body). \<exists>a canonical n.
     assignment_for plan p = Some (a, canonical) \<and> plan_nlink_for plan p = Some n \<and> rc = flat_record p md a n
     \<and> body = (if canonical \<or> (\<forall>rg. lm_body md \<noteq> LbSpool (Some rg)) then stored c (lm_body md) else []))"

text \<open>A staging file that holds the records so far, beside an untouched spool.\<close>

definition emitting ::
  "path \<Rightarrow> path \<Rightarrow> path \<Rightarrow> byte list \<Rightarrow> (newc_record \<times> byte list) list \<Rightarrow> temp_writer \<times> disk \<Rightarrow> bool" where
  "emitting temp dest spath c recs = (\<lambda>(w, d).
     quiet d \<and> temp \<noteq> dest \<and> spath \<noteq> temp \<and> writer_inv temp dest None (archive_bytes recs) w d
     \<and> dk_files d spath = Some c \<and> list_all record_ok recs)"

lemma emitting_wrote:
  assumes "emitting temp dest spath c recs s" "wrote s rs s'"
  shows "emitting temp dest spath c (recs @ rs) s'"
proof -
  obtain w d w' d' where s: "s = (w, d)" "s' = (w', d')" by (cases s; cases s')
  note e = assms(1) [unfolded s emitting_def, simplified]
  obtain cs where cs: "tw_write_chunks cs (w, d) = (Ok (), w', d')" "concat cs = archive_bytes rs" "list_all record_ok rs"
    using assms(2) by (auto simp: wrote_def s)
  have "script_ok undefined undefined temp dest d" by (rule quiet_script_ok) (use e in \<open>auto simp: quiet_def\<close>)
  from write_chunks_cases [OF this, of None "archive_bytes recs" w cs] e cs
  have "writer_inv temp dest None (archive_bytes (recs @ rs)) w' d'" by (simp add: archive_bytes_def)
  moreover have "frame {temp} d d'"
    using tw_write_chunks_frame [OF _ cs(1)] e by (auto simp: writer_inv_def)
  ultimately show ?thesis using e cs(3) by (auto simp: s emitting_def frame_def)
qed

lemma emitting_handle:
  assumes "emitting temp dest spath c recs s" "spool_handle spath handle s = (Ok bytes, s')" "handle = None \<or> handle = Some c"
  shows "bytes = c \<and> emitting temp dest spath c recs s'"
proof -
  obtain w d where s: "s = (w, d)" by (cases s)
  note e = assms(1) [unfolded s emitting_def, simplified]
  show ?thesis
  proof (cases handle)
    case None
    with assms(2) s obtain d1 where d1: "fs_open spath d = (Ok bytes, d1)" "s' = (w, d1)"
      by (auto simp: spool_handle_def split: sum.splits prod.splits)
    with reading_quiet(3,4) [of d spath] e have "frame {} d d1" "bytes = c" by force+
    with e d1(2) show ?thesis by (auto simp: emitting_def frame_def writer_inv_def)
  next
    case (Some b)
    with assms s show ?thesis by (auto simp: spool_handle_def)
  qed
qed

lemma emit_entry_emitting:
  assumes "emit_entry reads spath rc body canonical handle s = (Ok handle', s')" "rc_body rc = BodyEmpty" "reads_ok reads"
    and "emitting temp dest spath c recs s" "handle = None \<or> handle = Some c"
  shows "(handle' = None \<or> handle' = Some c) \<and> emitting temp dest spath c
    (recs @ [(rc, if canonical \<or> (\<forall>rg. body \<noteq> LbSpool (Some rg)) then stored c body else [])]) s'"
proof -
  have entry: "handle' = handle \<and> emitting temp dest spath c (recs @ [(rc, [])]) s'"
    if "bindW (write_entry rc) (\<lambda>_. retW handle) s = (Ok handle', s')"
    using that emitting_wrote [OF assms(4) write_entry_wrote [of rc s]] assms(2) by (auto simp: writer_simps)
  consider "body = LbEmpty \<or> body = LbSpool None" | target where "body = LbSymlink target"
    | rg where "body = LbSpool (Some rg)" "\<not> canonical" | rg where "body = LbSpool (Some rg)" canonical
    by (metis layer_body.exhaust option.exhaust)
  then show ?thesis
  proof cases
    case 1
    with assms(1,5) entry show ?thesis by (auto simp: emit_entry_def)
  next
    case (2 target)
    with assms(1) obtain src' where w: "write_streaming_entry rc (word_of_nat (length target)) [ReadBytes target] s = (Ok src', s')"
      "handle' = handle" "length target < 2 ^ 32"
      by (auto simp: emit_entry_def writer_simps fits_u32_iff split: if_splits)
    from write_streaming_wrote [OF w(1)] have "wrote s [(rc, target)] s'" using w(3) by (force simp: unat_of_nat split: if_splits)
    with emitting_wrote [OF assms(4)] 2 w(2) assms(5) show ?thesis by simp
  next
    case (3 rg)
    with assms(1,5) entry show ?thesis by (auto simp: emit_entry_def)
  next
    case (4 rg)
    let ?b = "stored c body"
    from 4 assms(1) obtain bytes s1 src' where h: "spool_handle spath handle s = (Ok bytes, s1)" "handle' = Some bytes"
      and w: "write_streaming_entry rc (sr_size rg) (reads (take (unat (sr_size rg)) (drop (sr_offset rg) bytes))) s1 = (Ok src', s')"
      by (auto simp: emit_entry_def writer_simps)
    note e = emitting_handle [OF assms(4) h(1) assms(5)]
    from write_streaming_wrote [OF w] e obtain x where x: "wrote s1 [(rc, x)] s'" "x = take (unat (sr_size rg)) (available (reads ?b))"
      "length x = unat (sr_size rg)" using 4 by auto
    have "x = take (unat (sr_size rg)) ?b" using x reads_take(1) [OF assms(3), of "unat (sr_size rg)" ?b] by simp
    also have "\<dots> = ?b" by (simp add: 4)
    finally show ?thesis using emitting_wrote [OF conjunct2 [OF e] x(1)] e h(2) 4 by simp
  qed
qed

lemma emit_entries_emitting:
  "emit_entries reads spath plan m handle s = (Ok u, s') \<Longrightarrow> reads_ok reads \<Longrightarrow> emitting temp dest spath c recs s \<Longrightarrow>
   handle = None \<or> handle = Some c \<Longrightarrow>
   \<exists>new. list_all2 (emitted plan c) m new \<and> emitting temp dest spath c (recs @ new) s'"
proof (induction m arbitrary: handle s recs)
  case Nil
  then show ?case by (auto simp: writer_simps intro!: exI [of _ "[]"])
next
  case (Cons e m)
  obtain p md where e: "e = (p, md)" by (cases e)
  from Cons.prems(1) e obtain a canonical n handle' s1 where st: "assignment_for plan p = Some (a, canonical)" "plan_nlink_for plan p = Some n"
    "emit_entry reads spath (flat_record p md a n) (lm_body md) canonical handle s = (Ok handle', s1)"
    "emit_entries reads spath plan m handle' s1 = (Ok u, s')"
    by (auto simp: writer_simps split: option.splits)
  let ?r = "(flat_record p md a n, if canonical \<or> (\<forall>rg. lm_body md \<noteq> LbSpool (Some rg)) then stored c (lm_body md) else [])"
  have "(handle' = None \<or> handle' = Some c) \<and> emitting temp dest spath c (recs @ [?r]) s1"
    by (rule emit_entry_emitting [OF st(3) _ Cons.prems(2-4)]) (simp add: flat_record_def)
  with Cons.IH [OF st(4) Cons.prems(2)] obtain new where "list_all2 (emitted plan c) m new" "emitting temp dest spath c ((recs @ [?r]) @ new) s'"
    by blast
  moreover have "emitted plan c e ?r" using st by (cases a) (simp add: emitted_def e)
  ultimately show ?case by (intro exI [of _ "?r # new"]) simp
qed

section \<open>The flattened archive\<close>

lemma fs_remove_other:
  assumes "script_ok h E temp dest d" "p \<noteq> dest"
  shows "dk_files (ignoring (fs_remove_file p) d) dest = dk_files d dest
    \<or> holds_digest h E (dk_files (ignoring (fs_remove_file p) d) dest)"
proof -
  let ?op = "\<lambda>d. case dk_files d p of None \<Rightarrow> (Err (io_err NotFound), d)
      | Some _ \<Rightarrow> (Ok (), d\<lparr>dk_files := (dk_files d)(p := None)\<rparr>)"
  obtain d1 where "drift h E temp dest d d1" "dk_files d1 temp = dk_files d temp"
    "call ?op d = ?op d1 \<or> (\<exists>e. call ?op d = (Inl e, d1))"
    by (rule call_cases [OF assms(1), where op = ?op])
  then show ?thesis using assms(2)
    by (auto simp: ignoring_def fs_remove_file_def drift_def dest_drift_def split: option.splits)
qed

lemma emitting_published:
  assumes "emitting temp dest spath c recs (w, d)" "tw_flush (w, d) = (Ok u, w1, d1)" "tw_publish win h (w1, d1) = (Ok pf, d')"
  shows "pf_digest pf = bytes_digest h (archive_bytes recs)
    \<and> holds_digest h (bytes_digest h (archive_bytes recs)) (dk_files d' dest)
    \<and> script_ok h (bytes_digest h (archive_bytes recs)) temp dest d'"
proof -
  let ?E = "bytes_digest h (archive_bytes recs)"
  note e = assms(1) [unfolded emitting_def, simplified]
  have ok: "script_ok h ?E temp dest d" by (rule quiet_script_ok) (use e in \<open>auto simp: quiet_def\<close>)
  have "script_ok h ?E temp dest d1 \<and> writer_inv temp dest None (archive_bytes recs) w1 d1"
    by (rule flush_writer_inv [OF ok _ assms(2)]) (use e in simp)
  with publish_writer_cases [of h "archive_bytes recs" temp dest d1 None w1 win] assms(3) show ?thesis by simp
qed

lemma emit_Ok:
  assumes "emit win h reads unique dest spath m d = (Ok pf, d')"
    and "reads_ok reads" "quiet d" "dk_files d spath = Some c" "temp_path_for unique dest \<notin> {dest, spath}"
  shows "\<exists>plan recs. plan_hardlinks m = Some plan \<and> list_all2 (emitted plan c) m recs
    \<and> list_all record_ok recs
    \<and> pf_digest pf = bytes_digest h (layer_bytes recs) \<and> holds_digest h (bytes_digest h (layer_bytes recs)) (dk_files d' dest)
    \<and> script_ok h (bytes_digest h (layer_bytes recs)) (temp_path_for unique dest) dest d'"
proof -
  let ?temp = "temp_path_for unique dest"
  from assms(1) obtain w d1 plan w2 d2 w3 d3 where run: "tw_open unique dest d = (Ok w, d1)" "plan_hardlinks m = Some plan"
    "bindW (emit_entries reads spath plan m None) (\<lambda>_. failing write_trailer) (w, d1) = (Ok (), w2, d2)"
    "tw_flush (w2, d2) = (Ok (), w3, d3)" "tw_publish win h (w3, d3) = (Ok pf, d')"
    by (auto simp: emit_def split: option.splits sum.splits prod.splits)
  have "script_ok h undefined ?temp dest d" by (rule quiet_script_ok) (use assms(3,5) in \<open>auto simp: quiet_def\<close>)
  from open_writer_cases [OF this] run(1) have inv: "writer_inv ?temp dest None [] w d1" by simp
  have "frame {?temp} d d1"
    using fs_create_new_quiet [OF assms(3), of ?temp] run(1) by (auto simp: tw_open_def Let_def split: prod.splits sum.splits)
  then have start: "emitting ?temp dest spath c [] (w, d1)"
    using inv assms(4,5) by (auto simp: emitting_def frame_def archive_bytes_def)
  from run(3) obtain s1 where s1: "emit_entries reads spath plan m None (w, d1) = (Ok (), s1)" "write_trailer s1 = (Ok (), w2, d2)"
    by (auto simp: writer_simps)
  from emit_entries_emitting [OF s1(1) assms(2) start] obtain recs where recs: "list_all2 (emitted plan c) m recs"
    "emitting ?temp dest spath c recs s1" by auto
  have "wrote s1 [(trailer_record, [])] (w2, d2)"
    using write_entry_wrote [OF s1(2) [unfolded write_trailer_def]] by (simp add: trailer_record_def)
  from emitting_wrote [OF recs(2) this] have fin: "emitting ?temp dest spath c (recs @ [(trailer_record, [])]) (w2, d2)" .
  from emitting_published [OF fin run(4,5)] recs run(2) fin show ?thesis
    by (intro exI [of _ plan] exI [of _ recs]) (auto simp: layer_bytes_def emitting_def)
qed

lemma emitted_names: "list_all2 (emitted plan c) m recs \<Longrightarrow> record_names recs = bt_keys m"
  by (induction rule: list_all2_induct) (auto simp: bt_keys_def emitted_def flat_record_def)

lemma decodes_wf: "decodes c k r e \<Longrightarrow> wf_str (rc_name (fst r)) \<Longrightarrow> entry_path wf_str e"
  by (auto simp: decodes_def entry_path_def decode_named_def wf_str_normalize_path split: prod.splits option.splits)

lemma decoded_stack_wf:
  "decoded_stack c k archives decs \<Longrightarrow> list_all (list_all (\<lambda>r. wf_str (rc_name (fst r)))) archives \<Longrightarrow>
   list_all (list_all (entry_path wf_str)) decs"
proof (induction c k archives decs rule: decoded_stack.induct)
  case (2 c k recs archives dec decs)
  have "list_all2 (decodes c k) recs dec" "list_all (\<lambda>r. wf_str (rc_name (fst r))) recs" using 2 by simp_all
  then have "list_all (entry_path wf_str) dec" by (induction rule: list_all2_induct) (auto intro: decodes_wf)
  with 2 show ?case by simp
qed simp_all

lemma length_bt_insert: "length (bt_insert k v m) \<le> Suc (length m)"
  by (induction k v m rule: bt_insert.induct) auto

lemma length_remove_matching: "length (remove_matching P m) \<le> length m"
proof -
  have "length (fold bt_remove ks m) \<le> length m" for ks and m :: entries
  proof (induction ks arbitrary: m)
    case (Cons k ks)
    from Cons [of "bt_remove k m"] show ?case by (simp add: bt_remove_def) (meson length_filter_le le_trans)
  qed simp
  then show ?thesis by (simp add: remove_matching_def)
qed

lemma length_insert_entry: "length (insert_entry e m) \<le> Suc (length m)"
proof -
  obtain p md where e: "e = (p, md)" by force
  have ins: "length (bt_insert k v m') \<le> Suc (length m)" if "length m' \<le> length m" for k v and m' :: entries
    using length_bt_insert [of k v m'] that by simp
  have "length (bt_remove q m) \<le> length m" for q by (simp add: bt_remove_def)
  then show ?thesis
    by (auto simp: e insert_entry_def insert_and_replace_def remove_descendants_def length_remove_matching
      intro!: ins split: option.splits)
qed

lemma length_apply_layer: "length (apply_layer decoded m) \<le> length m + length decoded"
proof -
  have white: "length (apply_whiteout wh m) \<le> length m" for wh m
    by (cases wh) (simp_all add: remove_subtree_def length_remove_matching Let_def)
  have ins: "length (fold insert_entry es m) \<le> length m + length es" for es m
  proof (induction es arbitrary: m)
    case (Cons e es)
    from Cons [of "insert_entry e m"] length_insert_entry [of e m] show ?case by simp
  qed simp
  have "length m' + length rs' \<le> length m + length rs + length decoded" if "split_layer decoded m rs = (m', rs')" for m' rs' rs m
    using that
  proof (induction decoded m rs arbitrary: m' rs' rule: split_layer.induct)
    case (2 wh rest m rs)
    then show ?case using white [of wh m] by fastforce
  qed fastforce+
  moreover obtain m' rs' where sl: "split_layer decoded m [] = (m', rs')" by force
  ultimately have "length m' + length rs' \<le> length m + length decoded" by fastforce
  with ins [of rs' m'] sl show ?thesis by (simp add: apply_layer_def)
qed

lemma length_apply_layers: "length (fold apply_layer decs m) \<le> length m + sum_list (map length decs)"
proof (induction decs arbitrary: m)
  case (Cons d decs)
  from Cons [of "apply_layer d m"] length_apply_layer [of d m] show ?case by simp
qed simp

lemma decoded_stack_lengths: "decoded_stack c k archives decs \<Longrightarrow> map length decs = map length archives"
  by (induction c k archives decs rule: decoded_stack.induct) (auto dest: list_all2_lengthD)

lemma bindW_Err: "bindW m f s = (Err e, s') \<longleftrightarrow> m s = (Err e, s') \<or> (\<exists>a s1. m s = (Ok a, s1) \<and> f a s1 = (Err e, s'))"
  by (auto simp: bindW_def split: prod.splits sum.splits)

lemma failing_no_panic: "failing m s \<noteq> (Err Panic, s')"
  by (auto simp: failing_def mapErr_def split: prod.splits sum.splits)

lemma emit_entries_no_panic:
  "\<forall>p \<in> fst ` set m. assignment_for plan p \<noteq> None \<and> plan_nlink_for plan p \<noteq> None \<Longrightarrow>
   emit_entries reads spath plan m handle s \<noteq> (Err Panic, s')"
proof (induction m arbitrary: handle s)
  case Nil
  then show ?case by (simp add: retW_def)
next
  case (Cons e m)
  obtain p md where e: "e = (p, md)" by force
  with Cons.prems obtain a can n where "assignment_for plan p = Some (a, can)" "plan_nlink_for plan p = Some n" by auto
  moreover have "failing (emit_entry reads spath (flat_record p md a n) (lm_body md) can handle) s \<noteq> (Err Panic, s')"
    by (rule failing_no_panic)
  ultimately show ?case using Cons e by (auto simp: bindW_Err)
qed

lemma planned_keys:
  assumes "bt_ok m" "length m < 2 ^ 31"
  obtains plan where "plan_hardlinks m = Some plan"
    "\<forall>p \<in> fst ` set m. assignment_for plan p \<noteq> None \<and> plan_nlink_for plan p \<noteq> None"
proof -
  obtain plan where plan: "plan_hardlinks m = Some plan" "planned (all_groups m) plan"
    by (rule plan_hardlinks_planned [OF assms])
  have "assignment_for plan p \<noteq> None \<and> plan_nlink_for plan p \<noteq> None" if "p \<in> fst ` set m" for p
  proof -
    have "bt_get m p \<noteq> None" using that by (simp add: bt_get_def map_of_eq_None_iff)
    then obtain i c where i: "i < length (all_groups m)" "all_groups m ! i = (inode_names m p, c)"
      by (rule group_of [OF assms(1)])
    have "p \<in> set (inode_names m p)" using in_inode_names [OF assms(1)] by (simp add: same_inode_def)
    from planned_entry(2,3) [OF plan(2) i this] show ?thesis by simp
  qed
  with plan(1) that show ?thesis by blast
qed

lemma emit_no_panic:
  assumes "bt_ok m" "length m < 2 ^ 31"
  shows "emit win h reads unique dest spath m d \<noteq> (Err Panic, d')"
proof -
  obtain plan where plan: "plan_hardlinks m = Some plan"
    "\<forall>p \<in> fst ` set m. assignment_for plan p \<noteq> None \<and> plan_nlink_for plan p \<noteq> None"
    by (rule planned_keys [OF assms])
  have "bindW (emit_entries reads spath plan m None) (\<lambda>_. failing write_trailer) s \<noteq> (Err Panic, s')" for s s'
    by (simp add: bindW_Err emit_entries_no_panic [OF plan(2)] failing_no_panic)
  then show ?thesis
    using plan(1) by (auto simp: emit_def split: option.splits sum.splits prod.splits)
qed

lemma spool_open_spooled:
  assumes "quiet d" "spool_open su dest d = (Ok sp, d1)"
  shows "sp_path sp = spool_path_for su dest" "spooled (sp, d1) []"
proof -
  from assms(2) obtain d0 where d0: "fs_create_dir_all (butlast dest) d = (Ok (), d0)"
    "fs_create_new (spool_path_for su dest) d0 = (Ok (), d1)" "sp = \<lparr>sp_path = spool_path_for su dest, sp_cursor = 0\<rparr>"
    by (auto simp: spool_open_def Let_def split: sum.splits prod.splits)
  have "quiet d0" using reading_quiet(2) [OF assms(1), of "butlast dest"] d0(1) by (simp add: frame_def)
  from fs_create_new_quiet [OF this, of "spool_path_for su dest"] d0 show "sp_path sp = spool_path_for su dest" "spooled (sp, d1) []"
    by (auto simp: spooled_def frame_def)
qed

lemma valid_layers_wf: "list_all2 valid_layer layers archives \<Longrightarrow> list_all (list_all (\<lambda>r. wf_str (rc_name (fst r)))) archives"
  by (induction rule: list_all2_induct) (auto simp: valid_layer_def layer_ok_def readable_def list_all_iff)

text \<open>What the layers decode to, as an ordered map with valid names.\<close>

lemma flattened_state:
  assumes "decoded_stack c 0 archives decs" "list_all2 valid_layer layers archives"
  shows "bt_ok (fold apply_layer decs [])" "list_all wf_str (bt_keys (fold apply_layer decs []))"
    "length (fold apply_layer decs []) \<le> sum_list (map length archives)"
proof -
  have ok: "bt_ok ([] :: entries)" "bt_get ([] :: entries) = (\<lambda>_. None)"
    by (simp_all add: bt.ok_empty bt.get_empty fun_eq_iff)
  note r = apply_layers_refine [OF ok(1) decoded_layers_ok(1) [OF decoded_stack_entries [OF assms(1)]], unfolded ok(2)]
  then show "bt_ok (fold apply_layer decs [])" by blast
  have "\<forall>k \<in> dom (fold overlay decs (\<lambda>_. None)). wf_str k"
    by (rule wf_paths.overlays_kept [OF decoded_stack_wf [OF assms(1) valid_layers_wf [OF assms(2)]]]) simp
  then show "list_all wf_str (bt_keys (fold apply_layer decs []))"
    using bt.set_keys [of "fold apply_layer decs []"] r by (simp add: list_all_iff)
  show "length (fold apply_layer decs []) \<le> sum_list (map length archives)"
    using length_apply_layers [of decs "[]"] decoded_stack_lengths [OF assms(1)] by simp
qed

definition flattened ::
  "newc_crate \<Rightarrow> hashes \<Rightarrow> (newc_record \<times> byte list) list list \<Rightarrow> file_digest \<Rightarrow> byte list option \<Rightarrow> bool" where
  "flattened nc h archives dg file \<longleftrightarrow>
    (\<exists>decs c plan recs. decoded_stack c 0 archives decs
      \<and> plan_hardlinks (fold apply_layer decs []) = Some plan
      \<and> list_all2 (emitted plan c) (fold apply_layer decs []) recs
      \<and> dg = bytes_digest h (layer_bytes recs) \<and> holds_digest h dg file
      \<and> sorted_wrt (<) (record_names recs)
      \<and> (TRAILER_NAME \<notin> set (record_names recs) \<and> list_all (\<lambda>p. length p + 1 < 2 ^ 32) (record_names recs) \<longrightarrow>
           layer_ok recs \<and> validate_blocking nc h never dg (Some (layer_bytes recs)) = Some (Ok ())))"

lemma emitted_valid:
  assumes "newc_crate_ok nc" "list_all record_ok recs" "list_all wf_str (record_names recs)"
    and "TRAILER_NAME \<notin> set (record_names recs)" "list_all (\<lambda>p. length p + 1 < 2 ^ 32) (record_names recs)"
  shows "layer_ok recs \<and> validate_blocking nc h never (bytes_digest h (layer_bytes recs)) (Some (layer_bytes recs)) = Some (Ok ())"
proof -
  have "list_all readable recs" using assms(2,3,5) by (auto simp: list_all_iff readable_def record_names_def)
  with validate_archive [OF assms(1) this assms(4), of 0] assms(4) show ?thesis
    by (simp add: layer_ok_def validate_blocking_def layer_bytes_def)
qed

lemma run_blocking_flattened:
  assumes "newc_crate_ok nc" "reads_ok reads" "list_all2 valid_layer layers archives" "sum_list (map length archives) < 2 ^ 31"
    and "quiet d" "distinct [dest, temp_path_for unique dest, spool_path_for su dest]"
  shows "\<exists>r d'. run_blocking nc win h reads cancelled su unique dest layers d = Some (r, d') \<and> r \<noteq> Err Panic
    \<and> (\<forall>dg. r = Ok dg \<longrightarrow> flattened nc h archives dg (dk_files d' dest))"
proof (cases "spool_open su dest d")
  case (Pair o1 d1)
  show ?thesis
  proof (cases o1)
    case (Inl e)
    with Pair show ?thesis by (simp add: run_blocking_def)
  next
    case (Inr sp)
    note sp = spool_open_spooled [OF assms(5) Pair [unfolded Inr]]
    obtain r sp' d2 where b: "build_state nc h reads cancelled 0 layers [] (sp, d1) = Some (r, sp', d2)"
      "state_built 0 archives [] [] (sp, d1) r (sp', d2)"
      using build_state_valid [OF assms(1,2,3) sp(2), of h cancelled 0 "[]"] by auto
    show ?thesis
    proof (cases r)
      case (Inl e)
      with b Pair \<open>o1 = _\<close> show ?thesis by (simp add: run_blocking_def)
    next
      case (Inr m)
      with b(2) sp(1) obtain decs c where dec: "m = fold apply_layer decs []" "spooled (sp', d2) c" "decoded_stack c 0 archives decs"
        "sp_path sp' = spool_path_for su dest" by (auto simp: state_built_def)
      note m = flattened_state [OF dec(3) assms(3), folded dec(1)]
      obtain x d3 where e: "emit win h reads unique dest (sp_path sp') m d2 = (x, d3)" by (cases "emit win h reads unique dest (sp_path sp') m d2")
      then have np: "x \<noteq> Err Panic" using emit_no_panic [of m] m(1,3) assms(4) by auto
      have run: "run_blocking nc win h reads cancelled su unique dest layers d = Some (map_sum id pf_digest x, spool_drop sp' d3)"
        using Pair \<open>o1 = _\<close> b(1) Inr e by (simp add: run_blocking_def split: sum.splits)
      have "flattened nc h archives (pf_digest pf) (dk_files (spool_drop sp' d3) dest)" if x: "x = Ok pf" for pf
      proof -
        obtain plan recs where rc: "plan_hardlinks m = Some plan" "list_all2 (emitted plan c) m recs" "list_all record_ok recs"
          "pf_digest pf = bytes_digest h (layer_bytes recs)" "holds_digest h (bytes_digest h (layer_bytes recs)) (dk_files d3 dest)"
          "script_ok h (bytes_digest h (layer_bytes recs)) (temp_path_for unique dest) dest d3"
          using emit_Ok [OF e [unfolded x] assms(2), of c] dec(2,4) assms(6) by (auto simp: spooled_def)
        have "holds_digest h (bytes_digest h (layer_bytes recs)) (dk_files (spool_drop sp' d3) dest)"
          using fs_remove_other [OF rc(6), of "sp_path sp'"] rc(5) dec(4) assms(6) by (auto simp: spool_drop_def)
        moreover have names: "record_names recs = bt_keys m" by (rule emitted_names [OF rc(2)])
        moreover have "sorted_wrt (<) (record_names recs)" using bt.keys_sorted [OF m(1)] names by simp
        moreover note emitted_valid [OF assms(1) rc(3), of h] m(2)
        ultimately show ?thesis using rc dec unfolding flattened_def by (metis (no_types, lifting))
      qed
      with run np show ?thesis by (cases x) auto
    qed
  qed
qed

section \<open>Properties\<close>

lemma check_layers_Ok:
  "check_layers src = Ok ls \<longleftrightarrow>
    ls = map fs_layer src \<and> list_all (\<lambda>s. fs_type s = ArtContainerCpio \<and> fs_compression s = CompNone) src"
  by (induction src arbitrary: ls rule: check_layers.induct) (auto simp: result_simps)


definition whole :: "byte list \<Rightarrow> read_step list" where
  "whole b = [ReadBytes b]"

lemma reads_ok_whole: "reads_ok whole"
  by (simp add: reads_ok_def whole_def)

definition sample_record :: "string \<Rightarrow> u32 \<Rightarrow> newc_record" where
  "sample_record name nlink = trailer_record\<lparr>rc_name := name, rc_mode := 33188, rc_nlink := nlink, rc_ino := 1\<rparr>"

text \<open>A file with two names, as the conversion writes it, and a layer that removes the first name.\<close>

definition sample_archives :: "(newc_record \<times> byte list) list list" where
  "sample_archives =
    [[(sample_record ''a'' 2, [7]), (sample_record ''b'' 2, [])], [(sample_record ''.wh.a'' 1, [])]]"

definition sample_layers :: "flatten_source list" where
  "sample_layers = map (\<lambda>recs. \<lparr>fs_type = ArtContainerCpio, fs_compression = CompNone,
     fs_layer = \<lparr>lf_digest = bytes_digest sample_hashes (layer_bytes recs), lf_bytes = Some (layer_bytes recs)\<rparr>\<rparr>) sample_archives"

definition sample_flatten :: "((operation_error fault + file_digest) \<times> disk) option" where
  "sample_flatten = flatten format_reader False sample_hashes whole (\<lambda>_ _. False) False ''1'' ''2'' NsRootfs [''r''] sample_layers
     \<lparr>dk_files = Map.empty, dk_dirs = {[]}, dk_script = []\<rparr>"

lemma sample_flatten_run:
  "case sample_flatten of
     None \<Rightarrow> False
   | Some (r, d') \<Rightarrow> isOk r
       \<and> map_option (\<lambda>(entry, body, _). (ne_name entry, ne_nlink entry, body)) (newc_parse (the (dk_files d' [''r''])))
         = Some (''b'', 1, [])"
  by code_simp



end
