(* ===== verification/IndexCodec.thy ===== *)
theory IndexCodec
  imports Artifact
begin

text \<open>
  The persisted byte forms of the image index, \<^verbatim>\<open>libs/image-core/src/storage/index/serde.rs\<close>. A
  decoder asserts widths, tags and lengths, so it has two outcomes: a value, or a panic, which is
  \<open>None\<close>. Two interfaces are stated: \<open>cursor_field\<close>, a field with the cursor reader that undoes it,
  and \<open>redb_value\<close>, a complete encoding whose decoder accepts exactly the encodings.
\<close>

section \<open>Fixed-width values\<close>

definition slice :: "nat \<Rightarrow> nat \<Rightarrow> 'a list \<Rightarrow> 'a list" where
  "slice i j xs = take (j - i) (drop i xs)"

definition file_ref_encode :: "file_ref \<Rightarrow> byte list" where
  "file_ref_encode r =
    fr_uuid r @ [ns_to_bytes (fr_namespace r)] @ fd_hash (fr_file_digest r)
    @ be_bytes 16 (fd_size (fr_file_digest r))
    @ [type_to_bytes (fr_type r), compression_to_bytes (fr_compression r)]"

definition file_ref_decode :: "byte list \<Rightarrow> file_ref option" where
  "file_ref_decode bytes =
    (if length bytes \<noteq> 67 then None
     else do {
       ns \<leftarrow> ns_from_bytes (bytes ! 16);
       ty \<leftarrow> type_from_bytes (bytes ! 65);
       cp \<leftarrow> compression_from_bytes (bytes ! 66);
       Some \<lparr>fr_uuid = slice 0 16 bytes, fr_namespace = ns,
             fr_file_digest = \<lparr>fd_hash = slice 17 49 bytes, fd_size = be_val (slice 49 65 bytes)\<rparr>,
             fr_type = ty, fr_compression = cp\<rparr>
     })"

definition link_ref_encode :: "link_ref \<Rightarrow> byte list" where
  "link_ref_encode r =
    lr_uuid r @ [ns_to_bytes (lr_namespace r)] @ ld_hash (lr_link_digest r)
    @ be_bytes 16 (ld_size (lr_link_digest r))"

definition link_ref_decode :: "byte list \<Rightarrow> link_ref option" where
  "link_ref_decode bytes =
    (if length bytes \<noteq> 65 then None
     else do {
       ns \<leftarrow> ns_from_bytes (bytes ! 16);
       Some \<lparr>lr_uuid = slice 0 16 bytes, lr_namespace = ns,
             lr_link_digest = \<lparr>ld_hash = slice 17 49 bytes, ld_size = be_val (slice 49 65 bytes)\<rparr>\<rparr>
     })"

definition link_digest_encode :: "link_digest \<Rightarrow> byte list" where
  "link_digest_encode d = ld_hash d @ be_bytes 16 (ld_size d)"

definition link_digest_decode :: "byte list \<Rightarrow> link_digest option" where
  "link_digest_decode bytes =
    (if length bytes \<noteq> 48 then None
     else Some \<lparr>ld_hash = slice 0 32 bytes, ld_size = be_val (slice 32 48 bytes)\<rparr>)"

definition link_key_encode :: "namespaced_link_digest \<Rightarrow> byte list" where
  "link_key_encode k =
    [ns_to_bytes (nl_namespace k)] @ ld_hash (nl_link_digest k) @ be_bytes 16 (ld_size (nl_link_digest k))"

definition link_key_decode :: "byte list \<Rightarrow> namespaced_link_digest option" where
  "link_key_decode bytes =
    (if length bytes \<noteq> 49 then None
     else do {
       ns \<leftarrow> ns_from_bytes (bytes ! 0);
       Some \<lparr>nl_namespace = ns,
             nl_link_digest = \<lparr>ld_hash = slice 1 33 bytes, ld_size = be_val (slice 33 49 bytes)\<rparr>\<rparr>
     })"

definition id_encode :: "artifact_id \<Rightarrow> byte list" where
  "id_encode i = [ns_to_bytes (ai_namespace i)] @ ai_uuid i"

definition id_decode :: "byte list \<Rightarrow> artifact_id option" where
  "id_decode bytes =
    (if length bytes \<noteq> 17 then None
     else do {
       ns \<leftarrow> ns_from_bytes (bytes ! 0);
       Some \<lparr>ai_namespace = ns, ai_uuid = slice 1 17 bytes\<rparr>
     })"

definition file_key_encode :: "namespaced_file_digest \<Rightarrow> byte list" where
  "file_key_encode k =
    [ns_to_bytes (nf_namespace k)] @ fd_hash (nf_file_digest k) @ be_bytes 16 (fd_size (nf_file_digest k))"

definition file_key_decode :: "byte list \<Rightarrow> namespaced_file_digest option" where
  "file_key_decode bytes =
    (if length bytes \<noteq> 49 then None
     else do {
       ns \<leftarrow> ns_from_bytes (bytes ! 0);
       Some \<lparr>nf_namespace = ns,
             nf_file_digest = \<lparr>fd_hash = slice 1 33 bytes, fd_size = be_val (slice 33 49 bytes)\<rparr>\<rparr>
     })"

section \<open>The cursor\<close>

record cursor =
  cu_bytes :: "byte list"
  cu_pos :: nat

definition cursor_new :: "byte list \<Rightarrow> cursor" where
  "cursor_new bytes = \<lparr>cu_bytes = bytes, cu_pos = 0\<rparr>"

definition cursor_byte :: "cursor \<Rightarrow> (u8 \<times> cursor) option" where
  "cursor_byte c =
    (if cu_pos c < length (cu_bytes c)
     then Some (cu_bytes c ! cu_pos c, c\<lparr>cu_pos := cu_pos c + 1\<rparr>) else None)"

text \<open>\<open>checked_add\<close> on the position, then the checked slice.\<close>

definition cursor_take :: "nat \<Rightarrow> cursor \<Rightarrow> (byte list \<times> cursor) option" where
  "cursor_take n c =
    (let stop = cu_pos c + n in
     if stop > usize_max then None
     else if stop > length (cu_bytes c) then None
     else Some (slice (cu_pos c) stop (cu_bytes c), c\<lparr>cu_pos := stop\<rparr>))"

definition cursor_array :: "nat \<Rightarrow> cursor \<Rightarrow> (byte list \<times> cursor) option" where
  "cursor_array n c = cursor_take n c"

text \<open>\<open>u32::from_be_bytes(cursor.take_array_4())\<close> and its wider forms.\<close>

definition cursor_be :: "nat \<Rightarrow> cursor \<Rightarrow> (nat \<times> cursor) option" where
  "cursor_be n c = do { (bytes, c) \<leftarrow> cursor_array n c; Some (be_val bytes, c) }"

definition cursor_consumed :: "cursor \<Rightarrow> bool" where
  "cursor_consumed c \<longleftrightarrow> cu_pos c = length (cu_bytes c)"

section \<open>Paths\<close>

fun encode_path :: "os_path \<Rightarrow> byte list" where
  "encode_path (UnixPath bytes) = bytes"
| "encode_path (WidePath units) = concat (map (\<lambda>u. le_bytes 2 (unat u)) units)"

text \<open>\<open>chunks_exact(2)\<close> and \<open>u16::from_le_bytes\<close>.\<close>

fun wide_units :: "byte list \<Rightarrow> u16 list" where
  "wide_units (a # b # bs) = word_of_nat (le_val [a, b]) # wide_units bs"
| "wide_units _ = []"

definition decode_path :: "bool \<Rightarrow> byte list \<Rightarrow> os_path option" where
  "decode_path unix bytes =
    (if unix then Some (UnixPath bytes)
     else if odd (length bytes) then None
     else Some (WidePath (wide_units bytes)))"

section \<open>Blueprints\<close>

definition BLUEPRINT_FORMAT_MARKER :: u8 where
  "BLUEPRINT_FORMAT_MARKER = 2"

definition LINK_LOCAL :: u8 where
  "LINK_LOCAL = 1"

definition LINK_BYTES :: u8 where
  "LINK_BYTES = 2"

definition LINK_HTTP :: u8 where
  "LINK_HTTP = 3"

definition MAX_LAYER_COUNT :: u32 where
  "MAX_LAYER_COUNT = 100000"

text \<open>\<open>payload.len() <= MAX_PAYLOAD_LEN\<close>; the bound is \<open>u32::MAX\<close>.\<close>

definition payload_fits :: "nat \<Rightarrow> bool" where
  "payload_fits n \<longleftrightarrow> fits_u32 n"

definition encode_expected_digest :: "expected_digest \<Rightarrow> byte list" where
  "encode_expected_digest d =
    [digest_discriminant d] @ be_bytes 4 (length (digest_bytes d)) @ digest_bytes d"

definition decode_expected_digest :: "cursor \<Rightarrow> (expected_digest \<times> cursor) option" where
  "decode_expected_digest c = do {
     (discriminant, c) \<leftarrow> cursor_byte c;
     (len, c) \<leftarrow> cursor_be 4 c;
     if len = 32 \<or> len = 64 then do {
       (payload, c) \<leftarrow> cursor_take len c;
       d \<leftarrow> digest_from_parts discriminant payload;
       Some (d, c)
     } else None
   }"

fun link_payload :: "artifact_link \<Rightarrow> u8 \<times> byte list" where
  "link_payload (LinkLocal path _) = (LINK_LOCAL, encode_path path)"
| "link_payload (LinkBytes payload _) = (LINK_BYTES, payload)"
| "link_payload (LinkHttp url _) = (LINK_HTTP, str_bytes url)"

definition encode_layer :: "layer \<Rightarrow> byte list option" where
  "encode_layer l =
    (let (variant, payload) = link_payload (ly_link l) in
     if \<not> payload_fits (length payload) then None
     else Some (ly_uuid l @ [variant] @ be_bytes 8 (length payload) @ payload
                @ be_bytes 16 (unat (link_size (ly_link l)))
                @ encode_expected_digest (ly_expected_digest l)
                @ link_digest_encode (ly_link_digest l)))"

definition decode_link :: "bool \<Rightarrow> u8 \<Rightarrow> byte list \<Rightarrow> u128 \<Rightarrow> artifact_link option" where
  "decode_link unix variant payload sz =
    (if variant = LINK_LOCAL then map_option (\<lambda>p. LinkLocal p sz) (decode_path unix payload)
     else if variant = LINK_BYTES then Some (LinkBytes payload sz)
     else if variant = LINK_HTTP then map_option (\<lambda>url. LinkHttp url sz) (from_utf8 payload)
     else None)"

definition decode_layer :: "bool \<Rightarrow> cursor \<Rightarrow> (layer \<times> cursor) option" where
  "decode_layer unix c = do {
     (uuid, c) \<leftarrow> cursor_array 16 c;
     (variant, c) \<leftarrow> cursor_byte c;
     (payload_len, c) \<leftarrow> cursor_be 8 c;
     if \<not> payload_fits payload_len then None
     else do {
       (payload, c) \<leftarrow> cursor_take payload_len c;
       (sz, c) \<leftarrow> cursor_be 16 c;
       link \<leftarrow> decode_link unix variant payload (word_of_nat sz);
       (expected, c) \<leftarrow> decode_expected_digest c;
       (digest_bytes, c) \<leftarrow> cursor_take 48 c;
       digest \<leftarrow> link_digest_decode digest_bytes;
       Some (\<lparr>ly_uuid = uuid, ly_link = link, ly_expected_digest = expected, ly_link_digest = digest\<rparr>, c)
     }
   }"

fun encode_layers :: "layer list \<Rightarrow> byte list option" where
  "encode_layers [] = Some []"
| "encode_layers (l # ls) = do { b \<leftarrow> encode_layer l; bs \<leftarrow> encode_layers ls; Some (b @ bs) }"

text \<open>The loop over \<open>layer_count\<close>, on the count as a natural.\<close>

fun decode_layers :: "bool \<Rightarrow> nat \<Rightarrow> cursor \<Rightarrow> (layer list \<times> cursor) option" where
  "decode_layers unix 0 c = Some ([], c)"
| "decode_layers unix (Suc n) c = do {
     (l, c) \<leftarrow> decode_layer unix c;
     (ls, c) \<leftarrow> decode_layers unix n c;
     Some (l # ls, c)
   }"

definition encode_extract :: "os_path option \<Rightarrow> byte list" where
  "encode_extract extract =
    (case extract of
       None \<Rightarrow> [0]
     | Some path \<Rightarrow> [1] @ be_bytes 8 (length (encode_path path)) @ encode_path path)"

definition decode_extract :: "bool \<Rightarrow> cursor \<Rightarrow> (os_path option \<times> cursor) option" where
  "decode_extract unix c = do {
     (present, c) \<leftarrow> cursor_byte c;
     if present = 0 then Some (None, c)
     else if present = 1 then do {
       (len, c) \<leftarrow> cursor_be 8 c;
       if \<not> payload_fits len then None
       else do {
         (path_bytes, c) \<leftarrow> cursor_take len c;
         path \<leftarrow> decode_path unix path_bytes;
         Some (Some path, c)
       }
     } else None
   }"

definition blueprint_encode :: "blueprint \<Rightarrow> byte list option" where
  "blueprint_encode b =
    (let layer_count = length (bp_layers b) in
     if \<not> fits_u32 layer_count then None
     else if int layer_count > uint MAX_LAYER_COUNT then None
     else do {
       layers \<leftarrow> encode_layers (bp_layers b);
       Some ([BLUEPRINT_FORMAT_MARKER] @ bp_target_uuid b @ [ns_to_bytes (bp_target_namespace b)]
             @ be_bytes 4 layer_count @ layers @ encode_extract (bp_extract b))
     })"

definition blueprint_decode :: "bool \<Rightarrow> byte list \<Rightarrow> blueprint option" where
  "blueprint_decode unix bytes = do {
     (marker, c) \<leftarrow> cursor_byte (cursor_new bytes);
     if marker \<noteq> BLUEPRINT_FORMAT_MARKER then None
     else do {
       (uuid, c) \<leftarrow> cursor_array 16 c;
       (ns_byte, c) \<leftarrow> cursor_byte c;
       ns \<leftarrow> ns_from_bytes ns_byte;
       (layer_count, c) \<leftarrow> cursor_be 4 c;
       if int layer_count > uint MAX_LAYER_COUNT then None
       else do {
         (layers, c) \<leftarrow> decode_layers unix layer_count c;
         (extract, c) \<leftarrow> decode_extract unix c;
         if cursor_consumed c
         then Some \<lparr>bp_target_uuid = uuid, bp_target_namespace = ns, bp_layers = layers, bp_extract = extract\<rparr>
         else None
       }
     }
   }"

section \<open>Fixed-width values are exact\<close>

text \<open>A persisted type: its decoder accepts exactly the encodings of its values.\<close>

locale redb_value =
  fixes enc :: "'a \<Rightarrow> byte list"
    and dec :: "byte list \<Rightarrow> 'a option"
    and wf :: "'a \<Rightarrow> bool"
  assumes dec_iff: "dec bs = Some x \<longleftrightarrow> wf x \<and> bs = enc x"
begin

lemma dec_enc [simp]: "wf x \<Longrightarrow> dec (enc x) = Some x"
  by (simp add: dec_iff)

lemma enc_inj: "wf x \<Longrightarrow> wf y \<Longrightarrow> enc x = enc y \<longleftrightarrow> x = y"
  by (metis dec_enc option.inject)

end

lemma be16_mod: "n < 2 ^ 128 \<Longrightarrow> be_val (be_bytes 16 n) = n"
  by (simp add: be_val_be_bytes)

lemma be_val_16_less: "length bs = 16 \<Longrightarrow> be_val bs < 2 ^ 128"
  using be_val_less [of bs] by simp

lemmas codec_simps = slice_def nth_append wf_defs ns_from_bytes_iff type_from_bytes_iff
  compression_from_bytes_iff be_bytes_be_val be16_mod bind_eq_Some_conv

lemmas codec_eval = slice_def nth_append wf_defs be16_mod

lemma width_48: "length bs = 48 \<Longrightarrow> \<exists>x s. bs = x @ s \<and> length x = 32 \<and> length s = 16"
  by (rule exI [of _ "take 32 bs"], rule exI [of _ "drop 32 bs"]) simp

lemma width_49: "length bs = 49 \<Longrightarrow> \<exists>n x s. bs = n # x @ s \<and> length x = 32 \<and> length s = 16"
  using width_48 [of "tl bs"] by (cases bs) auto

lemma width_65:
  assumes "length bs = 65"
  shows "\<exists>u n x s. bs = u @ n # x @ s \<and> length u = 16 \<and> length x = 32 \<and> length s = 16"
proof -
  obtain n x s where "drop 16 bs = n # x @ s" "length x = 32" "length s = 16"
    using width_49 [of "drop 16 bs"] assms by auto
  moreover have "bs = take 16 bs @ drop 16 bs" "length (take 16 bs) = 16" using assms by simp_all
  ultimately show ?thesis by metis
qed

lemma width_67:
  assumes "length bs = 67"
  shows "\<exists>u n x s t p. bs = u @ n # x @ s @ [t, p] \<and> length u = 16 \<and> length x = 32 \<and> length s = 16"
proof -
  obtain u n x s where "take 65 bs = u @ n # x @ s" "length u = 16" "length x = 32" "length s = 16"
    using width_65 [of "take 65 bs"] assms by auto
  moreover have "length (drop 65 bs) = Suc (Suc 0)" using assms by simp
  then obtain t p where "drop 65 bs = [t, p]" unfolding length_Suc_conv by auto
  moreover have "bs = take 65 bs @ drop 65 bs" by simp
  ultimately have "bs = u @ n # x @ s @ [t, p]" by simp
  with \<open>length u = 16\<close> \<open>length x = 32\<close> \<open>length s = 16\<close> show ?thesis by blast
qed

interpretation file_ref_value: redb_value file_ref_encode file_ref_decode wf_file_ref
proof
  fix bs r
  have "wf_file_ref r \<and> bs = file_ref_encode r" if d: "file_ref_decode bs = Some r"
  proof -
    from d have "length bs = 67" by (simp add: file_ref_decode_def split: if_splits)
    then obtain u n x s t p where bs: "bs = u @ n # x @ s @ [t, p]"
      and l: "length u = 16" "length x = 32" "length s = 16"
      using width_67 by blast
    show ?thesis
      using d l be_val_16_less [of s]
      by (auto simp: bs file_ref_decode_def file_ref_encode_def codec_simps)
  qed
  then show "file_ref_decode bs = Some r \<longleftrightarrow> wf_file_ref r \<and> bs = file_ref_encode r"
    by (auto simp: file_ref_decode_def file_ref_encode_def codec_eval)
qed

interpretation link_ref_value: redb_value link_ref_encode link_ref_decode wf_link_ref
proof
  fix bs r
  have "wf_link_ref r \<and> bs = link_ref_encode r" if d: "link_ref_decode bs = Some r"
  proof -
    from d have "length bs = 65" by (simp add: link_ref_decode_def split: if_splits)
    then obtain u n x s where bs: "bs = u @ n # x @ s" and l: "length u = 16" "length x = 32" "length s = 16"
      using width_65 by blast
    show ?thesis
      using d l be_val_16_less [of s]
      by (auto simp: bs link_ref_decode_def link_ref_encode_def codec_simps)
  qed
  then show "link_ref_decode bs = Some r \<longleftrightarrow> wf_link_ref r \<and> bs = link_ref_encode r"
    by (auto simp: link_ref_decode_def link_ref_encode_def codec_eval)
qed

interpretation link_digest_value: redb_value link_digest_encode link_digest_decode wf_link_digest
proof
  fix bs d
  have "wf_link_digest d \<and> bs = link_digest_encode d" if d: "link_digest_decode bs = Some d"
  proof -
    from d have "length bs = 48" by (simp add: link_digest_decode_def split: if_splits)
    then obtain x s where bs: "bs = x @ s" and l: "length x = 32" "length s = 16"
      using width_48 by blast
    show ?thesis
      using d l be_val_16_less [of s]
      by (auto simp: bs link_digest_decode_def link_digest_encode_def codec_simps)
  qed
  then show "link_digest_decode bs = Some d \<longleftrightarrow> wf_link_digest d \<and> bs = link_digest_encode d"
    by (auto simp: link_digest_decode_def link_digest_encode_def codec_eval)
qed

interpretation link_key_value: redb_value link_key_encode link_key_decode wf_link_key
proof
  fix bs k
  have "wf_link_key k \<and> bs = link_key_encode k" if d: "link_key_decode bs = Some k"
  proof -
    from d have "length bs = 49" by (simp add: link_key_decode_def split: if_splits)
    then obtain n x s where bs: "bs = n # x @ s" and l: "length x = 32" "length s = 16"
      using width_49 by blast
    show ?thesis
      using d l be_val_16_less [of s]
      by (auto simp: bs link_key_decode_def link_key_encode_def codec_simps)
  qed
  then show "link_key_decode bs = Some k \<longleftrightarrow> wf_link_key k \<and> bs = link_key_encode k"
    by (auto simp: link_key_decode_def link_key_encode_def codec_eval)
qed

interpretation file_key_value: redb_value file_key_encode file_key_decode wf_file_key
proof
  fix bs k
  have "wf_file_key k \<and> bs = file_key_encode k" if d: "file_key_decode bs = Some k"
  proof -
    from d have "length bs = 49" by (simp add: file_key_decode_def split: if_splits)
    then obtain n x s where bs: "bs = n # x @ s" and l: "length x = 32" "length s = 16"
      using width_49 by blast
    show ?thesis
      using d l be_val_16_less [of s]
      by (auto simp: bs file_key_decode_def file_key_encode_def codec_simps)
  qed
  then show "file_key_decode bs = Some k \<longleftrightarrow> wf_file_key k \<and> bs = file_key_encode k"
    by (auto simp: file_key_decode_def file_key_encode_def codec_eval)
qed

interpretation id_value: redb_value id_encode id_decode wf_id
proof
  fix bs i
  show "id_decode bs = Some i \<longleftrightarrow> wf_id i \<and> bs = id_encode i"
    by (cases bs) (auto simp: id_decode_def id_encode_def codec_simps)
qed

section \<open>Reading from a known position\<close>

definition cursor_at :: "byte list \<Rightarrow> byte list \<Rightarrow> cursor" where
  "cursor_at pre rest = \<lparr>cu_bytes = pre @ rest, cu_pos = length pre\<rparr>"

lemma cursor_new_at: "cursor_new bs = cursor_at [] bs"
  by (simp add: cursor_new_def cursor_at_def)

lemma cursor_consumed_at [simp]: "cursor_consumed (cursor_at pre rest) \<longleftrightarrow> rest = []"
  by (simp add: cursor_consumed_def cursor_at_def)

text \<open>
  A field: reading what was written gives the value back and stops right after it, and a successful
  read consumed exactly the encoding of its result.
\<close>

locale cursor_field =
  fixes put :: "'a \<Rightarrow> byte list"
    and get :: "cursor \<Rightarrow> ('a \<times> cursor) option"
    and ok :: "'a \<Rightarrow> bool"
  assumes get_put:
    "ok x \<Longrightarrow> length pre + length (put x) \<le> usize_max \<Longrightarrow>
     get (cursor_at pre (put x @ rest)) = Some (x, cursor_at (pre @ put x) rest)"
    and get_inv:
    "get (cursor_at pre rest) = Some (x, c) \<Longrightarrow>
     ok x \<and> (\<exists>rest'. rest = put x @ rest' \<and> c = cursor_at (pre @ put x) rest')"

interpretation byte_at: cursor_field "\<lambda>b. [b]" cursor_byte "\<lambda>_. True"
proof
  fix x pre rest
  show "cursor_byte (cursor_at pre ([x] @ rest)) = Some (x, cursor_at (pre @ [x]) rest)"
    by (simp add: cursor_byte_def cursor_at_def)
next
  fix pre rest x c
  assume "cursor_byte (cursor_at pre rest) = Some (x, c)"
  then show "True \<and> (\<exists>rest'. rest = [x] @ rest' \<and> c = cursor_at (pre @ [x]) rest')"
    by (cases rest) (auto simp: cursor_byte_def cursor_at_def)
qed

interpretation take_at: cursor_field "\<lambda>bs. bs" "cursor_take n" "\<lambda>bs. length bs = n"
proof
  fix x pre rest :: "byte list"
  assume "length x = n" "length pre + length x \<le> usize_max"
  then show "cursor_take n (cursor_at pre (x @ rest)) = Some (x, cursor_at (pre @ x) rest)"
    by (simp add: cursor_take_def cursor_at_def slice_def Let_def)
next
  fix pre rest x c
  assume "cursor_take n (cursor_at pre rest) = Some (x, c)"
  then have "n \<le> length rest" "x = take n rest" "c = \<lparr>cu_bytes = pre @ rest, cu_pos = length pre + n\<rparr>"
    by (auto simp: cursor_take_def cursor_at_def slice_def Let_def split: if_splits)
  then show "length x = n \<and> (\<exists>rest'. rest = x @ rest' \<and> c = cursor_at (pre @ x) rest')"
    by (auto intro!: exI [of _ "drop n rest"] simp: cursor_at_def)
qed

interpretation array_at: cursor_field "\<lambda>bs. bs" "cursor_array n" "\<lambda>bs. length bs = n"
  unfolding cursor_array_def [abs_def] by (rule take_at.cursor_field_axioms)

interpretation be_at: cursor_field "be_bytes n" "cursor_be n" "\<lambda>v. v < 256 ^ n"
proof
  fix v and pre rest :: "byte list"
  assume "v < 256 ^ n" "length pre + length (be_bytes n v) \<le> usize_max"
  then show "cursor_be n (cursor_at pre (be_bytes n v @ rest)) = Some (v, cursor_at (pre @ be_bytes n v) rest)"
    by (simp add: cursor_be_def array_at.get_put be_val_be_bytes)
next
  fix pre rest v c
  assume "cursor_be n (cursor_at pre rest) = Some (v, c)"
  then obtain bs where bs: "cursor_array n (cursor_at pre rest) = Some (bs, c)" "v = be_val bs"
    by (auto simp: cursor_be_def bind_eq_Some_conv)
  with array_at.get_inv [OF bs(1)] be_val_less [of bs]
  show "v < 256 ^ n \<and> (\<exists>rest'. rest = be_bytes n v @ rest' \<and> c = cursor_at (pre @ be_bytes n v) rest')"
    by (auto simp: be_bytes_be_val)
qed

lemmas field_inv = byte_at.get_inv take_at.get_inv array_at.get_inv be_at.get_inv

lemmas field_put = byte_at.get_put [simplified] take_at.get_put array_at.get_put be_at.get_put

section \<open>Paths\<close>

lemma wide_units_bytes: "wide_units (concat (map (\<lambda>u. le_bytes 2 (unat u)) units)) = units"
proof (induction units)
  case (Cons u units)
  obtain a b where ab: "le_bytes 2 (unat u) = [a, b]" by (simp add: numeral_2_eq_2)
  have "word_of_nat (le_val [a, b]) = u" unfolding ab [symmetric] by simp
  with Cons ab show ?case by simp
qed simp

lemma bytes_wide_units:
  "even (length bs) \<Longrightarrow> concat (map (\<lambda>u. le_bytes 2 (unat u)) (wide_units bs)) = bs"
proof (induction bs rule: wide_units.induct)
  case (1 a b bs)
  have "le_bytes 2 (unat (word_of_nat (le_val [a, b]) :: u16)) = [a, b]"
    by (rule le_bytes_unat_of_le_val) simp
  with 1 show ?case by (simp del: le_val.simps)
qed auto

lemma even_encode_wide: "even (length (concat (map (\<lambda>u :: u16. le_bytes 2 (unat u)) units)))"
  by (induction units) simp_all

lemma decode_path_iff: "decode_path unix bs = Some p \<longleftrightarrow> wf_path unix p \<and> bs = encode_path p"
  by (cases p) (auto simp: decode_path_def wide_units_bytes bytes_wide_units even_encode_wide)

lemma decode_encode_path: "wf_path unix p \<Longrightarrow> decode_path unix (encode_path p) = Some p"
  by (simp add: decode_path_iff)

section \<open>Layers and blueprints\<close>

lemma link_payload_consts [simp]:
  "LINK_LOCAL \<noteq> LINK_BYTES" "LINK_LOCAL \<noteq> LINK_HTTP" "LINK_BYTES \<noteq> LINK_HTTP"
  "LINK_BYTES \<noteq> LINK_LOCAL" "LINK_HTTP \<noteq> LINK_LOCAL" "LINK_HTTP \<noteq> LINK_BYTES"
  by (simp_all add: LINK_LOCAL_def LINK_BYTES_def LINK_HTTP_def)

lemma decode_link_iff:
  "decode_link unix variant payload sz = Some l \<longleftrightarrow>
    wf_link unix l \<and> link_payload l = (variant, payload) \<and> link_size l = sz"
  by (cases l) (auto simp: decode_link_def decode_path_iff from_utf8_eq_Some)

lemma digest_from_parts_iff:
  "digest_from_parts v bs = Some d \<longleftrightarrow> wf_digest d \<and> v = digest_discriminant d \<and> bs = digest_bytes d"
  by (cases d) (auto simp: digest_from_parts_def)

lemma length_digest_bytes: "wf_digest d \<Longrightarrow> length (digest_bytes d) = 32 \<or> length (digest_bytes d) = 64"
  by (cases d) auto

interpretation expected_at: cursor_field encode_expected_digest decode_expected_digest wf_digest
proof
  fix d and pre rest :: "byte list"
  assume wf: "wf_digest d" and "length pre + length (encode_expected_digest d) \<le> usize_max"
  moreover have "digest_from_parts (digest_discriminant d) (digest_bytes d) = Some d"
    using wf by (simp add: digest_from_parts_iff)
  ultimately show "decode_expected_digest (cursor_at pre (encode_expected_digest d @ rest)) =
      Some (d, cursor_at (pre @ encode_expected_digest d) rest)"
    using length_digest_bytes [OF wf]
    by (auto simp: decode_expected_digest_def encode_expected_digest_def field_put)
next
  fix pre rest d c
  assume "decode_expected_digest (cursor_at pre rest) = Some (d, c)"
  then show "wf_digest d \<and>
      (\<exists>rest'. rest = encode_expected_digest d @ rest' \<and> c = cursor_at (pre @ encode_expected_digest d) rest')"
    by (auto simp: decode_expected_digest_def bind_eq_Some_conv encode_expected_digest_def
        digest_from_parts_iff dest!: field_inv split: if_splits)
qed

text \<open>The payload bound under which a layer is stored.\<close>

definition layer_fits :: "layer \<Rightarrow> bool" where
  "layer_fits l \<longleftrightarrow> payload_fits (length (snd (link_payload (ly_link l))))"

definition layer_bytes :: "layer \<Rightarrow> byte list" where
  "layer_bytes l =
    ly_uuid l @ [fst (link_payload (ly_link l))] @ be_bytes 8 (length (snd (link_payload (ly_link l))))
    @ snd (link_payload (ly_link l)) @ be_bytes 16 (unat (link_size (ly_link l)))
    @ encode_expected_digest (ly_expected_digest l) @ link_digest_encode (ly_link_digest l)"

lemma encode_layer_eq: "encode_layer l = (if layer_fits l then Some (layer_bytes l) else None)"
  by (simp add: encode_layer_def layer_fits_def layer_bytes_def case_prod_beta Let_def)

lemma payload_fits_less: "payload_fits n \<Longrightarrow> n < 256 ^ 8"
  by (simp add: payload_fits_def fits_u32_iff)

interpretation layer_at: cursor_field layer_bytes "decode_layer unix" "\<lambda>l. wf_layer unix l \<and> layer_fits l"
proof
  fix l and pre rest :: "byte list"
  assume l: "wf_layer unix l \<and> layer_fits l" "length pre + length (layer_bytes l) \<le> usize_max"
  let ?v = "fst (link_payload (ly_link l))" and ?p = "snd (link_payload (ly_link l))"
  have "decode_link unix ?v ?p (link_size (ly_link l)) = Some (ly_link l)"
    using l(1) by (simp add: decode_link_iff wf_layer_def)
  moreover have "length (link_digest_encode (ly_link_digest l)) = 48"
    using l(1) by (simp add: wf_layer_def wf_link_digest_def link_digest_encode_def)
  moreover have "unat (link_size (ly_link l)) < 256 ^ 16" by (rule unat_le128)
  ultimately show "decode_layer unix (cursor_at pre (layer_bytes l @ rest)) =
      Some (l, cursor_at (pre @ layer_bytes l) rest)"
    using l payload_fits_less [of "length ?p"]
    by (simp add: decode_layer_def layer_bytes_def layer_fits_def field_put expected_at.get_put wf_layer_def
        wf_uuid_def link_digest_value.dec_enc)
next
  fix pre rest l c
  assume "decode_layer unix (cursor_at pre rest) = Some (l, c)"
  then show "(wf_layer unix l \<and> layer_fits l) \<and>
      (\<exists>rest'. rest = layer_bytes l @ rest' \<and> c = cursor_at (pre @ layer_bytes l) rest')"
    by (auto simp: decode_layer_def bind_eq_Some_conv layer_bytes_def layer_fits_def decode_link_iff
        wf_layer_def wf_uuid_def link_digest_value.dec_iff unat_of_nat dest!: field_inv expected_at.get_inv split: if_splits)
qed

lemma encode_layers_eq:
  "encode_layers ls = (if list_all layer_fits ls then Some (concat (map layer_bytes ls)) else None)"
  by (induction ls) (simp_all add: encode_layer_eq)

interpretation layers_at: cursor_field "\<lambda>ls. concat (map layer_bytes ls)" "decode_layers unix n"
  "\<lambda>ls. length ls = n \<and> list_all (\<lambda>l. wf_layer unix l \<and> layer_fits l) ls"
proof
  fix ls and pre rest :: "byte list"
  show "length ls = n \<and> list_all (\<lambda>l. wf_layer unix l \<and> layer_fits l) ls \<Longrightarrow>
      length pre + length (concat (map layer_bytes ls)) \<le> usize_max \<Longrightarrow>
      decode_layers unix n (cursor_at pre (concat (map layer_bytes ls) @ rest)) =
        Some (ls, cursor_at (pre @ concat (map layer_bytes ls)) rest)"
    by (induction ls arbitrary: n pre) (auto simp: layer_at.get_put)
next
  fix pre rest ls c
  show "decode_layers unix n (cursor_at pre rest) = Some (ls, c) \<Longrightarrow>
      (length ls = n \<and> list_all (\<lambda>l. wf_layer unix l \<and> layer_fits l) ls) \<and>
      (\<exists>rest'. rest = concat (map layer_bytes ls) @ rest' \<and>
               c = cursor_at (pre @ concat (map layer_bytes ls)) rest')"
    by (induction n arbitrary: pre rest ls c)
      (fastforce simp: bind_eq_Some_conv dest!: layer_at.get_inv)+
qed

definition path_fits :: "os_path \<Rightarrow> bool" where
  "path_fits p \<longleftrightarrow> payload_fits (length (encode_path p))"

interpretation extract_at: cursor_field encode_extract "decode_extract unix"
  "pred_option (\<lambda>p. wf_path unix p \<and> path_fits p)"
proof
  fix e and pre rest :: "byte list"
  assume "pred_option (\<lambda>p. wf_path unix p \<and> path_fits p) e" "length pre + length (encode_extract e) \<le> usize_max"
  then show "decode_extract unix (cursor_at pre (encode_extract e @ rest)) =
      Some (e, cursor_at (pre @ encode_extract e) rest)"
    by (cases e) (auto simp: decode_extract_def encode_extract_def field_put path_fits_def decode_encode_path
        payload_fits_less [simplified])
next
  fix pre rest e c
  assume "decode_extract unix (cursor_at pre rest) = Some (e, c)"
  then show "pred_option (\<lambda>p. wf_path unix p \<and> path_fits p) e \<and>
      (\<exists>rest'. rest = encode_extract e @ rest' \<and> c = cursor_at (pre @ encode_extract e) rest')"
    by (auto simp: decode_extract_def encode_extract_def path_fits_def decode_path_iff bind_eq_Some_conv
        dest!: field_inv split: if_splits)
qed

text \<open>The bounds under which a blueprint can be stored and read back.\<close>

definition blueprint_fits :: "blueprint \<Rightarrow> bool" where
  "blueprint_fits b \<longleftrightarrow> length (bp_layers b) \<le> 100000 \<and> list_all layer_fits (bp_layers b)
     \<and> pred_option path_fits (bp_extract b)"

definition blueprint_bytes :: "blueprint \<Rightarrow> byte list" where
  "blueprint_bytes b =
    [BLUEPRINT_FORMAT_MARKER] @ bp_target_uuid b @ [ns_to_bytes (bp_target_namespace b)]
    @ be_bytes 4 (length (bp_layers b)) @ concat (map layer_bytes (bp_layers b))
    @ encode_extract (bp_extract b)"

lemma max_layer_count [simp]: "int n > uint MAX_LAYER_COUNT \<longleftrightarrow> n > 100000"
  by (auto simp: MAX_LAYER_COUNT_def)

lemma blueprint_encode_eq:
  "blueprint_encode b =
    (if length (bp_layers b) \<le> 100000 \<and> list_all layer_fits (bp_layers b)
     then Some (blueprint_bytes b) else None)"
  by (auto simp: blueprint_encode_def encode_layers_eq blueprint_bytes_def fits_u32_iff Let_def)

lemma layer_bytes_bound:
  assumes "wf_layer unix l" "layer_fits l"
  shows "length (layer_bytes l) \<le> 2 ^ 33"
proof -
  have "length (snd (link_payload (ly_link l))) < 2 ^ 32"
    using assms(2) by (simp add: layer_fits_def payload_fits_def fits_u32_iff)
  then show ?thesis
    using assms(1) length_digest_bytes [of "ly_expected_digest l"]
    by (auto simp: layer_bytes_def wf_layer_def wf_uuid_def wf_link_digest_def link_digest_encode_def
        encode_expected_digest_def)
qed

lemma layers_bytes_bound:
  "list_all (\<lambda>l. wf_layer unix l \<and> layer_fits l) ls \<Longrightarrow>
   length (concat (map layer_bytes ls)) \<le> 2 ^ 33 * length ls"
  by (induction ls) (auto dest!: layer_bytes_bound)

lemma blueprint_bytes_bound:
  assumes "wf_blueprint unix b" "blueprint_fits b"
  shows "length (blueprint_bytes b) \<le> usize_max"
proof -
  have "length (concat (map layer_bytes (bp_layers b))) \<le> 2 ^ 33 * length (bp_layers b)"
    using assms by (intro layers_bytes_bound) (auto simp: wf_blueprint_def blueprint_fits_def list_all_iff)
  also have "\<dots> \<le> 2 ^ 33 * 100000" using assms(2) by (simp add: blueprint_fits_def)
  finally have "length (concat (map layer_bytes (bp_layers b))) \<le> 2 ^ 33 * 100000" .
  moreover have "length (encode_extract (bp_extract b)) \<le> 2 ^ 33"
    using assms(2) by (cases "bp_extract b")
      (auto simp: encode_extract_def blueprint_fits_def path_fits_def payload_fits_def fits_u32_iff)
  ultimately show ?thesis
    using assms(1) by (simp add: blueprint_bytes_def usize_max_def wf_blueprint_def wf_uuid_def)
qed

interpretation blueprint_value: redb_value blueprint_bytes "blueprint_decode unix"
  "\<lambda>b. wf_blueprint unix b \<and> blueprint_fits b"
proof
  fix bs b
  have "(wf_blueprint unix b \<and> blueprint_fits b) \<and> bs = blueprint_bytes b"
    if "blueprint_decode unix bs = Some b"
    using that unfolding blueprint_decode_def cursor_new_at
    by (auto simp: bind_eq_Some_conv ns_from_bytes_iff blueprint_bytes_def wf_blueprint_def blueprint_fits_def
        wf_uuid_def list_all_iff pred_option_def
        dest!: field_inv layers_at.get_inv extract_at.get_inv split: if_splits)
  moreover have "blueprint_decode unix (blueprint_bytes b) = Some b"
    if wf: "wf_blueprint unix b" "blueprint_fits b"
  proof -
    let ?ok = "\<lambda>l. wf_layer unix l \<and> layer_fits l"
    have "list_all ?ok (bp_layers b)" "pred_option (\<lambda>p. wf_path unix p \<and> path_fits p) (bp_extract b)"
      using wf by (auto simp: wf_blueprint_def blueprint_fits_def list_all_iff pred_option_def)
    then show ?thesis
      using wf blueprint_bytes_bound [OF wf] extract_at.get_put [where rest = "[]" and unix = unix]
      unfolding blueprint_decode_def cursor_new_at blueprint_bytes_def
      by (simp add: field_put layers_at.get_put wf_blueprint_def wf_uuid_def blueprint_fits_def)
  qed
  ultimately show "blueprint_decode unix bs = Some b \<longleftrightarrow>
      (wf_blueprint unix b \<and> blueprint_fits b) \<and> bs = blueprint_bytes b"
    by blast
qed

section \<open>Key order\<close>

lemma le_val_append: "le_val (xs @ ys) = le_val xs + 256 ^ length xs * le_val ys"
  by (induction xs) (simp_all add: algebra_simps)

lemma be_val_Cons: "be_val (b # bs) = unat b * 256 ^ length bs + be_val bs"
  by (simp add: be_val_def le_val_append)

lemma mult_add_less_iff:
  assumes "a < c" "b < c"
  shows "x * c + a < y * c + b \<longleftrightarrow> x < y \<or> x = y \<and> a < (b :: nat)"
proof -
  have "x * c + a < y * c + b" if "x < y"
  proof -
    have "x * c + a < Suc x * c" using assms by simp
    also have "\<dots> \<le> y * c" using that by (intro mult_le_mono1) simp
    finally show ?thesis by simp
  qed
  moreover have "y * c + b < x * c + a" if "y < x"
  proof -
    have "y * c + b < Suc y * c" using assms by simp
    also have "\<dots> \<le> x * c" using that by (intro mult_le_mono1) simp
    finally show ?thesis by simp
  qed
  ultimately show ?thesis by (metis linorder_neqE_nat nat_add_left_cancel_less not_less_iff_gr_or_eq)
qed

text \<open>Byte strings of one width compare like the big-endian numbers they are.\<close>

lemma be_val_less_iff: "length xs = length ys \<Longrightarrow> xs < ys \<longleftrightarrow> be_val xs < be_val ys"
proof (induction xs ys rule: list_induct2)
  case (Cons x xs y ys)
  have "be_val (x # xs) < be_val (y # ys) \<longleftrightarrow> unat x < unat y \<or> unat x = unat y \<and> be_val xs < be_val ys"
    unfolding be_val_Cons Cons.hyps
    using be_val_less [of xs] be_val_less [of ys] Cons.hyps by (intro mult_add_less_iff) simp_all
  with Cons.IH show ?case
    by (auto simp: word_less_nat_alt word_unat_eq_iff)
qed simp

lemma be_bytes_less_iff: "m < 256 ^ k \<Longrightarrow> n < 256 ^ k \<Longrightarrow> be_bytes k m < be_bytes k n \<longleftrightarrow> m < n"
  by (simp add: be_val_less_iff be_val_be_bytes)

lemma append_less_iff:
  "length xs = length ys \<Longrightarrow> xs @ us < ys @ vs \<longleftrightarrow> xs < ys \<or> xs = ys \<and> us < (vs :: 'a::order list)"
  by (induction xs ys rule: list_induct2) auto

lemma decode_extract_long:
  assumes "pred_option (wf_path unix) e" "\<not> pred_option path_fits e" 
    and "length pre + length (encode_extract e) \<le> usize_max"
  shows "decode_extract unix (cursor_at pre (encode_extract e)) = None"
proof -
  obtain p where e: "e = Some p" and p: "\<not> path_fits p" using assms(2) by (cases e) auto
  have "length (encode_path p) < 256 ^ 8" using assms(3) by (simp add: e encode_extract_def usize_max_def)
  then show ?thesis using p assms(3)
    by (simp add: e decode_extract_def encode_extract_def field_put path_fits_def)
qed

lemma blueprint_read_back:
  assumes wf: "wf_blueprint unix b" and enc: "blueprint_encode b = Some bs" and len: "length bs \<le> usize_max"
  shows "blueprint_decode unix bs = (if pred_option path_fits (bp_extract b) then Some b else None)"
proof (cases "pred_option path_fits (bp_extract b)")
  case True
  with assms show ?thesis
    using blueprint_value.dec_iff [of unix bs b] by (simp add: blueprint_encode_eq blueprint_fits_def split: if_splits)
next
  case False
  let ?ok = "\<lambda>l. wf_layer unix l \<and> layer_fits l"
  have bs: "bs = blueprint_bytes b" and c: "length (bp_layers b) \<le> 100000" and ok: "list_all ?ok (bp_layers b)"
    using wf enc by (auto simp: blueprint_encode_eq wf_blueprint_def list_all_iff split: if_splits)
  show ?thesis
    using False wf len c ok unfolding bs blueprint_decode_def cursor_new_at blueprint_bytes_def
    by (simp add: field_put layers_at.get_put wf_blueprint_def wf_uuid_def decode_extract_long)
qed

lemma id_encode_less_iff:
  "id_encode i < id_encode j \<longleftrightarrow> (ai_namespace i, ai_uuid i) < (ai_namespace j, ai_uuid j)"
  by (auto simp: id_encode_def le_less simp flip: less_namespace_def)

lemma link_key_less_iff:
  "wf_link_key k \<Longrightarrow> wf_link_key k' \<Longrightarrow> link_key_encode k < link_key_encode k' \<longleftrightarrow>
    (nl_namespace k, ld_hash (nl_link_digest k), ld_size (nl_link_digest k)) <
    (nl_namespace k', ld_hash (nl_link_digest k'), ld_size (nl_link_digest k'))"
  by (auto simp: link_key_encode_def wf_defs append_less_iff be_bytes_less_iff le_less
      simp flip: less_namespace_def)

text \<open>
  C33. The persisted forms of the image index are exact. Each decoder accepts a byte string, instead
  of panicking, exactly when it is the encoding of the value it returns and that value has the field
  widths of its type; so every stored record reads back as it was written and no two records share a
  form. What the blueprint encoder writes is read back unless the extraction path is longer than
  \<open>u32::MAX\<close> bytes, which only the decoder checks: it panics on that output of the encoder. Keys are
  compared as bytes, which orders link digests by namespace, hash and size.
\<close>

theorem index_codecs_exact:
  assumes "wf_blueprint unix b" "blueprint_encode b = Some enc" "length enc \<le> usize_max"
    and "wf_link_key k" "wf_link_key k'"
  shows "(file_ref_decode bs = Some f \<longleftrightarrow> wf_file_ref f \<and> bs = file_ref_encode f)
    \<and> (link_ref_decode bs = Some r \<longleftrightarrow> wf_link_ref r \<and> bs = link_ref_encode r)
    \<and> (id_decode bs = Some i \<longleftrightarrow> wf_id i \<and> bs = id_encode i)
    \<and> (link_key_decode bs = Some lk \<longleftrightarrow> wf_link_key lk \<and> bs = link_key_encode lk)
    \<and> (file_key_decode bs = Some fk \<longleftrightarrow> wf_file_key fk \<and> bs = file_key_encode fk)
    \<and> (blueprint_decode unix bs = Some c \<longleftrightarrow>
         wf_blueprint unix c \<and> pred_option path_fits (bp_extract c) \<and> blueprint_encode c = Some bs)
    \<and> blueprint_decode unix enc = (if pred_option path_fits (bp_extract b) then Some b else None)
    \<and> (link_key_encode k < link_key_encode k' \<longleftrightarrow>
         (nl_namespace k, ld_hash (nl_link_digest k), ld_size (nl_link_digest k)) <
         (nl_namespace k', ld_hash (nl_link_digest k'), ld_size (nl_link_digest k')))"
proof (intro conjI)
  show "blueprint_decode unix bs = Some c \<longleftrightarrow>
      wf_blueprint unix c \<and> pred_option path_fits (bp_extract c) \<and> blueprint_encode c = Some bs"
    by (auto simp: blueprint_value.dec_iff blueprint_encode_eq blueprint_fits_def split: if_splits)
qed (rule file_ref_value.dec_iff link_ref_value.dec_iff id_value.dec_iff link_key_value.dec_iff
    file_key_value.dec_iff blueprint_read_back [OF assms(1-3)] link_key_less_iff [OF assms(4,5)])+

definition sample_layer :: layer where
  "sample_layer = \<lparr>ly_uuid = replicate 16 1, ly_link = LinkHttp ''http://h/l'' 7,
     ly_expected_digest = ESha256 (replicate 32 2), ly_link_digest = \<lparr>ld_hash = replicate 32 3, ld_size = 7\<rparr>\<rparr>"

definition sample_blueprint :: blueprint where
  "sample_blueprint = \<lparr>bp_target_uuid = replicate 16 4, bp_target_namespace = NsRootfs,
     bp_layers = [sample_layer, sample_layer\<lparr>ly_link := LinkLocal (WidePath [0x43, 0xD800]) 9\<rparr>],
     bp_extract = Some (WidePath [0x62])\<rparr>"

definition sample_link_key :: "namespace \<Rightarrow> namespaced_link_digest" where
  "sample_link_key n = \<lparr>nl_namespace = n, nl_link_digest = \<lparr>ld_hash = replicate 32 5, ld_size = 256\<rparr>\<rparr>"

lemma sample_blueprint_ok: "wf_blueprint False sample_blueprint" "blueprint_fits sample_blueprint"
  by (simp_all add: sample_blueprint_def sample_layer_def wf_blueprint_def wf_layer_def wf_defs wf_str_def
      utf8_valid_ascii blueprint_fits_def layer_fits_def path_fits_def payload_fits_def fits_u32_iff
      str_bytes_def char_byte_def utf8_valid_def)

theorem index_codecs_exact_witness:
  "blueprint_decode False (the (blueprint_encode sample_blueprint)) = Some sample_blueprint
   \<and> link_key_encode (sample_link_key NsKernel) < link_key_encode (sample_link_key NsModules)"
proof -
  let ?enc = "blueprint_bytes sample_blueprint"
  have enc: "blueprint_encode sample_blueprint = Some ?enc"
    using sample_blueprint_ok(2) by (simp add: blueprint_encode_eq blueprint_fits_def)
  have "length ?enc \<le> usize_max" using blueprint_bytes_bound [OF sample_blueprint_ok] .
  moreover have "wf_link_key (sample_link_key n)" for n
    by (simp add: sample_link_key_def wf_defs)
  ultimately show ?thesis
    using index_codecs_exact [OF sample_blueprint_ok(1) enc, of "sample_link_key NsKernel" "sample_link_key NsModules"]
      sample_blueprint_ok(2) enc
    by (simp add: blueprint_fits_def sample_link_key_def less_namespace_def)
qed

end
