(* ===== verification/Redb.thy ===== *)
theory Redb
  imports Artifact
begin

text \<open>
  The embedded database both stores of the program use, the crate \<open>redb\<close>, as a parameter: a record of
  the calls the program makes, with the documented behaviour stated as \<open>redb_ok\<close>. Tables map byte
  strings to byte strings. A write transaction works on a private view of the tables, which replaces
  the committed tables when it is committed and is forgotten when it is aborted or dropped. Any call
  may fail; a failed commit leaves the old tables or the new ones. Programs over a transaction are
  functions from a transaction to a result and a transaction.
\<close>

section \<open>The parameter\<close>

datatype redb_error = DatabaseAlreadyOpen | TableDoesNotExist | RedbOther

type_synonym tables = "string \<Rightarrow> (byte list \<rightharpoonup> byte list) option"

text \<open>
  The three fields before the last are what a database and a transaction hold: the committed tables,
  the tables a transaction started from and the tables as it sees them. Starting a write transaction
  includes setting its durability.
\<close>

record ('db, 'tx) redb =
  rd_create :: "'db \<Rightarrow> (redb_error + unit) \<times> 'db"
  rd_open :: "'db \<Rightarrow> (redb_error + unit) \<times> 'db"
  rd_begin_write :: "'db \<Rightarrow> 'db + 'tx"
  rd_begin_read :: "'db \<Rightarrow> 'db + 'tx"
  rd_open_table :: "string \<Rightarrow> 'tx \<Rightarrow> (redb_error + unit) \<times> 'tx"
  rd_get :: "string \<Rightarrow> byte list \<Rightarrow> 'tx \<Rightarrow> (redb_error + byte list option) \<times> 'tx"
  rd_insert :: "string \<Rightarrow> byte list \<Rightarrow> byte list \<Rightarrow> 'tx \<Rightarrow> (redb_error + unit) \<times> 'tx"
  rd_remove :: "string \<Rightarrow> byte list \<Rightarrow> 'tx \<Rightarrow> (redb_error + unit) \<times> 'tx"
  rd_iter :: "string \<Rightarrow> 'tx \<Rightarrow> (redb_error + (byte list \<times> byte list) list) \<times> 'tx"
  rd_commit :: "'tx \<Rightarrow> (redb_error + unit) \<times> 'db"
  rd_abort :: "'tx \<Rightarrow> (redb_error + unit) \<times> 'db"
  rd_drop :: "'tx \<Rightarrow> 'db"
  rd_str_key :: "string \<Rightarrow> byte list"
  rd_u32_enc :: "u32 \<Rightarrow> byte list"
  rd_u32_dec :: "byte list \<Rightarrow> u32 option"
  rd_tables :: "'db \<Rightarrow> tables"
  rd_base :: "'tx \<Rightarrow> tables"
  rd_view :: "'tx \<Rightarrow> tables"
  rd_writable :: "'tx \<Rightarrow> bool"

text \<open>The rows of a table in key order.\<close>

definition is_rows :: "(byte list \<rightharpoonup> byte list) \<Rightarrow> (byte list \<times> byte list) list \<Rightarrow> bool" where
  "is_rows t rows \<longleftrightarrow> sorted_wrt (<) (map fst rows) \<and> map_of rows = t"

text \<open>A call on a transaction: it keeps what the transaction started from, and an outcome relates the views.\<close>

definition tx_call ::
  "('db, 'tx) redb \<Rightarrow> ('tx \<Rightarrow> (redb_error + 'a) \<times> 'tx) \<Rightarrow> ('tx \<Rightarrow> tables \<Rightarrow> redb_error + 'a \<Rightarrow> tables \<Rightarrow> bool) \<Rightarrow> bool" where
  "tx_call R op post \<longleftrightarrow>
    (\<forall>tx r tx'. op tx = (r, tx') \<longrightarrow>
       rd_base R tx' = rd_base R tx \<and> rd_writable R tx' = rd_writable R tx \<and> post tx (rd_view R tx) r (rd_view R tx'))"

text \<open>
  The contract. Opening a table in a write transaction creates a missing one; in a read transaction it
  reports \<open>TableDoesNotExist\<close> exactly for a missing one. The other calls are made on tables that were
  opened before.
\<close>

definition redb_ok :: "('db, 'tx) redb \<Rightarrow> bool" where
  "redb_ok R \<longleftrightarrow>
    (\<forall>db r db'. rd_create R db = (r, db') \<longrightarrow> rd_tables R db' = rd_tables R db)
    \<and> (\<forall>db r db'. rd_open R db = (r, db') \<longrightarrow> rd_tables R db' = rd_tables R db)
    \<and> (\<forall>db db'. rd_begin_write R db = Inl db' \<longrightarrow> rd_tables R db' = rd_tables R db)
    \<and> (\<forall>db db'. rd_begin_read R db = Inl db' \<longrightarrow> rd_tables R db' = rd_tables R db)
    \<and> (\<forall>db tx. rd_begin_write R db = Inr tx \<longrightarrow>
         rd_base R tx = rd_tables R db \<and> rd_view R tx = rd_tables R db \<and> rd_writable R tx)
    \<and> (\<forall>db tx. rd_begin_read R db = Inr tx \<longrightarrow>
         rd_base R tx = rd_tables R db \<and> rd_view R tx = rd_tables R db \<and> \<not> rd_writable R tx)
    \<and> (\<forall>t. tx_call R (rd_open_table R t) (\<lambda>tx v r v'.
         (r = Ok () \<longrightarrow> v' = (if rd_writable R tx \<and> v t = None then v(t := Some Map.empty) else v)
                       \<and> v' t \<noteq> None)
         \<and> (r = Err TableDoesNotExist \<longrightarrow> \<not> rd_writable R tx \<and> v t = None)))
    \<and> (\<forall>t k. tx_call R (rd_get R t k) (\<lambda>tx v r v'. v' = v
         \<and> (\<forall>x m. r = Ok x \<longrightarrow> v t = Some m \<longrightarrow> x = m k)))
    \<and> (\<forall>t k x. tx_call R (rd_insert R t k x) (\<lambda>tx v r v'.
         \<forall>m. r = Ok () \<longrightarrow> v t = Some m \<longrightarrow> v' = v(t := Some (m(k \<mapsto> x)))))
    \<and> (\<forall>t k. tx_call R (rd_remove R t k) (\<lambda>tx v r v'.
         \<forall>m. r = Ok () \<longrightarrow> v t = Some m \<longrightarrow> v' = v(t := Some (m(k := None)))))
    \<and> (\<forall>t. tx_call R (rd_iter R t) (\<lambda>tx v r v'. v' = v
         \<and> (\<forall>rows m. r = Ok rows \<longrightarrow> v t = Some m \<longrightarrow> is_rows m rows)))
    \<and> (\<forall>tx db. rd_commit R tx = (Ok (), db) \<longrightarrow> rd_tables R db = rd_view R tx)
    \<and> (\<forall>tx e db. rd_commit R tx = (Err e, db) \<longrightarrow> rd_tables R db \<in> {rd_base R tx, rd_view R tx})
    \<and> (\<forall>tx r db. rd_abort R tx = (r, db) \<longrightarrow> rd_tables R db = rd_base R tx)
    \<and> (\<forall>tx. rd_tables R (rd_drop R tx) = rd_base R tx)
    \<and> (\<forall>s s'. rd_str_key R s = rd_str_key R s' \<longrightarrow> s = s')
    \<and> (\<forall>v. rd_u32_dec R (rd_u32_enc R v) = Some v)"

section \<open>Programs over a transaction\<close>

type_synonym ('tx, 'e, 'a) txm = "'tx \<Rightarrow> ('e fault + 'a) \<times> 'tx"

definition returnT :: "'a \<Rightarrow> ('tx, 'e, 'a) txm" where
  "returnT a tx = (Ok a, tx)"

definition failT :: "'e \<Rightarrow> ('tx, 'e, 'a) txm" where
  "failT e tx = (Err (Fail e), tx)"

definition bindT :: "('tx, 'e, 'a) txm \<Rightarrow> ('a \<Rightarrow> ('tx, 'e, 'b) txm) \<Rightarrow> ('tx, 'e, 'b) txm" where
  "bindT m f tx = (case m tx of (Inl e, tx) \<Rightarrow> (Inl e, tx) | (Inr a, tx) \<Rightarrow> f a tx)"

text \<open>A call with \<open>map_err\<close> to one error of the program.\<close>

definition callT :: "'e \<Rightarrow> ('tx \<Rightarrow> (redb_error + 'a) \<times> 'tx) \<Rightarrow> ('tx, 'e, 'a) txm" where
  "callT e op tx = (case op tx of (Inl _, tx) \<Rightarrow> (Err (Fail e), tx) | (Inr a, tx) \<Rightarrow> (Ok a, tx))"

text \<open>Decoding what was read; a decoder that panics is a panic of the program.\<close>

definition decodeT :: "('v \<Rightarrow> 'a option) \<Rightarrow> 'v option \<Rightarrow> ('tx, 'e, 'a option) txm" where
  "decodeT dec v tx =
    (case v of
       None \<Rightarrow> (Ok None, tx)
     | Some bytes \<Rightarrow> (case dec bytes of None \<Rightarrow> (Err Panic, tx) | Some x \<Rightarrow> (Ok (Some x), tx)))"

definition encodeT :: "'v option \<Rightarrow> ('tx, 'e, 'v) txm" where
  "encodeT v tx = (case v of None \<Rightarrow> (Err Panic, tx) | Some bytes \<Rightarrow> (Ok bytes, tx))"

text \<open>A typed table: \<open>TableDefinition\<close> with the codecs of its key and value types.\<close>

record ('k, 'v) table =
  tb_name :: string
  tb_key :: "'k \<Rightarrow> byte list"
  tb_enc :: "'v \<Rightarrow> byte list option"
  tb_dec :: "byte list \<Rightarrow> 'v option"

definition open_table :: "('db, 'tx) redb \<Rightarrow> 'e \<Rightarrow> ('k, 'v) table \<Rightarrow> ('tx, 'e, unit) txm" where
  "open_table R e T = callT e (rd_open_table R (tb_name T))"

definition table_get :: "('db, 'tx) redb \<Rightarrow> 'e \<Rightarrow> ('k, 'v) table \<Rightarrow> 'k \<Rightarrow> ('tx, 'e, 'v option) txm" where
  "table_get R e T k = bindT (callT e (rd_get R (tb_name T) (tb_key T k))) (decodeT (tb_dec T))"

definition table_insert :: "('db, 'tx) redb \<Rightarrow> 'e \<Rightarrow> ('k, 'v) table \<Rightarrow> 'k \<Rightarrow> 'v \<Rightarrow> ('tx, 'e, unit) txm" where
  "table_insert R e T k v =
    bindT (encodeT (tb_enc T v)) (\<lambda>bytes. callT e (rd_insert R (tb_name T) (tb_key T k) bytes))"

definition table_remove :: "('db, 'tx) redb \<Rightarrow> 'e \<Rightarrow> ('k, 'v) table \<Rightarrow> 'k \<Rightarrow> ('tx, 'e, unit) txm" where
  "table_remove R e T k = callT e (rd_remove R (tb_name T) (tb_key T k))"

text \<open>A table has rows, \<open>table.len() > 0\<close> or \<open>!table.is_empty()\<close>.\<close>

definition table_nonempty :: "('db, 'tx) redb \<Rightarrow> 'e \<Rightarrow> ('k, 'v) table \<Rightarrow> ('tx, 'e, bool) txm" where
  "table_nonempty R e T =
    bindT (callT e (rd_iter R (tb_name T))) (\<lambda>rows. returnT (rows \<noteq> []))"

text \<open>
  A write transaction: it is committed after the operation succeeded. An error that leaves the
  operation, like a panic, drops the transaction.
\<close>

definition write_tx :: "('db, 'tx) redb \<Rightarrow> 'e \<Rightarrow> ('tx, 'e, 'a) txm \<Rightarrow> 'db \<Rightarrow> ('e fault + 'a) \<times> 'db" where
  "write_tx R e op db =
    (case rd_begin_write R db of
       Inl db \<Rightarrow> (Err (Fail e), db)
     | Inr tx \<Rightarrow>
         (case op tx of
            (Inl f, tx) \<Rightarrow> (Err f, rd_drop R tx)
          | (Inr a, tx) \<Rightarrow>
              (case rd_commit R tx of
                 (Inl _, db) \<Rightarrow> (Err (Fail e), db)
               | (Inr _, db) \<Rightarrow> (Ok a, db))))"

definition read_tx :: "('db, 'tx) redb \<Rightarrow> 'e \<Rightarrow> ('tx, 'e, 'a) txm \<Rightarrow> 'db \<Rightarrow> ('e fault + 'a) \<times> 'db" where
  "read_tx R e op db =
    (case rd_begin_read R db of
       Inl db \<Rightarrow> (Err (Fail e), db)
     | Inr tx \<Rightarrow> (case op tx of (r, tx) \<Rightarrow> (r, rd_drop R tx)))"

section \<open>What a transaction computes\<close>

text \<open>
  A program over a transaction computes a result and a new state from an abstract state when, on every
  transaction that holds the state, it either returns the result and leaves the new state, or fails with
  the error it maps the failures of the database to.
\<close>

definition tx_runs ::
  "('db, 'tx) redb \<Rightarrow> (tables \<Rightarrow> 's \<Rightarrow> bool) \<Rightarrow> 'e \<Rightarrow> ('tx, 'e, 'a) txm \<Rightarrow> 's \<Rightarrow> 'e fault + 'a \<Rightarrow> 's \<Rightarrow> bool" where
  "tx_runs R rel e m s r s' \<longleftrightarrow>
    (\<forall>tx r' tx'. rel (rd_view R tx) s \<longrightarrow> m tx = (r', tx') \<longrightarrow>
       rd_base R tx' = rd_base R tx \<and> (r' = Err (Fail e) \<or> r' = r \<and> rel (rd_view R tx') s'))"

definition db_runs ::
  "('db, 'tx) redb \<Rightarrow> (tables \<Rightarrow> 's \<Rightarrow> bool) \<Rightarrow> 'e \<Rightarrow> ('db \<Rightarrow> ('e fault + 'a) \<times> 'db) \<Rightarrow> 's \<Rightarrow> 'e fault + 'a \<Rightarrow> 's \<Rightarrow> bool" where
  "db_runs R rel e op s r s' \<longleftrightarrow>
    (\<forall>db r' db'. rel (rd_tables R db) s \<longrightarrow> op db = (r', db') \<longrightarrow>
       r' = r \<and> rel (rd_tables R db') s'
       \<or> r' = Err (Fail e) \<and> (rel (rd_tables R db') s \<or> rel (rd_tables R db') s'))"

lemma tx_runsD:
  assumes "tx_runs R rel e m s r s'" "rel (rd_view R tx) s" "m tx = (r', tx')"
  shows "rd_base R tx' = rd_base R tx" "r' = Err (Fail e) \<or> r' = r \<and> rel (rd_view R tx') s'"
  using assms unfolding tx_runs_def by simp_all

lemma db_runsD:
  assumes "db_runs R rel e op s r s'" "rel (rd_tables R db) s" "op db = (q, db')"
  shows "q = r \<and> rel (rd_tables R db') s' \<or> q = Err (Fail e) \<and> (rel (rd_tables R db') s \<or> rel (rd_tables R db') s')"
  using assms unfolding db_runs_def by simp

lemma tx_runs_eq: "tx_runs R rel e m s r s1 \<Longrightarrow> r = r' \<Longrightarrow> s1 = s2 \<Longrightarrow> tx_runs R rel e m s r' s2"
  by simp

lemma tx_runs_return: "tx_runs R rel e (returnT a) s (Ok a) s"
  by (simp add: tx_runs_def returnT_def)

lemma tx_runs_fail: "tx_runs R rel e (failT f) s (Err (Fail f)) s"
  by (simp add: tx_runs_def failT_def)

lemma tx_runs_bind:
  assumes "tx_runs R rel e m s (Ok a) s1" "tx_runs R rel e (f a) s1 r s2"
  shows "tx_runs R rel e (bindT m f) s r s2"
  unfolding tx_runs_def
proof (intro allI impI)
  fix tx r' tx'
  assume s: "rel (rd_view R tx) s" and run: "bindT m f tx = (r', tx')"
  obtain r1 tx1 where m: "m tx = (r1, tx1)" by (cases "m tx")
  from assms(1) s m have m1: "rd_base R tx1 = rd_base R tx" "r1 = Err (Fail e) \<or> r1 = Ok a \<and> rel (rd_view R tx1) s1"
    unfolding tx_runs_def by blast+
  from m1(2) show "rd_base R tx' = rd_base R tx \<and> (r' = Err (Fail e) \<or> r' = r \<and> rel (rd_view R tx') s2)"
  proof
    assume "r1 = Err (Fail e)"
    with run m m1(1) show ?thesis by (auto simp: bindT_def)
  next
    assume r1: "r1 = Ok a \<and> rel (rd_view R tx1) s1"
    with run m have "f a tx1 = (r', tx')" by (simp add: bindT_def)
    from tx_runsD [OF assms(2) _ this] r1 m1(1) show ?thesis by simp
  qed
qed

lemma tx_runs_bind_err:
  assumes "tx_runs R rel e m s (Err x) s1"
  shows "tx_runs R rel e (bindT m f) s (Err x) s1"
  unfolding tx_runs_def
proof (intro allI impI)
  fix tx r' tx'
  assume s: "rel (rd_view R tx) s" and run: "bindT m f tx = (r', tx')"
  obtain r1 tx1 where m: "m tx = (r1, tx1)" by (cases "m tx")
  from assms s m have m1: "rd_base R tx1 = rd_base R tx" "r1 = Err (Fail e) \<or> r1 = Err x \<and> rel (rd_view R tx1) s1"
    unfolding tx_runs_def by blast+
  with run m show "rd_base R tx' = rd_base R tx \<and> (r' = Err (Fail e) \<or> r' = Err x \<and> rel (rd_view R tx') s1)"
    by (auto simp: bindT_def)
qed

lemma tx_callD:
  "tx_call R op post \<Longrightarrow> op tx = (r, tx') \<Longrightarrow>
   rd_base R tx' = rd_base R tx \<and> post tx (rd_view R tx) r (rd_view R tx')"
  by (simp add: tx_call_def)

lemma redb_tx_call:
  assumes "redb_ok R"
  shows "tx_call R (rd_open_table R t) (\<lambda>tx v r v'.
         (r = Ok () \<longrightarrow> v' = (if rd_writable R tx \<and> v t = None then v(t := Some Map.empty) else v) \<and> v' t \<noteq> None)
         \<and> (r = Err TableDoesNotExist \<longrightarrow> \<not> rd_writable R tx \<and> v t = None))"
    and "tx_call R (rd_get R t k) (\<lambda>tx v r v'. v' = v \<and> (\<forall>x m. r = Ok x \<longrightarrow> v t = Some m \<longrightarrow> x = m k))"
    and "tx_call R (rd_insert R t k x) (\<lambda>tx v r v'.
         \<forall>m. r = Ok () \<longrightarrow> v t = Some m \<longrightarrow> v' = v(t := Some (m(k \<mapsto> x))))"
    and "tx_call R (rd_remove R t k) (\<lambda>tx v r v'.
         \<forall>m. r = Ok () \<longrightarrow> v t = Some m \<longrightarrow> v' = v(t := Some (m(k := None))))"
    and "tx_call R (rd_iter R t) (\<lambda>tx v r v'. v' = v
         \<and> (\<forall>rows m. r = Ok rows \<longrightarrow> v t = Some m \<longrightarrow> is_rows m rows))"
  using assms unfolding redb_ok_def by (elim conjE; simp only: simp_thms)+

lemma redb_begin:
  assumes "redb_ok R"
  shows "rd_begin_write R db = Inl db' \<Longrightarrow> rd_tables R db' = rd_tables R db"
    and "rd_begin_read R db = Inl db' \<Longrightarrow> rd_tables R db' = rd_tables R db"
    and "rd_begin_write R db = Inr tx \<Longrightarrow> rd_base R tx = rd_tables R db \<and> rd_view R tx = rd_tables R db"
    and "rd_begin_read R db = Inr tx \<Longrightarrow> rd_base R tx = rd_tables R db \<and> rd_view R tx = rd_tables R db"
  using assms by (simp_all add: redb_ok_def)

lemma redb_end:
  assumes "redb_ok R"
  shows "rd_commit R tx = (Ok (), db) \<Longrightarrow> rd_tables R db = rd_view R tx"
    and "rd_commit R tx = (Err e, db) \<Longrightarrow> rd_tables R db = rd_base R tx \<or> rd_tables R db = rd_view R tx"
    and "rd_abort R tx = (r, db) \<Longrightarrow> rd_tables R db = rd_base R tx"
    and "rd_tables R (rd_drop R tx) = rd_base R tx"
    and "rd_create R db0 = (r, db) \<Longrightarrow> rd_tables R db = rd_tables R db0"
    and "rd_open R db0 = (r, db) \<Longrightarrow> rd_tables R db = rd_tables R db0"
  using assms by (simp_all add: redb_ok_def)

lemma write_tx_runs:
  assumes R: "redb_ok R" and m: "tx_runs R rel e m s r s'" and s': "\<not> isOk r \<Longrightarrow> s' = s"
  shows "db_runs R rel e (write_tx R e m) s r s'"
  unfolding db_runs_def
proof (intro allI impI)
  fix db r' db'
  assume s: "rel (rd_tables R db) s" and run: "write_tx R e m db = (r', db')"
  show "r' = r \<and> rel (rd_tables R db') s' \<or> r' = Err (Fail e) \<and> (rel (rd_tables R db') s \<or> rel (rd_tables R db') s')"
  proof (cases "rd_begin_write R db")
    case (Inl db1)
    with run s show ?thesis by (auto simp: write_tx_def redb_begin(1) [OF R])
  next
    case (Inr tx)
    obtain r1 tx1 where m1: "m tx = (r1, tx1)" by (cases "m tx")
    have base: "rd_base R tx1 = rd_tables R db" and r1: "r1 = Err (Fail e) \<or> r1 = r \<and> rel (rd_view R tx1) s'"
      using tx_runsD [OF m _ m1] s redb_begin(3) [OF R Inr] by simp_all
    show ?thesis
    proof (cases r1)
      case (Inl f)
      with run Inr m1 have "r' = Err f" "rd_tables R db' = rd_base R tx1"
        by (auto simp: write_tx_def redb_end(4) [OF R])
      with r1 Inl base s s' show ?thesis by auto
    next
      case (Inr a)
      obtain c db1 where c: "rd_commit R tx1 = (c, db1)" by (cases "rd_commit R tx1")
      from r1 Inr have a: "r = Ok a" "rel (rd_view R tx1) s'" by auto
      show ?thesis
      proof (cases c)
        case (Inl x)
        with run \<open>rd_begin_write R db = Inr tx\<close> m1 Inr c have "r' = Err (Fail e)" "db' = db1"
          by (auto simp: write_tx_def)
        with redb_end(2) [OF R c [unfolded Inl]] a base s show ?thesis by auto
      next
        case (Inr u)
        with run \<open>rd_begin_write R db = Inr tx\<close> m1 \<open>r1 = Inr a\<close> c have "r' = Ok a" "db' = db1"
          by (auto simp: write_tx_def)
        with redb_end(1) [OF R, of tx1 db1] c Inr a show ?thesis by auto
      qed
    qed
  qed
qed

lemma read_tx_runs:
  assumes R: "redb_ok R" and m: "tx_runs R rel e m s r s"
  shows "db_runs R rel e (read_tx R e m) s r s"
  unfolding db_runs_def
proof (intro allI impI)
  fix db r' db'
  assume s: "rel (rd_tables R db) s" and run: "read_tx R e m db = (r', db')"
  show "r' = r \<and> rel (rd_tables R db') s \<or> r' = Err (Fail e) \<and> (rel (rd_tables R db') s \<or> rel (rd_tables R db') s)"
  proof (cases "rd_begin_read R db")
    case (Inl db1)
    with run s show ?thesis by (auto simp: read_tx_def redb_begin(2) [OF R])
  next
    case (Inr tx)
    obtain r1 tx1 where m1: "m tx = (r1, tx1)" by (cases "m tx")
    have "rd_base R tx1 = rd_tables R db" "r1 = Err (Fail e) \<or> r1 = r"
      using tx_runsD [OF m _ m1] s redb_begin(4) [OF R Inr] by auto
    with run Inr m1 s show ?thesis by (auto simp: read_tx_def redb_end(4) [OF R])
  qed
qed

section \<open>Typed tables\<close>

text \<open>The raw table that holds a typed map.\<close>

definition table_rel ::
  "('k, 'v) table \<Rightarrow> ('k \<Rightarrow> bool) \<Rightarrow> ('v \<Rightarrow> bool) \<Rightarrow> (byte list \<rightharpoonup> byte list) \<Rightarrow> ('k \<rightharpoonup> 'v) \<Rightarrow> bool" where
  "table_rel T wfk wfv raw m \<longleftrightarrow>
    (\<forall>k v. m k = Some v \<longrightarrow> wfk k \<and> wfv v)
    \<and> (\<forall>kb vb. raw kb = Some vb \<longleftrightarrow> (\<exists>k v. m k = Some v \<and> tb_key T k = kb \<and> tb_enc T v = Some vb))"

text \<open>
  A table with its codecs and its place in an abstract state: keys are told apart by their encoding,
  values are encoded and read back; \<open>sel\<close> and \<open>upd\<close> read and replace the typed map in the state.
\<close>

locale stored_table =
  fixes T :: "('k, 'v) table"
    and wfk :: "'k \<Rightarrow> bool"
    and wfv :: "'v \<Rightarrow> bool"
    and rel :: "tables \<Rightarrow> 's \<Rightarrow> bool"
    and sel :: "'s \<Rightarrow> ('k \<rightharpoonup> 'v)"
    and upd :: "('k \<rightharpoonup> 'v) \<Rightarrow> 's \<Rightarrow> 's"
  assumes key_inj: "wfk k \<Longrightarrow> wfk k' \<Longrightarrow> tb_key T k = tb_key T k' \<Longrightarrow> k = k'"
    and enc_dec: "wfv x \<Longrightarrow> \<exists>bytes. tb_enc T x = Some bytes \<and> tb_dec T bytes = Some x"
    and rel_table: "rel v s \<Longrightarrow> \<exists>raw. v (tb_name T) = Some raw \<and> table_rel T wfk wfv raw (sel s)"
    and upd_sel: "upd (sel s) s = s"
    and rel_upd: "rel v s \<Longrightarrow> table_rel T wfk wfv raw m \<Longrightarrow> rel (v(tb_name T := Some raw)) (upd m s)"
begin

lemma rel_get:
  assumes "table_rel T wfk wfv raw m" "wfk k"
  shows "raw (tb_key T k) = (case m k of None \<Rightarrow> None | Some x \<Rightarrow> tb_enc T x)"
proof (cases "m k")
  case None
  with assms have "raw (tb_key T k) \<noteq> Some vb" for vb unfolding table_rel_def by (metis key_inj option.distinct(1))
  with None show ?thesis by (cases "raw (tb_key T k)") auto
next
  case (Some x)
  with assms obtain bytes where "tb_enc T x = Some bytes" using enc_dec unfolding table_rel_def by metis
  with assms Some show ?thesis unfolding table_rel_def by auto
qed

lemma rel_insert:
  assumes rel: "table_rel T wfk wfv raw m" and k: "wfk k" and x: "wfv x" "tb_enc T x = Some bytes"
  shows "table_rel T wfk wfv (raw(tb_key T k \<mapsto> bytes)) (m(k \<mapsto> x))"
  unfolding table_rel_def
proof (intro conjI allI impI)
  fix k' v' assume "(m(k \<mapsto> x)) k' = Some v'"
  with rel k x show "wfk k'" "wfv v'" unfolding table_rel_def by (auto split: if_splits)
next
  fix kb vb
  show "((raw(tb_key T k \<mapsto> bytes)) kb = Some vb) =
      (\<exists>k' v'. (m(k \<mapsto> x)) k' = Some v' \<and> tb_key T k' = kb \<and> tb_enc T v' = Some vb)"
    using rel k x key_inj unfolding table_rel_def by (cases "kb = tb_key T k") (auto, metis+)
qed

lemma rel_remove:
  assumes rel: "table_rel T wfk wfv raw m" and k: "wfk k"
  shows "table_rel T wfk wfv (raw(tb_key T k := None)) (m(k := None))"
  unfolding table_rel_def
proof (intro conjI allI impI)
  fix k' v' assume "(m(k := None)) k' = Some v'"
  with rel show "wfk k'" "wfv v'" unfolding table_rel_def by (auto split: if_splits)
next
  fix kb vb
  show "((raw(tb_key T k := None)) kb = Some vb) =
      (\<exists>k' v'. (m(k := None)) k' = Some v' \<and> tb_key T k' = kb \<and> tb_enc T v' = Some vb)"
    using rel k key_inj unfolding table_rel_def by (cases "kb = tb_key T k") (auto, metis+)
qed

lemma run_open:
  assumes "redb_ok R"
  shows "tx_runs R rel e (open_table R e T) s (Ok ()) s"
  unfolding tx_runs_def
proof (intro allI impI)
  fix tx r' tx'
  assume s: "rel (rd_view R tx) s" and run: "open_table R e T tx = (r', tx')"
  obtain q where q: "rd_open_table R (tb_name T) tx = (q, tx')"
    and r': "r' = (case q of Inl _ \<Rightarrow> Err (Fail e) | Inr a \<Rightarrow> Ok a)"
    using run by (auto simp: open_table_def callT_def split: prod.splits sum.splits)
  obtain raw where "rd_view R tx (tb_name T) = Some raw" using rel_table [OF s] by auto
  then have "rd_base R tx' = rd_base R tx" "q = Ok () \<longrightarrow> rd_view R tx' = rd_view R tx"
    using tx_callD [OF redb_tx_call(1) [OF assms] q] by simp_all
  with r' s show "rd_base R tx' = rd_base R tx \<and> (r' = Err (Fail e) \<or> r' = Ok () \<and> rel (rd_view R tx') s)"
    by (cases q) auto
qed

lemma run_get:
  assumes R: "redb_ok R" and k: "wfk k"
  shows "tx_runs R rel e (table_get R e T k) s (Ok (sel s k)) s"
  unfolding tx_runs_def
proof (intro allI impI)
  fix tx r' tx'
  assume s: "rel (rd_view R tx) s" and run: "table_get R e T k tx = (r', tx')"
  obtain raw where raw: "rd_view R tx (tb_name T) = Some raw" "table_rel T wfk wfv raw (sel s)"
    using rel_table [OF s] by blast
  obtain q tx1 where q: "rd_get R (tb_name T) (tb_key T k) tx = (q, tx1)" by fastforce
  have v: "rd_base R tx1 = rd_base R tx" "rd_view R tx1 = rd_view R tx"
    and ok: "\<And>x. q = Ok x \<Longrightarrow> x = raw (tb_key T k)"
    using tx_callD [OF redb_tx_call(2) [OF R] q] raw(1) by simp_all
  have "sel s k = Some x \<Longrightarrow> wfv x" for x using raw(2) unfolding table_rel_def by blast
  then have dec: "raw (tb_key T k) = None \<and> sel s k = None
      \<or> (\<exists>bytes x. raw (tb_key T k) = Some bytes \<and> tb_dec T bytes = Some x \<and> sel s k = Some x)"
    using rel_get [OF raw(2) k] enc_dec by (cases "sel s k") fastforce+
  show "rd_base R tx' = rd_base R tx \<and> (r' = Err (Fail e) \<or> r' = Ok (sel s k) \<and> rel (rd_view R tx') s)"
  proof (cases q)
    case (Inl x)
    with run q v show ?thesis by (auto simp: table_get_def bindT_def callT_def)
  next
    case (Inr x)
    with run q v dec ok [OF Inr] s show ?thesis
      by (auto simp: table_get_def bindT_def callT_def decodeT_def)
  qed
qed

lemma run_insert:
  assumes R: "redb_ok R" and k: "wfk k" and x: "wfv x"
  shows "tx_runs R rel e (table_insert R e T k x) s (Ok ()) (upd ((sel s)(k \<mapsto> x)) s)"
  unfolding tx_runs_def
proof (intro allI impI)
  fix tx r' tx'
  assume s: "rel (rd_view R tx) s" and run: "table_insert R e T k x tx = (r', tx')"
  obtain raw where raw: "rd_view R tx (tb_name T) = Some raw" "table_rel T wfk wfv raw (sel s)"
    using rel_table [OF s] by blast
  obtain bytes where bytes: "tb_enc T x = Some bytes" using enc_dec [OF x] by blast
  obtain q where q: "rd_insert R (tb_name T) (tb_key T k) bytes tx = (q, tx')"
    and r': "r' = (case q of Inl _ \<Rightarrow> Err (Fail e) | Inr a \<Rightarrow> Ok a)"
    using run bytes
    by (auto simp: table_insert_def bindT_def encodeT_def callT_def split: prod.splits sum.splits)
  have "rd_base R tx' = rd_base R tx"
    "q = Ok () \<longrightarrow> rd_view R tx' = (rd_view R tx)(tb_name T \<mapsto> raw(tb_key T k \<mapsto> bytes))"
    using tx_callD [OF redb_tx_call(3) [OF R] q] raw(1) by simp_all
  with r' rel_upd [OF s rel_insert [OF raw(2) k x bytes]]
  show "rd_base R tx' = rd_base R tx \<and>
      (r' = Err (Fail e) \<or> r' = Ok () \<and> rel (rd_view R tx') (upd ((sel s)(k \<mapsto> x)) s))"
    by (cases q) auto
qed

lemma rel_empty:
  assumes "table_rel T wfk wfv raw m"
  shows "raw = Map.empty \<longleftrightarrow> m = Map.empty"
proof
  assume empty: "raw = Map.empty"
  have "m k \<noteq> Some x" for k x
  proof
    assume kx: "m k = Some x"
    with assms have "wfk k" "wfv x" by (simp_all add: table_rel_def)
    with rel_get [OF assms, of k] kx enc_dec [of x] empty show False by auto
  qed
  then show "m = Map.empty" by (intro ext) (meson option.exhaust)
next
  assume "m = Map.empty"
  with assms have "raw kb \<noteq> Some vb" for kb vb by (simp add: table_rel_def)
  then show "raw = Map.empty" by (intro ext) (meson option.exhaust)
qed

lemma run_nonempty:
  assumes R: "redb_ok R"
  shows "tx_runs R rel e (table_nonempty R e T) s (Ok (sel s \<noteq> Map.empty)) s"
  unfolding tx_runs_def
proof (intro allI impI)
  fix tx r' tx'
  assume s: "rel (rd_view R tx) s" and run: "table_nonempty R e T tx = (r', tx')"
  obtain raw where raw: "rd_view R tx (tb_name T) = Some raw" "table_rel T wfk wfv raw (sel s)"
    using rel_table [OF s] by blast
  obtain q where q: "rd_iter R (tb_name T) tx = (q, tx')"
    and r': "r' = (case q of Inl _ \<Rightarrow> Err (Fail e) | Inr rows \<Rightarrow> Ok (rows \<noteq> []))"
    using run by (auto simp: table_nonempty_def bindT_def callT_def returnT_def split: prod.splits sum.splits)
  have v: "rd_base R tx' = rd_base R tx" "rd_view R tx' = rd_view R tx"
    "q = Ok rows \<Longrightarrow> is_rows raw rows" for rows
    using tx_callD [OF redb_tx_call(5) [OF R] q] raw(1) by simp_all
  have "(rows \<noteq> []) = (sel s \<noteq> Map.empty)" if "is_rows raw rows" for rows
  proof -
    have "rows = [] \<longleftrightarrow> raw = Map.empty" using that unfolding is_rows_def by (auto simp: map_of_eq_empty_iff)
    also have "\<dots> \<longleftrightarrow> sel s = Map.empty" by (rule rel_empty [OF raw(2)])
    finally show ?thesis by simp
  qed
  with r' v s show "rd_base R tx' = rd_base R tx \<and>
      (r' = Err (Fail e) \<or> r' = Ok (sel s \<noteq> Map.empty) \<and> rel (rd_view R tx') s)"
    by (cases q) auto
qed

lemma run_remove:
  assumes R: "redb_ok R" and k: "wfk k"
  shows "tx_runs R rel e (table_remove R e T k) s (Ok ()) (upd ((sel s)(k := None)) s)"
  unfolding tx_runs_def
proof (intro allI impI)
  fix tx r' tx'
  assume s: "rel (rd_view R tx) s" and run: "table_remove R e T k tx = (r', tx')"
  obtain raw where raw: "rd_view R tx (tb_name T) = Some raw" "table_rel T wfk wfv raw (sel s)"
    using rel_table [OF s] by blast
  obtain q where q: "rd_remove R (tb_name T) (tb_key T k) tx = (q, tx')"
    and r': "r' = (case q of Inl _ \<Rightarrow> Err (Fail e) | Inr a \<Rightarrow> Ok a)"
    using run by (auto simp: table_remove_def callT_def split: prod.splits sum.splits)
  have "rd_base R tx' = rd_base R tx"
    "q = Ok () \<longrightarrow> rd_view R tx' = (rd_view R tx)(tb_name T \<mapsto> raw(tb_key T k := None))"
    using tx_callD [OF redb_tx_call(4) [OF R] q] raw(1) by simp_all
  with r' rel_upd [OF s rel_remove [OF raw(2) k]]
  show "rd_base R tx' = rd_base R tx \<and>
      (r' = Err (Fail e) \<or> r' = Ok () \<and> rel (rd_view R tx') (upd ((sel s)(k := None)) s))"
    by (cases q) auto
qed

text \<open>Guarded updates.\<close>

lemma run_insert_if:
  "redb_ok R \<Longrightarrow> wfk k \<Longrightarrow> wfv x \<Longrightarrow>
   tx_runs R rel e (if c then table_insert R e T k x else returnT ()) s (Ok ())
     (upd (if c then (sel s)(k \<mapsto> x) else sel s) s)"
  by (simp add: run_insert tx_runs_return upd_sel)

lemma run_remove_if:
  "redb_ok R \<Longrightarrow> wfk k \<Longrightarrow>
   tx_runs R rel e (if c then table_remove R e T k else returnT ()) s (Ok ())
     (upd (if c then (sel s)(k := None) else sel s) s)"
  by (simp add: run_remove tx_runs_return upd_sel)

end

text \<open>A table of a database that holds a typed map.\<close>

definition holds_table ::
  "tables \<Rightarrow> ('k, 'v) table \<Rightarrow> ('k \<Rightarrow> bool) \<Rightarrow> ('v \<Rightarrow> bool) \<Rightarrow> ('k \<rightharpoonup> 'v) \<Rightarrow> bool" where
  "holds_table v T wfk wfv m \<longleftrightarrow> (\<exists>raw. v (tb_name T) = Some raw \<and> table_rel T wfk wfv raw m)"

lemma holds_table_wf: "holds_table v T wfk wfv m \<Longrightarrow> m k = Some x \<Longrightarrow> wfk k \<and> wfv x"
  unfolding holds_table_def table_rel_def by blast

lemma holds_empty: "v (tb_name T) = Some Map.empty \<Longrightarrow> holds_table v T wfk wfv Map.empty"
  by (simp add: holds_table_def table_rel_def)

lemma call_runs:
  assumes "\<And>tx q tx'. rel (rd_view R tx) s \<Longrightarrow> op tx = (q, tx') \<Longrightarrow>
      rd_base R tx' = rd_base R tx \<and> (\<forall>a'. q = Ok a' \<longrightarrow> a' = a \<and> rel (rd_view R tx') s')"
  shows "tx_runs R rel e (callT e op) s (Ok a) s'"
  unfolding tx_runs_def
proof (intro allI impI)
  fix tx r' tx'
  assume s: "rel (rd_view R tx) s" and run: "callT e op tx = (r', tx')"
  obtain q where q: "op tx = (q, tx')" and r': "r' = (case q of Inl _ \<Rightarrow> Err (Fail e) | Inr a \<Rightarrow> Ok a)"
    using run by (auto simp: callT_def split: prod.splits sum.splits)
  with assms [OF s q] show "rd_base R tx' = rd_base R tx \<and> (r' = Err (Fail e) \<or> r' = Ok a \<and> rel (rd_view R tx') s')"
    by (cases q) auto
qed

text \<open>The values of the rows of a table, decoded, are those of the typed map.\<close>

lemma rows_decode:
  assumes raw: "table_rel T wfk wfv raw m" and rows: "is_rows raw rows"
    and codec: "\<And>x. \<exists>b. tb_enc T x = Some b \<and> tb_dec T b = Some x"
  shows "b \<in> set (map snd rows) \<Longrightarrow> \<exists>x. tb_dec T b = Some x \<and> wfv x"
    and "(\<lambda>b. the (tb_dec T b)) ` set (map snd rows) = ran m"
proof -
  have ran: "set (map snd rows) = ran raw"
  proof -
    have "distinct (map fst rows)" using rows strict_sorted_iff by (auto simp: is_rows_def)
    then show ?thesis using rows by (simp add: is_rows_def ran_distinct [symmetric])
  qed
  have enc: "b \<in> ran raw \<longleftrightarrow> (\<exists>x \<in> ran m. tb_enc T x = Some b)" for b
    using raw by (auto simp: ran_def table_rel_def)
  have dec: "tb_dec T b = Some x" if "tb_enc T x = Some b" for x b
    using codec [of x] that by auto
  have wf: "wfv x" if "x \<in> ran m" for x using that raw by (auto simp: ran_def table_rel_def)
  show "b \<in> set (map snd rows) \<Longrightarrow> \<exists>x. tb_dec T b = Some x \<and> wfv x"
    unfolding ran using enc dec wf by blast
  show "(\<lambda>b. the (tb_dec T b)) ` set (map snd rows) = ran m"
    unfolding ran
  proof (intro set_eqI iffI)
    fix x assume "x \<in> (\<lambda>b. the (tb_dec T b)) ` ran raw"
    then show "x \<in> ran m" using enc dec by fastforce
  next
    fix x assume x: "x \<in> ran m"
    obtain b where "tb_enc T x = Some b" using codec by blast
    with x enc dec show "x \<in> (\<lambda>b. the (tb_dec T b)) ` ran raw" by (metis image_eqI option.sel)
  qed
qed

section \<open>A database in memory\<close>

text \<open>
  A database with the documented behaviour, to evaluate the programs on: tables are lists of rows, and
  a script says which of the following calls fail.
\<close>

type_synonym rows = "(byte list \<times> byte list) list"

record mem_db =
  md_tables :: "string \<Rightarrow> rows option"
  md_script :: "bool list"

record mem_tx =
  mt_base :: "string \<Rightarrow> rows option"
  mt_view :: "string \<Rightarrow> rows option"
  mt_writable :: bool
  mt_script :: "bool list"

definition mem_call :: "(mem_tx \<Rightarrow> (redb_error + 'a) \<times> mem_tx) \<Rightarrow> mem_tx \<Rightarrow> (redb_error + 'a) \<times> mem_tx" where
  "mem_call op tx =
    (case mt_script tx of
       [] \<Rightarrow> op tx
     | fail # rest \<Rightarrow>
         let tx = tx\<lparr>mt_script := rest\<rparr> in if fail then (Err RedbOther, tx) else op tx)"

definition mem_tables :: "(string \<Rightarrow> rows option) \<Rightarrow> tables" where
  "mem_tables ts t = map_option map_of (ts t)"

definition mem_rows :: "rows \<Rightarrow> rows" where
  "mem_rows rows = map (\<lambda>k. (k, the (map_of rows k))) (sort (remdups (map fst rows)))"

definition mem_begin :: "bool \<Rightarrow> mem_db \<Rightarrow> mem_db + mem_tx" where
  "mem_begin writable db =
    (case md_script db of
       [] \<Rightarrow> Inr \<lparr>mt_base = md_tables db, mt_view = md_tables db, mt_writable = writable, mt_script = []\<rparr>
     | fail # rest \<Rightarrow>
         if fail then Inl (db\<lparr>md_script := rest\<rparr>)
         else Inr \<lparr>mt_base = md_tables db, mt_view = md_tables db, mt_writable = writable, mt_script = rest\<rparr>)"

text \<open>Ending a transaction: a failing commit, too, may have reached the disk.\<close>

definition mem_commit :: "mem_tx \<Rightarrow> (redb_error + unit) \<times> mem_db" where
  "mem_commit tx =
    (case mt_script tx of
       [] \<Rightarrow> (Ok (), \<lparr>md_tables = mt_view tx, md_script = []\<rparr>)
     | [fail] \<Rightarrow> (if fail then Err RedbOther else Ok (), \<lparr>md_tables = mt_view tx, md_script = []\<rparr>)
     | fail # lost # rest \<Rightarrow>
         (if fail then Err RedbOther else Ok (),
          \<lparr>md_tables = if fail \<and> lost then mt_base tx else mt_view tx, md_script = rest\<rparr>))"

definition mem_drop :: "mem_tx \<Rightarrow> mem_db" where
  "mem_drop tx = \<lparr>md_tables = mt_base tx, md_script = mt_script tx\<rparr>"

definition mem_redb :: "(mem_db, mem_tx) redb" where
  "mem_redb = \<lparr>
    rd_create = (\<lambda>db. case md_script db of [] \<Rightarrow> (Ok (), db)
       | fail # rest \<Rightarrow> (if fail then Err DatabaseAlreadyOpen else Ok (), db\<lparr>md_script := rest\<rparr>)),
    rd_open = (\<lambda>db. case md_script db of [] \<Rightarrow> (Ok (), db)
       | fail # rest \<Rightarrow> (if fail then Err DatabaseAlreadyOpen else Ok (), db\<lparr>md_script := rest\<rparr>)),
    rd_begin_write = mem_begin True,
    rd_begin_read = mem_begin False,
    rd_open_table = (\<lambda>t. mem_call (\<lambda>tx. case mt_view tx t of
         Some _ \<Rightarrow> (Ok (), tx)
       | None \<Rightarrow> if mt_writable tx then (Ok (), tx\<lparr>mt_view := (mt_view tx)(t \<mapsto> [])\<rparr>)
                 else (Err TableDoesNotExist, tx))),
    rd_get = (\<lambda>t k. mem_call (\<lambda>tx. (case mt_view tx t of None \<Rightarrow> Err RedbOther | Some rows \<Rightarrow> Ok (map_of rows k), tx))),
    rd_insert = (\<lambda>t k v. mem_call (\<lambda>tx. case mt_view tx t of
         None \<Rightarrow> (Err RedbOther, tx)
       | Some rows \<Rightarrow> (Ok (), tx\<lparr>mt_view := (mt_view tx)(t \<mapsto> (k, v) # rows)\<rparr>))),
    rd_remove = (\<lambda>t k. mem_call (\<lambda>tx. case mt_view tx t of
         None \<Rightarrow> (Err RedbOther, tx)
       | Some rows \<Rightarrow> (Ok (), tx\<lparr>mt_view := (mt_view tx)(t \<mapsto> filter (\<lambda>(k', _). k' \<noteq> k) rows)\<rparr>))),
    rd_iter = (\<lambda>t. mem_call (\<lambda>tx. (case mt_view tx t of None \<Rightarrow> Err RedbOther | Some rows \<Rightarrow> Ok (mem_rows rows), tx))),
    rd_commit = mem_commit,
    rd_abort = (\<lambda>tx. (Ok (), mem_drop tx)),
    rd_drop = mem_drop,
    rd_str_key = str_bytes,
    rd_u32_enc = (\<lambda>v. le_bytes 4 (unat v)),
    rd_u32_dec = (\<lambda>bs. if length bs = 4 then Some (word_of_nat (le_val bs)) else None),
    rd_tables = (\<lambda>db. mem_tables (md_tables db)),
    rd_base = (\<lambda>tx. mem_tables (mt_base tx)),
    rd_view = (\<lambda>tx. mem_tables (mt_view tx)),
    rd_writable = mt_writable\<rparr>"

lemma mem_call_tx:
  assumes "\<And>tx r tx'. op tx = (r, tx') \<Longrightarrow>
      mt_base tx' = mt_base tx \<and> mt_writable tx' = mt_writable tx \<and> post tx (mem_tables (mt_view tx)) r (mem_tables (mt_view tx'))"
    and "\<And>tx tx'. mt_view tx = mt_view tx' \<Longrightarrow> mt_writable tx = mt_writable tx' \<Longrightarrow> post tx = post tx'"
    and "\<And>tx. post tx (mem_tables (mt_view tx)) (Err RedbOther) (mem_tables (mt_view tx))"
  shows "tx_call mem_redb (mem_call op) post"
proof -
  have "mt_base tx' = mt_base tx \<and> mt_writable tx' = mt_writable tx \<and> post tx (mem_tables (mt_view tx)) r (mem_tables (mt_view tx'))"
    if "mem_call op tx = (r, tx')" for tx r tx'
  proof (cases "mt_script tx")
    case Nil
    with that have "op tx = (r, tx')" by (simp add: mem_call_def)
    then show ?thesis by (rule assms(1))
  next
    case (Cons fail rest)
    have eq: "post (tx\<lparr>mt_script := rest\<rparr>) = post tx" by (rule assms(2)) simp_all
    show ?thesis
    proof (cases fail)
      case True
      with that Cons assms(3) [of tx] show ?thesis by (auto simp: mem_call_def Let_def)
    next
      case False
      with that Cons have "op (tx\<lparr>mt_script := rest\<rparr>) = (r, tx')" by (simp add: mem_call_def Let_def)
      from assms(1) [OF this] eq show ?thesis by simp
    qed
  qed
  then show ?thesis unfolding tx_call_def by (simp add: mem_redb_def)
qed

lemma mem_rows_is_rows: "is_rows (map_of rows) (mem_rows rows)"
proof -
  have "map_of (map (\<lambda>k. (k, the (map_of rows k))) ks) = (map_of rows) |` set ks" if "set ks \<subseteq> set (map fst rows)" for ks
    using that by (induction ks) (auto simp: fun_eq_iff restrict_map_def map_of_eq_None_iff dest!: weak_map_of_SomeI)
  then have "map_of (mem_rows rows) = (map_of rows) |` (fst ` set rows)" by (simp add: mem_rows_def)
  also have "\<dots> = (map_of rows) |` dom (map_of rows)" by (simp add: dom_map_of_conv_image_fst)
  also have "\<dots> = map_of rows" by (rule ext) (auto simp: restrict_map_def domIff)
  finally have "map_of (mem_rows rows) = map_of rows" .
  moreover have "sorted_wrt (<) (map fst (mem_rows rows))"
    by (simp add: mem_rows_def comp_def strict_sorted_iff)
  ultimately show ?thesis by (simp add: is_rows_def)
qed

lemma mem_tables_upd [simp]: "mem_tables (ts(t \<mapsto> rows)) = (mem_tables ts)(t \<mapsto> map_of rows)"
  by (auto simp: mem_tables_def fun_eq_iff)

lemma map_of_remove: "map_of (filter (\<lambda>(k', _). k' \<noteq> k) rows) = (map_of rows)(k := None)"
  by (induction rows) (auto simp: fun_eq_iff)

lemma mem_tx_calls:
  "tx_call mem_redb (rd_open_table mem_redb t) (\<lambda>tx v r v'.
     (r = Ok () \<longrightarrow> v' = (if rd_writable mem_redb tx \<and> v t = None then v(t := Some Map.empty) else v) \<and> v' t \<noteq> None)
     \<and> (r = Err TableDoesNotExist \<longrightarrow> \<not> rd_writable mem_redb tx \<and> v t = None))"
  "tx_call mem_redb (rd_get mem_redb t k) (\<lambda>tx v r v'. v' = v \<and> (\<forall>x m. r = Ok x \<longrightarrow> v t = Some m \<longrightarrow> x = m k))"
  "tx_call mem_redb (rd_insert mem_redb t k x) (\<lambda>tx v r v'.
     \<forall>m. r = Ok () \<longrightarrow> v t = Some m \<longrightarrow> v' = v(t := Some (m(k \<mapsto> x))))"
  "tx_call mem_redb (rd_remove mem_redb t k) (\<lambda>tx v r v'.
     \<forall>m. r = Ok () \<longrightarrow> v t = Some m \<longrightarrow> v' = v(t := Some (m(k := None))))"
  "tx_call mem_redb (rd_iter mem_redb t) (\<lambda>tx v r v'. v' = v
     \<and> (\<forall>rows m. r = Ok rows \<longrightarrow> v t = Some m \<longrightarrow> is_rows m rows))"
  unfolding mem_redb_def redb.simps
  by (fold mem_redb_def, rule mem_call_tx; auto simp: mem_redb_def mem_tables_def [of _ t] map_of_remove mem_rows_is_rows
      split: option.splits if_splits)+

lemma mem_redb_ok: "redb_ok mem_redb"
  unfolding redb_ok_def
proof (intro conjI allI mem_tx_calls)
  show "rd_commit mem_redb tx = (Ok (), db) \<longrightarrow> rd_tables mem_redb db = rd_view mem_redb tx"
    and "rd_commit mem_redb tx = (Err e, db) \<longrightarrow> rd_tables mem_redb db \<in> {rd_base mem_redb tx, rd_view mem_redb tx}"
    for tx e db
    by (auto simp: mem_redb_def mem_commit_def split: list.splits if_splits)
qed (auto simp: mem_redb_def mem_begin_def mem_drop_def split: list.splits if_splits)

end
