(* ===== verification/ImageIndex.thy ===== *)
theory ImageIndex
  imports ImageIo IndexCodec Redb
begin

text \<open>
  The image index, \<^verbatim>\<open>libs/image-core/src/storage/index\<close> (\<^verbatim>\<open>store.rs\<close>, \<^verbatim>\<open>link_ref.rs\<close>,
  \<^verbatim>\<open>file_ref.rs\<close>, \<^verbatim>\<open>blueprint.rs\<close>) and the store adapter \<^verbatim>\<open>libs/image-core/src/store.rs\<close>, over the
  database of \<open>Redb\<close>, the byte forms of \<open>IndexCodec\<close> and the disk of \<open>ImageIo\<close>. The abstract
  specification of the store is a record of five typed maps with one function per operation; the
  operations over the database are proved to implement it.
\<close>

section \<open>Tables\<close>

datatype index_error =
    IxOpen
  | IxSchemaMismatch
  | IxTransaction
  | IxIdentityMismatch
  | IxNamespaceMismatch
  | IxEntryNotFound uuid
  | IxArtifactMissing path
  | IxBlueprintTargetMismatch
  | IxBlueprintConflict
  | IxMissingPrevious
  | IxFileRefIdentityConflict

definition LINK_DIGESTS :: "(namespaced_link_digest, artifact_id) table" where
  "LINK_DIGESTS = \<lparr>tb_name = ''link_digests'', tb_key = link_key_encode, tb_enc = Some \<circ> id_encode, tb_dec = id_decode\<rparr>"

definition FILE_DIGESTS :: "(namespaced_file_digest, artifact_id) table" where
  "FILE_DIGESTS = \<lparr>tb_name = ''file_digests'', tb_key = file_key_encode, tb_enc = Some \<circ> id_encode, tb_dec = id_decode\<rparr>"

definition FILE_REFS :: "(artifact_id, file_ref) table" where
  "FILE_REFS = \<lparr>tb_name = ''file_refs'', tb_key = id_encode, tb_enc = Some \<circ> file_ref_encode, tb_dec = file_ref_decode\<rparr>"

definition LINK_REFS :: "(artifact_id, link_ref) table" where
  "LINK_REFS = \<lparr>tb_name = ''link_refs'', tb_key = id_encode, tb_enc = Some \<circ> link_ref_encode, tb_dec = link_ref_decode\<rparr>"

text \<open>The paths in a blueprint have the form of the host, so the table depends on it.\<close>

definition BLUEPRINTS :: "bool \<Rightarrow> (artifact_id, blueprint) table" where
  "BLUEPRINTS unix =
    \<lparr>tb_name = ''blueprints'', tb_key = id_encode, tb_enc = blueprint_encode, tb_dec = blueprint_decode unix\<rparr>"

text \<open>The schema marker, a table from strings to \<open>u32\<close> in the forms of the database.\<close>

definition IMAGE_SCHEMA :: "('db, 'tx) redb \<Rightarrow> (string, u32) table" where
  "IMAGE_SCHEMA R =
    \<lparr>tb_name = ''image_schema'', tb_key = rd_str_key R, tb_enc = Some \<circ> rd_u32_enc R, tb_dec = rd_u32_dec R\<rparr>"

definition IMAGE_SCHEMA_VERSION :: u32 where
  "IMAGE_SCHEMA_VERSION = 3"

section \<open>Opening\<close>

definition table_len :: "('db, 'tx) redb \<Rightarrow> ('k, 'v) table \<Rightarrow> ('tx, index_error, bool) txm" where
  "table_len R T = bindT (open_table R IxOpen T) (\<lambda>_. table_nonempty R IxOpen T)"

text \<open>\<open>a? || b?\<close>.\<close>

definition orT :: "('tx, 'e, bool) txm \<Rightarrow> ('tx, 'e, bool) txm \<Rightarrow> ('tx, 'e, bool) txm" where
  "orT a b = bindT a (\<lambda>x. if x then returnT True else b)"

definition has_records :: "('db, 'tx) redb \<Rightarrow> bool \<Rightarrow> ('tx, index_error, bool) txm" where
  "has_records R unix =
    orT (table_len R LINK_DIGESTS) (orT (table_len R FILE_REFS) (orT (table_len R FILE_DIGESTS)
      (orT (table_len R (BLUEPRINTS unix)) (table_nonempty R IxOpen LINK_REFS))))"

text \<open>The transaction of \<open>IndexStore::open\<close>: the tables are created, and a database with another
  version, or with records but no version, is refused.\<close>

definition open_schema :: "('db, 'tx) redb \<Rightarrow> bool \<Rightarrow> ('tx, index_error, unit) txm" where
  "open_schema R unix =
    bindT (open_table R IxOpen LINK_DIGESTS) (\<lambda>_.
    bindT (open_table R IxOpen FILE_REFS) (\<lambda>_.
    bindT (open_table R IxOpen FILE_DIGESTS) (\<lambda>_.
    bindT (open_table R IxOpen (BLUEPRINTS unix)) (\<lambda>_.
    bindT (open_table R IxOpen LINK_REFS) (\<lambda>_.
    bindT (open_table R IxOpen (IMAGE_SCHEMA R)) (\<lambda>_.
    bindT (table_get R IxOpen (IMAGE_SCHEMA R) ''version'') (\<lambda>recorded.
    case recorded of
      Some version \<Rightarrow> if version \<noteq> IMAGE_SCHEMA_VERSION then failT IxSchemaMismatch else returnT ()
    | None \<Rightarrow>
        bindT (has_records R unix) (\<lambda>has.
        if has then failT IxSchemaMismatch
        else table_insert R IxOpen (IMAGE_SCHEMA R) ''version'' IMAGE_SCHEMA_VERSION))))))))"

text \<open>
  An error of \<open>open\<close>; \<open>is_lock_contention\<close> finds \<open>DatabaseAlreadyOpen\<close> among its frames exactly when
  creating the database failed with it.
\<close>

datatype open_error = Contention | OpenFault "index_error fault"

definition index_open :: "('db, 'tx) redb \<Rightarrow> bool \<Rightarrow> 'db \<Rightarrow> (open_error + unit) \<times> 'db" where
  "index_open R unix db =
    (case rd_create R db of
       (Inl e, db) \<Rightarrow> (Err (if e = DatabaseAlreadyOpen then Contention else OpenFault (Fail IxOpen)), db)
     | (Inr _, db) \<Rightarrow>
         (case write_tx R IxOpen (open_schema R unix) db of
            (Inl f, db) \<Rightarrow> (Err (OpenFault f), db)
          | (Inr _, db) \<Rightarrow> (Ok (), db)))"

definition SHARED_OPEN_ATTEMPTS :: nat where
  "SHARED_OPEN_ATTEMPTS = 10"

text \<open>The loop of \<open>open_shared\<close> with \<open>n\<close> attempts left after this one.\<close>

fun open_shared_loop :: "('db, 'tx) redb \<Rightarrow> bool \<Rightarrow> nat \<Rightarrow> 'db \<Rightarrow> (index_error fault + unit) \<times> 'db" where
  "open_shared_loop R unix n db =
    (case index_open R unix db of
       (Inr _, db) \<Rightarrow> (Ok (), db)
     | (Inl Contention, db) \<Rightarrow>
         (case n of 0 \<Rightarrow> (Err (Fail IxOpen), db) | Suc m \<Rightarrow> open_shared_loop R unix m db)
     | (Inl (OpenFault f), db) \<Rightarrow> (Err f, db))"

declare open_shared_loop.simps [simp del]

definition open_shared :: "('db, 'tx) redb \<Rightarrow> bool \<Rightarrow> 'db \<Rightarrow> (index_error fault + unit) \<times> 'db" where
  "open_shared R unix db = open_shared_loop R unix (SHARED_OPEN_ATTEMPTS - 1) db"

section \<open>Reserving an identity\<close>

text \<open>\<open>link_ref::get_or_create\<close>; \<open>fresh\<close> is the version 7 UUID it makes when the link is new.\<close>

definition get_or_create_tx ::
  "('db, 'tx) redb \<Rightarrow> uuid \<Rightarrow> namespaced_link_digest \<Rightarrow> ('tx, index_error, link_ref) txm" where
  "get_or_create_tx R fresh link_digest =
    bindT (open_table R IxTransaction LINK_DIGESTS) (\<lambda>_.
    bindT (open_table R IxTransaction LINK_REFS) (\<lambda>_.
    bindT (table_get R IxTransaction LINK_DIGESTS link_digest) (\<lambda>resolved_artifact.
    bindT (case resolved_artifact of
             Some artifact_id \<Rightarrow> returnT artifact_id
           | None \<Rightarrow>
               let artifact_id = \<lparr>ai_namespace = nl_namespace link_digest, ai_uuid = fresh\<rparr> in
               bindT (table_insert R IxTransaction LINK_DIGESTS link_digest artifact_id) (\<lambda>_. returnT artifact_id))
      (\<lambda>artifact_id.
    bindT (table_get R IxTransaction LINK_REFS artifact_id) (\<lambda>resolved_link_ref.
    case resolved_link_ref of
      Some link_ref \<Rightarrow> returnT link_ref
    | None \<Rightarrow>
        let link_ref = \<lparr>lr_uuid = ai_uuid artifact_id, lr_namespace = nl_namespace link_digest,
                        lr_link_digest = nl_link_digest link_digest\<rparr> in
        bindT (table_insert R IxTransaction LINK_REFS artifact_id link_ref) (\<lambda>_. returnT link_ref))))))"

definition get_or_create ::
  "('db, 'tx) redb \<Rightarrow> uuid \<Rightarrow> namespaced_link_digest \<Rightarrow> 'db \<Rightarrow> (index_error fault + link_ref) \<times> 'db" where
  "get_or_create R fresh link_digest = write_tx R IxTransaction (get_or_create_tx R fresh link_digest)"

section \<open>File references\<close>

text \<open>
  Where the bytes of an entry are: the directory of its namespace and the text of its UUID, as the
  \<open>uuid\<close> crate prints it.
\<close>

record locations =
  lc_dir :: "namespace \<Rightarrow> path"
  lc_uuid_text :: "uuid \<Rightarrow> string"

definition file_ref_path :: "locations \<Rightarrow> file_ref \<Rightarrow> path" where
  "file_ref_path L f = lc_dir L (fr_namespace f) @ [lc_uuid_text L (fr_uuid f)]"

datatype file_validity = Valid | Miss | Indeterminate

definition stored_file_validity :: "hashes \<Rightarrow> locations \<Rightarrow> file_ref \<Rightarrow> disk \<Rightarrow> file_validity \<times> disk" where
  "stored_file_validity h L f d =
    (let path = file_ref_path L f; failed = (\<lambda>e. if ie_kind e = NotFound then Miss else Indeterminate) in
     case fs_metadata path d of
       (Inl e, d) \<Rightarrow> (failed e, d)
     | (Inr md, d) \<Rightarrow>
         if md \<noteq> MetaFile (fd_size (fr_file_digest f)) then (Miss, d)
         else
           (case fs_open path d of
              (Inl e, d) \<Rightarrow> (failed e, d)
            | (Inr handle, d) \<Rightarrow>
                (case fs_read_to_end handle d of
                   (Inl e, d) \<Rightarrow> (failed e, d)
                 | (Inr bytes, d) \<Rightarrow>
                     (if blake3_hash h bytes = fd_hash (fr_file_digest f) then Valid else Miss, d))))"

definition invalidate_tx :: "('db, 'tx) redb \<Rightarrow> file_ref \<Rightarrow> ('tx, index_error, unit) txm" where
  "invalidate_tx R f =
    (let i = file_ref_id f; digest = file_ref_digest f in
     bindT (open_table R IxTransaction FILE_REFS) (\<lambda>_.
     bindT (open_table R IxTransaction FILE_DIGESTS) (\<lambda>_.
     bindT (table_remove R IxTransaction FILE_REFS i) (\<lambda>_.
     bindT (table_get R IxTransaction FILE_DIGESTS digest) (\<lambda>owner.
     if owner = Some i then table_remove R IxTransaction FILE_DIGESTS digest else returnT ())))))"

definition invalidate :: "('db, 'tx) redb \<Rightarrow> file_ref \<Rightarrow> 'db \<Rightarrow> (index_error fault + unit) \<times> 'db" where
  "invalidate R f = write_tx R IxTransaction (invalidate_tx R f)"

definition lookup_file_tx :: "('db, 'tx) redb \<Rightarrow> artifact_id \<Rightarrow> ('tx, index_error, file_ref option) txm" where
  "lookup_file_tx R i =
    bindT (open_table R IxTransaction FILE_REFS) (\<lambda>_. table_get R IxTransaction FILE_REFS i)"

definition get_by_link_ref ::
  "('db, 'tx) redb \<Rightarrow> hashes \<Rightarrow> locations \<Rightarrow> link_ref \<Rightarrow> 'db \<times> disk \<Rightarrow>
   (index_error fault + file_ref option) \<times> 'db \<times> disk" where
  "get_by_link_ref R h L r = (\<lambda>(db, d).
    case read_tx R IxTransaction (lookup_file_tx R (link_ref_id r)) db of
      (Inl f, db) \<Rightarrow> (Err f, db, d)
    | (Inr None, db) \<Rightarrow> (Ok None, db, d)
    | (Inr (Some f), db) \<Rightarrow>
        (case stored_file_validity h L f d of
           (Valid, d) \<Rightarrow> (Ok (Some f), db, d)
         | (Miss, d) \<Rightarrow>
             (case invalidate R f db of
                (Inl e, db) \<Rightarrow> (Err e, db, d)
              | (Inr _, db) \<Rightarrow> (Ok None, db, d))
         | (Indeterminate, d) \<Rightarrow> (Ok None, db, d)))"

definition upsert_tx :: "('db, 'tx) redb \<Rightarrow> link_ref \<Rightarrow> file_ref \<Rightarrow> ('tx, index_error, unit) txm" where
  "upsert_tx R r f =
    (let link_digest = link_ref_digest r; file_digest = file_ref_digest f in
     bindT (open_table R IxTransaction LINK_DIGESTS) (\<lambda>_.
     bindT (open_table R IxTransaction FILE_DIGESTS) (\<lambda>_.
     bindT (open_table R IxTransaction LINK_REFS) (\<lambda>_.
     bindT (open_table R IxTransaction FILE_REFS) (\<lambda>_.
     bindT (table_get R IxTransaction LINK_DIGESTS link_digest) (\<lambda>resolved_link_ref.
     bindT (case resolved_link_ref of
              Some i \<Rightarrow> returnT i
            | None \<Rightarrow> bindT (table_insert R IxTransaction LINK_DIGESTS link_digest (link_ref_id r))
                       (\<lambda>_. returnT (link_ref_id r)))
       (\<lambda>i.
     bindT (table_get R IxTransaction FILE_DIGESTS file_digest) (\<lambda>file_digest_owner.
     bindT (if file_digest_owner = None
            then table_insert R IxTransaction FILE_DIGESTS file_digest (file_ref_id f) else returnT ()) (\<lambda>_.
     bindT (table_get R IxTransaction LINK_REFS i) (\<lambda>known.
     bindT (if known = None then table_insert R IxTransaction LINK_REFS i r else returnT ()) (\<lambda>_.
     table_insert R IxTransaction FILE_REFS (file_ref_id f) f)))))))))))"

definition file_ref_upsert ::
  "('db, 'tx) redb \<Rightarrow> link_ref \<Rightarrow> file_ref \<Rightarrow> 'db \<Rightarrow> (index_error fault + unit) \<times> 'db" where
  "file_ref_upsert R r f db =
    (if lr_namespace r \<noteq> fr_namespace f \<or> lr_uuid r \<noteq> fr_uuid f
     then (Err (Fail IxIdentityMismatch), db)
     else write_tx R IxTransaction (upsert_tx R r f) db)"

text \<open>The digest index after an entry changed from one digest to another.\<close>

definition rebind_digest_tx ::
  "('db, 'tx) redb \<Rightarrow> artifact_id \<Rightarrow> namespaced_file_digest \<Rightarrow> namespaced_file_digest \<Rightarrow> ('tx, index_error, unit) txm" where
  "rebind_digest_tx R i previous_digest new_digest =
    (if previous_digest = new_digest then returnT ()
     else
       bindT (table_get R IxTransaction FILE_DIGESTS new_digest) (\<lambda>existing.
       bindT (if existing = None then table_insert R IxTransaction FILE_DIGESTS new_digest i
              else returnT ()) (\<lambda>_.
       bindT (table_get R IxTransaction FILE_DIGESTS previous_digest) (\<lambda>owner.
       if owner = Some i then table_remove R IxTransaction FILE_DIGESTS previous_digest
       else returnT ()))))"

text \<open>
  The transaction of \<open>update\<close>. The two refusals abort the transaction, so they are results of the
  transaction program.
\<close>

definition update_tx :: "('db, 'tx) redb \<Rightarrow> file_ref \<Rightarrow> ('tx, index_error, index_error + file_ref) txm" where
  "update_tx R f =
    (let i = file_ref_id f in
     bindT (open_table R IxTransaction FILE_REFS) (\<lambda>_.
     bindT (open_table R IxTransaction FILE_DIGESTS) (\<lambda>_.
     bindT (table_get R IxTransaction FILE_REFS i) (\<lambda>previous.
     case previous of
       None \<Rightarrow> returnT (Err IxMissingPrevious)
     | Some previous \<Rightarrow>
         if fr_uuid previous \<noteq> fr_uuid f \<or> fr_namespace previous \<noteq> fr_namespace f
         then returnT (Err IxFileRefIdentityConflict)
         else
           bindT (rebind_digest_tx R i (file_ref_digest previous) (file_ref_digest f)) (\<lambda>_.
           bindT (table_insert R IxTransaction FILE_REFS i f) (\<lambda>_. returnT (Ok f)))))))"

definition file_ref_update :: "('db, 'tx) redb \<Rightarrow> file_ref \<Rightarrow> 'db \<Rightarrow> (index_error fault + file_ref) \<times> 'db" where
  "file_ref_update R f db =
    (case rd_begin_write R db of
       Inl db \<Rightarrow> (Err (Fail IxTransaction), db)
     | Inr tx \<Rightarrow>
         (case update_tx R f tx of
            (Inl e, tx) \<Rightarrow> (Err e, rd_drop R tx)
          | (Inr (Inl refused), tx) \<Rightarrow>
              (case rd_abort R tx of
                 (Inl _, db) \<Rightarrow> (Err (Fail IxTransaction), db)
               | (Inr _, db) \<Rightarrow> (Err (Fail refused), db))
          | (Inr (Inr f), tx) \<Rightarrow>
              (case rd_commit R tx of
                 (Inl _, db) \<Rightarrow> (Err (Fail IxTransaction), db)
               | (Inr _, db) \<Rightarrow> (Ok f, db))))"

section \<open>Blueprints\<close>

definition get_blueprint_tx ::
  "('db, 'tx) redb \<Rightarrow> bool \<Rightarrow> namespaced_link_digest \<Rightarrow> ('tx, index_error, blueprint option) txm" where
  "get_blueprint_tx R unix link_digest =
    bindT (open_table R IxTransaction LINK_DIGESTS) (\<lambda>_.
    bindT (open_table R IxTransaction (BLUEPRINTS unix)) (\<lambda>_.
    bindT (table_get R IxTransaction LINK_DIGESTS link_digest) (\<lambda>artifact_id.
    case artifact_id of
      None \<Rightarrow> returnT None
    | Some i \<Rightarrow> table_get R IxTransaction (BLUEPRINTS unix) i)))"

definition get_by_link_digest ::
  "('db, 'tx) redb \<Rightarrow> bool \<Rightarrow> namespaced_link_digest \<Rightarrow> 'db \<Rightarrow> (index_error fault + blueprint option) \<times> 'db" where
  "get_by_link_digest R unix link_digest = read_tx R IxTransaction (get_blueprint_tx R unix link_digest)"

definition blueprint_upsert ::
  "('db, 'tx) redb \<Rightarrow> bool \<Rightarrow> blueprint \<Rightarrow> 'db \<Rightarrow> (index_error fault + blueprint) \<times> 'db" where
  "blueprint_upsert R unix b =
    write_tx R IxTransaction
      (bindT (open_table R IxTransaction (BLUEPRINTS unix)) (\<lambda>_.
       bindT (table_insert R IxTransaction (BLUEPRINTS unix) (blueprint_id b) b) (\<lambda>_. returnT b)))"

section \<open>The store adapter\<close>

text \<open>
  What one process and the cache share: whether the mutex of \<open>with_shared_store\<close> is poisoned, which a
  panic inside it does, the database and the disk. A dedicated store holds its database open.
\<close>

record 'db image_store =
  is_poisoned :: bool
  is_db :: 'db
  is_disk :: disk

type_synonym ('db, 'a) store_op = "'db \<times> disk \<Rightarrow> (index_error fault + 'a) \<times> 'db \<times> disk"

definition on_db :: "('db \<Rightarrow> (index_error fault + 'a) \<times> 'db) \<Rightarrow> ('db, 'a) store_op" where
  "on_db op = (\<lambda>(db, d). case op db of (r, db) \<Rightarrow> (r, db, d))"

definition with_shared_store ::
  "('db, 'tx) redb \<Rightarrow> bool \<Rightarrow> ('db, 'a) store_op \<Rightarrow> 'db image_store \<Rightarrow> (index_error fault + 'a) \<times> 'db image_store" where
  "with_shared_store R unix op s =
    (if is_poisoned s then (Err (Fail IxOpen), s)
     else
       (case open_shared R unix (is_db s) of
          (Inl f, db) \<Rightarrow> (Err f, s\<lparr>is_db := db, is_poisoned := (f = Panic)\<rparr>)
        | (Inr _, db) \<Rightarrow>
            (case op (db, is_disk s) of
               (r, db, d) \<Rightarrow> (r, s\<lparr>is_db := db, is_disk := d, is_poisoned := (r = Err Panic)\<rparr>))))"

definition with_store ::
  "('db, 'tx) redb \<Rightarrow> bool \<Rightarrow> bool \<Rightarrow> ('db, 'a) store_op \<Rightarrow> 'db image_store \<Rightarrow> (index_error fault + 'a) \<times> 'db image_store" where
  "with_store R unix dedicated op s =
    (if dedicated
     then (case op (is_db s, is_disk s) of (r, db, d) \<Rightarrow> (r, s\<lparr>is_db := db, is_disk := d\<rparr>))
     else with_shared_store R unix op s)"

definition reserve_link_ref where
  "reserve_link_ref R unix dedicated fresh link_digest =
    with_store R unix dedicated (on_db (get_or_create R fresh link_digest))"

definition read_file_ref where
  "read_file_ref R unix dedicated h L r = with_store R unix dedicated (get_by_link_ref R h L r)"

definition publish_file_ref where
  "publish_file_ref R unix dedicated r f = with_store R unix dedicated (on_db (file_ref_upsert R r f))"

definition replace_file_ref where
  "replace_file_ref R unix dedicated f = with_store R unix dedicated (on_db (file_ref_update R f))"

definition read_blueprint where
  "read_blueprint R unix dedicated link_digest =
    with_store R unix dedicated (on_db (get_by_link_digest R unix link_digest))"

definition publish_blueprint where
  "publish_blueprint R unix dedicated b = with_store R unix dedicated (on_db (blueprint_upsert R unix b))"

section \<open>The index as typed maps\<close>

record index =
  ix_link_digests :: "namespaced_link_digest \<rightharpoonup> artifact_id"
  ix_file_digests :: "namespaced_file_digest \<rightharpoonup> artifact_id"
  ix_file_refs :: "artifact_id \<rightharpoonup> file_ref"
  ix_link_refs :: "artifact_id \<rightharpoonup> link_ref"
  ix_blueprints :: "artifact_id \<rightharpoonup> blueprint"

abbreviation wf_stored :: "bool \<Rightarrow> blueprint \<Rightarrow> bool" where
  "wf_stored unix b \<equiv> wf_blueprint unix b \<and> blueprint_fits b"

text \<open>The tables of an opened database and the typed maps they hold.\<close>

definition index_rel :: "('db, 'tx) redb \<Rightarrow> bool \<Rightarrow> tables \<Rightarrow> index \<Rightarrow> bool" where
  "index_rel R unix v ix \<longleftrightarrow>
    holds_table v LINK_DIGESTS wf_link_key wf_id (ix_link_digests ix)
    \<and> holds_table v FILE_DIGESTS wf_file_key wf_id (ix_file_digests ix)
    \<and> holds_table v FILE_REFS wf_id wf_file_ref (ix_file_refs ix)
    \<and> holds_table v LINK_REFS wf_id wf_link_ref (ix_link_refs ix)
    \<and> holds_table v (BLUEPRINTS unix) wf_id (wf_stored unix) (ix_blueprints ix)
    \<and> (\<exists>m. v ''image_schema'' = Some m
           \<and> m (rd_str_key R ''version'') = Some (rd_u32_enc R IMAGE_SCHEMA_VERSION))"

lemmas table_defs = LINK_DIGESTS_def FILE_DIGESTS_def FILE_REFS_def LINK_REFS_def BLUEPRINTS_def

interpretation tb_links: stored_table LINK_DIGESTS wf_link_key wf_id "index_rel R unix" ix_link_digests
  "\<lambda>m. ix_link_digests_update (\<lambda>_. m)"
  by unfold_locales (auto simp: index_rel_def holds_table_def table_defs link_key_value.enc_inj id_value.dec_enc)

interpretation tb_files: stored_table FILE_DIGESTS wf_file_key wf_id "index_rel R unix" ix_file_digests
  "\<lambda>m. ix_file_digests_update (\<lambda>_. m)"
  by unfold_locales (auto simp: index_rel_def holds_table_def table_defs file_key_value.enc_inj id_value.dec_enc)

interpretation tb_file_refs: stored_table FILE_REFS wf_id wf_file_ref "index_rel R unix" ix_file_refs
  "\<lambda>m. ix_file_refs_update (\<lambda>_. m)"
  by unfold_locales (auto simp: index_rel_def holds_table_def table_defs id_value.enc_inj file_ref_value.dec_enc)

interpretation tb_link_refs: stored_table LINK_REFS wf_id wf_link_ref "index_rel R unix" ix_link_refs
  "\<lambda>m. ix_link_refs_update (\<lambda>_. m)"
  by unfold_locales (auto simp: index_rel_def holds_table_def table_defs id_value.enc_inj link_ref_value.dec_enc)

interpretation tb_blueprints: stored_table "BLUEPRINTS unix" wf_id "wf_stored unix" "index_rel R unix" ix_blueprints
  "\<lambda>m. ix_blueprints_update (\<lambda>_. m)"
  by unfold_locales
    (auto simp: index_rel_def holds_table_def table_defs id_value.enc_inj blueprint_value.dec_enc
      blueprint_encode_eq blueprint_fits_def)

text \<open>Every stored key and value has its type.\<close>

definition index_wf :: "index \<Rightarrow> bool" where
  "index_wf ix \<longleftrightarrow>
    (\<forall>k i. ix_link_digests ix k = Some i \<longrightarrow> wf_id i) \<and> (\<forall>i r. ix_link_refs ix i = Some r \<longrightarrow> wf_link_ref r)
    \<and> (\<forall>i f. ix_file_refs ix i = Some f \<longrightarrow> wf_file_ref f)"

lemma index_rel_wf: "index_rel R unix v ix \<Longrightarrow> index_wf ix"
  unfolding index_rel_def index_wf_def by (blast dest: holds_table_wf)

section \<open>The operations on typed maps\<close>

definition ix_reserve :: "uuid \<Rightarrow> namespaced_link_digest \<Rightarrow> index \<Rightarrow> link_ref \<times> index" where
  "ix_reserve fresh k ix =
    (let i = (case ix_link_digests ix k of Some i \<Rightarrow> i | None \<Rightarrow> \<lparr>ai_namespace = nl_namespace k, ai_uuid = fresh\<rparr>);
         ix1 = ix\<lparr>ix_link_digests := (ix_link_digests ix)(k \<mapsto> i)\<rparr> in
     case ix_link_refs ix i of
       Some r \<Rightarrow> (r, ix1)
     | None \<Rightarrow>
         let r = \<lparr>lr_uuid = ai_uuid i, lr_namespace = nl_namespace k, lr_link_digest = nl_link_digest k\<rparr> in
         (r, ix1\<lparr>ix_link_refs := (ix_link_refs ix)(i \<mapsto> r)\<rparr>))"

lemmas tx_prims =
  tb_links.run_open tb_files.run_open tb_file_refs.run_open tb_link_refs.run_open tb_blueprints.run_open
  tb_links.run_get tb_files.run_get tb_file_refs.run_get tb_link_refs.run_get tb_blueprints.run_get
  tb_links.run_insert tb_files.run_insert tb_file_refs.run_insert tb_link_refs.run_insert tb_blueprints.run_insert
  tb_links.run_remove tb_files.run_remove tb_file_refs.run_remove
  tb_links.run_insert_if tb_files.run_insert_if tb_link_refs.run_insert_if tb_files.run_remove_if

lemmas tx_steps = tx_prims [THEN tx_runs_bind]

lemma get_or_create_runs:
  assumes R: "redb_ok R" and k: "wf_link_key k" "wf_uuid fresh" "index_wf ix"
  shows "tx_runs R (index_rel R unix) IxTransaction (get_or_create_tx R fresh k) ix
    (Ok (fst (ix_reserve fresh k ix))) (snd (ix_reserve fresh k ix))"
proof -
  define i where "i = (case ix_link_digests ix k of Some i \<Rightarrow> i | None \<Rightarrow> \<lparr>ai_namespace = nl_namespace k, ai_uuid = fresh\<rparr>)"
  define ix1 where "ix1 = ix\<lparr>ix_link_digests := (ix_link_digests ix)(k \<mapsto> i)\<rparr>"
  have i: "wf_id i" using k unfolding i_def by (cases "ix_link_digests ix k") (auto simp: wf_id_def index_wf_def)
  let ?r = "\<lparr>lr_uuid = ai_uuid i, lr_namespace = nl_namespace k, lr_link_digest = nl_link_digest k\<rparr>"
  have r: "wf_link_ref ?r" using i k by (simp add: wf_link_ref_def wf_id_def wf_link_key_def)
  have 1: "tx_runs R (index_rel R unix) IxTransaction (case ix_link_digests ix k of
             Some artifact_id \<Rightarrow> returnT artifact_id
           | None \<Rightarrow>
               let artifact_id = \<lparr>ai_namespace = nl_namespace k, ai_uuid = fresh\<rparr> in
               bindT (table_insert R IxTransaction LINK_DIGESTS k artifact_id) (\<lambda>_. returnT artifact_id)) ix (Ok i) ix1"
  proof (cases "ix_link_digests ix k")
    case None
    then show ?thesis using i k(1) unfolding ix1_def
      by (auto simp: i_def Let_def intro!: tx_steps tx_runs_return R)
  next
    case (Some j)
    then have "ix1 = ix" by (simp add: ix1_def i_def fun_upd_idem)
    with Some show ?thesis by (simp add: i_def tx_runs_return)
  qed
  have 2: "tx_runs R (index_rel R unix) IxTransaction (case ix_link_refs ix1 i of
      Some link_ref \<Rightarrow> returnT link_ref
    | None \<Rightarrow> let link_ref = ?r in
        bindT (table_insert R IxTransaction LINK_REFS i link_ref) (\<lambda>_. returnT link_ref)) ix1 
      (Ok (fst (ix_reserve fresh k ix))) (snd (ix_reserve fresh k ix))"
    by (cases "ix_link_refs ix i")
      (auto simp: ix_reserve_def Let_def ix1_def simp flip: i_def intro!: tx_steps tx_runs_return R i r)
  show ?thesis
    unfolding get_or_create_tx_def
    by (intro tx_steps tx_runs_bind [OF 1] R k i 2)
qed

definition ix_invalidate :: "file_ref \<Rightarrow> index \<Rightarrow> index" where
  "ix_invalidate f ix =
    (let i = file_ref_id f; k = file_ref_digest f in
     ix\<lparr>ix_file_refs := (ix_file_refs ix)(i := None),
        ix_file_digests := if ix_file_digests ix k = Some i then (ix_file_digests ix)(k := None)
                           else ix_file_digests ix\<rparr>)"

lemma invalidate_runs:
  assumes R: "redb_ok R" and f: "wf_file_ref f"
  shows "tx_runs R (index_rel R unix) IxTransaction (invalidate_tx R f) ix (Ok ()) (ix_invalidate f ix)"
  unfolding invalidate_tx_def Let_def
  by (rule tx_runs_eq, (rule tx_steps tb_files.run_remove_if R wf_ids f)+)
    (simp_all add: ix_invalidate_def Let_def)

lemma lookup_file_runs:
  assumes R: "redb_ok R" and i: "wf_id i"
  shows "tx_runs R (index_rel R unix) IxTransaction (lookup_file_tx R i) ix (Ok (ix_file_refs ix i)) ix"
  unfolding lookup_file_tx_def by (intro tx_steps tb_file_refs.run_get R i)

definition ix_upsert :: "link_ref \<Rightarrow> file_ref \<Rightarrow> index \<Rightarrow> index" where
  "ix_upsert r f ix =
    (let k = link_ref_digest r; i = (case ix_link_digests ix k of Some i \<Rightarrow> i | None \<Rightarrow> link_ref_id r) in
     ix\<lparr>ix_link_digests := (ix_link_digests ix)(k \<mapsto> i),
        ix_file_digests := if ix_file_digests ix (file_ref_digest f) = None
                           then (ix_file_digests ix)(file_ref_digest f \<mapsto> file_ref_id f) else ix_file_digests ix,
        ix_link_refs := if ix_link_refs ix i = None then (ix_link_refs ix)(i \<mapsto> r) else ix_link_refs ix,
        ix_file_refs := (ix_file_refs ix)(file_ref_id f \<mapsto> f)\<rparr>)"

lemma resolve_link_runs:
  assumes R: "redb_ok R" and k: "wf_link_key k" "wf_id j"
  shows "tx_runs R (index_rel R unix) IxTransaction
    (case ix_link_digests ix k of
       Some i \<Rightarrow> returnT i
     | None \<Rightarrow> bindT (table_insert R IxTransaction LINK_DIGESTS k j) (\<lambda>_. returnT j)) ix
    (Ok (case ix_link_digests ix k of Some i \<Rightarrow> i | None \<Rightarrow> j))
    (ix\<lparr>ix_link_digests := (ix_link_digests ix)(k \<mapsto> case ix_link_digests ix k of Some i \<Rightarrow> i | None \<Rightarrow> j)\<rparr>)"
proof (cases "ix_link_digests ix k")
  case None
  then show ?thesis by (auto intro!: tx_steps tx_runs_return R k)
next
  case (Some i)
  then have "(ix_link_digests ix)(k \<mapsto> i) = ix_link_digests ix" by (rule fun_upd_idem)
  with Some show ?thesis by (simp add: tx_runs_return)
qed

lemma upsert_runs:
  assumes R: "redb_ok R" and r: "wf_link_ref r" and f: "wf_file_ref f" and ix: "index_wf ix"
  shows "tx_runs R (index_rel R unix) IxTransaction (upsert_tx R r f) ix (Ok ()) (ix_upsert r f ix)"
proof -
  have i: "wf_id (case ix_link_digests ix (link_ref_digest r) of Some i \<Rightarrow> i | None \<Rightarrow> link_ref_id r)"
    using ix r by (auto simp: index_wf_def split: option.splits)
  show ?thesis
    unfolding upsert_tx_def Let_def
    by (rule tx_runs_eq,
        (rule tx_steps tx_runs_bind [OF resolve_link_runs] tb_file_refs.run_insert R wf_ids r f i)+)
      (simp_all add: ix_upsert_def Let_def)
qed

definition ix_rebind ::
  "artifact_id \<Rightarrow> namespaced_file_digest \<Rightarrow> namespaced_file_digest \<Rightarrow> (namespaced_file_digest \<rightharpoonup> artifact_id) \<Rightarrow>
   (namespaced_file_digest \<rightharpoonup> artifact_id)" where
  "ix_rebind i k0 k fd =
    (if k0 = k then fd
     else let fd = (if fd k = None then fd(k \<mapsto> i) else fd) in if fd k0 = Some i then fd(k0 := None) else fd)"

lemma rebind_runs:
  assumes R: "redb_ok R" and k: "wf_file_key k" "wf_file_key k0" "wf_id i"
  shows "tx_runs R (index_rel R unix) IxTransaction (rebind_digest_tx R i k0 k) ix (Ok ())
    (ix\<lparr>ix_file_digests := ix_rebind i k0 k (ix_file_digests ix)\<rparr>)"
proof (cases "k0 = k")
  case True
  then show ?thesis by (simp add: rebind_digest_tx_def ix_rebind_def tx_runs_return)
next
  case False
  have "tx_runs R (index_rel R unix) IxTransaction
      (bindT (table_get R IxTransaction FILE_DIGESTS k) (\<lambda>existing.
       bindT (if existing = None then table_insert R IxTransaction FILE_DIGESTS k i else returnT ()) (\<lambda>_.
       bindT (table_get R IxTransaction FILE_DIGESTS k0) (\<lambda>owner.
       if owner = Some i then table_remove R IxTransaction FILE_DIGESTS k0 else returnT ())))) ix (Ok ())
      (ix\<lparr>ix_file_digests := ix_rebind i k0 k (ix_file_digests ix)\<rparr>)"
    by (rule tx_runs_eq, (rule tx_steps tb_files.run_remove_if R k)+)
      (simp_all add: ix_rebind_def Let_def False)
  with False show ?thesis by (simp add: rebind_digest_tx_def)
qed

definition ix_update :: "file_ref \<Rightarrow> index \<Rightarrow> (index_error + file_ref) \<times> index" where
  "ix_update f ix =
    (case ix_file_refs ix (file_ref_id f) of
       None \<Rightarrow> (Err IxMissingPrevious, ix)
     | Some p \<Rightarrow>
         if file_ref_id p \<noteq> file_ref_id f then (Err IxFileRefIdentityConflict, ix)
         else
           (Ok f, ix\<lparr>ix_file_digests :=
                       ix_rebind (file_ref_id f) (file_ref_digest p) (file_ref_digest f) (ix_file_digests ix),
                     ix_file_refs := (ix_file_refs ix)(file_ref_id f \<mapsto> f)\<rparr>))"

lemma update_runs:
  assumes R: "redb_ok R" and f: "wf_file_ref f" and ix: "index_wf ix"
  shows "tx_runs R (index_rel R unix) IxTransaction (update_tx R f) ix
    (Ok (fst (ix_update f ix))) (snd (ix_update f ix))"
proof (cases "ix_file_refs ix (file_ref_id f)")
  case None
  then show ?thesis
    unfolding update_tx_def Let_def
    by (auto simp: ix_update_def intro!: tx_steps tx_runs_return R wf_ids f)
next
  case (Some p)
  then have p: "wf_file_ref p" using ix by (simp add: index_wf_def)
  have id_iff: "fr_uuid p \<noteq> fr_uuid f \<or> fr_namespace p \<noteq> fr_namespace f \<longleftrightarrow> file_ref_id p \<noteq> file_ref_id f"
    by (auto simp: file_ref_id_def)
  have "tx_runs R (index_rel R unix) IxTransaction
      (if file_ref_id p \<noteq> file_ref_id f then returnT (Err IxFileRefIdentityConflict)
       else bindT (rebind_digest_tx R (file_ref_id f) (file_ref_digest p) (file_ref_digest f)) (\<lambda>_.
            bindT (table_insert R IxTransaction FILE_REFS (file_ref_id f) f) (\<lambda>_. returnT (Ok f)))) ix
      (Ok (fst (ix_update f ix))) (snd (ix_update f ix))"
  proof (cases "file_ref_id p = file_ref_id f")
    case True
    have "tx_runs R (index_rel R unix) IxTransaction
      (bindT (rebind_digest_tx R (file_ref_id f) (file_ref_digest p) (file_ref_digest f)) (\<lambda>_.
       bindT (table_insert R IxTransaction FILE_REFS (file_ref_id f) f) (\<lambda>_. returnT (Ok f)))) ix
      (Ok (fst (ix_update f ix))) (snd (ix_update f ix))"
      by (rule tx_runs_eq, (rule rebind_runs [THEN tx_runs_bind] tx_steps tx_runs_return R wf_ids f p)+)
        (simp_all add: ix_update_def Some True)
    with True show ?thesis by simp
  next
    case False
    then show ?thesis by (simp add: ix_update_def Some tx_runs_return)
  qed
  then show ?thesis
    unfolding update_tx_def Let_def
    by (intro tx_steps R wf_ids f) (simp only: Some option.case id_iff)
qed

definition ix_plan :: "blueprint \<Rightarrow> index \<Rightarrow> index" where
  "ix_plan b ix = ix\<lparr>ix_blueprints := (ix_blueprints ix)(blueprint_id b \<mapsto> b)\<rparr>"

lemma blueprint_upsert_runs:
  assumes R: "redb_ok R" and b: "wf_blueprint unix b" "blueprint_fits b"
  shows "db_runs R (index_rel R unix) IxTransaction (blueprint_upsert R unix b) ix (Ok b) (ix_plan b ix)"
  unfolding blueprint_upsert_def ix_plan_def
  by (intro write_tx_runs R tx_steps tx_runs_return wf_ids conjI b) (use b in auto)

definition ix_lookup_plan :: "namespaced_link_digest \<Rightarrow> index \<Rightarrow> blueprint option" where
  "ix_lookup_plan k ix = (case ix_link_digests ix k of None \<Rightarrow> None | Some i \<Rightarrow> ix_blueprints ix i)"

lemma get_blueprint_runs:
  assumes R: "redb_ok R" and k: "wf_link_key k" and ix: "index_wf ix"
  shows "db_runs R (index_rel R unix) IxTransaction (get_by_link_digest R unix k) ix (Ok (ix_lookup_plan k ix)) ix"
proof -
  have "tx_runs R (index_rel R unix) IxTransaction (get_blueprint_tx R unix k) ix (Ok (ix_lookup_plan k ix)) ix"
    unfolding get_blueprint_tx_def
  proof (intro tx_steps R k)
    show "tx_runs R (index_rel R unix) IxTransaction
      (case ix_link_digests ix k of None \<Rightarrow> returnT None
       | Some i \<Rightarrow> table_get R IxTransaction (BLUEPRINTS unix) i) ix (Ok (ix_lookup_plan k ix)) ix"
    proof (cases "ix_link_digests ix k")
      case None
      then show ?thesis by (simp add: ix_lookup_plan_def tx_runs_return)
    next
      case (Some i)
      with ix have "wf_id i" by (simp add: index_wf_def)
      with Some show ?thesis by (simp add: ix_lookup_plan_def tb_blueprints.run_get R)
    qed
  qed
  with R show ?thesis unfolding get_by_link_digest_def by (intro read_tx_runs)
qed

section \<open>Opening\<close>

text \<open>
  A database being created: its tables are missing or empty, those named in \<open>S\<close> exist. \<open>opening_rel\<close>
  is that or an opened index.
\<close>

definition fresh_rel :: "tables \<Rightarrow> string set \<Rightarrow> bool" where
  "fresh_rel v S \<longleftrightarrow> (\<forall>t. v t = None \<or> v t = Some Map.empty) \<and> (\<forall>t\<in>S. v t \<noteq> None)"

definition opening_rel :: "('db, 'tx) redb \<Rightarrow> bool \<Rightarrow> tables \<Rightarrow> string set + index \<Rightarrow> bool" where
  "opening_rel R unix v x = (case x of Inl S \<Rightarrow> fresh_rel v S | Inr ix \<Rightarrow> index_rel R unix v ix)"

definition empty_index :: index where
  "empty_index = \<lparr>ix_link_digests = Map.empty, ix_file_digests = Map.empty, ix_file_refs = Map.empty,
     ix_link_refs = Map.empty, ix_blueprints = Map.empty\<rparr>"

text \<open>Embedding of the runs on an opened index.\<close>

lemma opening_runs:
  "tx_runs R (index_rel R unix) e m ix r ix' \<Longrightarrow> tx_runs R (opening_rel R unix) e m (Inr ix) r (Inr ix')"
  unfolding tx_runs_def opening_rel_def by simp

lemma fresh_open:
  assumes R: "redb_ok R"
  shows "tx_runs R (opening_rel R unix) e (open_table R e T) (Inl S) (Ok ()) (Inl (insert (tb_name T) S))"
  unfolding open_table_def
  by (rule call_runs, drule tx_callD [OF redb_tx_call(1) [OF R]])
    (auto simp: opening_rel_def fresh_rel_def split: if_splits)

lemma fresh_get:
  assumes R: "redb_ok R" and "tb_name T \<in> S"
  shows "tx_runs R (opening_rel R unix) e (table_get R e T k) (Inl S) (Ok None) (Inl S)"
proof -
  have "tx_runs R (opening_rel R unix) e (callT e (rd_get R (tb_name T) (tb_key T k))) (Inl S) (Ok None) (Inl S)"
  proof (rule call_runs)
    fix tx q tx'
    assume v: "opening_rel R unix (rd_view R tx) (Inl S)" and q: "rd_get R (tb_name T) (tb_key T k) tx = (q, tx')"
    have "rd_view R tx (tb_name T) = Some Map.empty"
      using v assms(2) unfolding opening_rel_def fresh_rel_def sum.case by metis
    with tx_callD [OF redb_tx_call(2) [OF R] q] v
    show "rd_base R tx' = rd_base R tx \<and> (\<forall>a. q = Ok a \<longrightarrow> a = None \<and> opening_rel R unix (rd_view R tx') (Inl S))"
      by simp
  qed
  then show ?thesis
    unfolding table_get_def by (rule tx_runs_bind) (simp add: decodeT_def tx_runs_def)
qed

lemma fresh_nonempty:
  assumes R: "redb_ok R" and "tb_name T \<in> S"
  shows "tx_runs R (opening_rel R unix) e (table_nonempty R e T) (Inl S) (Ok False) (Inl S)"
proof -
  have "tx_runs R (opening_rel R unix) e (callT e (rd_iter R (tb_name T))) (Inl S) (Ok []) (Inl S)"
  proof (rule call_runs)
    fix tx q tx'
    assume v: "opening_rel R unix (rd_view R tx) (Inl S)" and q: "rd_iter R (tb_name T) tx = (q, tx')"
    have "rd_view R tx (tb_name T) = Some Map.empty"
      using v assms(2) unfolding opening_rel_def fresh_rel_def sum.case by metis
    with tx_callD [OF redb_tx_call(5) [OF R] q] v
    show "rd_base R tx' = rd_base R tx \<and> (\<forall>a. q = Ok a \<longrightarrow> a = [] \<and> opening_rel R unix (rd_view R tx') (Inl S))"
      by (auto simp: is_rows_def map_of_eq_empty_iff)
  qed
  then show ?thesis
    unfolding table_nonempty_def by (rule tx_runs_bind) (simp add: tx_runs_return)
qed

lemma fresh_len:
  assumes "redb_ok R" "tb_name T \<in> S"
  shows "tx_runs R (opening_rel R unix) IxOpen (table_len R T) (Inl S) (Ok False) (Inl S)"
  using fresh_open [OF assms(1), of unix IxOpen T S] fresh_nonempty [OF assms, of unix IxOpen] assms(2)
  unfolding table_len_def by (auto simp: insert_absorb intro: tx_runs_bind)

lemma tx_runs_or_False:
  "tx_runs R rel e a s (Ok False) s1 \<Longrightarrow> tx_runs R rel e b s1 r s2 \<Longrightarrow> tx_runs R rel e (orT a b) s r s2"
  unfolding orT_def by (erule tx_runs_bind) simp

definition index_tables :: "string set" where
  "index_tables = {''link_digests'', ''file_digests'', ''file_refs'', ''link_refs'', ''blueprints'', ''image_schema''}"

lemma index_table_names:
  "tb_name LINK_DIGESTS \<in> index_tables" "tb_name FILE_DIGESTS \<in> index_tables" "tb_name FILE_REFS \<in> index_tables"
  "tb_name LINK_REFS \<in> index_tables" "tb_name (BLUEPRINTS unix) \<in> index_tables"
  "tb_name (IMAGE_SCHEMA R) \<in> index_tables"
  by (simp_all add: index_tables_def table_defs IMAGE_SCHEMA_def)

lemma fresh_has_records:
  assumes R: "redb_ok R"
  shows "tx_runs R (opening_rel R unix) IxOpen (has_records R unix) (Inl index_tables) (Ok False) (Inl index_tables)"
  unfolding has_records_def
  by (rule tx_runs_or_False fresh_len fresh_nonempty R index_table_names)+

lemma fresh_insert_version:
  assumes R: "redb_ok R"
  shows "tx_runs R (opening_rel R unix) e (table_insert R e (IMAGE_SCHEMA R) ''version'' IMAGE_SCHEMA_VERSION)
    (Inl index_tables) (Ok ()) (Inr empty_index)"
proof -
  have *: "encodeT (tb_enc (IMAGE_SCHEMA R) IMAGE_SCHEMA_VERSION) = (returnT (rd_u32_enc R IMAGE_SCHEMA_VERSION) :: ('b, 'c, byte list) txm)"
    by (simp add: fun_eq_iff encodeT_def returnT_def IMAGE_SCHEMA_def)
  show ?thesis
    unfolding table_insert_def *
  proof (rule tx_runs_bind [OF tx_runs_return], rule call_runs)
    fix tx q tx'
    assume v: "opening_rel R unix (rd_view R tx) (Inl index_tables)"
      and q: "rd_insert R (tb_name (IMAGE_SCHEMA R)) (tb_key (IMAGE_SCHEMA R) ''version'') (rd_u32_enc R IMAGE_SCHEMA_VERSION) tx = (q, tx')"
    have e: "rd_view R tx t = Some Map.empty" if "t \<in> index_tables" for t
      using v that unfolding opening_rel_def fresh_rel_def sum.case by metis
    have "index_rel R unix ((rd_view R tx)(''image_schema'' \<mapsto>
        [rd_str_key R ''version'' \<mapsto> rd_u32_enc R IMAGE_SCHEMA_VERSION])) empty_index"
      unfolding index_rel_def empty_index_def index.simps
      by (intro conjI holds_empty) (simp_all add: table_defs e index_tables_def)
    with tx_callD [OF redb_tx_call(3) [OF R] q] e [OF index_table_names(6)]
    show "rd_base R tx' = rd_base R tx \<and> (\<forall>a. q = Ok a \<longrightarrow> a = () \<and> opening_rel R unix (rd_view R tx') (Inr empty_index))"
      by (simp add: opening_rel_def IMAGE_SCHEMA_def)
  qed
qed

lemma open_fresh_runs:
  assumes R: "redb_ok R"
  shows "tx_runs R (opening_rel R unix) IxOpen (open_schema R unix) (Inl {}) (Ok ()) (Inr empty_index)"
proof -
  have S: "insert (tb_name (IMAGE_SCHEMA R)) (insert (tb_name LINK_REFS) (insert (tb_name (BLUEPRINTS unix))
      (insert (tb_name FILE_DIGESTS) (insert (tb_name FILE_REFS) (insert (tb_name LINK_DIGESTS) {}))))) = index_tables"
    by (auto simp: table_defs IMAGE_SCHEMA_def index_tables_def)
  have "tx_runs R (opening_rel R unix) IxOpen
      (bindT (has_records R unix) (\<lambda>has. if has then failT IxSchemaMismatch
        else table_insert R IxOpen (IMAGE_SCHEMA R) ''version'' IMAGE_SCHEMA_VERSION))
      (Inl index_tables) (Ok ()) (Inr empty_index)"
    by (rule tx_runs_bind [OF fresh_has_records [OF R]]) (simp add: fresh_insert_version R)
  then show ?thesis
    unfolding open_schema_def
    by (intro fresh_open [OF R, THEN tx_runs_bind], unfold S)
      (rule fresh_get [OF R, THEN tx_runs_bind], simp_all add: index_table_names)
qed

text \<open>An index of this version.\<close>

lemma schema_open:
  assumes R: "redb_ok R"
  shows "tx_runs R (index_rel R unix) e (open_table R e (IMAGE_SCHEMA R)) ix (Ok ()) ix"
  unfolding open_table_def
  by (rule call_runs, drule tx_callD [OF redb_tx_call(1) [OF R]])
    (auto simp: index_rel_def IMAGE_SCHEMA_def)

lemma schema_get:
  assumes R: "redb_ok R"
  shows "tx_runs R (index_rel R unix) e (table_get R e (IMAGE_SCHEMA R) ''version'') ix
    (Ok (Some IMAGE_SCHEMA_VERSION)) ix"
proof -
  have dec: "rd_u32_dec R (rd_u32_enc R v) = Some v" for v using R by (simp add: redb_ok_def)
  have "tx_runs R (index_rel R unix) e (callT e (rd_get R (tb_name (IMAGE_SCHEMA R)) (tb_key (IMAGE_SCHEMA R) ''version''))) ix
      (Ok (Some (rd_u32_enc R IMAGE_SCHEMA_VERSION))) ix"
    by (rule call_runs, drule tx_callD [OF redb_tx_call(2) [OF R]]) (auto simp: index_rel_def IMAGE_SCHEMA_def)
  then show ?thesis
    unfolding table_get_def by (rule tx_runs_bind) (simp add: decodeT_def IMAGE_SCHEMA_def dec tx_runs_def)
qed

lemma open_current_runs:
  assumes R: "redb_ok R"
  shows "tx_runs R (index_rel R unix) IxOpen (open_schema R unix) ix (Ok ()) ix"
  unfolding open_schema_def
  by (intro tx_steps R schema_open [OF R, THEN tx_runs_bind] schema_get [OF R, THEN tx_runs_bind])
    (simp add: tx_runs_return)

text \<open>An index of another version.\<close>

definition version_rel :: "('db, 'tx) redb \<Rightarrow> tables \<Rightarrow> u32 \<Rightarrow> bool" where
  "version_rel R v n \<longleftrightarrow>
    (\<exists>m. v ''image_schema'' = Some m \<and> m (rd_str_key R ''version'') = Some (rd_u32_enc R n))"

lemma version_open:
  assumes R: "redb_ok R"
  shows "tx_runs R (version_rel R) e (open_table R e T) n (Ok ()) n"
  unfolding open_table_def
  by (rule call_runs, drule tx_callD [OF redb_tx_call(1) [OF R]]) (auto simp: version_rel_def split: if_splits)

lemma version_get:
  assumes R: "redb_ok R"
  shows "tx_runs R (version_rel R) e (table_get R e (IMAGE_SCHEMA R) ''version'') n (Ok (Some n)) n"
proof -
  have dec: "rd_u32_dec R (rd_u32_enc R v) = Some v" for v using R by (simp add: redb_ok_def)
  have "tx_runs R (version_rel R) e (callT e (rd_get R (tb_name (IMAGE_SCHEMA R)) (tb_key (IMAGE_SCHEMA R) ''version''))) n
      (Ok (Some (rd_u32_enc R n))) n"
    by (rule call_runs, drule tx_callD [OF redb_tx_call(2) [OF R]]) (auto simp: version_rel_def IMAGE_SCHEMA_def)
  then show ?thesis
    unfolding table_get_def by (rule tx_runs_bind) (simp add: decodeT_def IMAGE_SCHEMA_def dec tx_runs_def)
qed

lemma open_other_version_runs:
  assumes R: "redb_ok R" and n: "n \<noteq> IMAGE_SCHEMA_VERSION"
  shows "tx_runs R (version_rel R) IxOpen (open_schema R unix) n (Err (Fail IxSchemaMismatch)) n"
  unfolding open_schema_def
  by (intro version_open [OF R, THEN tx_runs_bind] version_get [OF R, THEN tx_runs_bind])
    (simp add: n tx_runs_fail)

lemma index_open_runs:
  assumes R: "redb_ok R" and open_tx: "tx_runs R rel IxOpen (open_schema R unix) s r s'"
    and err: "\<not> isOk r \<Longrightarrow> s' = s"
    and db: "rel (rd_tables R db) s" and run: "index_open R unix db = (q, db')"
  shows "q = mapErr OpenFault r \<and> rel (rd_tables R db') s'
    \<or> q \<in> {Err Contention, Err (OpenFault (Fail IxOpen))} \<and> (rel (rd_tables R db') s \<or> rel (rd_tables R db') s')"
proof -
  obtain c db1 where c: "rd_create R db = (c, db1)" by fastforce
  have db1: "rel (rd_tables R db1) s" using redb_end(5) [OF R c] db by simp
  obtain w db2 where w: "write_tx R IxOpen (open_schema R unix) db1 = (w, db2)" by fastforce
  from write_tx_runs [OF R open_tx err] db1 w
  have "w = r \<and> rel (rd_tables R db2) s' \<or> w = Err (Fail IxOpen) \<and> (rel (rd_tables R db2) s \<or> rel (rd_tables R db2) s')"
    unfolding db_runs_def by blast
  with run c w db1 show ?thesis
    by (cases c; cases w; cases r) (auto simp: index_open_def split: if_splits)
qed

lemma index_open_current:
  assumes R: "redb_ok R" and db: "index_rel R unix (rd_tables R db) ix" and run: "index_open R unix db = (q, db')"
  shows "q \<in> {Ok (), Err Contention, Err (OpenFault (Fail IxOpen))} \<and> index_rel R unix (rd_tables R db') ix"
  using index_open_runs [OF R open_current_runs [OF R] _ db run] by auto

lemma open_shared_loop_current:
  assumes R: "redb_ok R"
  shows "index_rel R unix (rd_tables R db) ix \<Longrightarrow> open_shared_loop R unix n db = (q, db') \<Longrightarrow>
    q \<in> {Ok (), Err (Fail IxOpen)} \<and> index_rel R unix (rd_tables R db') ix"
proof (induction n arbitrary: db)
  case 0
  obtain q1 db1 where o: "index_open R unix db = (q1, db1)" by fastforce
  with index_open_current [OF R 0(1) o] 0(2) show ?case
    by (auto simp: open_shared_loop.simps [of R unix 0])
next
  case (Suc n)
  obtain q1 db1 where o: "index_open R unix db = (q1, db1)" by fastforce
  with index_open_current [OF R Suc.prems(1) o] Suc.prems(2) Suc.IH [of db1] show ?case
    by (auto simp: open_shared_loop.simps [of R unix "Suc n"])
qed

section \<open>The specification of the store\<close>

text \<open>
  What the store promises, without the tables that serve it: which identity each link has, which file
  each identity has, and which blueprint. The identity of a link is a UUID in the namespace of the link.
\<close>

record catalog =
  ct_links :: "namespaced_link_digest \<rightharpoonup> uuid"
  ct_files :: "artifact_id \<rightharpoonup> file_ref"
  ct_plans :: "artifact_id \<rightharpoonup> blueprint"

definition link_of :: "namespaced_link_digest \<Rightarrow> uuid \<Rightarrow> link_ref" where
  "link_of k u = \<lparr>lr_uuid = u, lr_namespace = nl_namespace k, lr_link_digest = nl_link_digest k\<rparr>"

definition cat_reserve :: "uuid \<Rightarrow> namespaced_link_digest \<Rightarrow> catalog \<Rightarrow> link_ref \<times> catalog" where
  "cat_reserve fresh k c =
    (let u = (case ct_links c k of Some u \<Rightarrow> u | None \<Rightarrow> fresh) in
     (link_of k u, c\<lparr>ct_links := (ct_links c)(k \<mapsto> u)\<rparr>))"

definition cat_publish :: "file_ref \<Rightarrow> catalog \<Rightarrow> catalog" where
  "cat_publish f c = c\<lparr>ct_files := (ct_files c)(file_ref_id f \<mapsto> f)\<rparr>"

definition cat_replace :: "file_ref \<Rightarrow> catalog \<Rightarrow> (index_error + file_ref) \<times> catalog" where
  "cat_replace f c =
    (if ct_files c (file_ref_id f) = None then (Err IxMissingPrevious, c) else (Ok f, cat_publish f c))"

definition cat_forget :: "artifact_id \<Rightarrow> catalog \<Rightarrow> catalog" where
  "cat_forget i c = c\<lparr>ct_files := (ct_files c)(i := None)\<rparr>"

definition cat_plan :: "blueprint \<Rightarrow> catalog \<Rightarrow> catalog" where
  "cat_plan b c = c\<lparr>ct_plans := (ct_plans c)(blueprint_id b \<mapsto> b)\<rparr>"

definition cat_lookup_plan :: "namespaced_link_digest \<Rightarrow> catalog \<Rightarrow> blueprint option" where
  "cat_lookup_plan k c =
    (case ct_links c k of None \<Rightarrow> None | Some u \<Rightarrow> ct_plans c \<lparr>ai_namespace = nl_namespace k, ai_uuid = u\<rparr>)"

text \<open>The consistency of the five tables: the two link tables are inverse to each other, and file
  references are stored under their own identity.\<close>

definition index_inv :: "index \<Rightarrow> bool" where
  "index_inv ix \<longleftrightarrow>
    (\<forall>k i. ix_link_digests ix k = Some i \<longrightarrow>
       ai_namespace i = nl_namespace k \<and> ix_link_refs ix i = Some (link_of k (ai_uuid i)))
    \<and> (\<forall>i r. ix_link_refs ix i = Some r \<longrightarrow> link_ref_id r = i \<and> ix_link_digests ix (link_ref_digest r) = Some i)
    \<and> (\<forall>i f. ix_file_refs ix i = Some f \<longrightarrow> file_ref_id f = i)"

definition catalog_of :: "index \<Rightarrow> catalog" where
  "catalog_of ix = \<lparr>ct_links = (\<lambda>k. map_option ai_uuid (ix_link_digests ix k)), ct_files = ix_file_refs ix,
     ct_plans = ix_blueprints ix\<rparr>"

definition catalog_rel :: "('db, 'tx) redb \<Rightarrow> bool \<Rightarrow> tables \<Rightarrow> catalog \<Rightarrow> bool" where
  "catalog_rel R unix v c \<longleftrightarrow> (\<exists>ix. index_rel R unix v ix \<and> index_inv ix \<and> catalog_of ix = c)"

lemma link_of_simps [simp]:
  "link_ref_digest (link_of k u) = k" "link_ref_id (link_of k u) = \<lparr>ai_namespace = nl_namespace k, ai_uuid = u\<rparr>"
  by (simp_all add: link_of_def link_ref_digest_def link_ref_id_def)

text \<open>
  The operations on the tables implement the specification. A new UUID is new in its namespace, and
  files are published under a link that was reserved.
\<close>

lemma ix_reserve_cat:
  assumes inv: "index_inv ix"
    and fresh: "ix_link_digests ix k = None \<Longrightarrow> fresh \<notin> ran (ct_links (catalog_of ix))"
  shows "fst (ix_reserve fresh k ix) = fst (cat_reserve fresh k (catalog_of ix))"
    and "catalog_of (snd (ix_reserve fresh k ix)) = snd (cat_reserve fresh k (catalog_of ix))"
    and "index_inv (snd (ix_reserve fresh k ix))"
proof -
  let ?i = "\<lparr>ai_namespace = nl_namespace k, ai_uuid = fresh\<rparr>"
  have new: "ix_link_refs ix ?i = None" if "ix_link_digests ix k = None"
  proof (rule ccontr)
    assume "ix_link_refs ix ?i \<noteq> None"
    then obtain r where r: "ix_link_refs ix ?i = Some r" by blast
    with inv have "ix_link_digests ix (link_ref_digest r) = Some ?i" unfolding index_inv_def by blast
    then have "ct_links (catalog_of ix) (link_ref_digest r) = Some fresh" by (simp add: catalog_of_def)
    with fresh [OF that] show False by (auto simp: ran_def)
  qed
  show "fst (ix_reserve fresh k ix) = fst (cat_reserve fresh k (catalog_of ix))"
    using inv new
    by (cases "ix_link_digests ix k")
      (auto simp: ix_reserve_def cat_reserve_def catalog_of_def index_inv_def Let_def link_of_def)
  show "catalog_of (snd (ix_reserve fresh k ix)) = snd (cat_reserve fresh k (catalog_of ix))"
    using inv new
    by (cases "ix_link_digests ix k")
      (auto simp: ix_reserve_def cat_reserve_def catalog_of_def index_inv_def Let_def fun_eq_iff)
  show "index_inv (snd (ix_reserve fresh k ix))"
  proof (cases "ix_link_digests ix k")
    case (Some i)
    with inv have "snd (ix_reserve fresh k ix) = ix"
      by (auto simp: ix_reserve_def index_inv_def Let_def fun_upd_idem)
    with inv show ?thesis by simp
  next
    case None
    then have ix': "snd (ix_reserve fresh k ix) =
        ix\<lparr>ix_link_digests := (ix_link_digests ix)(k \<mapsto> ?i), ix_link_refs := (ix_link_refs ix)(?i \<mapsto> link_of k fresh)\<rparr>"
      using new by (simp add: ix_reserve_def Let_def link_of_def)
    show ?thesis
      using inv new [OF None] None unfolding ix' index_inv_def by (auto simp: link_of_def link_ref_digest_def link_ref_id_def)
  qed
qed

lemma ix_upsert_cat:
  assumes inv: "index_inv ix" and r: "ct_links (catalog_of ix) (link_ref_digest r) = Some (lr_uuid r)"
  shows "catalog_of (ix_upsert r f ix) = cat_publish f (catalog_of ix)" and "index_inv (ix_upsert r f ix)"
proof -
  obtain i where i: "ix_link_digests ix (link_ref_digest r) = Some i" "ai_uuid i = lr_uuid r"
    using r by (auto simp: catalog_of_def)
  with inv have "ix_link_refs ix i \<noteq> None" unfolding index_inv_def by auto
  with i have ix': "ix_upsert r f ix = ix\<lparr>ix_file_digests := ix_file_digests (ix_upsert r f ix),
      ix_file_refs := (ix_file_refs ix)(file_ref_id f \<mapsto> f)\<rparr>"
    by (auto simp: ix_upsert_def Let_def fun_upd_idem)
  show "catalog_of (ix_upsert r f ix) = cat_publish f (catalog_of ix)"
    by (subst ix') (simp add: catalog_of_def cat_publish_def)
  show "index_inv (ix_upsert r f ix)"
    by (subst ix') (use inv in \<open>auto simp: index_inv_def\<close>)
qed

lemma ix_update_cat:
  assumes inv: "index_inv ix"
  shows "fst (ix_update f ix) = fst (cat_replace f (catalog_of ix))"
    and "catalog_of (snd (ix_update f ix)) = snd (cat_replace f (catalog_of ix))"
    and "index_inv (snd (ix_update f ix))"
  using inv by (auto simp: ix_update_def cat_replace_def cat_publish_def catalog_of_def index_inv_def split: option.splits)

lemma ix_invalidate_cat:
  assumes inv: "index_inv ix"
  shows "catalog_of (ix_invalidate f ix) = cat_forget (file_ref_id f) (catalog_of ix)"
    and "index_inv (ix_invalidate f ix)"
  using inv by (auto simp: ix_invalidate_def cat_forget_def catalog_of_def index_inv_def Let_def)

lemma id_parts: "ai_namespace i = n \<Longrightarrow> \<lparr>ai_namespace = n, ai_uuid = ai_uuid i\<rparr> = i"
  by (cases i) simp

lemma ix_plan_cat:
  assumes inv: "index_inv ix"
  shows "catalog_of (ix_plan b ix) = cat_plan b (catalog_of ix)" and "index_inv (ix_plan b ix)"
    and "ix_lookup_plan k ix = cat_lookup_plan k (catalog_of ix)"
  using inv by (auto simp: ix_plan_def cat_plan_def catalog_of_def index_inv_def ix_lookup_plan_def
      cat_lookup_plan_def id_parts split: option.splits)

section \<open>The adapter implements the specification\<close>

definition store_rel :: "('db, 'tx) redb \<Rightarrow> bool \<Rightarrow> 'db image_store \<Rightarrow> catalog \<Rightarrow> bool" where
  "store_rel R unix s c \<longleftrightarrow> \<not> is_poisoned s \<and> catalog_rel R unix (rd_tables R (is_db s)) c"

definition transient :: "index_error fault + 'a \<Rightarrow> bool" where
  "transient q \<longleftrightarrow> q = Err (Fail IxOpen) \<or> q = Err (Fail IxTransaction)"

text \<open>
  The outcome of an operation that takes the catalog \<open>c\<close> to \<open>c'\<close>: it returns \<open>r\<close> and the store holds
  \<open>c'\<close>, or the database failed and the store holds one of the two.
\<close>

definition outcome ::
  "('db, 'tx) redb \<Rightarrow> bool \<Rightarrow> (index_error fault + 'a) \<times> 'db image_store \<Rightarrow> catalog \<Rightarrow>
   index_error fault + 'a \<Rightarrow> catalog \<Rightarrow> bool" where
  "outcome R unix out c r c' \<longleftrightarrow>
    (case out of (q, s) \<Rightarrow>
       q = r \<and> store_rel R unix s c' \<or> transient q \<and> (store_rel R unix s c \<or> store_rel R unix s c'))"

lemma catalog_runs:
  assumes run: "\<And>ix. index_wf ix \<Longrightarrow> index_inv ix \<Longrightarrow> catalog_of ix = c \<Longrightarrow>
      \<exists>ix'. db_runs R (index_rel R unix) IxTransaction op ix r ix' \<and> index_inv ix' \<and> catalog_of ix' = c'"
  shows "db_runs R (catalog_rel R unix) IxTransaction op c r c'"
  unfolding db_runs_def
proof (intro allI impI)
  fix db q db'
  assume "catalog_rel R unix (rd_tables R db) c" and op: "op db = (q, db')"
  then obtain ix where ix: "index_rel R unix (rd_tables R db) ix" "index_inv ix" "catalog_of ix = c"
    unfolding catalog_rel_def by blast
  with run [OF index_rel_wf [OF ix(1)]] obtain ix' where
    "db_runs R (index_rel R unix) IxTransaction op ix r ix'" "index_inv ix'" "catalog_of ix' = c'"
    by blast
  with op ix show "q = r \<and> catalog_rel R unix (rd_tables R db') c' \<or>
      q = Err (Fail IxTransaction) \<and> (catalog_rel R unix (rd_tables R db') c \<or> catalog_rel R unix (rd_tables R db') c')"
    unfolding db_runs_def catalog_rel_def by blast
qed

lemma with_store_runs:
  assumes R: "redb_ok R" and s: "store_rel R unix s c"
    and op: "\<And>db d. catalog_rel R unix (rd_tables R db) c \<Longrightarrow> d = is_disk s \<Longrightarrow>
      (case op (db, d) of (q, db', d') \<Rightarrow> q \<noteq> Err Panic \<and> P q db' d')"
  shows "case with_store R unix dedicated op s of (q, s') \<Rightarrow>
      q = Err (Fail IxOpen) \<and> store_rel R unix s' c \<and> is_disk s' = is_disk s
      \<or> \<not> is_poisoned s' \<and> P q (is_db s') (is_disk s')"
proof (cases dedicated)
  case True
  with s op [of "is_db s" "is_disk s"] show ?thesis
    by (auto simp: with_store_def store_rel_def split: prod.splits)
next
  case False
  from s obtain ix where ix: "index_rel R unix (rd_tables R (is_db s)) ix" "index_inv ix" "catalog_of ix = c"
    and p: "\<not> is_poisoned s"
    unfolding store_rel_def catalog_rel_def by blast
  obtain q1 db1 where o: "open_shared R unix (is_db s) = (q1, db1)" by fastforce
  from open_shared_loop_current [OF R ix(1) o [unfolded open_shared_def]]
  have q1: "q1 \<in> {Ok (), Err (Fail IxOpen)}" and db1: "catalog_rel R unix (rd_tables R db1) c"
    using ix(2,3) unfolding catalog_rel_def by blast+
  show ?thesis
    using False p o q1 db1 op [OF db1 refl]
    by (auto simp: with_store_def with_shared_store_def store_rel_def split: prod.splits)
qed

lemma on_db_outcome:
  assumes R: "redb_ok R" and s: "store_rel R unix s c"
    and op: "db_runs R (catalog_rel R unix) IxTransaction op c r c'" and r: "r \<noteq> Err Panic"
  shows "outcome R unix (with_store R unix dedicated (on_db op) s) c r c'"
proof -
  let ?P = "\<lambda>q db (d :: disk). q = r \<and> catalog_rel R unix (rd_tables R db) c' \<or>
      q = Err (Fail IxTransaction) \<and> (catalog_rel R unix (rd_tables R db) c \<or> catalog_rel R unix (rd_tables R db) c')"
  have "case on_db op (db, d) of (q, db', d') \<Rightarrow> q \<noteq> Err Panic \<and> ?P q db' d'"
    if "catalog_rel R unix (rd_tables R db) c" for db d
    using op that r unfolding db_runs_def on_db_def by (auto split: prod.splits)
  from with_store_runs [OF R s, where op = "on_db op" and P = ?P and dedicated = dedicated, OF this]
  show ?thesis by (auto simp: outcome_def store_rel_def transient_def split: prod.splits)
qed

lemma reserve_runs:
  assumes R: "redb_ok R" and "wf_link_key k" "wf_uuid fresh" "fresh \<notin> ran (ct_links c)"
  shows "db_runs R (catalog_rel R unix) IxTransaction (get_or_create R fresh k) c
    (Ok (fst (cat_reserve fresh k c))) (snd (cat_reserve fresh k c))"
proof (rule catalog_runs)
  fix ix assume ix: "index_wf ix" "index_inv ix" "catalog_of ix = c"
  note cat = ix_reserve_cat [OF ix(2), of k fresh, unfolded ix(3), OF assms(4)]
  have "db_runs R (index_rel R unix) IxTransaction (get_or_create R fresh k) ix
      (Ok (fst (cat_reserve fresh k c))) (snd (ix_reserve fresh k ix))"
    unfolding get_or_create_def cat(1) [symmetric]
    by (rule write_tx_runs [OF R get_or_create_runs [OF R assms(2,3) ix(1)]]) simp
  with cat(2,3) show "\<exists>ix'. db_runs R (index_rel R unix) IxTransaction (get_or_create R fresh k) ix
      (Ok (fst (cat_reserve fresh k c))) ix' \<and> index_inv ix' \<and> catalog_of ix' = snd (cat_reserve fresh k c)"
    by blast
qed

lemma publish_runs:
  assumes R: "redb_ok R" and r: "wf_link_ref r" "ct_links c (link_ref_digest r) = Some (lr_uuid r)"
    and f: "wf_file_ref f" "link_ref_id r = file_ref_id f"
  shows "db_runs R (catalog_rel R unix) IxTransaction (file_ref_upsert R r f) c (Ok ()) (cat_publish f c)"
proof (rule catalog_runs)
  fix ix assume ix: "index_wf ix" "index_inv ix" "catalog_of ix = c"
  have eq: "file_ref_upsert R r f = write_tx R IxTransaction (upsert_tx R r f)"
    using f(2) by (auto simp: file_ref_upsert_def link_ref_id_def file_ref_id_def fun_eq_iff)
  have "db_runs R (index_rel R unix) IxTransaction (file_ref_upsert R r f) ix (Ok ()) (ix_upsert r f ix)"
    unfolding eq by (rule write_tx_runs [OF R upsert_runs [OF R r(1) f(1) ix(1)]]) simp
  with ix_upsert_cat [OF ix(2), of r f] r(2) ix(3)
  show "\<exists>ix'. db_runs R (index_rel R unix) IxTransaction (file_ref_upsert R r f) ix (Ok ()) ix' \<and>
      index_inv ix' \<and> catalog_of ix' = cat_publish f c"
    by blast
qed

lemma update_db_runs:
  assumes R: "redb_ok R" and f: "wf_file_ref f" and ix: "index_wf ix"
  shows "db_runs R (index_rel R unix) IxTransaction (file_ref_update R f) ix
    (mapErr Fail (fst (ix_update f ix))) (snd (ix_update f ix))"
  unfolding db_runs_def
proof (intro allI impI)
  fix db q db'
  assume db: "index_rel R unix (rd_tables R db) ix" and run: "file_ref_update R f db = (q, db')"
  let ?r = "fst (ix_update f ix)" and ?ix = "snd (ix_update f ix)"
  have err: "?ix = ix" if "?r = Inl e" for e using that by (auto simp: ix_update_def split: option.splits if_splits)
  show "q = mapErr Fail ?r \<and> index_rel R unix (rd_tables R db') ?ix \<or>
      q = Err (Fail IxTransaction) \<and> (index_rel R unix (rd_tables R db') ix \<or> index_rel R unix (rd_tables R db') ?ix)"
  proof (cases "rd_begin_write R db")
    case (Inl db1)
    with run db show ?thesis by (auto simp: file_ref_update_def redb_begin(1) [OF R])
  next
    case (Inr tx)
    obtain u tx1 where u: "update_tx R f tx = (u, tx1)" by fastforce
    from redb_begin(3) [OF R Inr] db have v: "rd_base R tx = rd_tables R db" "index_rel R unix (rd_view R tx) ix" by simp_all
    note u1 = tx_runsD [OF update_runs [OF R f ix] v(2) u]
    consider (fail) "u = Err (Fail IxTransaction)" | (refused) e where "u = Ok (Inl e)" "?r = Inl e"
      | (stored) g where "u = Ok (Inr g)" "?r = Inr g" "index_rel R unix (rd_view R tx1) ?ix"
      using u1(2) by (cases ?r) auto
    then show ?thesis
    proof cases
      case fail
      with run Inr u u1(1) v db show ?thesis by (auto simp: file_ref_update_def redb_end(4) [OF R])
    next
      case refused
      obtain x db1 where x: "rd_abort R tx1 = (x, db1)" by fastforce
      from redb_end(3) [OF R x] u1(1) v db have "index_rel R unix (rd_tables R db1) ix" by simp
      with run Inr u x refused err [OF refused(2)] show ?thesis
        by (cases x) (auto simp: file_ref_update_def)
    next
      case stored
      obtain x db1 where x: "rd_commit R tx1 = (x, db1)" by fastforce
      show ?thesis
      proof (cases x)
        case (Inl e)
        from redb_end(2) [OF R x [unfolded Inl]] u1(1) v db stored(3)
        have "index_rel R unix (rd_tables R db1) ix \<or> index_rel R unix (rd_tables R db1) ?ix" by auto
        with run \<open>rd_begin_write R db = Inr tx\<close> u x stored Inl show ?thesis
          by (auto simp: file_ref_update_def)
      next
        case (Inr w)
        from redb_end(1) [OF R, of tx1 db1] x Inr stored(3)
        have "index_rel R unix (rd_tables R db1) ?ix" by simp
        with run \<open>rd_begin_write R db = Inr tx\<close> u x stored Inr show ?thesis
          by (auto simp: file_ref_update_def)
      qed
    qed
  qed
qed

lemma replace_runs:
  assumes R: "redb_ok R" and f: "wf_file_ref f"
  shows "db_runs R (catalog_rel R unix) IxTransaction (file_ref_update R f) c
    (mapErr Fail (fst (cat_replace f c))) (snd (cat_replace f c))"
  using update_db_runs [OF R f] ix_update_cat by (intro catalog_runs) metis

lemma plan_runs:
  assumes R: "redb_ok R" and b: "wf_blueprint unix b" "blueprint_fits b"
  shows "db_runs R (catalog_rel R unix) IxTransaction (blueprint_upsert R unix b) c (Ok b) (cat_plan b c)"
  using blueprint_upsert_runs [OF R b] ix_plan_cat(1,2) by (intro catalog_runs) metis

lemma lookup_plan_runs:
  assumes R: "redb_ok R" and k: "wf_link_key k"
  shows "db_runs R (catalog_rel R unix) IxTransaction (get_by_link_digest R unix k) c (Ok (cat_lookup_plan k c)) c"
  using get_blueprint_runs [OF R k] ix_plan_cat(3) by (intro catalog_runs) metis

section \<open>Reading an entry\<close>

lemma lookup_runs:
  assumes R: "redb_ok R" and i: "wf_id i"
  shows "db_runs R (catalog_rel R unix) IxTransaction (read_tx R IxTransaction (lookup_file_tx R i)) c (Ok (ct_files c i)) c"
proof (rule catalog_runs)
  fix ix assume ix: "index_inv ix" "catalog_of ix = c"
  then have eq: "ct_files c i = ix_file_refs ix i" by (auto simp: catalog_of_def)
  have "db_runs R (index_rel R unix) IxTransaction (read_tx R IxTransaction (lookup_file_tx R i)) ix (Ok (ct_files c i)) ix"
    unfolding eq by (rule read_tx_runs [OF R lookup_file_runs [OF R i]])
  with ix show "\<exists>ix'. db_runs R (index_rel R unix) IxTransaction (read_tx R IxTransaction (lookup_file_tx R i)) ix
      (Ok (ct_files c i)) ix' \<and> index_inv ix' \<and> catalog_of ix' = c" by blast
qed

lemma forget_runs:
  assumes R: "redb_ok R" and f: "wf_file_ref f"
  shows "db_runs R (catalog_rel R unix) IxTransaction (invalidate R f) c (Ok ()) (cat_forget (file_ref_id f) c)"
proof (rule catalog_runs)
  fix ix assume ix: "index_inv ix" "catalog_of ix = c"
  have "db_runs R (index_rel R unix) IxTransaction (invalidate R f) ix (Ok ()) (ix_invalidate f ix)"
    unfolding invalidate_def by (rule write_tx_runs [OF R invalidate_runs [OF R f]]) simp
  with ix_invalidate_cat [OF ix(1), of f] ix(2)
  show "\<exists>ix'. db_runs R (index_rel R unix) IxTransaction (invalidate R f) ix (Ok ()) ix' \<and> index_inv ix' \<and>
      catalog_of ix' = cat_forget (file_ref_id f) c" by blast
qed

lemma catalog_file_wf:
  "catalog_rel R unix v c \<Longrightarrow> ct_files c i = Some f \<Longrightarrow> wf_file_ref f \<and> file_ref_id f = i"
  unfolding catalog_rel_def catalog_of_def index_inv_def by (auto dest!: index_rel_wf simp: index_wf_def)

text \<open>What a read does, by what the probe of the file says.\<close>

lemma get_by_link_ref_runs:
  assumes R: "redb_ok R" and c: "catalog_rel R unix (rd_tables R db) c" and r: "wf_link_ref r"
    and run: "get_by_link_ref R h L r (db, d) = (q, db', d')"
  shows "(case ct_files c (link_ref_id r) of
        None \<Rightarrow> q = Ok None \<and> catalog_rel R unix (rd_tables R db') c
      | Some f \<Rightarrow>
          (case fst (stored_file_validity h L f d) of
             Valid \<Rightarrow> q = Ok (Some f) \<and> catalog_rel R unix (rd_tables R db') c
           | Miss \<Rightarrow> q = Ok None \<and> catalog_rel R unix (rd_tables R db') (cat_forget (link_ref_id r) c)
           | Indeterminate \<Rightarrow> q = Ok None \<and> catalog_rel R unix (rd_tables R db') c))
    \<or> q = Err (Fail IxTransaction) \<and>
       (catalog_rel R unix (rd_tables R db') c
        \<or> catalog_rel R unix (rd_tables R db') (cat_forget (link_ref_id r) c) \<and>
          (\<exists>f. ct_files c (link_ref_id r) = Some f \<and> fst (stored_file_validity h L f d) = Miss))"
proof -
  let ?i = "link_ref_id r"
  obtain q1 db1 where l: "read_tx R IxTransaction (lookup_file_tx R ?i) db = (q1, db1)" by fastforce
  have q1: "q1 = Ok (ct_files c ?i) \<or> q1 = Err (Fail IxTransaction)" and db1: "catalog_rel R unix (rd_tables R db1) c"
    using db_runsD [OF lookup_runs [OF R wf_ids(1) [OF r]] c l] by auto
  show ?thesis
  proof (cases "q1 = Err (Fail IxTransaction)")
    case True
    with run l db1 show ?thesis by (simp add: get_by_link_ref_def)
  next
    case False
    with q1 have q1: "q1 = Ok (ct_files c ?i)" by simp
    show ?thesis
    proof (cases "ct_files c ?i")
      case None
      with run l q1 db1 show ?thesis by (simp add: get_by_link_ref_def)
    next
      case (Some f)
      note f = catalog_file_wf [OF db1 Some]
      obtain v d1 where v: "stored_file_validity h L f d = (v, d1)" by fastforce
      obtain q2 db2 where m: "invalidate R f db1 = (q2, db2)" by fastforce
      have "q2 = Ok () \<and> catalog_rel R unix (rd_tables R db2) (cat_forget ?i c) \<or> q2 = Err (Fail IxTransaction) \<and>
          (catalog_rel R unix (rd_tables R db2) c \<or> catalog_rel R unix (rd_tables R db2) (cat_forget ?i c))"
        using db_runsD [OF forget_runs [OF R] db1 m] f by simp
      moreover have "(q, db', d') = (case v of
          Valid \<Rightarrow> (Ok (Some f), db1, d1)
        | Miss \<Rightarrow> (case q2 of Inl e \<Rightarrow> (Err e, db2, d1) | Inr _ \<Rightarrow> (Ok None, db2, d1))
        | Indeterminate \<Rightarrow> (Ok None, db1, d1))"
        using run l q1 Some v m by (cases v; cases q2) (simp_all add: get_by_link_ref_def)
      ultimately show ?thesis
        using db1 Some v by (cases v; cases q2) simp_all
    qed
  qed
qed

section \<open>The probe\<close>

text \<open>What others made of the files after \<open>n\<close> turns.\<close>

definition files_after :: "nat \<Rightarrow> disk \<Rightarrow> (path \<rightharpoonup> byte list)" where
  "files_after n d = fold (\<lambda>t. foreign_writes (tn_writes t)) (take n (dk_script d)) (dk_files d)"

text \<open>A call that changes no file sees the files after one more turn, or its turn is a fault.\<close>

lemma reading_call:
  assumes op: "\<And>d. snd (op d) = d" and run: "call op d = (q, d')"
  shows "dk_dirs d' = dk_dirs d \<and> dk_script d' = drop 1 (dk_script d) \<and> dk_files d' = files_after 1 d
    \<and> (q = fst (op d') \<or> (\<exists>t\<in>set (dk_script d). \<exists>e. tn_fault t = Some e \<and> q = Inl e))"
proof -
  have ok: "x = d' \<and> q = fst (op d')" if "op x = (q, d')" for x using that op [of x] by simp
  show ?thesis
  proof (cases "dk_script d")
    case Nil
    with run have "op d = (q, d')" by (simp add: call_def call_partial_def)
    from ok [OF this] Nil show ?thesis by (auto simp: files_after_def)
  next
    case (Cons t ts)
    let ?d = "d\<lparr>dk_files := foreign_writes (tn_writes t) (dk_files d), dk_script := ts\<rparr>"
    show ?thesis
    proof (cases "tn_fault t")
      case None
      with Cons run have "op ?d = (q, d')" by (simp add: call_def call_partial_def Let_def)
      from ok [OF this] Cons show ?thesis by (auto simp: files_after_def)
    next
      case (Some e)
      with Cons run show ?thesis by (auto simp: call_def call_partial_def Let_def files_after_def)
    qed
  qed
qed

lemma files_after_Suc:
  "dk_script d' = drop 1 (dk_script d) \<Longrightarrow> dk_files d' = files_after 1 d \<Longrightarrow> files_after n d' = files_after (Suc n) d"
  by (cases "dk_script d") (simp_all add: files_after_def)

definition no_lookup_faults :: "disk \<Rightarrow> bool" where
  "no_lookup_faults d \<longleftrightarrow> (\<forall>t\<in>set (dk_script d). \<forall>e. tn_fault t = Some e \<longrightarrow> ie_kind e \<noteq> NotFound)"

lemma holds_digest_iff:
  "holds_digest h E content \<longleftrightarrow>
    (\<exists>bytes. content = Some bytes \<and> fd_hash E = blake3_hash h bytes \<and> fd_size E = length bytes)"
  by (cases E; cases content) (auto simp: holds_digest_def bytes_digest_def)

text \<open>Probing an undisturbed disk.\<close>

lemma probe_quiet:
  "dk_script d = [] \<Longrightarrow> stored_file_validity h L f d =
    (if file_ref_path L f \<notin> dk_dirs d \<and> holds_digest h (fr_file_digest f) (dk_files d (file_ref_path L f))
     then Valid else Miss, d)"
  by (cases "dk_files d (file_ref_path L f)"; cases "fr_file_digest f")
    (auto simp: stored_file_validity_def fs_metadata_def fs_open_def fs_read_to_end_def call_def
      call_partial_def holds_digest_def bytes_digest_def io_err_def Let_def)

text \<open>
  A valid entry had the recorded content while it was probed; and an entry whose file has its content
  throughout is not taken for a miss, whatever else fails.
\<close>

lemma probe_calls:
  shows "fs_metadata p d = (q, d') \<Longrightarrow> dk_dirs d' = dk_dirs d \<and> dk_script d' = drop 1 (dk_script d)
      \<and> dk_files d' = files_after 1 d
      \<and> (q = (if p \<in> dk_dirs d then Ok MetaDir else case files_after 1 d p of
                None \<Rightarrow> Err (io_err NotFound) | Some bytes \<Rightarrow> Ok (MetaFile (length bytes)))
         \<or> (\<exists>t\<in>set (dk_script d). \<exists>e. tn_fault t = Some e \<and> q = Inl e))"
    and "fs_open p d = (r, d') \<Longrightarrow> dk_dirs d' = dk_dirs d \<and> dk_script d' = drop 1 (dk_script d)
      \<and> dk_files d' = files_after 1 d
      \<and> (r = (case files_after 1 d p of None \<Rightarrow> Err (io_err NotFound) | Some bytes \<Rightarrow> Ok bytes)
         \<or> (\<exists>t\<in>set (dk_script d). \<exists>e. tn_fault t = Some e \<and> r = Inl e))"
    and "fs_read_to_end bytes d = (r, d') \<Longrightarrow>
      r = Ok bytes \<or> (\<exists>t\<in>set (dk_script d). \<exists>e. tn_fault t = Some e \<and> r = Inl e)"
  unfolding fs_metadata_def fs_open_def fs_read_to_end_def
  by (drule reading_call [rotated]; auto split: option.splits)+

lemma probe_valid:
  assumes "stored_file_validity h L f d = (Valid, d')"
  shows "\<exists>n bytes. files_after n d (file_ref_path L f) = Some bytes \<and> blake3_hash h bytes = fd_hash (fr_file_digest f)"
proof -
  let ?p = "file_ref_path L f"
  obtain q1 d1 where 1: "fs_metadata ?p d = (q1, d1)" by fastforce
  obtain q2 d2 where 2: "fs_open ?p d1 = (q2, d2)" by fastforce
  have ok: "q1 = Ok (MetaFile (fd_size (fr_file_digest f)))"
    and q2: "\<exists>handle. q2 = Ok handle" using assms 1 2
    by (auto simp: stored_file_validity_def Let_def split: sum.splits prod.splits if_splits)
  then obtain handle where q2: "q2 = Ok handle" by blast
  obtain q3 d3 where 3: "fs_read_to_end handle d2 = (q3, d3)" by fastforce
  have q3: "\<exists>bytes. q3 = Ok bytes \<and> blake3_hash h bytes = fd_hash (fr_file_digest f)"
    using assms 1 2 3 ok q2
    by (auto simp: stored_file_validity_def Let_def split: sum.splits prod.splits if_splits)
  with probe_calls(3) [OF 3] have "blake3_hash h handle = fd_hash (fr_file_digest f)" by auto
  moreover have "files_after 1 d1 ?p = Some handle" using probe_calls(2) [OF 2] q2 by (auto split: option.splits)
  moreover have "files_after 1 d1 = files_after (Suc 1) d" using probe_calls(1) [OF 1] by (intro files_after_Suc) auto
  ultimately show ?thesis by metis
qed

lemma probe_steady:
  assumes steady: "\<And>n. holds_digest h (fr_file_digest f) (files_after n d (file_ref_path L f))"
    and dir: "file_ref_path L f \<notin> dk_dirs d" and faults: "no_lookup_faults d"
  shows "fst (stored_file_validity h L f d) \<noteq> Miss"
proof -
  let ?p = "file_ref_path L f"
  obtain q1 d1 where 1: "fs_metadata ?p d = (q1, d1)" by fastforce
  obtain q2 d2 where 2: "fs_open ?p d1 = (q2, d2)" by fastforce
  note c1 = probe_calls(1) [OF 1] and c2 = probe_calls(2) [OF 2]
  have f1: "no_lookup_faults d1" using faults c1 by (auto simp: no_lookup_faults_def dest: in_set_dropD)
  have f2: "no_lookup_faults d2" using f1 c2 by (auto simp: no_lookup_faults_def dest: in_set_dropD)
  have s2: "files_after 1 d1 = files_after (Suc 1) d" using c1 by (intro files_after_Suc) auto
  have q1: "q1 = Ok (MetaFile (fd_size (fr_file_digest f))) \<or> (\<exists>e. q1 = Inl e \<and> ie_kind e \<noteq> NotFound)"
    using c1 dir faults steady [of 1] by (auto simp: no_lookup_faults_def holds_digest_iff split: option.splits)
  have q2: "(\<exists>bytes. q2 = Ok bytes \<and> blake3_hash h bytes = fd_hash (fr_file_digest f))
      \<or> (\<exists>e. q2 = Inl e \<and> ie_kind e \<noteq> NotFound)"
    using c2 f1 steady [of "Suc 1"] unfolding s2
    by (auto simp: no_lookup_faults_def holds_digest_iff split: option.splits)
  have q3: "fst (fs_read_to_end bytes d2) = Ok bytes \<or> (\<exists>e. fst (fs_read_to_end bytes d2) = Inl e \<and> ie_kind e \<noteq> NotFound)" for bytes
    using probe_calls(3) [of bytes d2] f2 by (cases "fs_read_to_end bytes d2") (auto simp: no_lookup_faults_def)
  from q1 show ?thesis
  proof (elim disjE exE conjE)
    assume ok: "q1 = Ok (MetaFile (fd_size (fr_file_digest f)))"
    from q2 show ?thesis
    proof (elim disjE exE conjE)
      fix bytes assume "q2 = Ok bytes" "blake3_hash h bytes = fd_hash (fr_file_digest f)"
      with ok q3 [of bytes] 1 2 show ?thesis
        by (auto simp: stored_file_validity_def Let_def split: prod.splits)
    qed (use ok 1 2 in \<open>simp add: stored_file_validity_def Let_def\<close>)
  qed (use 1 in \<open>simp add: stored_file_validity_def Let_def\<close>)
qed

section \<open>The store keeps its contract\<close>

lemma store_outcomes:
  assumes R: "redb_ok R" and c: "store_rel R unix s c"
  shows "wf_link_key k \<Longrightarrow> wf_uuid fresh \<Longrightarrow> fresh \<notin> ran (ct_links c) \<Longrightarrow>
      outcome R unix (reserve_link_ref R unix dedicated fresh k s) c
        (Ok (fst (cat_reserve fresh k c))) (snd (cat_reserve fresh k c))"
    and "wf_link_ref r \<Longrightarrow> ct_links c (link_ref_digest r) = Some (lr_uuid r) \<Longrightarrow> wf_file_ref f \<Longrightarrow>
      link_ref_id r = file_ref_id f \<Longrightarrow>
      outcome R unix (publish_file_ref R unix dedicated r f s) c (Ok ()) (cat_publish f c)"
    and "wf_file_ref f \<Longrightarrow> outcome R unix (replace_file_ref R unix dedicated f s) c
      (mapErr Fail (fst (cat_replace f c))) (snd (cat_replace f c))"
    and "wf_blueprint unix b \<Longrightarrow> blueprint_fits b \<Longrightarrow>
      outcome R unix (publish_blueprint R unix dedicated b s) c (Ok b) (cat_plan b c)"
    and "wf_link_key k \<Longrightarrow> outcome R unix (read_blueprint R unix dedicated k s) c (Ok (cat_lookup_plan k c)) c"
  unfolding reserve_link_ref_def publish_file_ref_def replace_file_ref_def publish_blueprint_def read_blueprint_def
  using on_db_outcome [OF R c reserve_runs [OF R]] on_db_outcome [OF R c publish_runs [OF R]]
    on_db_outcome [OF R c replace_runs [OF R]] on_db_outcome [OF R c plan_runs [OF R]]
    on_db_outcome [OF R c lookup_plan_runs [OF R]]
  by (simp_all add: cat_replace_def)


text \<open>The outcome of a read through the adapter, by what the probe says.\<close>

definition read_outcome ::
  "('db, 'tx) redb \<Rightarrow> bool \<Rightarrow> catalog \<Rightarrow> artifact_id \<Rightarrow> (file_ref \<Rightarrow> file_validity) \<Rightarrow>
   index_error fault + file_ref option \<Rightarrow> 'db image_store \<Rightarrow> bool" where
  "read_outcome R unix c i probe q s \<longleftrightarrow>
    (case ct_files c i of
       None \<Rightarrow> q = Ok None \<and> store_rel R unix s c
     | Some f \<Rightarrow>
         (case probe f of
            Valid \<Rightarrow> q = Ok (Some f) \<and> store_rel R unix s c
          | Miss \<Rightarrow> q = Ok None \<and> store_rel R unix s (cat_forget i c)
          | Indeterminate \<Rightarrow> q = Ok None \<and> store_rel R unix s c))
    \<or> transient q \<and>
       (store_rel R unix s c
        \<or> store_rel R unix s (cat_forget i c) \<and> (\<exists>f. ct_files c i = Some f \<and> probe f = Miss))"

lemma read_file_ref_outcome:
  assumes "redb_ok R" "store_rel R unix s c" "wf_link_ref r"
    and "read_file_ref R unix dedicated h L r s = (q, s')"
  shows "read_outcome R unix c (link_ref_id r) (\<lambda>f. fst (stored_file_validity h L f (is_disk s))) q s'"
proof -
  define P where "P q db \<longleftrightarrow> read_outcome R unix c (link_ref_id r)
      (\<lambda>f. fst (stored_file_validity h L f (is_disk s))) q (s\<lparr>is_db := db\<rparr>)" for q db
  have rel: "store_rel R unix (s\<lparr>is_db := db\<rparr>) x \<longleftrightarrow> catalog_rel R unix (rd_tables R db) x" for db x
    using assms(2) by (simp add: store_rel_def)
  have "case get_by_link_ref R h L r (db, d) of (q, db', d') \<Rightarrow> q \<noteq> Err Panic \<and> P q db'"
    if "catalog_rel R unix (rd_tables R db) c" "d = is_disk s" for db d
  proof -
    obtain q db' d' where run: "get_by_link_ref R h L r (db, is_disk s) = (q, db', d')" by (metis prod_cases3)
    from get_by_link_ref_runs [OF assms(1) that(1) assms(3) run] have "P q db'"
      unfolding P_def read_outcome_def rel transient_def by blast
    moreover from this have "q \<noteq> Err Panic"
      unfolding P_def read_outcome_def by (auto simp: transient_def split: option.splits file_validity.splits)
    ultimately show ?thesis using run that(2) by simp
  qed
  from with_store_runs [OF assms(1,2), where op = "get_by_link_ref R h L r" and P = "\<lambda>q db _. P q db"
      and dedicated = dedicated, OF this]
  have "q = Err (Fail IxOpen) \<and> store_rel R unix s' c \<or> \<not> is_poisoned s' \<and> P q (is_db s')"
    using assms(4) by (auto simp: read_file_ref_def)
  moreover have "store_rel R unix (s\<lparr>is_db := is_db s'\<rparr>) x = store_rel R unix s' x" if "\<not> is_poisoned s'" for x
    using that assms(2) by (simp add: store_rel_def)
  ultimately show ?thesis by (auto simp: P_def read_outcome_def transient_def split: option.splits file_validity.splits)
qed

text \<open>
  C31. A cache read is a hit only for a recorded file whose bytes, while they were read, had the
  recorded BLAKE3 digest; on an undisturbed disk it is a hit exactly when the file is there with its
  digest. The record of an entry is given up only when the probe found the file missing or different:
  while the file keeps its content and lookups do not report it missing, other input and output errors
  leave the record in place. A read never panics and changes no other record.
\<close>

theorem cache_reads_checked:
  assumes "redb_ok R" "store_rel R unix s c" "wf_link_ref r"
    and "read_file_ref R unix dedicated h L r s = (q, s')"
  shows "(\<forall>f. q = Ok (Some f) \<longrightarrow> ct_files c (link_ref_id r) = Some f \<and> store_rel R unix s' c
        \<and> (\<exists>n bytes. files_after n (is_disk s) (file_ref_path L f) = Some bytes
             \<and> blake3_hash h bytes = fd_hash (fr_file_digest f)))
    \<and> (dk_script (is_disk s) = [] \<longrightarrow> transient q \<or>
        q = Ok (case ct_files c (link_ref_id r) of
              None \<Rightarrow> None
            | Some f \<Rightarrow>
                if file_ref_path L f \<notin> dk_dirs (is_disk s)
                   \<and> holds_digest h (fr_file_digest f) (dk_files (is_disk s) (file_ref_path L f))
                then Some f else None))
    \<and> (\<forall>f. ct_files c (link_ref_id r) = Some f
         \<longrightarrow> (\<forall>n. holds_digest h (fr_file_digest f) (files_after n (is_disk s) (file_ref_path L f)))
         \<longrightarrow> file_ref_path L f \<notin> dk_dirs (is_disk s) \<longrightarrow> no_lookup_faults (is_disk s)
         \<longrightarrow> store_rel R unix s' c)
    \<and> (isOk q \<or> transient q) \<and> (store_rel R unix s' c \<or> store_rel R unix s' (cat_forget (link_ref_id r) c))"
proof -
  let ?i = "link_ref_id r" and ?d = "is_disk s"
  note out = read_file_ref_outcome [OF assms, unfolded read_outcome_def]
  show ?thesis
  proof (cases "ct_files c ?i")
    case None
    with out show ?thesis by (auto simp: transient_def)
  next
    case (Some f)
    obtain v d' where v: "stored_file_validity h L f ?d = (v, d')" by fastforce
    have valid: "\<exists>n bytes. files_after n ?d (file_ref_path L f) = Some bytes \<and> blake3_hash h bytes = fd_hash (fr_file_digest f)"
      if "v = Valid" using probe_valid [of h L f ?d] v that by blast
    have steady: "v \<noteq> Miss" if "\<forall>n. holds_digest h (fr_file_digest f) (files_after n ?d (file_ref_path L f))"
      "file_ref_path L f \<notin> dk_dirs ?d" "no_lookup_faults ?d"
      using probe_steady [of h f ?d L] v that by auto
    have quiet: "v = (if file_ref_path L f \<notin> dk_dirs ?d \<and> holds_digest h (fr_file_digest f) (dk_files ?d (file_ref_path L f))
        then Valid else Miss)" if "dk_script ?d = []"
      using probe_quiet [OF that, of h L f] v by simp
    show ?thesis
    proof (cases v)
      case Valid
      with out Some v valid quiet show ?thesis by (auto simp: transient_def)
    next
      case Miss
      with out Some v steady quiet show ?thesis by (auto simp: transient_def split: if_splits)
    next
      case Indeterminate
      with out Some v quiet show ?thesis by (auto simp: transient_def split: if_splits)
    qed
  qed
qed

section \<open>Runs of the store\<close>

text \<open>
  A new UUID is one no link has, which is what version 7 UUIDs are documented to be; files are published
  under references that were reserved.
\<close>

definition unused :: "('db, 'tx) redb \<Rightarrow> bool \<Rightarrow> 'db image_store \<Rightarrow> uuid \<Rightarrow> bool" where
  "unused R unix s u \<longleftrightarrow> (\<forall>c. store_rel R unix s c \<longrightarrow> u \<notin> ran (ct_links c))"

definition was_reserved :: "('db, 'tx) redb \<Rightarrow> bool \<Rightarrow> 'db image_store \<Rightarrow> link_ref \<Rightarrow> bool" where
  "was_reserved R unix s r \<longleftrightarrow>
    (\<forall>c. store_rel R unix s c \<longrightarrow> ct_links c (link_ref_digest r) = Some (lr_uuid r))"

datatype store_event = Reserved namespaced_link_digest "index_error fault + link_ref" | OtherCall

text \<open>Any operation, through a dedicated or the shared store, and anything others do to the disk.\<close>

inductive store_step ::
  "('db, 'tx) redb \<Rightarrow> bool \<Rightarrow> hashes \<Rightarrow> locations \<Rightarrow> 'db image_store \<Rightarrow> store_event \<Rightarrow> 'db image_store \<Rightarrow> bool"
  for R unix h L where
  step_reserve: "wf_link_key k \<Longrightarrow> wf_uuid fresh \<Longrightarrow> unused R unix s fresh \<Longrightarrow>
    reserve_link_ref R unix dedicated fresh k s = (q, s') \<Longrightarrow> store_step R unix h L s (Reserved k q) s'"
| step_publish: "wf_link_ref r \<Longrightarrow> was_reserved R unix s r \<Longrightarrow> wf_file_ref f \<Longrightarrow> link_ref_id r = file_ref_id f \<Longrightarrow>
    publish_file_ref R unix dedicated r f s = (u, s') \<Longrightarrow> store_step R unix h L s OtherCall s'"
| step_replace: "wf_file_ref f \<Longrightarrow>
    replace_file_ref R unix dedicated f s = (g, s') \<Longrightarrow> store_step R unix h L s OtherCall s'"
| step_read: "wf_link_ref r \<Longrightarrow>
    read_file_ref R unix dedicated h L r s = (fo, s') \<Longrightarrow> store_step R unix h L s OtherCall s'"
| step_plan: "wf_blueprint unix b \<Longrightarrow> blueprint_fits b \<Longrightarrow>
    publish_blueprint R unix dedicated b s = (p, s') \<Longrightarrow> store_step R unix h L s OtherCall s'"
| step_lookup: "wf_link_key k \<Longrightarrow>
    read_blueprint R unix dedicated k s = (po, s') \<Longrightarrow> store_step R unix h L s OtherCall s'"
| step_disk: "store_step R unix h L s OtherCall (s\<lparr>is_disk := d\<rparr>)"

definition keeps_links :: "('db, 'tx) redb \<Rightarrow> bool \<Rightarrow> catalog \<Rightarrow> 'db image_store \<Rightarrow> bool" where
  "keeps_links R unix c s \<longleftrightarrow> (\<exists>c'. store_rel R unix s c' \<and> ct_links c \<subseteq>\<^sub>m ct_links c')"

lemma outcome_keeps: "outcome R unix (q, s) c r c' \<Longrightarrow> ct_links c \<subseteq>\<^sub>m ct_links c' \<Longrightarrow> keeps_links R unix c s"
  unfolding outcome_def keeps_links_def by auto

lemma cat_links [simp]:
  "ct_links (cat_publish f c) = ct_links c" "ct_links (snd (cat_replace f c)) = ct_links c"
  "ct_links (cat_forget i c) = ct_links c" "ct_links (cat_plan b c) = ct_links c"
  by (simp_all add: cat_publish_def cat_replace_def cat_forget_def cat_plan_def)

lemma cat_reserve_links: "ct_links c \<subseteq>\<^sub>m ct_links (snd (cat_reserve fresh k c))"
  by (auto simp: cat_reserve_def map_le_def Let_def)

lemma store_step_keeps:
  assumes R: "redb_ok R" and c: "store_rel R unix s c" and step: "store_step R unix h L s e s'"
  shows "keeps_links R unix c s'"
  using step
proof cases
  case (step_reserve k fresh dedicated q)
  with c have "fresh \<notin> ran (ct_links c)" by (simp add: unused_def)
  from store_outcomes(1) [OF R c step_reserve(2,3) this, of dedicated] step_reserve(5) show ?thesis
    by (auto intro: outcome_keeps cat_reserve_links)
next
  case (step_publish r f dedicated u)
  with c have "ct_links c (link_ref_digest r) = Some (lr_uuid r)" by (simp add: was_reserved_def)
  from store_outcomes(2) [OF R c step_publish(2) this step_publish(4,5), of dedicated] step_publish(6)
  show ?thesis by (auto intro: outcome_keeps)
next
  case (step_replace f dedicated g)
  from store_outcomes(3) [OF R c step_replace(2), of dedicated] step_replace(3) show ?thesis by (auto intro: outcome_keeps)
next
  case (step_read r dedicated fo)
  from read_file_ref_outcome [OF R c step_read(2,3)]
  have "store_rel R unix s' c \<or> store_rel R unix s' (cat_forget (link_ref_id r) c)"
    unfolding read_outcome_def by (auto split: option.splits file_validity.splits)
  then show ?thesis unfolding keeps_links_def using cat_links(3) by (metis map_le_refl)
next
  case (step_plan b dedicated p)
  from store_outcomes(4) [OF R c step_plan(2,3), of dedicated] step_plan(4) show ?thesis by (auto intro: outcome_keeps)
next
  case (step_lookup k dedicated po)
  from store_outcomes(5) [OF R c step_lookup(2), of dedicated] step_lookup(3) show ?thesis by (auto intro: outcome_keeps)
next
  case (step_disk d)
  with c show ?thesis by (auto simp: keeps_links_def store_rel_def)
qed

text \<open>Every successful reservation of a run is still in force.\<close>

definition reservations_hold ::
  "('db, 'tx) redb \<Rightarrow> bool \<Rightarrow> store_event list \<Rightarrow> 'db image_store \<Rightarrow> bool" where
  "reservations_hold R unix es s \<longleftrightarrow> redb_ok R \<and>
    (\<exists>c. store_rel R unix s c \<and> (\<forall>k r. Reserved k (Ok r) \<in> set es \<longrightarrow>
       r = link_of k (lr_uuid r) \<and> ct_links c k = Some (lr_uuid r)))"

lemma reservation_holds:
  assumes R: "redb_ok R" and c: "store_rel R unix s c" and step: "store_step R unix h L s (Reserved k (Ok r)) s'"
  shows "r = link_of k (lr_uuid r) \<and> (\<exists>c'. store_rel R unix s' c' \<and> ct_links c \<subseteq>\<^sub>m ct_links c' \<and> ct_links c' k = Some (lr_uuid r))"
  using step
proof cases
  case (step_reserve fresh dedicated)
  with c have "fresh \<notin> ran (ct_links c)" by (simp add: unused_def)
  from store_outcomes(1) [OF R c step_reserve(1,2) this, of dedicated] step_reserve(4)
  have r: "r = fst (cat_reserve fresh k c)" and s': "store_rel R unix s' (snd (cat_reserve fresh k c))"
    by (auto simp: outcome_def transient_def)
  from r have "r = link_of k (lr_uuid r)" "ct_links (snd (cat_reserve fresh k c)) k = Some (lr_uuid r)"
    by (simp_all add: cat_reserve_def link_of_def Let_def)
  with s' cat_reserve_links show ?thesis by blast
qed

interpretation reservations: step_history "store_step R unix h L"
  "\<lambda>s. redb_ok R \<and> (\<exists>c. store_rel R unix s c)" "reservations_hold R unix"
proof
  fix s assume "redb_ok R \<and> (\<exists>c. store_rel R unix s c)"
  then show "reservations_hold R unix [] s" by (simp add: reservations_hold_def)
next
  fix es s e s'
  assume "reservations_hold R unix es s" and step: "store_step R unix h L s e s'"
  then obtain c where R: "redb_ok R" and c: "store_rel R unix s c"
    and held: "\<And>k r. Reserved k (Ok r) \<in> set es \<Longrightarrow> r = link_of k (lr_uuid r) \<and> ct_links c k = Some (lr_uuid r)"
    unfolding reservations_hold_def by blast
  have "\<exists>c'. store_rel R unix s' c' \<and> ct_links c \<subseteq>\<^sub>m ct_links c' \<and>
      (\<forall>k r. e = Reserved k (Ok r) \<longrightarrow> r = link_of k (lr_uuid r) \<and> ct_links c' k = Some (lr_uuid r))"
  proof (cases "\<exists>k r. e = Reserved k (Ok r)")
    case True
    then obtain k r where "e = Reserved k (Ok r)" by blast
    with reservation_holds [OF R c, of h L k r s'] step show ?thesis by auto
  next
    case False
    with store_step_keeps [OF R c step] show ?thesis unfolding keeps_links_def by blast
  qed
  then obtain c' where "store_rel R unix s' c'" "ct_links c \<subseteq>\<^sub>m ct_links c'"
    "\<And>k r. e = Reserved k (Ok r) \<Longrightarrow> r = link_of k (lr_uuid r) \<and> ct_links c' k = Some (lr_uuid r)" by blast
  moreover have "ct_links c k = Some u \<Longrightarrow> ct_links c' k = Some u" for k u
    using \<open>ct_links c \<subseteq>\<^sub>m ct_links c'\<close> by (metis map_le_def domI)
  ultimately show "reservations_hold R unix (es @ [e]) s'"
    using R held unfolding reservations_hold_def by auto
qed

lemma link_of_fields:
  "r = link_of k u \<Longrightarrow> link_ref_digest r = k \<and> link_ref_id r = \<lparr>ai_namespace = nl_namespace k, ai_uuid = u\<rparr>"
  by simp

text \<open>Links in one namespace have different identities.\<close>

lemma catalog_links_inj:
  assumes "store_rel R unix s c" "ct_links c k = Some u" "ct_links c k' = Some u" "nl_namespace k = nl_namespace k'"
  shows "k = k'"
proof -
  from assms(1) obtain ix where inv: "index_inv ix" and c: "catalog_of ix = c"
    unfolding store_rel_def catalog_rel_def by blast
  obtain i i' where "ix_link_digests ix k = Some i" "ix_link_digests ix k' = Some i'" "ai_uuid i = u" "ai_uuid i' = u"
    using assms(2,3) c by (auto simp: catalog_of_def)
  moreover from this inv assms(4) have "i = i'" unfolding index_inv_def by (metis id_parts)
  ultimately have "link_of k u = link_of k' u" using inv unfolding index_inv_def by (metis option.inject)
  then show ?thesis by (metis link_of_simps(1))
qed

text \<open>
  C32. Reserving is stable. In every run of the store, through any number of handles, with database
  failures at any point, other operations in between and anything happening on the disk, two successful
  reservations return the same reference exactly when they were made for the same link, references to
  different links have different identities, and the reference names the link it was made for. The
  reservations of a run are in the catalog at its end.
\<close>

theorem reserved_identities_stable:
  assumes "redb_ok R" "store_rel R unix s0 c0" "runs (store_step R unix h L) s0 es s"
    and "Reserved k (Ok r) \<in> set es" "Reserved k' (Ok r') \<in> set es"
  shows "(r = r' \<longleftrightarrow> k = k') \<and> (link_ref_id r = link_ref_id r' \<longleftrightarrow> k = k') \<and> link_ref_digest r = k
    \<and> (\<exists>c. store_rel R unix s c \<and> ct_links c k = Some (lr_uuid r))"
proof -
  have "reservations_hold R unix es s"
    using reservations.runs_hist [OF assms(3)] assms(1,2) by blast
  with assms(4,5) obtain c where c: "store_rel R unix s c"
    and r: "r = link_of k (lr_uuid r)" "ct_links c k = Some (lr_uuid r)"
    and r': "r' = link_of k' (lr_uuid r')" "ct_links c k' = Some (lr_uuid r')"
    unfolding reservations_hold_def by metis
  have "r = r'" if "k = k'"
  proof -
    have "lr_uuid r = lr_uuid r'" using that r(2) r'(2) by simp
    with r(1) r'(1) that show ?thesis by (simp only:)
  qed
  then show ?thesis
    using c r(2) r'(2) catalog_links_inj [OF c, of k "lr_uuid r" k'] link_of_fields [OF r(1)] link_of_fields [OF r'(1)]
    by auto
qed

section \<open>Examples\<close>

definition empty_catalog :: catalog where
  "empty_catalog = \<lparr>ct_links = Map.empty, ct_files = Map.empty, ct_plans = Map.empty\<rparr>"

definition sample_key :: "byte \<Rightarrow> namespaced_link_digest" where
  "sample_key b = \<lparr>nl_namespace = NsLayers, nl_link_digest = \<lparr>ld_hash = replicate 32 b, ld_size = 5\<rparr>\<rparr>"

definition sample_uuid :: "byte \<Rightarrow> uuid" where
  "sample_uuid b = replicate 16 b"

definition sample_entry :: "hashes \<Rightarrow> byte \<Rightarrow> byte list \<Rightarrow> file_ref" where
  "sample_entry h b bytes = \<lparr>fr_uuid = sample_uuid b, fr_namespace = NsLayers, fr_file_digest = bytes_digest h bytes,
     fr_type = ArtContainerTar, fr_compression = CompNone\<rparr>"

definition opened_tables :: "string \<Rightarrow> rows option" where
  "opened_tables = Map.empty(''link_digests'' \<mapsto> [], ''file_digests'' \<mapsto> [], ''file_refs'' \<mapsto> [], ''link_refs'' \<mapsto> [],
     ''blueprints'' \<mapsto> [], ''image_schema'' \<mapsto> [(str_bytes ''version'', le_bytes 4 3)])"

definition sample_store0 :: "disk \<Rightarrow> mem_db image_store" where
  "sample_store0 d = \<lparr>is_poisoned = False, is_db = \<lparr>md_tables = opened_tables, md_script = []\<rparr>, is_disk = d\<rparr>"

lemma sample_store0_index: "index_rel mem_redb unix (rd_tables mem_redb (is_db (sample_store0 d))) empty_index"
  unfolding index_rel_def empty_index_def index.simps
  by (intro conjI holds_empty)
    (simp_all add: sample_store0_def mem_redb_def mem_tables_def opened_tables_def table_defs IMAGE_SCHEMA_VERSION_def)

lemma sample_store0_rel: "store_rel mem_redb unix (sample_store0 d) empty_catalog"
  using sample_store0_index [of unix d]
  by (auto simp: store_rel_def catalog_rel_def sample_store0_def empty_catalog_def catalog_of_def empty_index_def
      index_inv_def intro!: exI [of _ empty_index])

definition sample_store1 :: "disk \<Rightarrow> mem_db image_store" where
  "sample_store1 d = snd (reserve_link_ref mem_redb False True (sample_uuid 1) (sample_key 1) (sample_store0 d))"

definition sample_catalog1 :: catalog where
  "sample_catalog1 = \<lparr>ct_links = [sample_key 1 \<mapsto> sample_uuid 1], ct_files = Map.empty, ct_plans = Map.empty\<rparr>"

lemmas mem_evals = reserve_link_ref_def publish_file_ref_def read_file_ref_def with_store_def on_db_def
  get_or_create_def get_or_create_tx_def write_tx_def read_tx_def bindT_def callT_def returnT_def decodeT_def encodeT_def
  open_table_def table_get_def table_insert_def mem_redb_def mem_begin_def mem_commit_def mem_drop_def mem_call_def
  opened_tables_def table_defs Let_def file_ref_upsert_def upsert_tx_def get_by_link_ref_def lookup_file_tx_def

abbreviation sample_link1 :: link_ref where
  "sample_link1 \<equiv> link_of (sample_key 1) (sample_uuid 1)"

lemma sample_wf: "wf_link_key (sample_key b)" "wf_uuid (sample_uuid b)" "wf_link_ref (link_of (sample_key b) (sample_uuid b))"
  "hashes_ok h \<Longrightarrow> length bytes < 2 ^ 128 \<Longrightarrow> wf_file_ref (sample_entry h b bytes)"
  by (simp_all add: sample_key_def sample_uuid_def sample_entry_def bytes_digest_def hashes_ok_def link_of_def wf_defs)

lemma sample_reserve:
  "\<not> transient (fst (reserve_link_ref mem_redb False True (sample_uuid 1) (sample_key 1) (sample_store0 d)))"
  by (simp add: sample_store0_def mem_evals transient_def)

lemma sample_store1_rel: "store_rel mem_redb False (sample_store1 d) sample_catalog1"
proof -
  have "sample_uuid 1 \<notin> ran (ct_links empty_catalog)" by (simp add: empty_catalog_def)
  from store_outcomes(1) [OF mem_redb_ok sample_store0_rel [of False d] sample_wf(1,2) [of 1] this, of True]
    sample_reserve [of d]
  show ?thesis
    by (auto simp: outcome_def sample_store1_def sample_catalog1_def cat_reserve_def empty_catalog_def Let_def
        split: prod.splits)
qed

definition sample_bytes :: "byte list" where
  "sample_bytes = [10, 20, 30]"

definition sample_disk :: disk where
  "sample_disk = \<lparr>dk_files = [[''c'', bytes_str (sample_uuid 1)] \<mapsto> sample_bytes], dk_dirs = {[''c'']}, dk_script = []\<rparr>"

definition sample_locations :: locations where
  "sample_locations = \<lparr>lc_dir = (\<lambda>_. [''c'']), lc_uuid_text = bytes_str\<rparr>"

abbreviation sample_entry1 :: file_ref where
  "sample_entry1 \<equiv> sample_entry sample_hashes 1 sample_bytes"

lemma sample_entry1_wf: "wf_file_ref sample_entry1"
  by (rule sample_wf(4)) (simp_all add: sample_hashes_ok sample_bytes_def)

lemma sample_links:
  "ct_links sample_catalog1 (link_ref_digest sample_link1) = Some (lr_uuid sample_link1)"
  "link_ref_id sample_link1 = file_ref_id sample_entry1" "sample_uuid 2 \<notin> ran (ct_links sample_catalog1)"
  by (simp_all add: sample_catalog1_def) (simp_all add: link_of_def sample_key_def file_ref_id_def sample_entry_def sample_uuid_def)


definition sample_store2 :: "mem_db image_store" where
  "sample_store2 = snd (publish_file_ref mem_redb False True sample_link1 sample_entry1 (sample_store1 sample_disk))"

lemmas sample_decodes = id_value.dec_enc link_ref_value.dec_enc [OF sample_wf(3) [unfolded link_of_def]]
  file_ref_value.dec_enc [OF sample_entry1_wf] wf_id_def sample_wf(2)

lemma sample_publish:
  "fst (publish_file_ref mem_redb False True sample_link1 sample_entry1 (sample_store1 sample_disk)) = Ok ()"
  using sample_links(2)
  by (simp add: sample_store1_def sample_store0_def mem_evals link_ref_id_def file_ref_id_def sample_decodes)

lemma sample_store2_rel: "store_rel mem_redb False sample_store2 (cat_publish sample_entry1 sample_catalog1)"
proof -
  from store_outcomes(2) [OF mem_redb_ok sample_store1_rel [of sample_disk] sample_wf(3) sample_links(1) sample_entry1_wf
      sample_links(2), of True] sample_publish
  show ?thesis by (auto simp: outcome_def sample_store2_def transient_def split: prod.splits)
qed

lemma sample_probe:
  "stored_file_validity sample_hashes sample_locations sample_entry1 sample_disk = (Valid, sample_disk)"
  by (simp add: probe_quiet sample_disk_def file_ref_path_def sample_locations_def sample_entry_def holds_digest_def)

lemma sample_read:
  "\<not> transient (fst (read_file_ref mem_redb False True sample_hashes sample_locations sample_link1 sample_store2))"
  using sample_links(2)
  by (simp add: sample_store2_def sample_store1_def sample_store0_def mem_evals link_ref_id_def file_ref_id_def
      sample_decodes transient_def sample_probe)

lemma sample_store2_disk: "is_disk sample_store2 = sample_disk"
  using sample_links(2)
  by (simp add: sample_store2_def sample_store1_def sample_store0_def mem_evals link_ref_id_def file_ref_id_def
      sample_decodes)

theorem cache_reads_checked_witness:
  "fst (read_file_ref mem_redb False True sample_hashes sample_locations sample_link1 sample_store2) =
     Ok (Some sample_entry1)"
proof -
  obtain q s' where run: "read_file_ref mem_redb False True sample_hashes sample_locations sample_link1 sample_store2 = (q, s')"
    by fastforce
  have f: "ct_files (cat_publish sample_entry1 sample_catalog1) (link_ref_id sample_link1) = Some sample_entry1"
    unfolding sample_links(2) by (simp add: cat_publish_def)
  have "dk_script sample_disk = []" "file_ref_path sample_locations sample_entry1 \<notin> dk_dirs sample_disk"
    "holds_digest sample_hashes (fr_file_digest sample_entry1)
       (dk_files sample_disk (file_ref_path sample_locations sample_entry1))"
    by (simp_all add: sample_disk_def file_ref_path_def sample_locations_def sample_entry_def holds_digest_def)
  with cache_reads_checked [OF mem_redb_ok sample_store2_rel sample_wf(3) run, THEN conjunct2, THEN conjunct1,
      unfolded sample_store2_disk f option.case]
  have "transient q \<or> q = Ok (Some sample_entry1)" by simp
  with sample_read run show ?thesis by simp
qed

lemma sample_unused: "unused mem_redb unix (sample_store0 d) u"
proof -
  have "ct_links c = Map.empty" if "store_rel mem_redb unix (sample_store0 d) c" for c
  proof -
    from that obtain ix where ix: "index_rel mem_redb unix (rd_tables mem_redb (is_db (sample_store0 d))) ix" "catalog_of ix = c"
      unfolding store_rel_def catalog_rel_def by blast
    from tb_links.rel_table [OF ix(1)] obtain raw where
      raw: "rd_tables mem_redb (is_db (sample_store0 d)) (tb_name LINK_DIGESTS) = Some raw"
        "table_rel LINK_DIGESTS wf_link_key wf_id raw (ix_link_digests ix)" by blast
    from raw(1) have "raw = Map.empty"
      by (simp add: sample_store0_def mem_redb_def mem_tables_def opened_tables_def LINK_DIGESTS_def)
    with tb_links.rel_empty [OF raw(2)] have "ix_link_digests ix = Map.empty" by simp
    with ix(2) show ?thesis by (auto simp: catalog_of_def)
  qed
  then show ?thesis by (simp add: unused_def)
qed

theorem reserved_identities_stable_witness:
  "\<exists>r s c. runs (store_step mem_redb False sample_hashes sample_locations) (sample_store0 sample_disk)
       [Reserved (sample_key 1) (Ok r)] s
     \<and> link_ref_digest r = sample_key 1 \<and> store_rel mem_redb False s c \<and> ct_links c (sample_key 1) = Some (lr_uuid r)"
proof -
  obtain q s where run: "reserve_link_ref mem_redb False True (sample_uuid 1) (sample_key 1) (sample_store0 sample_disk) = (q, s)"
    by fastforce
  obtain r where q: "q = Ok r"
    using store_outcomes(1) [OF mem_redb_ok sample_store0_rel [of False sample_disk] sample_wf(1,2) [of 1], of True]
      sample_reserve [of sample_disk] run
    by (auto simp: outcome_def empty_catalog_def)
  have "store_step mem_redb False sample_hashes sample_locations (sample_store0 sample_disk)
      (Reserved (sample_key 1) (Ok r)) s"
    by (rule store_step.step_reserve [OF sample_wf(1,2) sample_unused run [unfolded q]])
  from runs_step [of "store_step mem_redb False sample_hashes sample_locations" "sample_store0 sample_disk" "[]",
      OF runs_start this]
  have run: "runs (store_step mem_redb False sample_hashes sample_locations) (sample_store0 sample_disk)
      [Reserved (sample_key 1) (Ok r)] s" by simp
  with reserved_identities_stable [OF mem_redb_ok sample_store0_rel run, of "sample_key 1" r "sample_key 1" r]
  show ?thesis by (auto simp del: link_of_simps)
qed

end
