(* ===== verification/WideStr.thy ===== *)
theory WideStr
  imports RustStr
begin

text \<open>
  The strings of the Windows host: an \<open>OsString\<close> is a sequence of 16-bit units that need not be valid
  UTF-16, and its text form replaces what is not. The module \<open>wide_path_serde\<close> of \<open>journal.rs\<close>, which
  stores the units of a path as they are, follows.
\<close>

section \<open>UTF-16 and UTF-8\<close>

type_synonym os_string = "u16 list"

definition is_scalar :: "nat \<Rightarrow> bool" where
  "is_scalar c \<longleftrightarrow> c < 55296 \<or> 57344 \<le> c \<and> c < 1114112"

definition utf16_char :: "nat \<Rightarrow> os_string" where
  "utf16_char c =
    (if c < 65536 then [of_nat c]
     else [of_nat (55296 + (c - 65536) div 1024), of_nat (56320 + (c - 65536) mod 1024)])"

text \<open>\<open>OsString::from\<close> of a string, read back by \<open>encode_wide\<close>.\<close>

definition encode_utf16 :: "string \<Rightarrow> os_string" where
  "encode_utf16 s = concat (map utf16_char (str_chars s))"

definition high_surrogate :: "u16 \<Rightarrow> bool" where
  "high_surrogate u \<longleftrightarrow> 55296 \<le> unat u \<and> unat u < 56320"

definition low_surrogate :: "u16 \<Rightarrow> bool" where
  "low_surrogate u \<longleftrightarrow> 56320 \<le> unat u \<and> unat u < 57344"

text \<open>The scalar values of a string of units, with U+FFFD for each unit that is not part of one.\<close>

fun utf16_lossy :: "os_string \<Rightarrow> nat list" where
  "utf16_lossy [] = []"
| "utf16_lossy (u # us) =
    (if high_surrogate u then
       (case us of
          v # vs \<Rightarrow>
            if low_surrogate v
            then (65536 + (unat u - 55296) * 1024 + (unat v - 56320)) # utf16_lossy vs
            else 65533 # utf16_lossy us
        | [] \<Rightarrow> [65533])
     else if low_surrogate u then 65533 # utf16_lossy us
     else unat u # utf16_lossy us)"

definition utf8_encode_char :: "nat \<Rightarrow> byte list" where
  "utf8_encode_char c =
    (if c < 128 then [of_nat c]
     else if c < 2048 then [of_nat (192 + c div 64), of_nat (128 + c mod 64)]
     else if c < 65536 then
       [of_nat (224 + c div 4096), of_nat (128 + c div 64 mod 64), of_nat (128 + c mod 64)]
     else
       [of_nat (240 + c div 262144), of_nat (128 + c div 4096 mod 64),
        of_nat (128 + c div 64 mod 64), of_nat (128 + c mod 64)])"

definition chars_string :: "nat list \<Rightarrow> string" where
  "chars_string cs = bytes_str (concat (map utf8_encode_char cs))"

definition to_string_lossy :: "os_string \<Rightarrow> string" where
  "to_string_lossy p = chars_string (utf16_lossy p)"

section \<open>Paths in the journal\<close>

text \<open>\<open>serde_json::Value\<close>; a number that is not an integer is \<open>JFloat\<close>.\<close>

datatype json =
    JNull
  | JBool bool
  | JNumber int
  | JFloat
  | JString string
  | JArray "json list"
  | JObject "(string \<times> json) list"

definition json_as_u64 :: "json \<Rightarrow> u64 option" where
  "json_as_u64 v =
    (case v of JNumber n \<Rightarrow> if 0 \<le> n \<and> n < 2 ^ 64 then Some (of_int n) else None | _ \<Rightarrow> None)"

definition wide_path_serialize :: "os_string \<Rightarrow> json" where
  "wide_path_serialize p = JArray (map (\<lambda>u. JNumber (uint u)) p)"

definition wide_path_deserialize :: "json \<Rightarrow> string + os_string" where
  "wide_path_deserialize value =
    (case value of
       JArray units \<Rightarrow>
         (case those (map (\<lambda>unit. map_option ucast (json_as_u64 unit)) units) of
            Some us \<Rightarrow> Ok us
          | None \<Rightarrow> Err ''journal disk path units must be u16'')
     | JString txt \<Rightarrow> Ok (encode_utf16 txt)
     | _ \<Rightarrow> Err ''journal disk path must be a wide-unit array or a string'')"

section \<open>Lemmas\<close>

lemma utf16_lossy_char:
  assumes "is_scalar c"
  shows "utf16_lossy (utf16_char c @ us) = c # utf16_lossy us"
proof (cases "c < 65536")
  case True
  then have "unat (of_nat c :: u16) = c" by (simp add: unat_of_nat)
  with assms True show ?thesis
    by (auto simp: utf16_char_def high_surrogate_def low_surrogate_def is_scalar_def)
next
  case False
  define d where "d = c - 65536"
  from False assms have c: "c = 65536 + d" and d: "d < 1048576" by (auto simp: d_def is_scalar_def)
  have q: "d div 1024 < 1024" "d mod 1024 < 1024" using d by auto
  have u: "unat (of_nat (55296 + d div 1024) :: u16) = 55296 + d div 1024"
      "unat (of_nat (56320 + d mod 1024) :: u16) = 56320 + d mod 1024"
    using q by (simp_all only: unat_of_nat, simp_all add: take_bit_nat_eq_self)
  have "high_surrogate (of_nat (55296 + d div 1024))" "low_surrogate (of_nat (56320 + d mod 1024))"
    unfolding high_surrogate_def low_surrogate_def u using q by simp_all
  then have "utf16_lossy (of_nat (55296 + d div 1024) # of_nat (56320 + d mod 1024) # us)
      = (65536 + (55296 + d div 1024 - 55296) * 1024 + (56320 + d mod 1024 - 56320)) # utf16_lossy us"
    unfolding utf16_lossy.simps list.case u by (simp only: if_True)
  also have "65536 + (55296 + d div 1024 - 55296) * 1024 + (56320 + d mod 1024 - 56320) = c"
    unfolding diff_add_inverse c by (simp only: add.assoc div_mult_mod_eq)
  finally show ?thesis using False unfolding utf16_char_def d_def [symmetric] by (simp only: if_False append.simps)
qed

lemma utf16_lossy_encode:
  "list_all is_scalar (str_chars s) \<Longrightarrow> utf16_lossy (encode_utf16 s) = str_chars s"
proof -
  have "list_all is_scalar cs \<Longrightarrow> utf16_lossy (concat (map utf16_char cs)) = cs" for cs
    by (induction cs) (simp_all add: utf16_lossy_char)
  then show "list_all is_scalar (str_chars s) \<Longrightarrow> utf16_lossy (encode_utf16 s) = str_chars s"
    by (simp add: encode_utf16_def)
qed

lemma json_as_u64_unit: "map_option ucast (json_as_u64 (JNumber (uint (u :: u16)))) = Some u"
proof -
  have "uint u < 2 ^ 16" using uint_lt2p [of u] by simp
  also have "(2 :: int) ^ 16 < 2 ^ 64" by simp
  finally have u: "uint u < 2 ^ 64" .
  have "uint (word_of_int (uint u) :: u64) = uint u"
    unfolding uint_word_of_int_eq using u by (simp add: take_bit_int_eq_self)
  then have "ucast (word_of_int (uint u) :: u64) = u" unfolding ucast_eq by (simp only: word_of_int_uint)
  moreover have "json_as_u64 (JNumber (uint u)) = Some (word_of_int (uint u))"
    unfolding json_as_u64_def json.case using u by (simp only: uint_ge_0 if_True simp_thms)
  ultimately show ?thesis by (simp only: option.map)
qed

text \<open>The units of a path are read back as they were written; a path stored as text keeps its text.\<close>

lemma wide_path_round_trip: "wide_path_deserialize (wide_path_serialize p) = Ok p"
proof -
  have "those (map (\<lambda>u. map_option ucast (json_as_u64 (JNumber (uint (u :: u16))))) p) = Some p"
    by (induction p) (simp_all add: json_as_u64_unit del: map_option_eq_Some)
  then show ?thesis by (simp add: wide_path_deserialize_def wide_path_serialize_def comp_def)
qed

end
