(* ===== verification/Programs.thy ===== *)
theory Programs
  imports Prelude
begin

text \<open>
  Programs over a state that may stop early: a program maps a state to a result and a state, like a
  function of the source that takes its environment by mutable reference and returns a \<open>Result\<close>. The
  weakest precondition of a program with one postcondition for each way it ends gives a rule for every
  construct, and \<open>keeps\<close> states that a predicate is kept on every way out.
\<close>

type_synonym ('s, 'e, 'a) prog = "'s \<Rightarrow> ('e + 'a) \<times> 's"

definition returnP :: "'a \<Rightarrow> ('s, 'e, 'a) prog" where
  "returnP a s = (Ok a, s)"

definition failP :: "'e \<Rightarrow> ('s, 'e, 'a) prog" where
  "failP e s = (Err e, s)"

definition bindP :: "('s, 'e, 'a) prog \<Rightarrow> ('a \<Rightarrow> ('s, 'e, 'b) prog) \<Rightarrow> ('s, 'e, 'b) prog" where
  "bindP m f s = (case m s of (Inl e, s) \<Rightarrow> (Inl e, s) | (Inr a, s) \<Rightarrow> f a s)"

definition modifyP :: "('s \<Rightarrow> 's) \<Rightarrow> ('s, 'e, unit) prog" where
  "modifyP f s = (Ok (), f s)"

definition getsP :: "('s \<Rightarrow> 'a) \<Rightarrow> ('s, 'e, 'a) prog" where
  "getsP f s = (Ok (f s), s)"

text \<open>The result of a program as a value, for code that inspects an error instead of returning it.\<close>

definition tryP :: "('s, 'e, 'a) prog \<Rightarrow> ('s, 'f, 'e + 'a) prog" where
  "tryP m s = (case m s of (r, s) \<Rightarrow> (Ok r, s))"

definition ofResult :: "'e + 'a \<Rightarrow> ('s, 'e, 'a) prog" where
  "ofResult r s = (r, s)"

primrec forP :: "('x \<Rightarrow> ('s, 'e, unit) prog) \<Rightarrow> 'x list \<Rightarrow> ('s, 'e, unit) prog" where
  "forP f [] = returnP ()"
| "forP f (x # xs) = bindP (f x) (\<lambda>_. forP f xs)"

section \<open>Weakest preconditions\<close>

definition wp :: "('s, 'e, 'a) prog \<Rightarrow> ('a \<Rightarrow> 's \<Rightarrow> bool) \<Rightarrow> ('e \<Rightarrow> 's \<Rightarrow> bool) \<Rightarrow> 's \<Rightarrow> bool" where
  "wp m Q E s = (case m s of (Inl e, s') \<Rightarrow> E e s' | (Inr a, s') \<Rightarrow> Q a s')"

named_theorems wp_simps

lemma wp_return [wp_simps]: "wp (returnP a) Q E s = Q a s"
  by (simp add: wp_def returnP_def)

lemma wp_fail [wp_simps]: "wp (failP e) Q E s = E e s"
  by (simp add: wp_def failP_def)

lemma wp_bind [wp_simps]: "wp (bindP m f) Q E s = wp m (\<lambda>a. wp (f a) Q E) E s"
  by (simp add: wp_def bindP_def split: prod.splits sum.splits)

lemma wp_modify [wp_simps]: "wp (modifyP f) Q E s = Q () (f s)"
  by (simp add: wp_def modifyP_def)

lemma wp_gets [wp_simps]: "wp (getsP f) Q E s = Q (f s) s"
  by (simp add: wp_def getsP_def)

lemma wp_try [wp_simps]: "wp (tryP m) Q E s = wp m (\<lambda>a. Q (Ok a)) (\<lambda>e. Q (Err e)) s"
  by (simp add: wp_def tryP_def split: prod.splits sum.splits)

lemma wp_of_result [wp_simps]: "wp (ofResult r) Q E s = (case r of Inl e \<Rightarrow> E e s | Inr a \<Rightarrow> Q a s)"
  by (simp add: wp_def ofResult_def)

lemma wp_if [wp_simps]: "wp (if c then m else n) Q E s = (if c then wp m Q E s else wp n Q E s)"
  by simp

lemma wp_mono:
  assumes "wp m Q E s" "\<And>a s'. Q a s' \<Longrightarrow> Q' a s'" "\<And>e s'. E e s' \<Longrightarrow> E' e s'"
  shows "wp m Q' E' s"
  using assms by (auto simp: wp_def split: prod.splits sum.splits)

lemma wp_conj:
  "wp m (\<lambda>a s. Q a s \<and> Q' a s) (\<lambda>e s. E e s \<and> E' e s) s \<longleftrightarrow> wp m Q E s \<and> wp m Q' E' s"
  by (auto simp: wp_def split: prod.splits sum.splits)

lemma wpD:
  assumes "wp m Q E s" "m s = (r, s')"
  shows "(\<exists>a. r = Ok a \<and> Q a s') \<or> (\<exists>e. r = Err e \<and> E e s')"
  using assms by (cases r) (auto simp: wp_def)

lemma wpI:
  assumes "\<And>a s'. m s = (Ok a, s') \<Longrightarrow> Q a s'" "\<And>e s'. m s = (Err e, s') \<Longrightarrow> E e s'"
  shows "wp m Q E s"
  using assms by (auto simp: wp_def split: prod.splits sum.splits)

lemma wp_for:
  assumes "I xs s"
    and "\<And>x ys s. I (x # ys) s \<Longrightarrow> wp (f x) (\<lambda>_. I ys) E s"
    and "\<And>s. I [] s \<Longrightarrow> Q () s"
  shows "wp (forP f xs) Q E s"
  using assms(1)
proof (induction xs arbitrary: s)
  case Nil
  then show ?case by (simp add: wp_simps assms(3))
next
  case (Cons x xs)
  from assms(2) [OF Cons.prems] Cons.IH show ?case by (auto simp: wp_simps elim: wp_mono)
qed

section \<open>Predicates kept on every way out\<close>

definition keeps :: "('s \<Rightarrow> bool) \<Rightarrow> ('s, 'e, 'a) prog \<Rightarrow> bool" where
  "keeps I m \<longleftrightarrow> (\<forall>s. I s \<longrightarrow> I (snd (m s)))"

named_theorems keeps_rules

lemma keeps_wp: "keeps I m \<longleftrightarrow> (\<forall>s. I s \<longrightarrow> wp m (\<lambda>_. I) (\<lambda>_. I) s)"
proof -
  have "wp m (\<lambda>_. I) (\<lambda>_. I) s = I (snd (m s))" for s
    by (cases "m s"; cases "fst (m s)") (auto simp: wp_def)
  then show ?thesis by (simp add: keeps_def)
qed

lemma keepsD: "keeps I m \<Longrightarrow> m s = (r, s') \<Longrightarrow> I s \<Longrightarrow> I s'"
  by (auto simp: keeps_def)

lemma keeps_return [keeps_rules]: "keeps I (returnP a)"
  by (simp add: keeps_def returnP_def)

lemma keeps_fail [keeps_rules]: "keeps I (failP e)"
  by (simp add: keeps_def failP_def)

lemma keeps_gets [keeps_rules]: "keeps I (getsP f)"
  by (simp add: keeps_def getsP_def)

lemma keeps_of_result [keeps_rules]: "keeps I (ofResult r)"
  by (simp add: keeps_def ofResult_def)

lemma keeps_modify: "(\<And>s. I s \<Longrightarrow> I (f s)) \<Longrightarrow> keeps I (modifyP f)"
  by (simp add: keeps_def modifyP_def)

lemma keeps_bind [keeps_rules]: "keeps I m \<Longrightarrow> (\<And>a. keeps I (f a)) \<Longrightarrow> keeps I (bindP m f)"
  unfolding keeps_def bindP_def by (force split: prod.splits sum.splits)

lemma keeps_try [keeps_rules]: "keeps I m \<Longrightarrow> keeps I (tryP m)"
  by (simp add: keeps_def tryP_def case_prod_beta)

lemma keeps_if [keeps_rules]: "(c \<Longrightarrow> keeps I m) \<Longrightarrow> (\<not> c \<Longrightarrow> keeps I n) \<Longrightarrow> keeps I (if c then m else n)"
  by simp

lemma keeps_option [keeps_rules]:
  "(x = None \<Longrightarrow> keeps I m) \<Longrightarrow> (\<And>a. x = Some a \<Longrightarrow> keeps I (f a)) \<Longrightarrow>
   keeps I (case x of None \<Rightarrow> m | Some a \<Rightarrow> f a)"
  by (cases x) auto

lemma keeps_sum [keeps_rules]:
  "(\<And>e. x = Inl e \<Longrightarrow> keeps I (g e)) \<Longrightarrow> (\<And>a. x = Inr a \<Longrightarrow> keeps I (f a)) \<Longrightarrow>
   keeps I (case x of Inl e \<Rightarrow> g e | Inr a \<Rightarrow> f a)"
  by (cases x) auto

lemma keeps_for [keeps_rules]:
  assumes "\<And>x. x \<in> set xs \<Longrightarrow> keeps I (f x)"
  shows "keeps I (forP f xs)"
  using assms by (induction xs) (simp_all add: keeps_return keeps_bind)

end
