(* ===== verification/HcsReport.thy ===== *)
theory HcsReport
  imports WideStr Programs
begin

text \<open>
  The errors of the Windows backend, \<open>error.rs\<close>, as \<open>error_stack\<close> reports: a context and the texts
  attached to it, in the order \<open>frames\<close> visits them. \<open>report_text\<close> and \<open>resource_is_absent\<close> of \<open>vm.rs\<close>
  read them.
\<close>

section \<open>Errors\<close>

datatype hcs_error =
    HyperVAdmin
  | ComPortSetup
  | ComputeSystemCreate
  | ComputeSystemOpen
  | ComputeSystemStart
  | ComputeSystemTerminate
  | OperationCreate
  | OperationSyncFailed
  | OperationFailed
  | OperationCallbackMissing
  | OperationResult
  | Enumeration
  | NamedPipe
  | ConnectionCancelled
  | Serialize
  | Deserialize
  | Network
  | DiskInvalidPath
  | DiskParentMissing
  | DiskReparsePointRejected
  | DiskPathExists
  | DiskCreateFailed
  | DiskNotValidWritableVhdx
  | DiskPathAlreadyClaimed
  | DiskIdentityChanged
  | DiskInitializationFailed
  | DiskMountFailed
  | SecurityDescriptor
  | Journal
  | JournalSchemaMismatch
  | Cleanup

fun hcs_message :: "hcs_error \<Rightarrow> string" where
  "hcs_message HyperVAdmin = ''caller is not a member of the Hyper-V Administrators group''"
| "hcs_message ComPortSetup = ''failed to set up a COM port named pipe''"
| "hcs_message ComputeSystemCreate = ''failed to create the HCS compute system''"
| "hcs_message ComputeSystemOpen = ''failed to open the HCS compute system''"
| "hcs_message ComputeSystemStart = ''failed to start the HCS compute system''"
| "hcs_message ComputeSystemTerminate = ''failed to terminate the HCS compute system''"
| "hcs_message OperationCreate = ''HcsCreateOperation returned a null handle''"
| "hcs_message OperationSyncFailed = ''HcsWaitForOperationResult failed''"
| "hcs_message OperationFailed = ''HCS operation failed synchronously''"
| "hcs_message OperationCallbackMissing = ''HCS operation callback was never invoked''"
| "hcs_message OperationResult = ''HcsGetOperationResult returned a non-zero HRESULT''"
| "hcs_message Enumeration = ''HcsEnumerateComputeSystems failed''"
| "hcs_message NamedPipe = ''named pipe server setup failed''"
| "hcs_message ConnectionCancelled = ''connection cancelled''"
| "hcs_message Serialize = ''failed to serialize an HCS document''"
| "hcs_message Deserialize = ''failed to deserialize an HCS document''"
| "hcs_message Network = ''an HNS network/endpoint operation failed''"
| "hcs_message DiskInvalidPath = ''invalid disk path, mount, or size''"
| "hcs_message DiskParentMissing = ''disk parent directory is missing''"
| "hcs_message DiskReparsePointRejected = ''disk path traverses a reparse point''"
| "hcs_message DiskPathExists = ''disk path already exists and the policy rejects reuse''"
| "hcs_message DiskCreateFailed = ''failed to create the disk backing file''"
| "hcs_message DiskNotValidWritableVhdx = ''existing path is not a valid writable VHDX''"
| "hcs_message DiskPathAlreadyClaimed = ''disk path is already claimed by another operation''"
| "hcs_message DiskIdentityChanged = ''disk file identity changed since it was recorded''"
| "hcs_message DiskInitializationFailed = ''created disk was not initialized by the guest''"
| "hcs_message DiskMountFailed = ''disk could not be mounted by the guest''"
| "hcs_message SecurityDescriptor = ''a Windows security descriptor was invalid''"
| "hcs_message Journal = ''the durable HCS runtime journal failed''"
| "hcs_message JournalSchemaMismatch = ''the HCS runtime journal schema is unsupported''"
| "hcs_message Cleanup = ''journaled HCS resource cleanup failed''"

section \<open>Reports\<close>

record report =
  rp_context :: hcs_error
  rp_attachments :: "string list"

definition report_new :: "hcs_error \<Rightarrow> string list \<Rightarrow> report" where
  "report_new e as = \<lparr>rp_context = e, rp_attachments = as\<rparr>"

fun contains :: "string \<Rightarrow> string \<Rightarrow> bool" where
  "contains pat [] \<longleftrightarrow> pat = []"
| "contains pat (c # s) \<longleftrightarrow> take (length pat) (c # s) = pat \<or> contains pat s"

definition ascii_lower :: "char \<Rightarrow> char" where
  "ascii_lower c = (let n = of_char c :: nat in if 65 \<le> n \<and> n \<le> 90 then char_of (n + 32) else c)"

definition to_ascii_lowercase :: "string \<Rightarrow> string" where
  "to_ascii_lowercase = map ascii_lower"

definition report_text :: "report \<Rightarrow> string" where
  "report_text r = fold (\<lambda>attachment txt. txt @ ''; '' @ attachment) (rp_attachments r) (hcs_message (rp_context r))"

definition resource_is_absent :: "report \<Rightarrow> bool" where
  "resource_is_absent r =
    (let txt = to_ascii_lowercase (report_text r) in
     contains ''0x80070490'' txt \<or> contains ''0x80070002'' txt)"

section \<open>Lemmas\<close>

lemma contains_iff: "contains pat s \<longleftrightarrow> (\<exists>xs ys. s = xs @ pat @ ys)"
proof (induction s)
  case Nil
  then show ?case by auto
next
  case (Cons c s)
  have "take (length pat) (c # s) = pat \<longleftrightarrow> (\<exists>ys. c # s = pat @ ys)"
    by (metis append_eq_conv_conj append_take_drop_id)
  then have "contains pat (c # s) \<longleftrightarrow> (\<exists>ys. c # s = pat @ ys) \<or> (\<exists>xs ys. s = xs @ pat @ ys)"
    using Cons.IH by simp
  also have "\<dots> \<longleftrightarrow> (\<exists>xs ys. c # s = xs @ pat @ ys)"
  proof
    show "\<exists>xs ys. c # s = xs @ pat @ ys"
      if "(\<exists>ys. c # s = pat @ ys) \<or> (\<exists>xs ys. s = xs @ pat @ ys)"
      using that by (metis append_Cons append_Nil)
    show "(\<exists>ys. c # s = pat @ ys) \<or> (\<exists>xs ys. s = xs @ pat @ ys)"
      if "\<exists>xs ys. c # s = xs @ pat @ ys"
    proof -
      from that obtain xs ys where "c # s = xs @ pat @ ys" by blast
      then show ?thesis by (cases xs) auto
    qed
  qed
  finally show ?case .
qed

end
