(* ===== verification/SessionJournal.thy ===== *)
theory SessionJournal
  imports Redb HcsReport
begin

text \<open>
  The ownership journal of the Windows backend, \<open>journal.rs\<close>: one database for each host process, which
  records every external resource before and after it is made. This theory has the record types, the
  operations of \<open>SessionJournal\<close> and the typed maps they implement. JSON texts and the text of a UUID are
  made by other crates and are parameters.
\<close>

section \<open>Records\<close>

datatype disk_retention = Ephemeral | Persistent

datatype disk_origin = CreatedByLaunch | PreExisting

datatype resource_state = Planned | Created | Removed | RemovalFailed | Abandoned

datatype vm_phase = PhasePlanned | PhaseStarting | PhasePublished | PhaseCleanupPending | PhaseComplete

record file_identity =
  fi_volume_serial :: u32
  fi_file_id :: u64

record session_record =
  se_schema_version :: u32
  se_session_id :: uuid
  se_owner :: string
  se_owner_sid :: string
  se_process_id :: u32
  se_created_at_unix_ms :: u64

record compute_resource =
  cr_id :: string
  cr_state :: resource_state

record network_resource =
  nr_network_name :: string
  nr_network_id :: "string option"
  nr_endpoint_name :: string
  nr_endpoint_id :: "string option"
  nr_state :: resource_state

record disk_resource =
  dr_path :: os_string
  dr_controller :: u32
  dr_lun :: u32
  dr_state :: resource_state
  dr_origin :: disk_origin
  dr_requested_retention :: disk_retention
  dr_effective_retention :: disk_retention
  dr_file_identity :: "file_identity option"
  dr_initialization_requested :: bool
  dr_initialization_acknowledged :: bool
  dr_vm_ace_added :: bool
  dr_published :: bool

record vm_record =
  vr_schema_version :: u32
  vr_vm_id :: uuid
  vr_phase :: vm_phase
  vr_published :: bool
  vr_compute_system :: compute_resource
  vr_network :: "network_resource option"
  vr_disks :: "disk_resource list"
  vr_cleanup_attempts :: u32
  vr_last_error :: "string option"

record abandoned_entry =
  ae_kind :: string
  ae_identity :: string
  ae_last_error :: string
  ae_first_abandoned_at_unix_ms :: u64

record abandoned_record =
  ar_schema_version :: u32
  ar_vm_id :: uuid
  ar_entries :: "abandoned_entry list"

definition terminal_state :: "resource_state \<Rightarrow> bool" where
  "terminal_state state \<longleftrightarrow> state = Removed \<or> state = Abandoned"

definition is_complete :: "vm_record \<Rightarrow> bool" where
  "is_complete r \<longleftrightarrow>
    vr_phase r = PhaseComplete
    \<or> terminal_state (cr_state (vr_compute_system r))
      \<and> (case vr_network r of None \<Rightarrow> True | Some network \<Rightarrow> terminal_state (nr_state network))
      \<and> list_all (\<lambda>disk. terminal_state (dr_state disk)) (vr_disks r)"

section \<open>Parameters and tables\<close>

text \<open>
  \<open>serde_json::to_vec\<close> and \<open>from_slice\<close> with the derived implementations for the three stored record
  types, and \<open>Uuid::to_string\<close>.
\<close>

record forms =
  fm_uuid :: "uuid \<Rightarrow> string"
  fm_session_enc :: "session_record \<Rightarrow> byte list option"
  fm_session_dec :: "byte list \<Rightarrow> session_record option"
  fm_vm_enc :: "vm_record \<Rightarrow> byte list option"
  fm_vm_dec :: "byte list \<Rightarrow> vm_record option"
  fm_abandoned_enc :: "abandoned_record \<Rightarrow> byte list option"
  fm_abandoned_dec :: "byte list \<Rightarrow> abandoned_record option"

text \<open>Documented behaviour: records are read back as they were written, and different UUIDs have
  different texts.\<close>

definition forms_ok :: "forms \<Rightarrow> bool" where
  "forms_ok F \<longleftrightarrow>
    (\<forall>u v. wf_uuid u \<longrightarrow> wf_uuid v \<longrightarrow> fm_uuid F u = fm_uuid F v \<longrightarrow> u = v)
    \<and> (\<forall>r. \<exists>b. fm_session_enc F r = Some b \<and> fm_session_dec F b = Some r)
    \<and> (\<forall>r. \<exists>b. fm_vm_enc F r = Some b \<and> fm_vm_dec F b = Some r)
    \<and> (\<forall>r. \<exists>b. fm_abandoned_enc F r = Some b \<and> fm_abandoned_dec F b = Some r)"

definition JOURNAL_SCHEMA_VERSION :: u32 where
  "JOURNAL_SCHEMA_VERSION = 1"

definition MAX_CLEANUP_ATTEMPTS :: u32 where
  "MAX_CLEANUP_ATTEMPTS = 3"

definition JOURNAL_SCHEMA :: "('db, 'tx) redb \<Rightarrow> (string, u32) table" where
  "JOURNAL_SCHEMA R =
    \<lparr>tb_name = ''journal_schema'', tb_key = rd_str_key R, tb_enc = Some \<circ> rd_u32_enc R, tb_dec = rd_u32_dec R\<rparr>"

definition SESSION :: "('db, 'tx) redb \<Rightarrow> forms \<Rightarrow> (string, session_record) table" where
  "SESSION R F =
    \<lparr>tb_name = ''session'', tb_key = rd_str_key R, tb_enc = fm_session_enc F, tb_dec = fm_session_dec F\<rparr>"

definition VM_RECORDS :: "('db, 'tx) redb \<Rightarrow> forms \<Rightarrow> (uuid, vm_record) table" where
  "VM_RECORDS R F =
    \<lparr>tb_name = ''vm_records'', tb_key = rd_str_key R \<circ> fm_uuid F, tb_enc = fm_vm_enc F, tb_dec = fm_vm_dec F\<rparr>"

definition ABANDONED :: "('db, 'tx) redb \<Rightarrow> forms \<Rightarrow> (uuid, abandoned_record) table" where
  "ABANDONED R F =
    \<lparr>tb_name = ''abandoned'', tb_key = rd_str_key R \<circ> fm_uuid F, tb_enc = fm_abandoned_enc F,
     tb_dec = fm_abandoned_dec F\<rparr>"

text \<open>The text attached to an error of the journal is left out: nothing reads it.\<close>

definition journal_report :: report where
  "journal_report = report_new Journal []"

definition validate_schema_version :: "u32 \<Rightarrow> report + unit" where
  "validate_schema_version version =
    (if version = JOURNAL_SCHEMA_VERSION then Ok () else Err (report_new JournalSchemaMismatch []))"

section \<open>Reading and writing records\<close>

text \<open>\<open>table.get\<close>, then \<open>serde_json::from_slice\<close>: a value that does not parse is an error.\<close>

definition json_get :: "('db, 'tx) redb \<Rightarrow> ('k, 'v) table \<Rightarrow> 'k \<Rightarrow> ('tx, report, 'v option) txm" where
  "json_get R T k =
    bindT (callT journal_report (rd_get R (tb_name T) (tb_key T k))) (\<lambda>v.
    case v of
      None \<Rightarrow> returnT None
    | Some bytes \<Rightarrow>
        (case tb_dec T bytes of None \<Rightarrow> failT journal_report | Some x \<Rightarrow> returnT (Some x)))"

definition json_insert :: "('db, 'tx) redb \<Rightarrow> ('k, 'v) table \<Rightarrow> 'k \<Rightarrow> byte list \<Rightarrow> ('tx, report, unit) txm" where
  "json_insert R T k bytes = callT journal_report (rd_insert R (tb_name T) (tb_key T k) bytes)"

definition json_encode :: "byte list option \<Rightarrow> ('s, report fault, byte list) prog" where
  "json_encode enc = (case enc of None \<Rightarrow> failP (Fail journal_report) | Some bytes \<Rightarrow> returnP bytes)"

definition checkT :: "report + 'a \<Rightarrow> ('tx, report, 'a) txm" where
  "checkT r = (case r of Inl e \<Rightarrow> failT e | Inr a \<Rightarrow> returnT a)"

definition liftR :: "report + 'a \<Rightarrow> ('s, report fault, 'a) prog" where
  "liftR r = (case r of Inl e \<Rightarrow> failP (Fail e) | Inr a \<Rightarrow> returnP a)"

definition journal_write :: "('db, 'tx) redb \<Rightarrow> ('tx, report, 'a) txm \<Rightarrow> ('db, report fault, 'a) prog" where
  "journal_write R operation = write_tx R journal_report operation"

definition journal_read :: "('db, 'tx) redb \<Rightarrow> ('tx, report, 'a) txm \<Rightarrow> ('db, report fault, 'a) prog" where
  "journal_read R operation = read_tx R journal_report operation"

section \<open>Operations on VM records\<close>

definition put_vm :: "('db, 'tx) redb \<Rightarrow> forms \<Rightarrow> vm_record \<Rightarrow> ('db, report fault, unit) prog" where
  "put_vm R F r =
    bindP (liftR (validate_schema_version (vr_schema_version r))) (\<lambda>_.
    bindP (json_encode (fm_vm_enc F r)) (\<lambda>bytes.
    journal_write R
      (bindT (open_table R journal_report (VM_RECORDS R F)) (\<lambda>_.
       json_insert R (VM_RECORDS R F) (vr_vm_id r) bytes))))"

definition update_vm_tx ::
  "('db, 'tx) redb \<Rightarrow> forms \<Rightarrow> uuid \<Rightarrow> (vm_record \<Rightarrow> vm_record) \<Rightarrow> ('tx, report, unit) txm" where
  "update_vm_tx R F vm_id update =
    bindT (open_table R journal_report (VM_RECORDS R F)) (\<lambda>_.
    bindT (json_get R (VM_RECORDS R F) vm_id) (\<lambda>current.
    case current of
      None \<Rightarrow> failT journal_report
    | Some r \<Rightarrow>
        bindT (checkT (validate_schema_version (vr_schema_version r))) (\<lambda>_.
        case fm_vm_enc F (update r) of
          None \<Rightarrow> failT journal_report
        | Some bytes \<Rightarrow> json_insert R (VM_RECORDS R F) vm_id bytes)))"

definition update_vm ::
  "('db, 'tx) redb \<Rightarrow> forms \<Rightarrow> uuid \<Rightarrow> (vm_record \<Rightarrow> vm_record) \<Rightarrow> ('db, report fault, unit) prog" where
  "update_vm R F vm_id update = journal_write R (update_vm_tx R F vm_id update)"

definition journal_vm :: "('db, 'tx) redb \<Rightarrow> forms \<Rightarrow> uuid \<Rightarrow> ('db, report fault, vm_record option) prog" where
  "journal_vm R F vm_id =
    journal_read R
      (bindT (open_table R journal_report (VM_RECORDS R F)) (\<lambda>_.
       bindT (json_get R (VM_RECORDS R F) vm_id) (\<lambda>v.
       case v of
         None \<Rightarrow> returnT None
       | Some r \<Rightarrow> bindT (checkT (validate_schema_version (vr_schema_version r))) (\<lambda>_. returnT (Some r)))))"

text \<open>The loop of \<open>all_vms\<close> over the rows of the table.\<close>

fun decode_vms :: "forms \<Rightarrow> byte list list \<Rightarrow> report + vm_record list" where
  "decode_vms F [] = Ok []"
| "decode_vms F (bytes # values) =
    (case fm_vm_dec F bytes of
       None \<Rightarrow> Err journal_report
     | Some r \<Rightarrow>
         bindR (validate_schema_version (vr_schema_version r)) (\<lambda>_.
         bindR (decode_vms F values) (\<lambda>rs. Ok (r # rs))))"

definition all_vms :: "('db, 'tx) redb \<Rightarrow> forms \<Rightarrow> ('db, report fault, vm_record list) prog" where
  "all_vms R F =
    journal_read R
      (bindT (open_table R journal_report (VM_RECORDS R F)) (\<lambda>_.
       bindT (callT journal_report (rd_iter R (tb_name (VM_RECORDS R F)))) (\<lambda>rows.
       checkT (decode_vms F (map snd rows)))))"

definition remove_vm :: "('db, 'tx) redb \<Rightarrow> forms \<Rightarrow> uuid \<Rightarrow> ('db, report fault, unit) prog" where
  "remove_vm R F vm_id =
    journal_write R
      (bindT (open_table R journal_report (VM_RECORDS R F)) (\<lambda>_.
       table_remove R journal_report (VM_RECORDS R F) vm_id))"

section \<open>The abandoned inventory\<close>

text \<open>Opening the inventory for reading; an older database may not have the table.\<close>

definition read_inventory :: "('db, 'tx) redb \<Rightarrow> forms \<Rightarrow> 'a \<Rightarrow> ('tx, report, 'a) txm \<Rightarrow> ('tx, report, 'a) txm" where
  "read_inventory R F missing body tx =
    (case rd_open_table R (tb_name (ABANDONED R F)) tx of
       (Inl TableDoesNotExist, tx) \<Rightarrow> (Ok missing, tx)
     | (Inl _, tx) \<Rightarrow> (Err (Fail journal_report), tx)
     | (Inr _, tx) \<Rightarrow> body tx)"

definition abandoned :: "('db, 'tx) redb \<Rightarrow> forms \<Rightarrow> uuid \<Rightarrow> ('db, report fault, abandoned_record option) prog" where
  "abandoned R F vm_id =
    journal_read R (read_inventory R F None
      (bindT (json_get R (ABANDONED R F) vm_id) (\<lambda>v.
       case v of
         None \<Rightarrow> returnT None
       | Some r \<Rightarrow> bindT (checkT (validate_schema_version (ar_schema_version r))) (\<lambda>_. returnT (Some r)))))"

fun merge_entry :: "abandoned_entry \<Rightarrow> abandoned_entry list \<Rightarrow> abandoned_entry list" where
  "merge_entry entry [] = [entry]"
| "merge_entry entry (existing # entries) =
    (if ae_kind existing = ae_kind entry \<and> ae_identity existing = ae_identity entry
     then existing\<lparr>ae_last_error := ae_last_error entry\<rparr> # entries
     else existing # merge_entry entry entries)"

definition merge_entries :: "abandoned_entry list \<Rightarrow> abandoned_entry list \<Rightarrow> abandoned_entry list" where
  "merge_entries previous new = fold merge_entry new previous"

definition put_abandoned :: "('db, 'tx) redb \<Rightarrow> forms \<Rightarrow> abandoned_record \<Rightarrow> ('db, report fault, unit) prog" where
  "put_abandoned R F r =
    bindP (liftR (validate_schema_version (ar_schema_version r))) (\<lambda>_.
    bindP (abandoned R F (ar_vm_id r)) (\<lambda>previous.
    let entries = merge_entries (case previous of Some p \<Rightarrow> ar_entries p | None \<Rightarrow> []) (ar_entries r) in
    bindP (json_encode (fm_abandoned_enc F (r\<lparr>ar_entries := entries\<rparr>))) (\<lambda>bytes.
    journal_write R
      (bindT (open_table R journal_report (ABANDONED R F)) (\<lambda>_.
       json_insert R (ABANDONED R F) (ar_vm_id r) bytes)))))"

definition remove_abandoned :: "('db, 'tx) redb \<Rightarrow> forms \<Rightarrow> uuid \<Rightarrow> ('db, report fault, unit) prog" where
  "remove_abandoned R F vm_id =
    journal_write R
      (bindT (open_table R journal_report (ABANDONED R F)) (\<lambda>_.
       table_remove R journal_report (ABANDONED R F) vm_id))"

definition has_abandoned :: "('db, 'tx) redb \<Rightarrow> forms \<Rightarrow> ('db, report fault, bool) prog" where
  "has_abandoned R F =
    journal_read R (read_inventory R F False (table_nonempty R journal_report (ABANDONED R F)))"

section \<open>Sessions\<close>

definition owner_for :: "forms \<Rightarrow> uuid \<Rightarrow> string" where
  "owner_for F session_id = ''jyth/v1/'' @ fm_uuid F session_id"

definition initialize_database_tx :: "('db, 'tx) redb \<Rightarrow> forms \<Rightarrow> ('tx, report, unit) txm" where
  "initialize_database_tx R F =
    bindT (open_table R journal_report (JOURNAL_SCHEMA R)) (\<lambda>_.
    bindT (table_get R journal_report (JOURNAL_SCHEMA R) ''version'') (\<lambda>recorded.
    bindT (case recorded of
             Some version \<Rightarrow>
               if version \<noteq> JOURNAL_SCHEMA_VERSION then failT (report_new JournalSchemaMismatch []) else returnT ()
           | None \<Rightarrow> table_insert R journal_report (JOURNAL_SCHEMA R) ''version'' JOURNAL_SCHEMA_VERSION) (\<lambda>_.
    bindT (open_table R journal_report (SESSION R F)) (\<lambda>_.
    bindT (open_table R journal_report (VM_RECORDS R F)) (\<lambda>_.
    open_table R journal_report (ABANDONED R F))))))"

definition initialize_database :: "('db, 'tx) redb \<Rightarrow> forms \<Rightarrow> ('db, report fault, unit) prog" where
  "initialize_database R F = journal_write R (initialize_database_tx R F)"

text \<open>
  \<open>SessionJournal::create_current\<close> on the file of the new session. \<open>prepared\<close> is the result of what comes
  before the database: creating and checking the state directory, the SID of the user and the access
  rules of the production directory.
\<close>

definition create_current ::
  "('db, 'tx) redb \<Rightarrow> forms \<Rightarrow> report + string \<Rightarrow> uuid \<Rightarrow> u32 \<Rightarrow> u64 \<Rightarrow> ('db, report fault, session_record) prog" where
  "create_current R F prepared session_id process_id now =
    bindP (liftR prepared) (\<lambda>owner_sid.
    bindP (\<lambda>db. case rd_create R db of (Inl _, db) \<Rightarrow> (Err (Fail journal_report), db) | (Inr u, db) \<Rightarrow> (Ok u, db)) (\<lambda>_.
    bindP (initialize_database R F) (\<lambda>_.
    let session = \<lparr>se_schema_version = JOURNAL_SCHEMA_VERSION, se_session_id = session_id,
                   se_owner = owner_for F session_id, se_owner_sid = owner_sid,
                   se_process_id = process_id, se_created_at_unix_ms = now\<rparr> in
    bindP (json_encode (fm_session_enc F session)) (\<lambda>bytes.
    bindP (journal_write R
      (bindT (open_table R journal_report (SESSION R F)) (\<lambda>_.
       json_insert R (SESSION R F) ''current'' bytes))) (\<lambda>_.
    returnP session)))))"

text \<open>The transaction of \<open>read_existing_session\<close> and the checks after it.\<close>

definition read_session_tx :: "('db, 'tx) redb \<Rightarrow> forms \<Rightarrow> ('tx, report, session_record) txm" where
  "read_session_tx R F =
    bindT (open_table R journal_report (JOURNAL_SCHEMA R)) (\<lambda>_.
    bindT (table_get R journal_report (JOURNAL_SCHEMA R) ''version'') (\<lambda>version.
    case version of
      None \<Rightarrow> failT (report_new JournalSchemaMismatch [])
    | Some schema_version \<Rightarrow>
        bindT (checkT (validate_schema_version schema_version)) (\<lambda>_.
        bindT (open_table R journal_report (SESSION R F)) (\<lambda>_.
        bindT (callT journal_report (rd_get R (tb_name (SESSION R F)) (tb_key (SESSION R F) ''current''))) (\<lambda>session_bytes.
        bindT (open_table R journal_report (VM_RECORDS R F)) (\<lambda>_.
        case session_bytes of
          None \<Rightarrow> failT journal_report
        | Some bytes \<Rightarrow>
            (case fm_session_dec F bytes of
               None \<Rightarrow> failT journal_report
             | Some session \<Rightarrow> returnT session)))))))"

definition check_session :: "forms \<Rightarrow> session_record \<Rightarrow> report + session_record" where
  "check_session F session =
    bindR (validate_schema_version (se_schema_version session)) (\<lambda>_.
    let expected_owner = owner_for F (se_session_id session) in
    if se_owner session = [] then Ok (session\<lparr>se_owner := expected_owner\<rparr>)
    else if se_owner session \<noteq> expected_owner then Err journal_report
    else Ok session)"

definition read_existing_session :: "('db, 'tx) redb \<Rightarrow> forms \<Rightarrow> ('db, report fault, session_record) prog" where
  "read_existing_session R F =
    bindP (journal_read R (read_session_tx R F)) (\<lambda>session. liftR (check_session F session))"

definition try_open_existing :: "('db, 'tx) redb \<Rightarrow> forms \<Rightarrow> ('db, report fault, session_record option) prog" where
  "try_open_existing R F db =
    (case rd_open R db of
       (Inl DatabaseAlreadyOpen, db) \<Rightarrow> (Ok None, db)
     | (Inl _, db) \<Rightarrow> (Err (Fail journal_report), db)
     | (Inr _, db) \<Rightarrow> bindP (read_existing_session R F) (\<lambda>session. returnP (Some session)) db)"

definition journal_owner :: "forms \<Rightarrow> session_record \<Rightarrow> string" where
  "journal_owner F session = (if se_owner session = [] then owner_for F (se_session_id session) else se_owner session)"

datatype session_lock_state = Locked | Recoverable | Corrupt string

definition probe_session_lock :: "('db, 'tx) redb \<Rightarrow> forms \<Rightarrow> ('db, report fault, session_lock_state) prog" where
  "probe_session_lock R F =
    bindP (tryP (try_open_existing R F)) (\<lambda>outcome.
    case outcome of
      Inr (Some _) \<Rightarrow> returnP Recoverable
    | Inr None \<Rightarrow> returnP Locked
    | Inl (Fail error) \<Rightarrow> returnP (Corrupt (hcs_message (rp_context error)))
    | Inl Panic \<Rightarrow> failP Panic)"

section \<open>The journal as typed maps\<close>

record jstate =
  js_session :: "string \<rightharpoonup> session_record"
  js_vms :: "uuid \<rightharpoonup> vm_record"
  js_abandoned :: "uuid \<rightharpoonup> abandoned_record"

definition wf_vm :: "vm_record \<Rightarrow> bool" where
  "wf_vm r \<longleftrightarrow> vr_schema_version r = JOURNAL_SCHEMA_VERSION"

definition wf_abandoned :: "abandoned_record \<Rightarrow> bool" where
  "wf_abandoned r \<longleftrightarrow> ar_schema_version r = JOURNAL_SCHEMA_VERSION"

definition journal_rel :: "('db, 'tx) redb \<Rightarrow> forms \<Rightarrow> tables \<Rightarrow> jstate \<Rightarrow> bool" where
  "journal_rel R F v js \<longleftrightarrow>
    holds_table v (SESSION R F) (\<lambda>_. True) (\<lambda>_. True) (js_session js)
    \<and> holds_table v (VM_RECORDS R F) wf_uuid wf_vm (js_vms js)
    \<and> holds_table v (ABANDONED R F) wf_uuid wf_abandoned (js_abandoned js)
    \<and> (\<exists>m. v ''journal_schema'' = Some m
           \<and> m (rd_str_key R ''version'') = Some (rd_u32_enc R JOURNAL_SCHEMA_VERSION))"

lemmas journal_tables = SESSION_def VM_RECORDS_def ABANDONED_def JOURNAL_SCHEMA_def

definition journal_env :: "('db, 'tx) redb \<Rightarrow> forms \<Rightarrow> bool" where
  "journal_env R F \<longleftrightarrow> redb_ok R \<and> forms_ok F"

lemma journal_envD:
  assumes "journal_env R F"
  shows "redb_ok R" "rd_str_key R s = rd_str_key R t \<Longrightarrow> s = t"
    "wf_uuid u \<Longrightarrow> wf_uuid w \<Longrightarrow> fm_uuid F u = fm_uuid F w \<Longrightarrow> u = w"
    "rd_u32_dec R (rd_u32_enc R n) = Some n"
    "\<exists>b. fm_session_enc F se = Some b \<and> fm_session_dec F b = Some se"
    "\<exists>b. fm_vm_enc F vm = Some b \<and> fm_vm_dec F b = Some vm"
    "\<exists>b. fm_abandoned_enc F ab = Some b \<and> fm_abandoned_dec F b = Some ab"
  using assms by (simp_all add: journal_env_def redb_ok_def forms_ok_def)

lemma stored_session:
  assumes "journal_env R F"
  shows "stored_table (SESSION R F) (\<lambda>_. True) (\<lambda>_. True) (journal_rel R F) js_session (\<lambda>m. js_session_update (\<lambda>_. m))"
  by unfold_locales
    (auto simp: journal_rel_def holds_table_def journal_tables journal_envD [OF assms] dest: journal_envD(2) [OF assms])

lemma stored_vms:
  assumes "journal_env R F"
  shows "stored_table (VM_RECORDS R F) wf_uuid wf_vm (journal_rel R F) js_vms (\<lambda>m. js_vms_update (\<lambda>_. m))"
  by unfold_locales
    (auto simp: journal_rel_def holds_table_def journal_tables journal_envD(5-) [OF assms]
      dest: journal_envD(2) [OF assms] journal_envD(3) [OF assms, rotated 2])

lemma stored_abandoned:
  assumes "journal_env R F"
  shows "stored_table (ABANDONED R F) wf_uuid wf_abandoned (journal_rel R F) js_abandoned (\<lambda>m. js_abandoned_update (\<lambda>_. m))"
  by unfold_locales
    (auto simp: journal_rel_def holds_table_def journal_tables journal_envD(5-) [OF assms]
      dest: journal_envD(2) [OF assms] journal_envD(3) [OF assms, rotated 2])

text \<open>Reading and writing JSON on a table that holds a typed map.\<close>

lemma json_get_table_get:
  "json_get R T k tx =
    (case table_get R journal_report T k tx of
       (Inl Panic, tx) \<Rightarrow> (Err (Fail journal_report), tx) | r \<Rightarrow> r)"
  by (auto simp: json_get_def table_get_def bindT_def callT_def decodeT_def failT_def returnT_def
      split: prod.splits sum.splits option.splits)

lemma json_get_runs:
  assumes "tx_runs R rel journal_report (table_get R journal_report T k) s (Ok x) s'"
  shows "tx_runs R rel journal_report (json_get R T k) s (Ok x) s'"
  unfolding tx_runs_def
proof (intro allI impI)
  fix tx r tx' assume s: "rel (rd_view R tx) s" and run: "json_get R T k tx = (r, tx')"
  obtain q tx1 where q: "table_get R journal_report T k tx = (q, tx1)" by fastforce
  from tx_runsD [OF assms s q] run q
  show "rd_base R tx' = rd_base R tx \<and> (r = Err (Fail journal_report) \<or> r = Ok x \<and> rel (rd_view R tx') s')"
    by (auto simp: json_get_table_get)
qed

lemma json_insert_runs:
  assumes "tx_runs R rel journal_report (table_insert R journal_report T k x) s (Ok ()) s'" "tb_enc T x = Some bytes"
  shows "tx_runs R rel journal_report (json_insert R T k bytes) s (Ok ()) s'"
proof -
  have "table_insert R journal_report T k x = json_insert R T k bytes"
    using assms(2) by (simp add: fun_eq_iff table_insert_def json_insert_def bindT_def encodeT_def)
  with assms(1) show ?thesis by simp
qed

lemma check_ok: "wf_vm r \<Longrightarrow> validate_schema_version (vr_schema_version r) = Ok ()"
  "wf_abandoned a \<Longrightarrow> validate_schema_version (ar_schema_version a) = Ok ()"
  by (simp_all add: validate_schema_version_def wf_vm_def wf_abandoned_def)

lemma check_bind: "bindT (checkT (Ok a)) f = f a"
  by (simp add: checkT_def fun_eq_iff bindT_def returnT_def)

lemma journal_rel_wf:
  "journal_rel R F v js \<Longrightarrow> js_vms js u = Some r \<Longrightarrow> wf_uuid u \<and> wf_vm r"
  "journal_rel R F v js \<Longrightarrow> js_abandoned js u = Some a \<Longrightarrow> wf_uuid u \<and> wf_abandoned a"
  by (auto simp: journal_rel_def dest: holds_table_wf)

text \<open>A run from a state may use what the relation says of the state.\<close>

lemma tx_runs_assume:
  "(\<And>v. rel v s \<Longrightarrow> tx_runs R rel e m s r s') \<Longrightarrow> tx_runs R rel e m s r s'"
  unfolding tx_runs_def by blast

section \<open>The operations on typed maps\<close>

lemma update_vm_runs:
  assumes env: "journal_env R F" and r: "js_vms js u = Some r" "wf_vm (f r)"
  shows "db_runs R (journal_rel R F) journal_report (update_vm R F u f) js (Ok ()) (js\<lparr>js_vms := (js_vms js)(u \<mapsto> f r)\<rparr>)"
proof -
  note t = stored_vms [OF env] and R = journal_envD(1) [OF env]
  obtain bytes where bytes: "fm_vm_enc F (f r) = Some bytes" using journal_envD(6) [OF env] by blast
  have "tx_runs R (journal_rel R F) journal_report (update_vm_tx R F u f) js (Ok ()) (js\<lparr>js_vms := (js_vms js)(u \<mapsto> f r)\<rparr>)"
  proof (rule tx_runs_assume)
    fix v assume "journal_rel R F v js"
    from journal_rel_wf(1) [OF this r(1)] have u: "wf_uuid u" and w: "wf_vm r" by simp_all
    have 1: "tx_runs R (journal_rel R F) journal_report (json_get R (VM_RECORDS R F) u) js (Ok (Some r)) js"
      using json_get_runs [OF stored_table.run_get [OF t R u], of js] r(1) by simp
    have 2: "tx_runs R (journal_rel R F) journal_report (json_insert R (VM_RECORDS R F) u bytes) js (Ok ())
        (js\<lparr>js_vms := (js_vms js)(u \<mapsto> f r)\<rparr>)"
      by (rule json_insert_runs [OF stored_table.run_insert [OF t R u r(2)]]) (simp add: VM_RECORDS_def bytes)
    show "tx_runs R (journal_rel R F) journal_report (update_vm_tx R F u f) js (Ok ()) (js\<lparr>js_vms := (js_vms js)(u \<mapsto> f r)\<rparr>)"
      unfolding update_vm_tx_def
      by (rule stored_table.run_open [OF t R, THEN tx_runs_bind], rule tx_runs_bind [OF 1])
        (simp add: check_ok(1) [OF w] check_bind bytes 2)
  qed
  then show ?thesis unfolding update_vm_def journal_write_def by (rule write_tx_runs [OF R]) simp
qed

lemma update_vm_missing:
  assumes env: "journal_env R F" and u: "wf_uuid u" "js_vms js u = None"
  shows "db_runs R (journal_rel R F) journal_report (update_vm R F u f) js (Err (Fail journal_report)) js"
proof -
  note t = stored_vms [OF env] and R = journal_envD(1) [OF env]
  have "tx_runs R (journal_rel R F) journal_report (json_get R (VM_RECORDS R F) u) js (Ok None) js"
    using json_get_runs [OF stored_table.run_get [OF t R u(1)], of js] u(2) by simp
  then have "tx_runs R (journal_rel R F) journal_report (update_vm_tx R F u f) js (Err (Fail journal_report)) js"
    unfolding update_vm_tx_def
    by (intro stored_table.run_open [OF t R, THEN tx_runs_bind]) (erule tx_runs_bind, simp add: tx_runs_fail)
  then show ?thesis unfolding update_vm_def journal_write_def by (rule write_tx_runs [OF R]) simp
qed

lemma put_vm_runs:
  assumes env: "journal_env R F" and r: "wf_vm r" "wf_uuid (vr_vm_id r)"
  shows "db_runs R (journal_rel R F) journal_report (put_vm R F r) js (Ok ()) (js\<lparr>js_vms := (js_vms js)(vr_vm_id r \<mapsto> r)\<rparr>)"
proof -
  note t = stored_vms [OF env] and R = journal_envD(1) [OF env]
  obtain bytes where bytes: "fm_vm_enc F r = Some bytes" using journal_envD(6) [OF env] by blast
  have 1: "put_vm R F r = journal_write R (bindT (open_table R journal_report (VM_RECORDS R F)) (\<lambda>_.
      json_insert R (VM_RECORDS R F) (vr_vm_id r) bytes))"
    by (simp add: put_vm_def fun_eq_iff bindP_def liftR_def check_ok(1) [OF r(1)] json_encode_def bytes returnP_def)
  have 2: "tx_runs R (journal_rel R F) journal_report (json_insert R (VM_RECORDS R F) (vr_vm_id r) bytes) js (Ok ())
      (js\<lparr>js_vms := (js_vms js)(vr_vm_id r \<mapsto> r)\<rparr>)"
    by (rule json_insert_runs [OF stored_table.run_insert [OF t R r(2,1)]]) (simp add: VM_RECORDS_def bytes)
  show ?thesis
    unfolding 1 journal_write_def
    by (rule write_tx_runs [OF R]) (rule tx_runs_bind [OF stored_table.run_open [OF t R] 2], simp)
qed

lemma journal_vm_runs:
  assumes env: "journal_env R F" and u: "wf_uuid u"
  shows "db_runs R (journal_rel R F) journal_report (journal_vm R F u) js (Ok (js_vms js u)) js"
proof -
  note t = stored_vms [OF env] and R = journal_envD(1) [OF env]
  have 1: "tx_runs R (journal_rel R F) journal_report (json_get R (VM_RECORDS R F) u) js (Ok (js_vms js u)) js"
    by (rule json_get_runs [OF stored_table.run_get [OF t R u]])
  have "tx_runs R (journal_rel R F) journal_report (bindT (json_get R (VM_RECORDS R F) u) (\<lambda>v.
       case v of
         None \<Rightarrow> returnT None
       | Some r \<Rightarrow> bindT (checkT (validate_schema_version (vr_schema_version r))) (\<lambda>_. returnT (Some r))))
       js (Ok (js_vms js u)) js"
  proof (rule tx_runs_assume, rule tx_runs_bind [OF 1])
    fix v assume v: "journal_rel R F v js"
    show "tx_runs R (journal_rel R F) journal_report (case js_vms js u of
         None \<Rightarrow> returnT None
       | Some r \<Rightarrow> bindT (checkT (validate_schema_version (vr_schema_version r))) (\<lambda>_. returnT (Some r)))
       js (Ok (js_vms js u)) js"
      using journal_rel_wf(1) [OF v, of u]
      by (auto simp: tx_runs_return check_ok check_bind split: option.splits)
  qed
  then show ?thesis
    unfolding journal_vm_def journal_read_def
    by (intro read_tx_runs R stored_table.run_open [OF t R, THEN tx_runs_bind])
qed

lemma remove_vm_runs:
  assumes env: "journal_env R F" and u: "wf_uuid u"
  shows "db_runs R (journal_rel R F) journal_report (remove_vm R F u) js (Ok ()) (js\<lparr>js_vms := (js_vms js)(u := None)\<rparr>)"
proof -
  note t = stored_vms [OF env] and R = journal_envD(1) [OF env]
  show ?thesis
    unfolding remove_vm_def journal_write_def
    by (rule write_tx_runs [OF R])
      (rule tx_runs_bind [OF stored_table.run_open [OF t R] stored_table.run_remove [OF t R u]], simp)
qed

text \<open>The inventory.\<close>

lemma read_inventory_runs:
  assumes env: "journal_env R F" and m: "tx_runs R (journal_rel R F) journal_report m js r js"
  shows "tx_runs R (journal_rel R F) journal_report (read_inventory R F missing m) js r js"
  unfolding tx_runs_def
proof (intro allI impI)
  fix tx q tx'
  assume v: "journal_rel R F (rd_view R tx) js" and run: "read_inventory R F missing m tx = (q, tx')"
  note R = journal_envD(1) [OF env]
  let ?T = "ABANDONED R F"
  obtain o1 tx1 where o1: "rd_open_table R (tb_name ?T) tx = (o1, tx1)" by fastforce
  obtain raw where "rd_view R tx (tb_name ?T) = Some raw"
    using v by (auto simp: journal_rel_def holds_table_def)
  then have c: "rd_base R tx1 = rd_base R tx" "o1 = Ok () \<Longrightarrow> rd_view R tx1 = rd_view R tx" "o1 \<noteq> Err TableDoesNotExist"
    using tx_callD [OF redb_tx_call(1) [OF R] o1] by auto
  show "rd_base R tx' = rd_base R tx \<and> (q = Err (Fail journal_report) \<or> q = r \<and> journal_rel R F (rd_view R tx') js)"
  proof (cases o1)
    case (Inl e)
    then have "read_inventory R F missing m tx = (Err (Fail journal_report), tx1)"
      using c(3) o1 by (cases e) (auto simp: read_inventory_def)
    with run c(1) show ?thesis by simp
  next
    case (Inr u)
    then have "m tx1 = (q, tx')" using run o1 by (simp add: read_inventory_def)
    from tx_runsD [OF m _ this] c Inr v show ?thesis by simp
  qed
qed

lemma abandoned_runs:
  assumes env: "journal_env R F" and u: "wf_uuid u"
  shows "db_runs R (journal_rel R F) journal_report (abandoned R F u) js (Ok (js_abandoned js u)) js"
proof -
  note t = stored_abandoned [OF env] and R = journal_envD(1) [OF env]
  have 1: "tx_runs R (journal_rel R F) journal_report (json_get R (ABANDONED R F) u) js (Ok (js_abandoned js u)) js"
    by (rule json_get_runs [OF stored_table.run_get [OF t R u]])
  have "tx_runs R (journal_rel R F) journal_report (bindT (json_get R (ABANDONED R F) u) (\<lambda>v.
       case v of
         None \<Rightarrow> returnT None
       | Some r \<Rightarrow> bindT (checkT (validate_schema_version (ar_schema_version r))) (\<lambda>_. returnT (Some r))))
       js (Ok (js_abandoned js u)) js"
  proof (rule tx_runs_assume, rule tx_runs_bind [OF 1])
    fix v assume v: "journal_rel R F v js"
    show "tx_runs R (journal_rel R F) journal_report (case js_abandoned js u of
         None \<Rightarrow> returnT None
       | Some r \<Rightarrow> bindT (checkT (validate_schema_version (ar_schema_version r))) (\<lambda>_. returnT (Some r)))
       js (Ok (js_abandoned js u)) js"
      using journal_rel_wf(2) [OF v, of u]
      by (auto simp: tx_runs_return check_ok check_bind split: option.splits)
  qed
  then show ?thesis
    unfolding abandoned_def journal_read_def by (intro read_tx_runs R read_inventory_runs env)
qed

lemma db_runs_bind_read:
  assumes m: "db_runs R rel e m s (Ok a) s" and f: "db_runs R rel e (f a) s r s'"
  shows "db_runs R rel e (bindP m f) s r s'"
  unfolding db_runs_def
proof (intro allI impI)
  fix db q db' assume s: "rel (rd_tables R db) s" and run: "bindP m f db = (q, db')"
  obtain q1 db1 where m1: "m db = (q1, db1)" by fastforce
  from db_runsD [OF m s m1] have s1: "rel (rd_tables R db1) s" and q1: "q1 = Ok a \<or> q1 = Err (Fail e)" by auto
  from q1 show "q = r \<and> rel (rd_tables R db') s' \<or> q = Err (Fail e) \<and> (rel (rd_tables R db') s \<or> rel (rd_tables R db') s')"
  proof
    assume "q1 = Ok a"
    with run m1 have "f a db1 = (q, db')" by (simp add: bindP_def)
    from db_runsD [OF f s1 this] show ?thesis .
  next
    assume "q1 = Err (Fail e)"
    with run m1 s1 show ?thesis by (auto simp: bindP_def)
  qed
qed

lemma put_abandoned_runs:
  fixes js :: jstate
  assumes env: "journal_env R F" and r: "wf_abandoned r" "wf_uuid (ar_vm_id r)"
  defines "entries \<equiv> merge_entries (case js_abandoned js (ar_vm_id r) of Some p \<Rightarrow> ar_entries p | None \<Rightarrow> []) (ar_entries r)"
  shows "db_runs R (journal_rel R F) journal_report (put_abandoned R F r) js (Ok ())
    (js\<lparr>js_abandoned := (js_abandoned js)(ar_vm_id r \<mapsto> r\<lparr>ar_entries := entries\<rparr>)\<rparr>)"
proof -
  note t = stored_abandoned [OF env] and R = journal_envD(1) [OF env]
  let ?r = "r\<lparr>ar_entries := entries\<rparr>"
  obtain bytes where bytes: "fm_abandoned_enc F ?r = Some bytes" using journal_envD(7) [OF env] by blast
  have w: "wf_abandoned ?r" using r(1) by (simp add: wf_abandoned_def)
  have 1: "tx_runs R (journal_rel R F) journal_report (json_insert R (ABANDONED R F) (ar_vm_id r) bytes) js (Ok ())
      (js\<lparr>js_abandoned := (js_abandoned js)(ar_vm_id r \<mapsto> ?r)\<rparr>)"
    by (rule json_insert_runs [OF stored_table.run_insert [OF t R r(2) w]]) (simp add: ABANDONED_def bytes)
  have 2: "db_runs R (journal_rel R F) journal_report (journal_write R (bindT (open_table R journal_report (ABANDONED R F))
      (\<lambda>_. json_insert R (ABANDONED R F) (ar_vm_id r) bytes))) js (Ok ())
      (js\<lparr>js_abandoned := (js_abandoned js)(ar_vm_id r \<mapsto> ?r)\<rparr>)"
    unfolding journal_write_def by (rule write_tx_runs [OF R]) (rule tx_runs_bind [OF stored_table.run_open [OF t R] 1], simp)
  have 3: "put_abandoned R F r = bindP (abandoned R F (ar_vm_id r)) (\<lambda>previous.
    let entries = merge_entries (case previous of Some p \<Rightarrow> ar_entries p | None \<Rightarrow> []) (ar_entries r) in
    bindP (json_encode (fm_abandoned_enc F (r\<lparr>ar_entries := entries\<rparr>))) (\<lambda>bytes.
    journal_write R
      (bindT (open_table R journal_report (ABANDONED R F)) (\<lambda>_.
       json_insert R (ABANDONED R F) (ar_vm_id r) bytes))))"
    by (simp add: put_abandoned_def fun_eq_iff bindP_def liftR_def check_ok(2) [OF r(1)] returnP_def)
  have 4: "bindP (json_encode (Some bytes)) f = f bytes" for f :: "byte list \<Rightarrow> ('a, report fault, unit) prog"
    by (simp add: fun_eq_iff bindP_def json_encode_def returnP_def)
  show ?thesis
    unfolding 3 by (rule db_runs_bind_read [OF abandoned_runs [OF env r(2)]]) (simp add: bytes 4 2 flip: entries_def)
qed

lemma remove_abandoned_runs:
  assumes env: "journal_env R F" and u: "wf_uuid u"
  shows "db_runs R (journal_rel R F) journal_report (remove_abandoned R F u) js (Ok ())
    (js\<lparr>js_abandoned := (js_abandoned js)(u := None)\<rparr>)"
proof -
  note t = stored_abandoned [OF env] and R = journal_envD(1) [OF env]
  show ?thesis
    unfolding remove_abandoned_def journal_write_def
    by (rule write_tx_runs [OF R])
      (rule tx_runs_bind [OF stored_table.run_open [OF t R] stored_table.run_remove [OF t R u]], simp)
qed

lemma has_abandoned_runs:
  assumes env: "journal_env R F"
  shows "db_runs R (journal_rel R F) journal_report (has_abandoned R F) js (Ok (js_abandoned js \<noteq> Map.empty)) js"
  unfolding has_abandoned_def journal_read_def
  by (intro read_tx_runs journal_envD(1) [OF env] read_inventory_runs env stored_table.run_nonempty [OF stored_abandoned [OF env]])

text \<open>Reading every record.\<close>

lemma decode_vms_ok:
  assumes "\<And>b. b \<in> set values \<Longrightarrow> \<exists>r. fm_vm_dec F b = Some r \<and> wf_vm r"
  shows "decode_vms F values = Ok (map (\<lambda>b. the (fm_vm_dec F b)) values)"
  using assms
proof (induction "values")
  case (Cons b bs)
  from Cons.prems [of b] obtain r where "fm_vm_dec F b = Some r" "wf_vm r" by auto
  with Cons show ?case by (simp add: check_ok)
qed simp

lemma decode_rows:
  assumes env: "journal_env R F" and raw: "table_rel (VM_RECORDS R F) wf_uuid wf_vm raw vms" and rows: "is_rows raw rows"
  shows "\<exists>rs. decode_vms F (map snd rows) = Ok rs \<and> set rs = ran vms"
proof -
  have codec: "\<exists>b. tb_enc (VM_RECORDS R F) x = Some b \<and> tb_dec (VM_RECORDS R F) b = Some x" for x
    using journal_envD(6) [OF env] by (simp add: VM_RECORDS_def)
  note d = rows_decode [OF raw rows codec]
  have "decode_vms F (map snd rows) = Ok (map (\<lambda>b. the (fm_vm_dec F b)) (map snd rows))"
    by (rule decode_vms_ok) (use d(1) in \<open>simp add: VM_RECORDS_def\<close>)
  then show ?thesis using d(2) by (auto simp: VM_RECORDS_def)
qed

lemma all_vms_runs:
  assumes env: "journal_env R F" and js: "journal_rel R F (rd_tables R db) js" and run: "all_vms R F db = (q, db')"
  shows "journal_rel R F (rd_tables R db') js \<and> (q = Err (Fail journal_report) \<or> (\<exists>rs. q = Ok rs \<and> set rs = ran (js_vms js)))"
proof (cases "rd_begin_read R db")
  case (Inl db1)
  with run js redb_begin(2) [OF journal_envD(1) [OF env] Inl] show ?thesis
    by (auto simp: all_vms_def journal_read_def read_tx_def)
next
  case (Inr tx)
  note R = journal_envD(1) [OF env]
  let ?T = "VM_RECORDS R F"
  have v: "rd_base R tx = rd_tables R db" "rd_view R tx = rd_tables R db" using redb_begin(4) [OF R Inr] by simp_all
  obtain raw where raw: "rd_tables R db (tb_name ?T) = Some raw" "table_rel ?T wf_uuid wf_vm raw (js_vms js)"
    using js by (auto simp: journal_rel_def holds_table_def)
  obtain o1 tx1 where o1: "rd_open_table R (tb_name ?T) tx = (o1, tx1)" by fastforce
  obtain it tx2 where it: "rd_iter R (tb_name ?T) tx1 = (it, tx2)" by fastforce
  have c1: "rd_base R tx1 = rd_tables R db" "o1 = Ok () \<Longrightarrow> rd_view R tx1 = rd_tables R db"
    using tx_callD [OF redb_tx_call(1) [OF R] o1] v raw(1) by auto
  have c2: "rd_base R tx2 = rd_base R tx1" "it = Ok rows \<Longrightarrow> rd_view R tx1 (tb_name ?T) = Some m \<Longrightarrow> is_rows m rows" for rows m
    using tx_callD [OF redb_tx_call(5) [OF R] it] by auto
  show ?thesis
  proof (cases o1)
    case Inl
    with run \<open>rd_begin_read R db = Inr tx\<close> o1 c1 js show ?thesis
      by (auto simp: all_vms_def journal_read_def read_tx_def bindT_def open_table_def callT_def redb_end(4) [OF R])
  next
    case o1_ok: (Inr u)
    show ?thesis
    proof (cases it)
      case Inl
      with run \<open>rd_begin_read R db = Inr tx\<close> o1 o1_ok it c1 c2(1) js show ?thesis
        by (auto simp: all_vms_def journal_read_def read_tx_def bindT_def open_table_def callT_def redb_end(4) [OF R])
    next
      case (Inr rows)
      from decode_rows [OF env raw(2) c2(2) [OF Inr]] c1(2) o1_ok raw(1)
      obtain rs where rs: "decode_vms F (map snd rows) = Ok rs" "set rs = ran (js_vms js)" by auto
      with run \<open>rd_begin_read R db = Inr tx\<close> o1 o1_ok it Inr c1 c2(1) js show ?thesis
        by (auto simp: all_vms_def journal_read_def read_tx_def bindT_def open_table_def callT_def checkT_def
            returnT_def redb_end(4) [OF R])
    qed
  qed
qed

section \<open>Opening a session\<close>

text \<open>Calls on tables that are known exactly.\<close>

lemma exact_open:
  assumes "redb_ok R"
  shows "tx_runs R (=) e (open_table R e T) K (Ok ())
    (K(tb_name T := Some (case K (tb_name T) of None \<Rightarrow> Map.empty | Some m \<Rightarrow> m)))"
  unfolding open_table_def
  by (rule call_runs, drule tx_callD [OF redb_tx_call(1) [OF assms]])
    (auto simp: fun_eq_iff split: option.splits if_splits)

lemma exact_get:
  assumes "redb_ok R" "K (tb_name T) = Some m"
  shows "tx_runs R (=) e (callT e (rd_get R (tb_name T) (tb_key T k))) K (Ok (m (tb_key T k))) K"
  by (rule call_runs, drule tx_callD [OF redb_tx_call(2) [OF assms(1)]]) (use assms(2) in auto)

lemma exact_insert:
  assumes "redb_ok R" "K (tb_name T) = Some m"
  shows "tx_runs R (=) e (callT e (rd_insert R (tb_name T) (tb_key T k) bytes)) K (Ok ())
    (K(tb_name T \<mapsto> m(tb_key T k \<mapsto> bytes)))"
  by (rule call_runs, drule tx_callD [OF redb_tx_call(3) [OF assms(1)]]) (use assms(2) in auto)

lemma exact_table_get:
  assumes "redb_ok R" "K (tb_name T) = Some m" "m (tb_key T k) = None"
  shows "tx_runs R (=) e (table_get R e T k) K (Ok None) K"
  unfolding table_get_def
  by (rule tx_runs_bind [OF exact_get [of R K, OF assms(1,2)]]) (simp add: assms(3) decodeT_def tx_runs_def)

lemma exact_table_insert:
  assumes "redb_ok R" "K (tb_name T) = Some m" "tb_enc T x = Some bytes"
  shows "tx_runs R (=) e (table_insert R e T k x) K (Ok ()) (K(tb_name T \<mapsto> m(tb_key T k \<mapsto> bytes)))"
proof -
  have "table_insert R e T k x = callT e (rd_insert R (tb_name T) (tb_key T k) bytes)"
    using assms(3) by (simp add: fun_eq_iff table_insert_def bindT_def encodeT_def)
  with exact_insert [of R K, OF assms(1,2)] show ?thesis by simp
qed

text \<open>The tables of a new session.\<close>

definition new_tables :: "('db, 'tx) redb \<Rightarrow> tables" where
  "new_tables R = [''journal_schema'' \<mapsto> [rd_str_key R ''version'' \<mapsto> rd_u32_enc R JOURNAL_SCHEMA_VERSION],
     ''session'' \<mapsto> Map.empty, ''vm_records'' \<mapsto> Map.empty, ''abandoned'' \<mapsto> Map.empty]"

lemma initialize_new:
  assumes R: "redb_ok R"
  shows "tx_runs R (=) journal_report (initialize_database_tx R F) Map.empty (Ok ()) (new_tables R)"
proof -
  let ?K1 = "[''journal_schema'' \<mapsto> Map.empty :: byte list \<rightharpoonup> byte list]"
  let ?K2 = "[''journal_schema'' \<mapsto> [rd_str_key R ''version'' \<mapsto> rd_u32_enc R JOURNAL_SCHEMA_VERSION]]"
  have 1: "tx_runs R (=) journal_report (open_table R journal_report (JOURNAL_SCHEMA R)) Map.empty (Ok ()) ?K1"
    using exact_open [OF R, of journal_report "JOURNAL_SCHEMA R" Map.empty] by (simp add: JOURNAL_SCHEMA_def)
  have 2: "tx_runs R (=) journal_report (table_get R journal_report (JOURNAL_SCHEMA R) ''version'') ?K1 (Ok None) ?K1"
    by (rule exact_table_get [OF R]) (simp_all add: JOURNAL_SCHEMA_def)
  have 3: "tx_runs R (=) journal_report (table_insert R journal_report (JOURNAL_SCHEMA R) ''version'' JOURNAL_SCHEMA_VERSION)
      ?K1 (Ok ()) ?K2"
    using exact_table_insert [OF R, of ?K1 "JOURNAL_SCHEMA R" Map.empty JOURNAL_SCHEMA_VERSION
      "rd_u32_enc R JOURNAL_SCHEMA_VERSION" journal_report "''version''"]
    by (simp add: JOURNAL_SCHEMA_def)
  have 4: "tx_runs R (=) journal_report (bindT (open_table R journal_report (SESSION R F)) (\<lambda>_.
      bindT (open_table R journal_report (VM_RECORDS R F)) (\<lambda>_. open_table R journal_report (ABANDONED R F)))) ?K2 (Ok ()) (new_tables R)"
    by (rule tx_runs_eq, rule tx_runs_bind [OF exact_open [OF R]], rule tx_runs_bind [OF exact_open [OF R]], rule exact_open [OF R])
      (simp_all add: new_tables_def journal_tables)
  show ?thesis
    unfolding initialize_database_tx_def
    by (rule tx_runs_bind [OF 1], rule tx_runs_bind [OF 2]) (simp add: tx_runs_bind [OF 3] 4)
qed

definition new_session :: "session_record \<Rightarrow> jstate" where
  "new_session se = \<lparr>js_session = [''current'' \<mapsto> se], js_vms = Map.empty, js_abandoned = Map.empty\<rparr>"

lemma new_tables_rel:
  assumes env: "journal_env R F" and "fm_session_enc F se = Some bytes"
  shows "journal_rel R F ((new_tables R)(''session'' \<mapsto> [rd_str_key R ''current'' \<mapsto> bytes])) (new_session se)"
proof -
  have "table_rel (SESSION R F) (\<lambda>_. True) (\<lambda>_. True) [rd_str_key R ''current'' \<mapsto> bytes] [''current'' \<mapsto> se]"
    using assms(2) by (auto simp: table_rel_def SESSION_def)
  then show ?thesis
    by (auto simp: journal_rel_def new_session_def holds_table_def journal_tables new_tables_def table_rel_def)
qed

lemma create_current_new:
  assumes env: "journal_env R F" and new: "rd_tables R db = Map.empty"
    and run: "create_current R F prepared session_id process_id now db = (Ok se, db')"
  shows "journal_rel R F (rd_tables R db') (new_session se)"
    "se_session_id se = session_id" "check_session F se = Ok se"
proof -
  note R = journal_envD(1) [OF env]
  obtain sid db1 where p: "prepared = Ok sid" and c: "rd_create R db = (Ok (), db1)"
    using run by (auto simp: create_current_def bindP_def liftR_def failP_def returnP_def split: sum.splits prod.splits)
  define s0 where "s0 = \<lparr>se_schema_version = JOURNAL_SCHEMA_VERSION, se_session_id = session_id,
                   se_owner = owner_for F session_id, se_owner_sid = sid,
                   se_process_id = process_id, se_created_at_unix_ms = now\<rparr>"
  obtain bytes where bytes: "fm_session_enc F s0 = Some bytes" using journal_envD(5) [OF env] by blast
  let ?m = "journal_write R (bindT (open_table R journal_report (SESSION R F)) (\<lambda>_. json_insert R (SESSION R F) ''current'' bytes))"
  obtain i db2 where i: "initialize_database R F db1 = (i, db2)" by fastforce
  obtain w db3 where w: "?m db2 = (w, db3)" by fastforce
  have run2: "(case i of Inl e \<Rightarrow> (Inl e, db2) | Inr _ \<Rightarrow> (case w of Inl e \<Rightarrow> (Inl e, db3) | Inr _ \<Rightarrow> (Ok s0, db3))) = (Ok se, db')"
    using run p c i w bytes
    by (simp add: create_current_def bindP_def liftR_def returnP_def json_encode_def split: sum.splits flip: s0_def)
  then have ok: "i = Ok ()" "w = Ok ()" and se: "se = s0" "db' = db3" by (auto split: sum.splits)
  have "db_runs R (=) journal_report (initialize_database R F) Map.empty (Ok ()) (new_tables R)"
    unfolding initialize_database_def journal_write_def by (rule write_tx_runs [OF R initialize_new [OF R]]) simp
  from db_runsD [OF this _ i] redb_end(5) [OF R c] new ok have t2: "rd_tables R db2 = new_tables R" by simp
  have "tx_runs R (=) journal_report (bindT (open_table R journal_report (SESSION R F)) (\<lambda>_. json_insert R (SESSION R F) ''current'' bytes))
      (new_tables R) (Ok ()) ((new_tables R)(''session'' \<mapsto> [rd_str_key R ''current'' \<mapsto> bytes]))"
    unfolding json_insert_def
    by (rule tx_runs_eq, rule tx_runs_bind [OF exact_open [OF R]], rule exact_insert [OF R])
      (auto simp: SESSION_def new_tables_def fun_eq_iff)
  then have "db_runs R (=) journal_report ?m (new_tables R) (Ok ()) ((new_tables R)(''session'' \<mapsto> [rd_str_key R ''current'' \<mapsto> bytes]))"
    unfolding journal_write_def by (rule write_tx_runs [OF R]) simp
  from db_runsD [OF this _ w] t2 ok have "rd_tables R db3 = (new_tables R)(''session'' \<mapsto> [rd_str_key R ''current'' \<mapsto> bytes])" by simp
  with new_tables_rel [OF env bytes] se show "journal_rel R F (rd_tables R db') (new_session se)" by simp
  show "se_session_id se = session_id" "check_session F se = Ok se"
    by (simp_all add: se s0_def check_session_def validate_schema_version_def owner_for_def)
qed

text \<open>Opening the session of another process.\<close>

lemma read_session_runs:
  assumes env: "journal_env R F"
  defines "found \<equiv> \<lambda>js :: jstate. case js_session js ''current'' of None \<Rightarrow> Err (Fail journal_report) | Some se \<Rightarrow> Ok se"
  shows "db_runs R (journal_rel R F) journal_report (journal_read R (read_session_tx R F)) js (found js) js"
proof -
  note R = journal_envD(1) [OF env]
  have 1: "tx_runs R (journal_rel R F) journal_report (open_table R journal_report (JOURNAL_SCHEMA R)) js (Ok ()) js"
    unfolding open_table_def
    by (rule call_runs, drule tx_callD [OF redb_tx_call(1) [OF R]]) (auto simp: journal_rel_def JOURNAL_SCHEMA_def)
  have "tx_runs R (journal_rel R F) journal_report (callT journal_report
      (rd_get R (tb_name (JOURNAL_SCHEMA R)) (tb_key (JOURNAL_SCHEMA R) ''version''))) js
      (Ok (Some (rd_u32_enc R JOURNAL_SCHEMA_VERSION))) js"
    by (rule call_runs, drule tx_callD [OF redb_tx_call(2) [OF R]]) (auto simp: journal_rel_def JOURNAL_SCHEMA_def)
  then have 2: "tx_runs R (journal_rel R F) journal_report (table_get R journal_report (JOURNAL_SCHEMA R) ''version'') js
      (Ok (Some JOURNAL_SCHEMA_VERSION)) js"
    unfolding table_get_def
    by (rule tx_runs_bind) (simp add: decodeT_def JOURNAL_SCHEMA_def journal_envD(4) [OF env] tx_runs_def)
  let ?bytes = "Option.bind (js_session js ''current'') (fm_session_enc F)"
  have 3: "tx_runs R (journal_rel R F) journal_report (callT journal_report
      (rd_get R (tb_name (SESSION R F)) (tb_key (SESSION R F) ''current''))) js (Ok ?bytes) js"
  proof (rule call_runs)
    fix tx q tx'
    assume v: "journal_rel R F (rd_view R tx) js" and q: "rd_get R (tb_name (SESSION R F)) (tb_key (SESSION R F) ''current'') tx = (q, tx')"
    obtain raw where raw: "rd_view R tx (tb_name (SESSION R F)) = Some raw"
        "table_rel (SESSION R F) (\<lambda>_. True) (\<lambda>_. True) raw (js_session js)"
      using v by (auto simp: journal_rel_def holds_table_def)
    have "raw (tb_key (SESSION R F) ''current'') = ?bytes"
      using stored_table.rel_get [OF stored_session [OF env] raw(2)] by (simp add: SESSION_def split: option.split)
    with tx_callD [OF redb_tx_call(2) [OF R] q] raw(1) v
    show "rd_base R tx' = rd_base R tx \<and> (\<forall>a. q = Ok a \<longrightarrow> a = ?bytes \<and> journal_rel R F (rd_view R tx') js)" by simp
  qed
  have 4: "tx_runs R (journal_rel R F) journal_report (case ?bytes of
          None \<Rightarrow> failT journal_report
        | Some bytes \<Rightarrow>
            (case fm_session_dec F bytes of None \<Rightarrow> failT journal_report | Some session \<Rightarrow> returnT session)) js (found js) js"
  proof (cases "js_session js ''current''")
    case None
    then show ?thesis by (simp add: found_def tx_runs_fail)
  next
    case (Some se)
    obtain bytes where "fm_session_enc F se = Some bytes" "fm_session_dec F bytes = Some se"
      using journal_envD(5) [OF env] by blast
    with Some show ?thesis by (simp add: found_def tx_runs_return)
  qed
  have "tx_runs R (journal_rel R F) journal_report (read_session_tx R F) js (found js) js"
    unfolding read_session_tx_def
    by (rule tx_runs_bind [OF 1], rule tx_runs_bind [OF 2])
      (simp add: validate_schema_version_def check_bind,
       rule tx_runs_bind [OF stored_table.run_open [OF stored_session [OF env] R]], rule tx_runs_bind [OF 3],
       rule tx_runs_bind [OF stored_table.run_open [OF stored_vms [OF env] R]], rule 4)
  then show ?thesis unfolding journal_read_def by (rule read_tx_runs [OF R])
qed

lemma try_open_keeps:
  assumes env: "journal_env R F" and js: "journal_rel R F (rd_tables R db) js" and run: "try_open_existing R F db = (q, db')"
  shows "journal_rel R F (rd_tables R db') js" "q \<noteq> Err Panic"
    "q = Ok (Some se) \<Longrightarrow> Option.bind (js_session js ''current'') (\<lambda>se. case check_session F se of Inl _ \<Rightarrow> None | Inr se \<Rightarrow> Some se) = Some se"
    "js_session js ''current'' = Some s0 \<Longrightarrow> check_session F s0 = Ok s1 \<Longrightarrow> q = Err f \<Longrightarrow> f = Fail journal_report"
proof -
  note R = journal_envD(1) [OF env]
  obtain o1 db1 where o1: "rd_open R db = (o1, db1)" by fastforce
  have t: "journal_rel R F (rd_tables R db1) js" using js redb_end(6) [OF R o1] by simp
  obtain r db2 where r: "journal_read R (read_session_tx R F) db1 = (r, db2)" by fastforce
  note rd = db_runsD [OF read_session_runs [OF env] t r]
  have "journal_rel R F (rd_tables R db') js \<and> q \<noteq> Err Panic
    \<and> (q = Ok (Some se) \<longrightarrow> Option.bind (js_session js ''current'') (\<lambda>se. case check_session F se of Inl _ \<Rightarrow> None | Inr se \<Rightarrow> Some se) = Some se)
    \<and> (js_session js ''current'' = Some s0 \<longrightarrow> check_session F s0 = Ok s1 \<longrightarrow> q = Err f \<longrightarrow> f = Fail journal_report)"
  proof (cases o1)
    case (Inl e)
    with run o1 t show ?thesis by (cases e) (auto simp: try_open_existing_def)
  next
    case (Inr u)
    with run o1 r have q: "(q, db') = (case r of Inl e \<Rightarrow> (Err e, db2) | Inr se \<Rightarrow>
        (case check_session F se of Inl e \<Rightarrow> (Err (Fail e), db2) | Inr se \<Rightarrow> (Ok (Some se), db2)))"
      by (auto simp: try_open_existing_def read_existing_session_def bindP_def liftR_def returnP_def failP_def split: sum.splits)
    then show ?thesis using rd by (auto split: option.splits sum.splits)
  qed
  then show "journal_rel R F (rd_tables R db') js" "q \<noteq> Err Panic"
    "q = Ok (Some se) \<Longrightarrow> Option.bind (js_session js ''current'') (\<lambda>se. case check_session F se of Inl _ \<Rightarrow> None | Inr se \<Rightarrow> Some se) = Some se"
    "js_session js ''current'' = Some s0 \<Longrightarrow> check_session F s0 = Ok s1 \<Longrightarrow> q = Err f \<Longrightarrow> f = Fail journal_report"
    by simp_all
qed

lemma try_open_runs:
  assumes env: "journal_env R F" and js: "journal_rel R F (rd_tables R db) js"
    and se: "js_session js ''current'' = Some se" "check_session F se = Ok se'"
    and run: "try_open_existing R F db = (q, db')"
  shows "journal_rel R F (rd_tables R db') js \<and> (q = Ok None \<or> q = Err (Fail journal_report) \<or> q = Ok (Some se'))"
proof -
  note k = try_open_keeps [OF env js run]
  show ?thesis
  proof (cases q)
    case (Inl f)
    with k(1) k(4) [OF se, of f] show ?thesis by simp
  next
    case (Inr a)
    with k(1) k(3) se show ?thesis by (cases a) auto
  qed
qed

text \<open>Merging of inventory entries: one entry for each resource, with the first time and the last error.\<close>

definition entry_key :: "abandoned_entry \<Rightarrow> string \<times> string" where
  "entry_key a = (ae_kind a, ae_identity a)"

lemma merge_entry_keys:
  "entry_key ` set (merge_entry a as) = insert (entry_key a) (entry_key ` set as)"
  by (induction as) (auto simp: entry_key_def)

lemma merge_entry_distinct: "distinct (map entry_key as) \<Longrightarrow> distinct (map entry_key (merge_entry a as))"
proof (induction as)
  case (Cons b as)
  have "entry_key ` set (merge_entry a as) = insert (entry_key a) (entry_key ` set as)" by (rule merge_entry_keys)
  with Cons show ?case by (auto simp: entry_key_def)
qed simp

lemma merge_entry_first:
  "b \<in> set as \<Longrightarrow> \<exists>c \<in> set (merge_entry a as). entry_key c = entry_key b
     \<and> ae_first_abandoned_at_unix_ms c = ae_first_abandoned_at_unix_ms b"
  by (induction as) (auto simp: entry_key_def)

lemma merge_entries_keys:
  "entry_key ` set (merge_entries as bs) = entry_key ` set as \<union> entry_key ` set bs"
  by (induction bs arbitrary: as) (auto simp: merge_entries_def merge_entry_keys)

lemma merge_entries_distinct: "distinct (map entry_key as) \<Longrightarrow> distinct (map entry_key (merge_entries as bs))"
  by (induction bs arbitrary: as) (simp_all add: merge_entries_def merge_entry_distinct)

lemma merge_entries_first:
  "b \<in> set as \<Longrightarrow> \<exists>c \<in> set (merge_entries as bs). entry_key c = entry_key b
     \<and> ae_first_abandoned_at_unix_ms c = ae_first_abandoned_at_unix_ms b"
proof (induction bs arbitrary: as b)
  case (Cons a bs)
  from merge_entry_first [OF Cons.prems, of a] obtain c where "c \<in> set (merge_entry a as)" "entry_key c = entry_key b"
      "ae_first_abandoned_at_unix_ms c = ae_first_abandoned_at_unix_ms b" by blast
  with Cons.IH [of c "merge_entry a as"] show ?case by (auto simp: merge_entries_def)
qed (auto simp: merge_entries_def)

section \<open>An instance of the parameters\<close>

text \<open>
  Texts of records that can be read back, to evaluate the operations on: a writer and a reader for each
  type, put together like the types.
\<close>

type_synonym 'a coder = "('a \<Rightarrow> byte list) \<times> (byte list \<Rightarrow> ('a \<times> byte list) option)"

definition coder_ok :: "'a coder \<Rightarrow> bool" where
  "coder_ok c \<longleftrightarrow> (\<forall>x rest. snd c (fst c x @ rest) = Some (x, rest))"

named_theorems coder_rules

fun read_byte :: "byte list \<Rightarrow> (byte \<times> byte list) option" where
  "read_byte [] = None"
| "read_byte (b # bs) = Some (b, bs)"

definition byte_coder :: "byte coder" where
  "byte_coder = (\<lambda>b. [b], read_byte)"

lemma byte_coder_ok [coder_rules]: "coder_ok byte_coder"
  by (simp add: coder_ok_def byte_coder_def)

definition map_coder :: "('a \<Rightarrow> 'b) \<Rightarrow> ('b \<Rightarrow> 'a) \<Rightarrow> 'b coder \<Rightarrow> 'a coder" where
  "map_coder f g c = (fst c \<circ> f, \<lambda>bs. map_option (map_prod g id) (snd c bs))"

lemma map_coder_ok [coder_rules]: "coder_ok c \<Longrightarrow> (\<And>x. g (f x) = x) \<Longrightarrow> coder_ok (map_coder f g c)"
  by (simp add: coder_ok_def map_coder_def)

definition pair_coder :: "'a coder \<Rightarrow> 'b coder \<Rightarrow> ('a \<times> 'b) coder" where
  "pair_coder c d = (\<lambda>(x, y). fst c x @ fst d y,
     \<lambda>bs. case snd c bs of None \<Rightarrow> None | Some (x, bs) \<Rightarrow> map_option (\<lambda>(y, bs). ((x, y), bs)) (snd d bs))"

lemma pair_coder_ok [coder_rules]: "coder_ok c \<Longrightarrow> coder_ok d \<Longrightarrow> coder_ok (pair_coder c d)"
  by (auto simp: coder_ok_def pair_coder_def)

text \<open>A list as its length in unary and its elements.\<close>

fun read_ones :: "byte list \<Rightarrow> nat \<times> byte list" where
  "read_ones [] = (0, [])"
| "read_ones (b # bs) = (if b = 1 then (case read_ones bs of (n, bs) \<Rightarrow> (Suc n, bs)) else (0, bs))"

primrec read_many :: "'a coder \<Rightarrow> nat \<Rightarrow> byte list \<Rightarrow> ('a list \<times> byte list) option" where
  "read_many c 0 bs = Some ([], bs)"
| "read_many c (Suc n) bs =
    (case snd c bs of None \<Rightarrow> None | Some (x, bs) \<Rightarrow> map_option (\<lambda>(xs, bs). (x # xs, bs)) (read_many c n bs))"

definition list_coder :: "'a coder \<Rightarrow> 'a list coder" where
  "list_coder c = (\<lambda>xs. replicate (length xs) 1 @ 0 # concat (map (fst c) xs),
     \<lambda>bs. case read_ones bs of (n, bs) \<Rightarrow> read_many c n bs)"

lemma list_coder_ok [coder_rules]:
  assumes "coder_ok c"
  shows "coder_ok (list_coder c)"
proof -
  have "read_ones (replicate n 1 @ 0 # bs) = (n, bs)" for n bs by (induction n) simp_all
  moreover have "read_many c (length xs) (concat (map (fst c) xs) @ rest) = Some (xs, rest)" for xs rest
    using assms by (induction xs) (simp_all add: coder_ok_def)
  ultimately show ?thesis by (simp add: coder_ok_def list_coder_def)
qed

definition option_coder :: "'a coder \<Rightarrow> 'a option coder" where
  "option_coder c = map_coder (\<lambda>x. case x of None \<Rightarrow> [] | Some a \<Rightarrow> [a]) (\<lambda>xs. case xs of [] \<Rightarrow> None | a # _ \<Rightarrow> Some a) (list_coder c)"

lemma option_coder_ok [coder_rules]: "coder_ok c \<Longrightarrow> coder_ok (option_coder c)"
  unfolding option_coder_def by (rule map_coder_ok [OF list_coder_ok]) (auto split: option.splits)

definition bytes_coder :: "byte list coder" where
  "bytes_coder = list_coder byte_coder"

definition u16_coder :: "u16 coder" where
  "u16_coder = map_coder (\<lambda>w. le_bytes 2 (unat w)) (\<lambda>bs. word_of_nat (le_val bs)) bytes_coder"

definition u32_coder :: "u32 coder" where
  "u32_coder = map_coder (\<lambda>w. le_bytes 4 (unat w)) (\<lambda>bs. word_of_nat (le_val bs)) bytes_coder"

definition u64_coder :: "u64 coder" where
  "u64_coder = map_coder (\<lambda>w. le_bytes 8 (unat w)) (\<lambda>bs. word_of_nat (le_val bs)) bytes_coder"

definition text_coder :: "string coder" where
  "text_coder = map_coder str_bytes bytes_str bytes_coder"

definition bool_coder :: "bool coder" where
  "bool_coder = map_coder (\<lambda>b. if b then 1 else 0) (\<lambda>b. b = 1) byte_coder"

lemma base_coders_ok [coder_rules]:
  "coder_ok bytes_coder" "coder_ok u16_coder" "coder_ok u32_coder" "coder_ok u64_coder" "coder_ok text_coder" "coder_ok bool_coder"
proof -
  show b: "coder_ok bytes_coder" unfolding bytes_coder_def by (intro coder_rules)
  show "coder_ok u16_coder" "coder_ok u32_coder" "coder_ok u64_coder"
    unfolding u16_coder_def u32_coder_def u64_coder_def by (rule map_coder_ok [OF b], simp)+
  show "coder_ok text_coder" unfolding text_coder_def by (rule map_coder_ok [OF b]) simp
  show "coder_ok bool_coder" unfolding bool_coder_def by (intro coder_rules) simp
qed

text \<open>An enumeration as the position of the value.\<close>

definition enum_coder :: "'a list \<Rightarrow> 'a coder" where
  "enum_coder vs = map_coder (\<lambda>x. word_of_nat (length (takeWhile (\<lambda>y. y \<noteq> x) vs))) (\<lambda>b. vs ! unat b) byte_coder"

lemma enum_coder_ok:
  assumes "\<And>x. x \<in> set vs" "length vs < 256"
  shows "coder_ok (enum_coder vs)"
proof -
  have "vs ! length (takeWhile (\<lambda>y. y \<noteq> x) vs) = x \<and> length (takeWhile (\<lambda>y. y \<noteq> x) vs) < 256" for x
  proof -
    have "length (takeWhile (\<lambda>y. y \<noteq> x) vs) < length vs"
      using assms(1) [of x] by (induction vs) auto
    with nth_length_takeWhile [of "\<lambda>y. y \<noteq> x" vs] assms(2) show ?thesis by simp
  qed
  then show ?thesis
    unfolding enum_coder_def by (intro map_coder_ok byte_coder_ok) (simp add: unat_of_nat)
qed

definition state_coder :: "resource_state coder" where
  "state_coder = enum_coder [Planned, Created, Removed, RemovalFailed, Abandoned]"

definition phase_coder :: "vm_phase coder" where
  "phase_coder = enum_coder [PhasePlanned, PhaseStarting, PhasePublished, PhaseCleanupPending, PhaseComplete]"

definition origin_coder :: "disk_origin coder" where
  "origin_coder = enum_coder [CreatedByLaunch, PreExisting]"

definition retention_coder :: "disk_retention coder" where
  "retention_coder = enum_coder [Ephemeral, Persistent]"

lemma enum_coders_ok [coder_rules]:
  "coder_ok state_coder" "coder_ok phase_coder" "coder_ok origin_coder" "coder_ok retention_coder"
proof -
  have "x \<in> set [Planned, Created, Removed, RemovalFailed, Abandoned]" for x by (cases x) simp_all
  then show "coder_ok state_coder" unfolding state_coder_def by (rule enum_coder_ok) simp
  have "x \<in> set [PhasePlanned, PhaseStarting, PhasePublished, PhaseCleanupPending, PhaseComplete]" for x by (cases x) simp_all
  then show "coder_ok phase_coder" unfolding phase_coder_def by (rule enum_coder_ok) simp
  have "x \<in> set [CreatedByLaunch, PreExisting]" for x by (cases x) simp_all
  then show "coder_ok origin_coder" unfolding origin_coder_def by (rule enum_coder_ok) simp
  have "x \<in> set [Ephemeral, Persistent]" for x by (cases x) simp_all
  then show "coder_ok retention_coder" unfolding retention_coder_def by (rule enum_coder_ok) simp
qed

definition session_coder :: "session_record coder" where
  "session_coder = map_coder
    (\<lambda>r. (se_schema_version r, se_session_id r, se_owner r, se_owner_sid r, se_process_id r, se_created_at_unix_ms r))
    (\<lambda>(a, b, c, d, e, f). session_record.make a b c d e f)
    (pair_coder u32_coder (pair_coder bytes_coder (pair_coder text_coder (pair_coder text_coder (pair_coder u32_coder u64_coder)))))"

definition identity_coder :: "file_identity coder" where
  "identity_coder = map_coder (\<lambda>r. (fi_volume_serial r, fi_file_id r)) (\<lambda>(a, b). file_identity.make a b) (pair_coder u32_coder u64_coder)"

definition compute_coder :: "compute_resource coder" where
  "compute_coder = map_coder (\<lambda>r. (cr_id r, cr_state r)) (\<lambda>(a, b). compute_resource.make a b) (pair_coder text_coder state_coder)"

definition network_coder :: "network_resource coder" where
  "network_coder = map_coder
    (\<lambda>r. (nr_network_name r, nr_network_id r, nr_endpoint_name r, nr_endpoint_id r, nr_state r))
    (\<lambda>(a, b, c, d, e). network_resource.make a b c d e)
    (pair_coder text_coder (pair_coder (option_coder text_coder) (pair_coder text_coder (pair_coder (option_coder text_coder) state_coder))))"

definition disk_coder :: "disk_resource coder" where
  "disk_coder = map_coder
    (\<lambda>r. (dr_path r, dr_controller r, dr_lun r, dr_state r, dr_origin r, dr_requested_retention r, dr_effective_retention r,
      dr_file_identity r, dr_initialization_requested r, dr_initialization_acknowledged r, dr_vm_ace_added r, dr_published r))
    (\<lambda>(a, b, c, d, e, f, g, h, i, j, k, l). disk_resource.make a b c d e f g h i j k l)
    (pair_coder (list_coder u16_coder) (pair_coder u32_coder (pair_coder u32_coder (pair_coder state_coder (pair_coder origin_coder
      (pair_coder retention_coder (pair_coder retention_coder (pair_coder (option_coder identity_coder) (pair_coder bool_coder
      (pair_coder bool_coder (pair_coder bool_coder bool_coder)))))))))))"

definition vm_coder :: "vm_record coder" where
  "vm_coder = map_coder
    (\<lambda>r. (vr_schema_version r, vr_vm_id r, vr_phase r, vr_published r, vr_compute_system r, vr_network r, vr_disks r,
      vr_cleanup_attempts r, vr_last_error r))
    (\<lambda>(a, b, c, d, e, f, g, h, i). vm_record.make a b c d e f g h i)
    (pair_coder u32_coder (pair_coder bytes_coder (pair_coder phase_coder (pair_coder bool_coder (pair_coder compute_coder
      (pair_coder (option_coder network_coder) (pair_coder (list_coder disk_coder) (pair_coder u32_coder (option_coder text_coder)))))))))"

definition entry_coder :: "abandoned_entry coder" where
  "entry_coder = map_coder (\<lambda>r. (ae_kind r, ae_identity r, ae_last_error r, ae_first_abandoned_at_unix_ms r))
    (\<lambda>(a, b, c, d). abandoned_entry.make a b c d) (pair_coder text_coder (pair_coder text_coder (pair_coder text_coder u64_coder)))"

definition abandoned_coder :: "abandoned_record coder" where
  "abandoned_coder = map_coder (\<lambda>r. (ar_schema_version r, ar_vm_id r, ar_entries r))
    (\<lambda>(a, b, c). abandoned_record.make a b c) (pair_coder u32_coder (pair_coder bytes_coder (list_coder entry_coder)))"

lemma record_coders_ok:
  "coder_ok session_coder" "coder_ok vm_coder" "coder_ok abandoned_coder"
proof -
  show "coder_ok session_coder"
    unfolding session_coder_def by (intro coder_rules) (simp add: session_record.defs)
  have [coder_rules]: "coder_ok identity_coder" "coder_ok compute_coder" "coder_ok network_coder" "coder_ok entry_coder"
    unfolding identity_coder_def compute_coder_def network_coder_def entry_coder_def
    by (intro coder_rules, simp add: file_identity.defs compute_resource.defs network_resource.defs abandoned_entry.defs)+
  have [coder_rules]: "coder_ok disk_coder"
    unfolding disk_coder_def by (intro coder_rules) (simp add: disk_resource.defs)
  show "coder_ok vm_coder"
    unfolding vm_coder_def by (intro coder_rules) (simp add: vm_record.defs)
  show "coder_ok abandoned_coder"
    unfolding abandoned_coder_def by (intro coder_rules) (simp add: abandoned_record.defs)
qed

definition sample_forms :: forms where
  "sample_forms = \<lparr>fm_uuid = bytes_str,
     fm_session_enc = Some \<circ> fst session_coder, fm_session_dec = map_option fst \<circ> snd session_coder,
     fm_vm_enc = Some \<circ> fst vm_coder, fm_vm_dec = map_option fst \<circ> snd vm_coder,
     fm_abandoned_enc = Some \<circ> fst abandoned_coder, fm_abandoned_dec = map_option fst \<circ> snd abandoned_coder\<rparr>"

lemma coder_reads:
  assumes "coder_ok c"
  shows "snd c (fst c x) = Some (x, [])"
proof -
  have "snd c (fst c x @ []) = Some (x, [])" using assms unfolding coder_ok_def by blast
  then show ?thesis by simp
qed

lemma sample_forms_ok: "forms_ok sample_forms"
  by (auto simp: forms_ok_def sample_forms_def coder_reads record_coders_ok dest: arg_cong [of _ _ str_bytes])

section \<open>Properties\<close>

text \<open>
  C35. The operations of the journal implement maps from VM ids to records and to lists of abandoned
  resources: on a database that holds the maps, each operation returns what the map says and leaves the
  updated maps, or reports an error of the journal and leaves the maps either as they were or updated.
  An update of a record that is missing is an error and changes nothing. New entries of abandoned
  resources join the list without duplicates, and a resource listed before keeps the time it was first
  listed at.
\<close>

theorem journal_refines_maps:
  fixes js :: jstate
  assumes env: "journal_env R F" and r: "wf_vm r" "wf_uuid (vr_vm_id r)" and a: "wf_abandoned a" "wf_uuid (ar_vm_id a)"
    and u: "wf_uuid u" and f: "\<forall>v. js_vms js u = Some v \<longrightarrow> wf_vm (f v)"
  defines "entries \<equiv> merge_entries (case js_abandoned js (ar_vm_id a) of Some p \<Rightarrow> ar_entries p | None \<Rightarrow> []) (ar_entries a)"
  shows "db_runs R (journal_rel R F) journal_report (put_vm R F r) js (Ok ()) (js\<lparr>js_vms := (js_vms js)(vr_vm_id r \<mapsto> r)\<rparr>)
    \<and> (case js_vms js u of
         None \<Rightarrow> db_runs R (journal_rel R F) journal_report (update_vm R F u f) js (Err (Fail journal_report)) js
       | Some v \<Rightarrow> db_runs R (journal_rel R F) journal_report (update_vm R F u f) js (Ok ()) (js\<lparr>js_vms := (js_vms js)(u \<mapsto> f v)\<rparr>))
    \<and> db_runs R (journal_rel R F) journal_report (journal_vm R F u) js (Ok (js_vms js u)) js
    \<and> db_runs R (journal_rel R F) journal_report (remove_vm R F u) js (Ok ()) (js\<lparr>js_vms := (js_vms js)(u := None)\<rparr>)
    \<and> db_runs R (journal_rel R F) journal_report (put_abandoned R F a) js (Ok ())
        (js\<lparr>js_abandoned := (js_abandoned js)(ar_vm_id a \<mapsto> a\<lparr>ar_entries := entries\<rparr>)\<rparr>)
    \<and> db_runs R (journal_rel R F) journal_report (abandoned R F u) js (Ok (js_abandoned js u)) js
    \<and> db_runs R (journal_rel R F) journal_report (remove_abandoned R F u) js (Ok ()) (js\<lparr>js_abandoned := (js_abandoned js)(u := None)\<rparr>)
    \<and> db_runs R (journal_rel R F) journal_report (has_abandoned R F) js (Ok (js_abandoned js \<noteq> Map.empty)) js
    \<and> (\<forall>db q db'. journal_rel R F (rd_tables R db) js \<longrightarrow> all_vms R F db = (q, db') \<longrightarrow>
         journal_rel R F (rd_tables R db') js \<and> (q = Err (Fail journal_report) \<or> (\<exists>rs. q = Ok rs \<and> set rs = ran (js_vms js))))
    \<and> (\<forall>p. js_abandoned js (ar_vm_id a) = Some p \<longrightarrow>
         (distinct (map entry_key (ar_entries p)) \<longrightarrow> distinct (map entry_key entries))
         \<and> entry_key ` set entries = entry_key ` set (ar_entries p) \<union> entry_key ` set (ar_entries a)
         \<and> (\<forall>b \<in> set (ar_entries p). \<exists>c \<in> set entries. entry_key c = entry_key b
              \<and> ae_first_abandoned_at_unix_ms c = ae_first_abandoned_at_unix_ms b))"
proof -
  have upd: "case js_vms js u of
         None \<Rightarrow> db_runs R (journal_rel R F) journal_report (update_vm R F u f) js (Err (Fail journal_report)) js
       | Some v \<Rightarrow> db_runs R (journal_rel R F) journal_report (update_vm R F u f) js (Ok ()) (js\<lparr>js_vms := (js_vms js)(u \<mapsto> f v)\<rparr>)"
    using update_vm_missing [OF env u, of js f] update_vm_runs [of R F js u _ f, OF env] f by (auto split: option.splits)
  show ?thesis
    unfolding entries_def
    using put_vm_runs [OF env r, of js] upd journal_vm_runs [OF env u, of js]
      remove_vm_runs [OF env u, of js] put_abandoned_runs [OF env a, of js] abandoned_runs [OF env u, of js]
      remove_abandoned_runs [OF env u, of js] has_abandoned_runs [OF env, of js] all_vms_runs [OF env]
    by (intro conjI allI impI) (simp_all add: merge_entries_keys merge_entries_distinct merge_entries_first)
qed

text \<open>A journal with one VM, on the database in memory.\<close>

definition sample_vm :: vm_record where
  "sample_vm = \<lparr>vr_schema_version = 1, vr_vm_id = replicate 16 7, vr_phase = PhasePublished, vr_published = True,
     vr_compute_system = \<lparr>cr_id = ''vm'', cr_state = Created\<rparr>,
     vr_network = Some \<lparr>nr_network_name = ''net'', nr_network_id = None, nr_endpoint_name = ''ep'', nr_endpoint_id = None, nr_state = Created\<rparr>,
     vr_disks = [\<lparr>dr_path = [100], dr_controller = 0, dr_lun = 0, dr_state = Created, dr_origin = CreatedByLaunch,
       dr_requested_retention = Ephemeral, dr_effective_retention = Ephemeral,
       dr_file_identity = Some \<lparr>fi_volume_serial = 1, fi_file_id = 2\<rparr>, dr_initialization_requested = False,
       dr_initialization_acknowledged = False, dr_vm_ace_added = False, dr_published = True\<rparr>],
     vr_cleanup_attempts = 0, vr_last_error = None\<rparr>"

definition sample_db :: "vm_record \<Rightarrow> mem_db" where
  "sample_db r = \<lparr>md_tables = [''session'' \<mapsto> [], ''vm_records'' \<mapsto> [(vr_vm_id r, fst vm_coder r)], ''abandoned'' \<mapsto> [],
     ''journal_schema'' \<mapsto> [(str_bytes ''version'', le_bytes 4 1)]], md_script = []\<rparr>"

definition sample_state :: "vm_record \<Rightarrow> jstate" where
  "sample_state r = \<lparr>js_session = Map.empty, js_vms = [vr_vm_id r \<mapsto> r], js_abandoned = Map.empty\<rparr>"

lemma sample_env: "journal_env mem_redb sample_forms"
  by (simp add: journal_env_def mem_redb_ok sample_forms_ok)

lemma sample_db_rel:
  assumes "wf_vm r" "wf_uuid (vr_vm_id r)"
  shows "journal_rel mem_redb sample_forms (rd_tables mem_redb (sample_db r)) (sample_state r)"
  using assms
  by (auto simp: journal_rel_def holds_table_def table_rel_def journal_tables mem_redb_def mem_tables_def sample_db_def
      sample_state_def sample_forms_def JOURNAL_SCHEMA_VERSION_def)

lemma sample_vm_wf: "wf_vm sample_vm" "wf_uuid (vr_vm_id sample_vm)"
  by (simp_all add: sample_vm_def wf_vm_def wf_uuid_def JOURNAL_SCHEMA_VERSION_def)

theorem journal_refines_maps_witness:
  "journal_rel mem_redb sample_forms (rd_tables mem_redb (sample_db sample_vm)) (sample_state sample_vm)
   \<and> journal_vm mem_redb sample_forms (vr_vm_id sample_vm) (sample_db sample_vm) = (Ok (Some sample_vm), sample_db sample_vm)
   \<and> db_runs mem_redb (journal_rel mem_redb sample_forms) journal_report
       (journal_vm mem_redb sample_forms (vr_vm_id sample_vm)) (sample_state sample_vm) (Ok (Some sample_vm)) (sample_state sample_vm)"
proof -
  let ?a = "\<lparr>ar_schema_version = JOURNAL_SCHEMA_VERSION, ar_vm_id = vr_vm_id sample_vm, ar_entries = []\<rparr>"
  have a: "wf_abandoned ?a" "wf_uuid (ar_vm_id ?a)" using sample_vm_wf by (simp_all add: wf_abandoned_def)
  have "\<forall>v. js_vms (sample_state sample_vm) (vr_vm_id sample_vm) = Some v \<longrightarrow> wf_vm (id v)"
    using sample_vm_wf by (auto simp: sample_state_def)
  from journal_refines_maps [OF sample_env sample_vm_wf a sample_vm_wf(2) this]
  have 1: "db_runs mem_redb (journal_rel mem_redb sample_forms) journal_report
       (journal_vm mem_redb sample_forms (vr_vm_id sample_vm)) (sample_state sample_vm)
       (Ok (js_vms (sample_state sample_vm) (vr_vm_id sample_vm))) (sample_state sample_vm)" by blast
  have "journal_vm mem_redb sample_forms (vr_vm_id sample_vm) (sample_db sample_vm) = (Ok (Some sample_vm), sample_db sample_vm)"
    using check_ok(1) [OF sample_vm_wf(1)]
    by (simp add: journal_vm_def journal_read_def read_tx_def json_get_def bindT_def callT_def open_table_def returnT_def checkT_def
        mem_redb_def mem_begin_def mem_call_def mem_drop_def sample_db_def journal_tables sample_forms_def
        coder_reads [OF record_coders_ok(2)])
  with 1 sample_db_rel [OF sample_vm_wf] show ?thesis by (simp add: sample_state_def)
qed


lemmas sample_evals = create_current_def initialize_database_def initialize_database_tx_def journal_write_def write_tx_def
  try_open_existing_def read_existing_session_def read_session_tx_def check_session_def journal_read_def read_tx_def
  bindP_def bindT_def callT_def open_table_def table_get_def table_insert_def encodeT_def decodeT_def json_insert_def
  json_encode_def liftR_def returnP_def returnT_def checkT_def Let_def owner_for_def validate_schema_version_def mem_redb_def mem_begin_def
  mem_call_def mem_commit_def mem_drop_def journal_tables sample_forms_def coder_reads [OF record_coders_ok(1)]


end
