(* ===== verification/ResourceCleanup.thy ===== *)
theory ResourceCleanup
  imports SessionJournal
begin

text \<open>
  Cleaning up what a VM left behind, \<open>vm.rs\<close>: each resource of the journal record is removed by its
  operation, the outcome is written to the journal, and after three failed passes what is left is listed
  for an operator. A pass may be cut off at every call. The operations of the host are parameters.
\<close>

section \<open>The host\<close>

text \<open>How a program of the backend stops early; \<open>Crashed\<close> is the end of the process.\<close>

datatype stop = Failed report | Panicked | Crashed

text \<open>
  The calls on the host: HCS compute systems (by handle), HNS networks, files and access rules of the
  file system, the byte form of a UUID and the check of a security descriptor. The last four fields are
  what the host has: the files with their identities, the compute systems, the networks with their
  endpoints, and the compute system behind a handle.
\<close>

datatype io_failure = IoNotFound | IoOther string

record ('h, 's, 'n) os =
  os_open_system :: "string \<Rightarrow> ('h, report, 's) prog"
  os_remove_system :: "'s \<Rightarrow> ('h, report, unit) prog"
  os_remove_system_sync :: "'s \<Rightarrow> ('h, report, unit) prog"
  os_start_system :: "'s \<Rightarrow> ('h, report, unit) prog"
  os_delete_network :: "string option \<Rightarrow> string \<Rightarrow> string option \<Rightarrow> string \<Rightarrow> ('h, report, unit) prog"
  os_close_network :: "'n \<Rightarrow> ('h, report, unit) prog"
  os_exists :: "os_string \<Rightarrow> 'h \<Rightarrow> bool \<times> 'h"
  os_file_identity :: "os_string \<Rightarrow> ('h, report, file_identity) prog"
  os_remove_file :: "os_string \<Rightarrow> ('h, io_failure, unit) prog"
  os_revoke_access :: "os_string \<Rightarrow> string \<Rightarrow> ('h, report, unit) prog"
  os_bytes_le :: "uuid \<Rightarrow> byte list"
  os_validate_sddl :: "string \<Rightarrow> report + unit"
  os_files :: "'h \<Rightarrow> os_string \<rightharpoonup> file_identity"
  os_systems :: "'h \<Rightarrow> string set"
  os_networks :: "'h \<Rightarrow> (string \<times> string) set"
  os_system_of :: "'s \<Rightarrow> string"
  os_network_of :: "'n \<Rightarrow> string \<times> string"

record ('db, 'h) world =
  w_db :: 'db
  w_host :: 'h
  w_fuel :: "nat option"

text \<open>With a limit, the process ends before the call after the last one the limit allows.\<close>

definition tick :: "(('db, 'h, 'm) world_scheme, stop, unit) prog" where
  "tick w =
    (case w_fuel w of
       None \<Rightarrow> (Ok (), w)
     | Some 0 \<Rightarrow> (Err Crashed, w)
     | Some (Suc n) \<Rightarrow> (Ok (), w\<lparr>w_fuel := Some n\<rparr>))"

definition stop_of :: "report fault \<Rightarrow> stop" where
  "stop_of f = (case f of Fail r \<Rightarrow> Failed r | Panic \<Rightarrow> Panicked)"

definition on_journal :: "('db, report fault, 'a) prog \<Rightarrow> (('db, 'h, 'm) world_scheme, stop, 'a) prog" where
  "on_journal op =
    bindP tick (\<lambda>_ w. case op (w_db w) of (r, db) \<Rightarrow> (mapErr stop_of r, w\<lparr>w_db := db\<rparr>))"

text \<open>A call on the host; its result is a value of the program.\<close>

definition on_host :: "('h \<Rightarrow> 'a \<times> 'h) \<Rightarrow> (('db, 'h, 'm) world_scheme, stop, 'a) prog" where
  "on_host op =
    bindP tick (\<lambda>_ w. case op (w_host w) of (a, h) \<Rightarrow> (Ok a, w\<lparr>w_host := h\<rparr>))"

section \<open>Removing a compute system or a disk\<close>

definition remove_by_id :: "('h, 's, 'n) os \<Rightarrow> ('s \<Rightarrow> ('h, report, unit) prog) \<Rightarrow> string \<Rightarrow> ('h, report, unit) prog" where
  "remove_by_id P remove system_id h =
    (case os_open_system P system_id h of
       (Inr system, h) \<Rightarrow> remove system h
     | (Inl error, h) \<Rightarrow> if resource_is_absent error then (Ok (), h) else (Err error, h))"

definition remove_compute_system_by_id :: "('h, 's, 'n) os \<Rightarrow> string \<Rightarrow> ('h, report, unit) prog" where
  "remove_compute_system_by_id P = remove_by_id P (os_remove_system P)"

definition remove_compute_system_by_id_sync :: "('h, 's, 'n) os \<Rightarrow> string \<Rightarrow> ('h, report, unit) prog" where
  "remove_compute_system_by_id_sync P = remove_by_id P (os_remove_system_sync P)"

fun decimal :: "nat \<Rightarrow> string" where
  "decimal n = (if n < 10 then [char_of (48 + n)] else decimal (n div 10) @ [char_of (48 + n mod 10)])"

declare decimal.simps [simp del]

definition rid :: "byte list \<Rightarrow> nat \<Rightarrow> string" where
  "rid bytes start = decimal (le_val (take 4 (drop start bytes)))"

definition vm_identity_sid :: "('h, 's, 'n) os \<Rightarrow> uuid \<Rightarrow> string" where
  "vm_identity_sid P vm_id =
    (let bytes = os_bytes_le P vm_id in
     ''S-1-5-83-1-'' @ rid bytes 0 @ ''-'' @ rid bytes 4 @ ''-'' @ rid bytes 8 @ ''-'' @ rid bytes 12)"

definition validate_vm_identity_sid :: "('h, 's, 'n) os \<Rightarrow> string \<Rightarrow> report + unit" where
  "validate_vm_identity_sid P sid = os_validate_sddl P (''D:P(A;;GRGW;;;'' @ sid @ '')'')"

definition revoke_disk_access :: "('h, 's, 'n) os \<Rightarrow> uuid \<Rightarrow> disk_resource \<Rightarrow> ('h, report, unit) prog" where
  "revoke_disk_access P vm_id disk =
    (if dr_vm_ace_added disk then
       let sid = vm_identity_sid P vm_id in
       bindP (ofResult (validate_vm_identity_sid P sid)) (\<lambda>_ h.
       case os_exists P (dr_path disk) h of (e, h) \<Rightarrow>
         if e then os_revoke_access P (dr_path disk) sid h else (Ok (), h))
     else returnP ())"

definition deletable :: "disk_resource \<Rightarrow> bool" where
  "deletable disk \<longleftrightarrow> dr_effective_retention disk = Ephemeral \<or> \<not> dr_published disk"

definition delete_disk :: "('h, 's, 'n) os \<Rightarrow> disk_resource \<Rightarrow> ('h, report, unit) prog" where
  "delete_disk P disk h =
    (let path = dr_path disk; display = to_string_lossy path in
     case os_exists P path h of (e, h) \<Rightarrow>
     if \<not> e then (Ok (), h)
     else
       case dr_file_identity disk of
         None \<Rightarrow> (Err (report_new Cleanup [''refusing to delete '' @ display @ '' without a recorded file identity'']), h)
       | Some expected \<Rightarrow>
           (case os_file_identity P path h of
              (Inl error, h) \<Rightarrow> (Err error, h)
            | (Inr current, h) \<Rightarrow>
                if current \<noteq> expected then
                  (Err (report_new DiskIdentityChanged [''file identity changed before deleting '' @ display]), h)
                else
                  (case os_remove_file P path h of
                     (Inr _, h) \<Rightarrow> (Ok (), h)
                   | (Inl IoNotFound, h) \<Rightarrow> (Ok (), h)
                   | (Inl (IoOther error), h) \<Rightarrow>
                       (Err (report_new Cleanup [''remove journaled disk '' @ display @ '': '' @ error]), h))))"

definition remove_disk :: "('h, 's, 'n) os \<Rightarrow> uuid \<Rightarrow> disk_resource \<Rightarrow> ('h, report, unit) prog" where
  "remove_disk P vm_id disk =
    (if dr_state disk = Planned then returnP ()
     else
       bindP (revoke_disk_access P vm_id disk) (\<lambda>_.
       if dr_origin disk = PreExisting then returnP ()
       else if \<not> deletable disk then returnP ()
       else delete_disk P disk))"

section \<open>Outcomes\<close>

record cleanup_summary =
  su_recovered :: nat
  su_absent :: nat
  su_failed :: nat
  su_abandoned :: nat

record cleanup_failure =
  cf_kind :: string
  cf_operation :: string
  cf_identity :: string
  cf_cause :: string

record ('db, 'h) pass = "('db, 'h) world" +
  ps_summary :: cleanup_summary
  ps_failures :: "cleanup_failure list"

type_synonym ('db, 'h, 'a) pass_prog = "(('db, 'h) pass, stop, 'a) prog"

definition failure_message :: "string \<Rightarrow> string \<Rightarrow> string \<Rightarrow> string \<Rightarrow> string" where
  "failure_message kind operation identity cause =
    ''resource_kind='' @ kind @ '' operation='' @ operation @ '' resource_id='' @ identity @ '' cause='' @ cause"

definition count_recovered :: "('db, 'h, unit) pass_prog" where
  "count_recovered = modifyP (ps_summary_update (su_recovered_update Suc))"

definition count_absent :: "('db, 'h, unit) pass_prog" where
  "count_absent = modifyP (ps_summary_update (su_absent_update Suc))"

definition count_failed :: "cleanup_failure \<Rightarrow> ('db, 'h, unit) pass_prog" where
  "count_failed f = modifyP (\<lambda>w. w\<lparr>ps_summary := su_failed_update Suc (ps_summary w), ps_failures := ps_failures w @ [f]\<rparr>)"

definition apply_resource_outcome ::
  "('db, 'tx) redb \<Rightarrow> forms \<Rightarrow> uuid \<Rightarrow> report + unit \<Rightarrow> string \<Rightarrow> string \<Rightarrow> string \<Rightarrow>
   (vm_record \<Rightarrow> resource_state \<Rightarrow> vm_record) \<Rightarrow> ('db, 'h, unit) pass_prog" where
  "apply_resource_outcome R F vm_id result kind operation identity transition =
    (case result of
       Inr _ \<Rightarrow> bindP count_recovered (\<lambda>_. on_journal (update_vm R F vm_id (\<lambda>r. transition r Removed)))
     | Inl error \<Rightarrow>
         if resource_is_absent error
         then bindP count_absent (\<lambda>_. on_journal (update_vm R F vm_id (\<lambda>r. transition r Removed)))
         else
           let cause = report_text error in
           bindP (count_failed \<lparr>cf_kind = kind, cf_operation = operation, cf_identity = identity, cf_cause = cause\<rparr>) (\<lambda>_.
           on_journal (update_vm R F vm_id (\<lambda>r.
             (transition r RemovalFailed)\<lparr>vr_last_error := Some (failure_message kind operation identity cause)\<rparr>))))"

definition set_compute :: "vm_record \<Rightarrow> resource_state \<Rightarrow> vm_record" where
  "set_compute r state = r\<lparr>vr_compute_system := (vr_compute_system r)\<lparr>cr_state := state\<rparr>\<rparr>"

definition set_network :: "vm_record \<Rightarrow> resource_state \<Rightarrow> vm_record" where
  "set_network r state = r\<lparr>vr_network := map_option (nr_state_update (\<lambda>_. state)) (vr_network r)\<rparr>"

definition set_disk_state :: "resource_state \<Rightarrow> disk_resource \<Rightarrow> disk_resource" where
  "set_disk_state state disk =
    (if state = Removed then disk\<lparr>dr_vm_ace_added := False, dr_state := state\<rparr> else disk\<lparr>dr_state := state\<rparr>)"

definition set_disk :: "nat \<Rightarrow> vm_record \<Rightarrow> resource_state \<Rightarrow> vm_record" where
  "set_disk index r state =
    (if index < length (vr_disks r)
     then r\<lparr>vr_disks := (vr_disks r)[index := set_disk_state state (vr_disks r ! index)]\<rparr> else r)"

section \<open>A pass\<close>

record ('s, 'n) cleanup_resources =
  cl_system :: "'s option"
  cl_network :: "'n option"

text \<open>The operations a pass uses; production passes those of the host.\<close>

record ('h, 's, 'n) hooks =
  hk_system :: "'s \<Rightarrow> ('h, report, unit) prog"
  hk_compute :: "string \<Rightarrow> ('h, report, unit) prog"
  hk_close_network :: "'n \<Rightarrow> ('h, report, unit) prog"
  hk_network :: "string option \<Rightarrow> string \<Rightarrow> string option \<Rightarrow> string \<Rightarrow> ('h, report, unit) prog"
  hk_disk :: "uuid \<Rightarrow> disk_resource \<Rightarrow> ('h, report, unit) prog"

definition saturating_succ :: "u32 \<Rightarrow> u32" where
  "saturating_succ n = (if n = u32_max then n else n + 1)"

definition start_cleanup :: "vm_record \<Rightarrow> vm_record" where
  "start_cleanup r = r\<lparr>vr_phase := PhaseCleanupPending, vr_cleanup_attempts := saturating_succ (vr_cleanup_attempts r),
     vr_last_error := None\<rparr>"

definition require_vm :: "('db, 'tx) redb \<Rightarrow> forms \<Rightarrow> uuid \<Rightarrow> (('db, 'h, 'm) world_scheme, stop, vm_record) prog" where
  "require_vm R F vm_id =
    bindP (on_journal (journal_vm R F vm_id)) (\<lambda>v.
    case v of None \<Rightarrow> failP (Failed journal_report) | Some r \<Rightarrow> returnP r)"

definition clean_compute ::
  "('db, 'tx) redb \<Rightarrow> forms \<Rightarrow> ('h, 's, 'n) hooks \<Rightarrow> uuid \<Rightarrow> 's option \<Rightarrow> vm_record \<Rightarrow> ('db, 'h, unit) pass_prog" where
  "clean_compute R F K vm_id system r =
    (if cr_state (vr_compute_system r) \<noteq> Removed then
       bindP (on_host (case system of Some s \<Rightarrow> hk_system K s | None \<Rightarrow> hk_compute K (cr_id (vr_compute_system r)))) (\<lambda>result.
       apply_resource_outcome R F vm_id result ''compute_system'' ''remove'' (cr_id (vr_compute_system r)) set_compute)
     else returnP ())"

definition network_identity :: "network_resource \<Rightarrow> string" where
  "network_identity network = nr_network_name network @ ''/'' @ nr_endpoint_name network"

definition clean_network ::
  "('db, 'tx) redb \<Rightarrow> forms \<Rightarrow> ('h, 's, 'n) hooks \<Rightarrow> uuid \<Rightarrow> 'n option \<Rightarrow> vm_record \<Rightarrow> ('db, 'h, unit) pass_prog" where
  "clean_network R F K vm_id handle r =
    (case vr_network r of
       None \<Rightarrow> returnP ()
     | Some network \<Rightarrow>
         if nr_state network \<noteq> Removed then
           bindP (on_host (case handle of
               Some n \<Rightarrow> hk_close_network K n
             | None \<Rightarrow> hk_network K (nr_network_id network) (nr_network_name network) (nr_endpoint_id network) (nr_endpoint_name network)))
             (\<lambda>result.
           apply_resource_outcome R F vm_id result ''network'' ''delete'' (network_identity network) set_network)
         else returnP ())"

definition disk_identity :: "disk_resource \<Rightarrow> string" where
  "disk_identity disk = to_string_lossy (dr_path disk)"

definition clean_disk ::
  "('db, 'tx) redb \<Rightarrow> forms \<Rightarrow> ('h, 's, 'n) hooks \<Rightarrow> uuid \<Rightarrow> nat \<times> disk_resource \<Rightarrow> ('db, 'h, unit) pass_prog" where
  "clean_disk R F K vm_id = (\<lambda>(index, disk).
    if dr_state disk = Removed then returnP ()
    else
      bindP (on_host (hk_disk K vm_id disk)) (\<lambda>result.
      apply_resource_outcome R F vm_id result ''disk'' ''remove'' (disk_identity disk) (set_disk index)))"

definition complete_cleanup :: "vm_record \<Rightarrow> vm_record" where
  "complete_cleanup r = r\<lparr>vr_phase := PhaseComplete, vr_last_error := None\<rparr>"

section \<open>Giving up\<close>

definition last_error_of :: "cleanup_failure list \<Rightarrow> string \<Rightarrow> string \<Rightarrow> string" where
  "last_error_of failures kind identity =
    (case find (\<lambda>f. cf_kind f = kind \<and> cf_identity f = identity) failures of
       Some f \<Rightarrow> failure_message (cf_kind f) (cf_operation f) (cf_identity f) (cf_cause f)
     | None \<Rightarrow> ''resource_kind='' @ kind @ '' resource_id='' @ identity @ '' cause=cleanup attempts exhausted'')"

text \<open>The closure \<open>consider\<close> on its two captured vectors.\<close>

definition consider_resource ::
  "u64 \<Rightarrow> cleanup_failure list \<Rightarrow> string \<Rightarrow> string \<Rightarrow> resource_state \<Rightarrow>
   abandoned_entry list \<times> abandoned_entry list \<Rightarrow> abandoned_entry list \<times> abandoned_entry list" where
  "consider_resource now failures kind identity state = (\<lambda>(entries, abandoned_now).
    if state = Removed then (entries, abandoned_now)
    else
      let entry = \<lparr>ae_kind = kind, ae_identity = identity, ae_last_error = last_error_of failures kind identity,
                   ae_first_abandoned_at_unix_ms = now\<rparr> in
      (merge_entry entry entries, abandoned_now @ [entry]))"

definition consider_all ::
  "u64 \<Rightarrow> cleanup_failure list \<Rightarrow> vm_record \<Rightarrow> abandoned_entry list \<Rightarrow> abandoned_entry list \<times> abandoned_entry list" where
  "consider_all now failures r entries =
    fold (\<lambda>disk. consider_resource now failures ''disk'' (disk_identity disk) (dr_state disk)) (vr_disks r)
      ((case vr_network r of
          None \<Rightarrow> id
        | Some network \<Rightarrow> consider_resource now failures ''network'' (network_identity network) (nr_state network))
       (consider_resource now failures ''compute_system'' (cr_id (vr_compute_system r)) (cr_state (vr_compute_system r))
         (entries, [])))"

definition abandon_state :: "resource_state \<Rightarrow> resource_state" where
  "abandon_state state = (if state \<noteq> Removed then Abandoned else state)"

fun join_str :: "string \<Rightarrow> string list \<Rightarrow> string" where
  "join_str sep [] = []"
| "join_str sep [x] = x"
| "join_str sep (x # y # xs) = x @ sep @ join_str sep (y # xs)"

definition abandon_record :: "abandoned_entry list \<Rightarrow> vm_record \<Rightarrow> vm_record" where
  "abandon_record abandoned_now r =
    r\<lparr>vr_compute_system := cr_state_update abandon_state (vr_compute_system r),
      vr_network := map_option (nr_state_update abandon_state) (vr_network r),
      vr_disks := map (dr_state_update abandon_state) (vr_disks r),
      vr_last_error := Some (''abandoned after '' @ decimal (unat MAX_CLEANUP_ATTEMPTS) @ '' cleanup attempts: '' @
        join_str ''; '' (map (\<lambda>a. ''resource_kind='' @ ae_kind a @ '' resource_id='' @ ae_identity a) abandoned_now))\<rparr>"

definition abandon_remaining ::
  "('db, 'tx) redb \<Rightarrow> forms \<Rightarrow> u64 \<Rightarrow> uuid \<Rightarrow> vm_record \<Rightarrow> ('db, 'h, unit) pass_prog" where
  "abandon_remaining R F now vm_id r =
    bindP (on_journal (abandoned R F vm_id)) (\<lambda>existing.
    bindP (getsP ps_failures) (\<lambda>failures.
    let (entries, abandoned_now) =
      consider_all now failures r (case existing of Some a \<Rightarrow> ar_entries a | None \<Rightarrow> []) in
    bindP (on_journal (put_abandoned R F
      \<lparr>ar_schema_version = JOURNAL_SCHEMA_VERSION, ar_vm_id = vm_id, ar_entries = entries\<rparr>)) (\<lambda>_.
    bindP (on_journal (update_vm R F vm_id (abandon_record abandoned_now))) (\<lambda>_.
    modifyP (ps_summary_update (su_abandoned_update (\<lambda>n. n + length abandoned_now)))))))"

definition finish_cleanup :: "('db, 'tx) redb \<Rightarrow> forms \<Rightarrow> u64 \<Rightarrow> uuid \<Rightarrow> ('db, 'h, unit) pass_prog" where
  "finish_cleanup R F now vm_id =
    bindP (getsP ps_failures) (\<lambda>failures.
    if failures = [] then
      bindP (on_journal (update_vm R F vm_id complete_cleanup)) (\<lambda>_.
      bindP (on_journal (remove_vm R F vm_id)) (\<lambda>_.
      on_journal (remove_abandoned R F vm_id)))
    else
      bindP (require_vm R F vm_id) (\<lambda>r.
      if MAX_CLEANUP_ATTEMPTS \<le> vr_cleanup_attempts r then abandon_remaining R F now vm_id r
      else failP (Failed (report_new Cleanup [join_str ''; '' (map cf_cause failures)]))))"

text \<open>The body \<open>cleanup_record_async_with\<close> and \<open>cleanup_record_sync_with\<close> share.\<close>

definition cleanup_pass ::
  "('db, 'tx) redb \<Rightarrow> forms \<Rightarrow> ('h, 's, 'n) hooks \<Rightarrow> u64 \<Rightarrow> uuid \<Rightarrow> ('s, 'n) cleanup_resources \<Rightarrow> ('db, 'h, unit) pass_prog" where
  "cleanup_pass R F K now vm_id resources =
    bindP (on_journal (update_vm R F vm_id start_cleanup)) (\<lambda>_.
    bindP (modifyP (ps_failures_update (\<lambda>_. []))) (\<lambda>_.
    bindP (require_vm R F vm_id) (\<lambda>r.
    bindP (clean_compute R F K vm_id (cl_system resources) r) (\<lambda>_.
    bindP (clean_network R F K vm_id (cl_network resources) r) (\<lambda>_.
    bindP (forP (clean_disk R F K vm_id) (enumerate 0 (vr_disks r))) (\<lambda>_.
    finish_cleanup R F now vm_id))))))"

definition cleanup_record_async_with ::
  "('db, 'tx) redb \<Rightarrow> forms \<Rightarrow> ('h, 's, 'n) os \<Rightarrow> u64 \<Rightarrow> uuid \<Rightarrow> ('s, 'n) cleanup_resources \<Rightarrow>
   (string \<Rightarrow> ('h, report, unit) prog) \<Rightarrow>
   (string option \<Rightarrow> string \<Rightarrow> string option \<Rightarrow> string \<Rightarrow> ('h, report, unit) prog) \<Rightarrow>
   (uuid \<Rightarrow> disk_resource \<Rightarrow> ('h, report, unit) prog) \<Rightarrow> ('db, 'h, unit) pass_prog" where
  "cleanup_record_async_with R F P now vm_id resources remove_compute delete_network rm_disk =
    cleanup_pass R F \<lparr>hk_system = os_remove_system P, hk_compute = remove_compute, hk_close_network = os_close_network P,
      hk_network = delete_network, hk_disk = rm_disk\<rparr> now vm_id resources"

definition cleanup_record_sync_with ::
  "('db, 'tx) redb \<Rightarrow> forms \<Rightarrow> ('h, 's, 'n) os \<Rightarrow> u64 \<Rightarrow> uuid \<Rightarrow> ('s, 'n) cleanup_resources \<Rightarrow>
   (string \<Rightarrow> ('h, report, unit) prog) \<Rightarrow>
   (string option \<Rightarrow> string \<Rightarrow> string option \<Rightarrow> string \<Rightarrow> ('h, report, unit) prog) \<Rightarrow>
   (uuid \<Rightarrow> disk_resource \<Rightarrow> ('h, report, unit) prog) \<Rightarrow> ('db, 'h, unit) pass_prog" where
  "cleanup_record_sync_with R F P now vm_id resources remove_compute delete_network rm_disk =
    cleanup_pass R F \<lparr>hk_system = os_remove_system_sync P, hk_compute = remove_compute, hk_close_network = os_close_network P,
      hk_network = delete_network, hk_disk = rm_disk\<rparr> now vm_id resources"

definition empty_summary :: cleanup_summary where
  "empty_summary = \<lparr>su_recovered = 0, su_absent = 0, su_failed = 0, su_abandoned = 0\<rparr>"

text \<open>A pass with a summary of its own.\<close>

definition in_pass :: "('db, 'h, 'a) pass_prog \<Rightarrow> (('db, 'h) world, stop, 'a) prog" where
  "in_pass m w =
    (case m (world.extend w \<lparr>ps_summary = empty_summary, ps_failures = []\<rparr>) of
       (r, p) \<Rightarrow> (r, world.truncate p))"

definition cleanup_record_async ::
  "('db, 'tx) redb \<Rightarrow> forms \<Rightarrow> ('h, 's, 'n) os \<Rightarrow> u64 \<Rightarrow> uuid \<Rightarrow> ('s, 'n) cleanup_resources \<Rightarrow> (('db, 'h) world, stop, unit) prog" where
  "cleanup_record_async R F P now vm_id resources =
    in_pass (cleanup_record_async_with R F P now vm_id resources
      (remove_compute_system_by_id P) (os_delete_network P) (remove_disk P))"

definition cleanup_record_sync ::
  "('db, 'tx) redb \<Rightarrow> forms \<Rightarrow> ('h, 's, 'n) os \<Rightarrow> u64 \<Rightarrow> uuid \<Rightarrow> ('s, 'n) cleanup_resources \<Rightarrow> (('db, 'h) world, stop, unit) prog" where
  "cleanup_record_sync R F P now vm_id resources =
    in_pass (cleanup_record_sync_with R F P now vm_id resources
      (remove_compute_system_by_id_sync P) (os_delete_network P) (remove_disk P))"

section \<open>The handle of a running VM\<close>

record ('s, 'n) vm =
  vm_id :: uuid
  vm_system :: "'s option"
  vm_network :: "'n option"
  vm_cleanup_completed :: bool

definition take_cleanup_resources :: "('s, 'n) vm \<Rightarrow> ('s, 'n) cleanup_resources" where
  "take_cleanup_resources v = \<lparr>cl_system = vm_system v, cl_network = vm_network v\<rparr>"

definition empty_resources :: "('s, 'n) cleanup_resources" where
  "empty_resources = \<lparr>cl_system = None, cl_network = None\<rparr>"

text \<open>Dropping the handle; an error of the cleanup is only logged.\<close>

definition vm_drop ::
  "('db, 'tx) redb \<Rightarrow> forms \<Rightarrow> ('h, 's, 'n) os \<Rightarrow> u64 \<Rightarrow> ('s, 'n) vm \<Rightarrow> (('db, 'h) world, stop, unit) prog" where
  "vm_drop R F P now v =
    (if vm_cleanup_completed v then returnP ()
     else
       bindP (tryP (cleanup_record_sync R F P now (vm_id v) (take_cleanup_resources v))) (\<lambda>result.
       case result of Inl (Failed _) \<Rightarrow> returnP () | r \<Rightarrow> ofResult r))"

text \<open>\<open>close\<close> takes the handle: when the cleanup fails, dropping it makes another pass.\<close>

definition vm_close ::
  "('db, 'tx) redb \<Rightarrow> forms \<Rightarrow> ('h, 's, 'n) os \<Rightarrow> u64 \<Rightarrow> u64 \<Rightarrow> ('s, 'n) vm \<Rightarrow> (('db, 'h) world, stop, unit) prog" where
  "vm_close R F P now now' v =
    bindP (tryP (cleanup_record_async R F P now (vm_id v) (take_cleanup_resources v))) (\<lambda>result.
    case result of
      Inl Crashed \<Rightarrow> failP Crashed
    | _ \<Rightarrow>
        bindP (vm_drop R F P now' (v\<lparr>vm_system := None, vm_network := None,
          vm_cleanup_completed := (if isOk result then True else vm_cleanup_completed v)\<rparr>)) (\<lambda>_.
        ofResult result))"

definition vm_start ::
  "('db, 'tx) redb \<Rightarrow> forms \<Rightarrow> ('h, 's, 'n) os \<Rightarrow> ('s, 'n) vm \<Rightarrow> (('db, 'h) world, stop, unit) prog" where
  "vm_start R F P v =
    (case vm_system v of
       None \<Rightarrow> failP (Failed (report_new ComputeSystemStart [''VM already stopped or not initialized'']))
     | Some system \<Rightarrow>
         bindP (on_host (os_start_system P system)) (\<lambda>result.
         case result of
           Inl error \<Rightarrow> failP (Failed error)
         | Inr _ \<Rightarrow>
             on_journal (update_vm R F (vm_id v) (\<lambda>r.
               if vr_phase r = PhasePlanned then r\<lparr>vr_phase := PhaseStarting\<rparr> else r))))"

definition publish_disk :: "disk_resource \<Rightarrow> disk_resource" where
  "publish_disk disk =
    (let disk = disk\<lparr>dr_published := True\<rparr> in
     if dr_initialization_requested disk then disk\<lparr>dr_initialization_acknowledged := True\<rparr> else disk)"

definition mark_published :: "('db, 'tx) redb \<Rightarrow> forms \<Rightarrow> ('s, 'n) vm \<Rightarrow> (('db, 'h) world, stop, unit) prog" where
  "mark_published R F v =
    on_journal (update_vm R F (vm_id v) (\<lambda>r.
      r\<lparr>vr_phase := PhasePublished, vr_published := True, vr_last_error := None, vr_disks := map publish_disk (vr_disks r)\<rparr>))"

section \<open>Resources\<close>

text \<open>The resources of a record without their states, and the names they have in the inventory.\<close>

datatype resource = RCompute string | RNetwork string string | RDisk disk_resource

definition fixed_part :: "disk_resource \<Rightarrow> disk_resource" where
  "fixed_part d = d\<lparr>dr_state := Planned, dr_vm_ace_added := False\<rparr>"

definition resources :: "vm_record \<Rightarrow> (resource \<times> resource_state) list" where
  "resources r =
    (RCompute (cr_id (vr_compute_system r)), cr_state (vr_compute_system r)) #
    (case vr_network r of None \<Rightarrow> [] | Some n \<Rightarrow> [(RNetwork (nr_network_name n) (nr_endpoint_name n), nr_state n)]) @
    map (\<lambda>d. (RDisk (fixed_part d), dr_state d)) (vr_disks r)"

fun resource_key :: "resource \<Rightarrow> string \<times> string" where
  "resource_key (RCompute i) = (''compute_system'', i)"
| "resource_key (RNetwork n e) = (''network'', n @ ''/'' @ e)"
| "resource_key (RDisk d) = (''disk'', disk_identity d)"

text \<open>A disk a cleanup may delete.\<close>

definition removable :: "disk_resource \<Rightarrow> bool" where
  "removable d \<longleftrightarrow> dr_origin d = CreatedByLaunch \<and> deletable d"

text \<open>Nothing is left to do for a resource.\<close>

fun settled :: "('h, 's, 'n) os \<Rightarrow> 'h \<Rightarrow> resource \<Rightarrow> bool" where
  "settled P h (RCompute i) \<longleftrightarrow> i \<notin> os_systems P h"
| "settled P h (RNetwork n e) \<longleftrightarrow> (n, e) \<notin> os_networks P h"
| "settled P h (RDisk d) \<longleftrightarrow>
    (removable d \<longrightarrow> (case dr_file_identity d of None \<Rightarrow> True | Some i \<Rightarrow> os_files P h (dr_path d) \<noteq> Some i))"

text \<open>The host lost at most what the resources name; files only if their identity is the recorded one.\<close>

definition spares :: "('h, 's, 'n) os \<Rightarrow> resource set \<Rightarrow> 'h \<Rightarrow> 'h \<Rightarrow> bool" where
  "spares P X h h' \<longleftrightarrow>
    (\<forall>i. i \<in> os_systems P h' \<longrightarrow> i \<in> os_systems P h)
    \<and> (\<forall>i. i \<in> os_systems P h \<longrightarrow> i \<notin> os_systems P h' \<longrightarrow> RCompute i \<in> X)
    \<and> (\<forall>n e. (n, e) \<in> os_networks P h' \<longrightarrow> (n, e) \<in> os_networks P h)
    \<and> (\<forall>n e. (n, e) \<in> os_networks P h \<longrightarrow> (n, e) \<notin> os_networks P h' \<longrightarrow> RNetwork n e \<in> X)
    \<and> (\<forall>p. os_files P h' p = os_files P h p
         \<or> os_files P h' p = None
           \<and> (\<exists>d. RDisk d \<in> X \<and> dr_path d = p \<and> removable d \<and> dr_file_identity d = os_files P h p))"

lemma sparesD:
  assumes "spares P X h h'"
  shows "i \<in> os_systems P h' \<Longrightarrow> i \<in> os_systems P h"
    and "i \<in> os_systems P h \<Longrightarrow> i \<notin> os_systems P h' \<Longrightarrow> RCompute i \<in> X"
    and "(n, e) \<in> os_networks P h' \<Longrightarrow> (n, e) \<in> os_networks P h"
    and "(n, e) \<in> os_networks P h \<Longrightarrow> (n, e) \<notin> os_networks P h' \<Longrightarrow> RNetwork n e \<in> X"
    and "os_files P h' p = os_files P h p
         \<or> os_files P h' p = None
           \<and> (\<exists>d. RDisk d \<in> X \<and> dr_path d = p \<and> removable d \<and> dr_file_identity d = os_files P h p)"
  using assms unfolding spares_def by simp_all

lemma sparesI:
  assumes "\<And>i. i \<in> os_systems P h' \<Longrightarrow> i \<in> os_systems P h"
    and "\<And>i. i \<in> os_systems P h \<Longrightarrow> i \<notin> os_systems P h' \<Longrightarrow> RCompute i \<in> X"
    and "\<And>n e. (n, e) \<in> os_networks P h' \<Longrightarrow> (n, e) \<in> os_networks P h"
    and "\<And>n e. (n, e) \<in> os_networks P h \<Longrightarrow> (n, e) \<notin> os_networks P h' \<Longrightarrow> RNetwork n e \<in> X"
    and "\<And>p. os_files P h' p = os_files P h p
         \<or> os_files P h' p = None
           \<and> (\<exists>d. RDisk d \<in> X \<and> dr_path d = p \<and> removable d \<and> dr_file_identity d = os_files P h p)"
  shows "spares P X h h'"
  using assms unfolding spares_def by simp

lemma spares_refl [simp]: "spares P X h h"
  by (simp add: spares_def)

lemma spares_mono:
  assumes "spares P X h h'" "X \<subseteq> Y"
  shows "spares P Y h h'"
  using sparesD [OF assms(1)] assms(2) by (intro sparesI) blast+

lemma spares_trans:
  assumes "spares P X h h'" "spares P X h' h''"
  shows "spares P X h h''"
proof (rule sparesI)
  fix p
  from sparesD(5) [OF assms(1), of p] sparesD(5) [OF assms(2), of p]
  show "os_files P h'' p = os_files P h p
         \<or> os_files P h'' p = None
           \<and> (\<exists>d. RDisk d \<in> X \<and> dr_path d = p \<and> removable d \<and> dr_file_identity d = os_files P h p)"
    by auto
qed (use sparesD(1-4) [OF assms(1)] sparesD(1-4) [OF assms(2)] in blast)+

lemma settled_spares:
  assumes "spares P X h h'" "settled P h x"
  shows "settled P h' x"
proof (cases x)
  case (RDisk d)
  from sparesD(5) [OF assms(1), of "dr_path d"] assms(2) RDisk show ?thesis by (auto split: option.splits)
qed (use assms sparesD(1,3) [OF assms(1)] in auto)

text \<open>A text that the test for absent resources takes for one of its codes.\<close>

definition names_absence :: "string \<Rightarrow> bool" where
  "names_absence txt \<longleftrightarrow>
    contains ''0x80070490'' (to_ascii_lowercase txt) \<or> contains ''0x80070002'' (to_ascii_lowercase txt)"

definition reports_gone :: "report + unit \<Rightarrow> bool" where
  "reports_gone r = (case r of Inr _ \<Rightarrow> True | Inl e \<Rightarrow> resource_is_absent e)"

definition hook_effect :: "('h, 's, 'n) os \<Rightarrow> resource \<Rightarrow> 'h \<Rightarrow> report + unit \<Rightarrow> 'h \<Rightarrow> bool" where
  "hook_effect P x h r h' \<longleftrightarrow> spares P {x} h h' \<and> (reports_gone r \<longrightarrow> settled P h' x)"

section \<open>The contract of the host\<close>

text \<open>
  Documented behaviour of the host: calls change only what they name, a removal that succeeds or reports
  one of the two codes for a missing object leaves none, existence checks and identities are those of
  the files. Errors of the file calls name one of the codes only inside the path or for a missing file.
\<close>

definition same_host :: "('h, 's, 'n) os \<Rightarrow> 'h \<Rightarrow> 'h \<Rightarrow> bool" where
  "same_host P h h' \<longleftrightarrow> os_files P h' = os_files P h \<and> os_systems P h' = os_systems P h \<and> os_networks P h' = os_networks P h"

definition os_ok :: "('h, 's, 'n) os \<Rightarrow> bool" where
  "os_ok P \<longleftrightarrow>
    (\<forall>i h r h'. os_open_system P i h = (r, h') \<longrightarrow> same_host P h h'
       \<and> (\<forall>s. r = Ok s \<longrightarrow> os_system_of P s = i) \<and> (\<forall>e. r = Err e \<longrightarrow> resource_is_absent e \<longrightarrow> i \<notin> os_systems P h))
    \<and> (\<forall>s h r h'. os_remove_system P s h = (r, h') \<longrightarrow> hook_effect P (RCompute (os_system_of P s)) h r h')
    \<and> (\<forall>s h r h'. os_remove_system_sync P s h = (r, h') \<longrightarrow> hook_effect P (RCompute (os_system_of P s)) h r h')
    \<and> (\<forall>s h r h'. os_start_system P s h = (r, h') \<longrightarrow> same_host P h h')
    \<and> (\<forall>ni n ei e h r h'. os_delete_network P ni n ei e h = (r, h') \<longrightarrow> hook_effect P (RNetwork n e) h r h')
    \<and> (\<forall>c h r h'. os_close_network P c h = (r, h') \<longrightarrow>
         hook_effect P (RNetwork (fst (os_network_of P c)) (snd (os_network_of P c))) h r h')
    \<and> (\<forall>p h b h'. os_exists P p h = (b, h') \<longrightarrow> same_host P h h' \<and> (b \<longleftrightarrow> os_files P h p \<noteq> None))
    \<and> (\<forall>p h r h'. os_file_identity P p h = (r, h') \<longrightarrow> same_host P h h'
         \<and> (\<forall>i. r = Ok i \<longrightarrow> os_files P h p = Some i)
         \<and> (\<forall>e. r = Err e \<longrightarrow> resource_is_absent e \<longrightarrow> names_absence (to_string_lossy p) \<or> os_files P h p = None))
    \<and> (\<forall>p h r h'. os_remove_file P p h = (r, h') \<longrightarrow>
         os_systems P h' = os_systems P h \<and> os_networks P h' = os_networks P h
         \<and> (r = Ok () \<longrightarrow> os_files P h' = (os_files P h)(p := None))
         \<and> (r = Err IoNotFound \<longrightarrow> os_files P h' = os_files P h \<and> os_files P h p = None)
         \<and> (\<forall>t. r = Err (IoOther t) \<longrightarrow> os_files P h' = os_files P h \<and> \<not> names_absence t))
    \<and> (\<forall>p sid h r h'. os_revoke_access P p sid h = (r, h') \<longrightarrow> same_host P h h'
         \<and> (\<forall>e. r = Err e \<longrightarrow> resource_is_absent e \<longrightarrow> names_absence (to_string_lossy p) \<or> os_files P h p = None))
    \<and> (\<forall>s e. os_validate_sddl P s = Err e \<longrightarrow> \<not> resource_is_absent e)"

lemma os_ok_parts:
  assumes "os_ok P"
  shows "(\<forall>i h r h'. os_open_system P i h = (r, h') \<longrightarrow> same_host P h h'
       \<and> (\<forall>s. r = Ok s \<longrightarrow> os_system_of P s = i) \<and> (\<forall>e. r = Err e \<longrightarrow> resource_is_absent e \<longrightarrow> i \<notin> os_systems P h))"
    and "(\<forall>s h r h'. os_remove_system P s h = (r, h') \<longrightarrow> hook_effect P (RCompute (os_system_of P s)) h r h')"
    and "(\<forall>s h r h'. os_remove_system_sync P s h = (r, h') \<longrightarrow> hook_effect P (RCompute (os_system_of P s)) h r h')"
    and "(\<forall>s h r h'. os_start_system P s h = (r, h') \<longrightarrow> same_host P h h')"
    and "(\<forall>ni n ei e h r h'. os_delete_network P ni n ei e h = (r, h') \<longrightarrow> hook_effect P (RNetwork n e) h r h')"
    and "(\<forall>c h r h'. os_close_network P c h = (r, h') \<longrightarrow>
         hook_effect P (RNetwork (fst (os_network_of P c)) (snd (os_network_of P c))) h r h')"
    and "(\<forall>p h b h'. os_exists P p h = (b, h') \<longrightarrow> same_host P h h' \<and> (b \<longleftrightarrow> os_files P h p \<noteq> None))"
    and "(\<forall>p h r h'. os_file_identity P p h = (r, h') \<longrightarrow> same_host P h h'
         \<and> (\<forall>i. r = Ok i \<longrightarrow> os_files P h p = Some i)
         \<and> (\<forall>e. r = Err e \<longrightarrow> resource_is_absent e \<longrightarrow> names_absence (to_string_lossy p) \<or> os_files P h p = None))"
    and "(\<forall>p h r h'. os_remove_file P p h = (r, h') \<longrightarrow>
         os_systems P h' = os_systems P h \<and> os_networks P h' = os_networks P h
         \<and> (r = Ok () \<longrightarrow> os_files P h' = (os_files P h)(p := None))
         \<and> (r = Err IoNotFound \<longrightarrow> os_files P h' = os_files P h \<and> os_files P h p = None)
         \<and> (\<forall>t. r = Err (IoOther t) \<longrightarrow> os_files P h' = os_files P h \<and> \<not> names_absence t))"
    and "(\<forall>p sid h r h'. os_revoke_access P p sid h = (r, h') \<longrightarrow> same_host P h h'
         \<and> (\<forall>e. r = Err e \<longrightarrow> resource_is_absent e \<longrightarrow> names_absence (to_string_lossy p) \<or> os_files P h p = None))"
    and "(\<forall>s e. os_validate_sddl P s = Err e \<longrightarrow> \<not> resource_is_absent e)"
  using assms unfolding os_ok_def by (elim conjE; simp only: simp_thms)+

lemmas os_okD = os_ok_parts [rule_format]

section \<open>The texts of errors\<close>

lemma contains_sep:
  assumes "c \<notin> set pat"
  shows "contains pat (a @ c # b) \<longleftrightarrow> contains pat a \<or> contains pat b"
proof
  assume "contains pat (a @ c # b)"
  then obtain xs ys where "a @ c # b = xs @ pat @ ys" by (auto simp: contains_iff)
  then consider us where "a = xs @ us" "us @ c # b = pat @ ys" | us where "xs = a @ us" "c # b = us @ pat @ ys"
    by (auto simp: append_eq_append_conv2)
  then show "contains pat a \<or> contains pat b"
  proof cases
    case 1
    then consider vs where "us = pat @ vs" | vs where "pat = us @ vs" "c # b = vs @ ys"
      by (auto simp: append_eq_append_conv2)
    then show ?thesis
    proof cases
      case 1
      with \<open>a = xs @ us\<close> show ?thesis by (auto simp: contains_iff)
    next
      case 2
      with assms have "vs = []" by (cases vs) auto
      with 2 \<open>a = xs @ us\<close> have "a = xs @ pat @ []" by simp
      then show ?thesis unfolding contains_iff by blast
    qed
  next
    case 2
    show ?thesis
    proof (cases us)
      case Nil
      with 2 assms have "pat = []" by (cases pat) auto
      then have "b = [] @ pat @ b" by simp
      then show ?thesis unfolding contains_iff by blast
    next
      case (Cons u us')
      with 2 have "b = us' @ pat @ ys" by simp
      then show ?thesis unfolding contains_iff by blast
    qed
  qed
next
  assume "contains pat a \<or> contains pat b"
  then show "contains pat (a @ c # b)"
  proof
    assume "contains pat a"
    then obtain xs ys where "a = xs @ pat @ ys" by (auto simp: contains_iff)
    then have "a @ c # b = xs @ pat @ (ys @ c # b)" by simp
    then show ?thesis unfolding contains_iff by blast
  next
    assume "contains pat b"
    then obtain xs ys where "b = xs @ pat @ ys" by (auto simp: contains_iff)
    then have "a @ c # b = (a @ c # xs) @ pat @ ys" by simp
    then show ?thesis unfolding contains_iff by blast
  qed
qed

lemma names_absence_blank:
  "names_absence (a @ CHR '' '' # b) \<longleftrightarrow> names_absence a \<or> names_absence b"
proof -
  have "to_ascii_lowercase (a @ CHR '' '' # b) = to_ascii_lowercase a @ CHR '' '' # to_ascii_lowercase b"
    by (simp add: to_ascii_lowercase_def ascii_lower_def)
  then show ?thesis by (auto simp: names_absence_def contains_sep)
qed

lemma absent_names: "resource_is_absent r \<longleftrightarrow> names_absence (report_text r)"
  by (simp add: resource_is_absent_def names_absence_def Let_def)

lemma disk_error_texts:
  assumes "\<not> names_absence display"
  shows "\<not> resource_is_absent (report_new Cleanup [''refusing to delete '' @ display @ '' without a recorded file identity''])"
    and "\<not> resource_is_absent (report_new DiskIdentityChanged [''file identity changed before deleting '' @ display])"
    and "\<not> names_absence t \<Longrightarrow> \<not> resource_is_absent (report_new Cleanup [''remove journaled disk '' @ display @ '': '' @ t])"
proof -
  have "report_text (report_new Cleanup [''refusing to delete '' @ display @ '' without a recorded file identity''])
      = ''journaled HCS resource cleanup failed; refusing to delete'' @ CHR '' '' # display @ CHR '' '' #
        ''without a recorded file identity''"
    by (simp add: report_text_def report_new_def)
  moreover have "\<not> names_absence ''journaled HCS resource cleanup failed; refusing to delete''"
      "\<not> names_absence ''without a recorded file identity''"
    by code_simp+
  ultimately show "\<not> resource_is_absent (report_new Cleanup [''refusing to delete '' @ display @ '' without a recorded file identity''])"
    using assms unfolding absent_names by (simp only: names_absence_blank simp_thms)
  have "report_text (report_new DiskIdentityChanged [''file identity changed before deleting '' @ display])
      = ''disk file identity changed since it was recorded; file identity changed before deleting'' @ CHR '' '' # display"
    by (simp add: report_text_def report_new_def)
  moreover have "\<not> names_absence ''disk file identity changed since it was recorded; file identity changed before deleting''"
    by code_simp
  ultimately show "\<not> resource_is_absent (report_new DiskIdentityChanged [''file identity changed before deleting '' @ display])"
    using assms unfolding absent_names by (simp only: names_absence_blank simp_thms)
  assume t: "\<not> names_absence t"
  have c: "names_absence (a @ CHR '':'' # b) \<longleftrightarrow> names_absence a \<or> names_absence b" for a b
  proof -
    have "to_ascii_lowercase (a @ CHR '':'' # b) = to_ascii_lowercase a @ CHR '':'' # to_ascii_lowercase b"
      by (simp add: to_ascii_lowercase_def ascii_lower_def)
    then show ?thesis by (auto simp: names_absence_def contains_sep)
  qed
  have "report_text (report_new Cleanup [''remove journaled disk '' @ display @ '': '' @ t])
      = ''journaled HCS resource cleanup failed; remove journaled disk'' @ CHR '' '' # display @ CHR '':'' # [] @ CHR '' '' # t"
    by (simp add: report_text_def report_new_def)
  moreover have "\<not> names_absence ''journaled HCS resource cleanup failed; remove journaled disk''" "\<not> names_absence []"
    by code_simp+
  ultimately show "\<not> resource_is_absent (report_new Cleanup [''remove journaled disk '' @ display @ '': '' @ t])"
    using assms t unfolding absent_names by (simp only: names_absence_blank c simp_thms)
qed

section \<open>The operations a pass relies on\<close>

text \<open>What a pass asks of its operations: each only touches its resource, and reports it as gone only when it is.\<close>

locale cleanup_operations =
  fixes P :: "('h, 's, 'n) os" and K :: "('h, 's, 'n) hooks"
  assumes system_effect: "os_ok P \<Longrightarrow> hk_system K s h = (r, h') \<Longrightarrow> hook_effect P (RCompute (os_system_of P s)) h r h'"
    and compute_effect: "os_ok P \<Longrightarrow> hk_compute K i h = (r, h') \<Longrightarrow> hook_effect P (RCompute i) h r h'"
    and close_effect: "os_ok P \<Longrightarrow> hk_close_network K c h = (r, h') \<Longrightarrow>
      hook_effect P (RNetwork (fst (os_network_of P c)) (snd (os_network_of P c))) h r h'"
    and network_effect: "os_ok P \<Longrightarrow> hk_network K ni n ei e h = (r, h') \<Longrightarrow> hook_effect P (RNetwork n e) h r h'"
    and disk_effect: "os_ok P \<Longrightarrow> \<not> names_absence (disk_identity d) \<Longrightarrow>
      dr_state d = Planned \<longrightarrow> dr_file_identity d = None \<Longrightarrow> hk_disk K u d h = (r, h') \<Longrightarrow>
      hook_effect P (RDisk (fixed_part d)) h r h'"

lemma same_host_simps:
  "same_host P h h' \<Longrightarrow> os_files P h' = os_files P h" "same_host P h h' \<Longrightarrow> os_systems P h' = os_systems P h"
  "same_host P h h' \<Longrightarrow> os_networks P h' = os_networks P h"
  by (simp_all add: same_host_def)

lemma same_host_spares: "same_host P h h' \<Longrightarrow> spares P X h h'"
  by (simp add: same_host_def spares_def)

lemma same_host_trans: "same_host P h h1 \<Longrightarrow> same_host P h1 h2 \<Longrightarrow> same_host P h h2"
  by (simp add: same_host_def)

lemma same_host_refl: "same_host P h h"
  by (simp add: same_host_def)

lemma remove_by_id_effect:
  assumes P: "os_ok P" and rm: "\<And>s h r h'. remove s h = (r, h') \<Longrightarrow> hook_effect P (RCompute (os_system_of P s)) h r h'"
    and run: "remove_by_id P remove i h = (r, h')"
  shows "hook_effect P (RCompute i) h r h'"
proof -
  obtain q h1 where q: "os_open_system P i h = (q, h1)" by fastforce
  from os_okD(1) [OF P q] have h1: "same_host P h h1" by simp
  show ?thesis
  proof (cases q)
    case (Inl e)
    with run q have "r = (if resource_is_absent e then Ok () else Err e)" "h' = h1"
      by (auto simp: remove_by_id_def split: if_splits)
    with os_okD(1) [OF P q] Inl h1 show ?thesis
      by (auto simp: hook_effect_def same_host_spares reports_gone_def same_host_simps split: if_splits)
  next
    case (Inr s)
    with run q have "remove s h1 = (r, h')" by (simp add: remove_by_id_def)
    from rm [OF this] os_okD(1) [OF P q] Inr h1 show ?thesis
      by (auto simp: hook_effect_def intro: spares_trans same_host_spares)
  qed
qed

lemma revoke_effect:
  assumes P: "os_ok P" and run: "revoke_disk_access P u d h = (r, h')"
  shows "same_host P h h'"
    and "r = Err e \<Longrightarrow> resource_is_absent e \<Longrightarrow> names_absence (disk_identity d) \<or> os_files P h (dr_path d) = None"
proof -
  obtain b h1 where b: "os_exists P (dr_path d) h = (b, h1)" by fastforce
  note e1 = os_okD(7) [OF P b]
  obtain q h2 where q: "os_revoke_access P (dr_path d) (vm_identity_sid P u) h1 = (q, h2)" by fastforce
  note e2 = os_okD(10) [OF P q]
  obtain v where v: "validate_vm_identity_sid P (vm_identity_sid P u) = v" by blast
  have v': "v = Err x \<Longrightarrow> \<not> resource_is_absent x" for x
    using os_okD(11) [OF P] v by (auto simp: validate_vm_identity_sid_def)
  consider "r = Ok ()" "h' = h" | x where "v = Err x" "r = Err x" "h' = h" | "r = Ok ()" "h' = h1" | "r = q" "h' = h2"
    using run b q v
    by (cases v) (auto simp: revoke_disk_access_def Let_def bindP_def ofResult_def returnP_def split: if_splits)
  then show "same_host P h h'"
      "r = Err e \<Longrightarrow> resource_is_absent e \<Longrightarrow> names_absence (disk_identity d) \<or> os_files P h (dr_path d) = None"
    using e1 e2 v' by (cases; auto simp: same_host_def disk_identity_def)+
qed

lemma delete_disk_effect:
  assumes P: "os_ok P" and d: "\<not> names_absence (disk_identity d)" "removable d" and run: "delete_disk P d h = (r, h')"
  shows "hook_effect P (RDisk (fixed_part d)) h r h'"
proof -
  let ?p = "dr_path d"
  obtain b h1 where b: "os_exists P ?p h = (b, h1)" by fastforce
  note e1 = os_okD(7) [OF P b]
  have fx: "dr_path (fixed_part d) = ?p" "dr_file_identity (fixed_part d) = dr_file_identity d" "removable (fixed_part d)"
    using d(2) by (simp_all add: fixed_part_def removable_def deletable_def)
  note texts = disk_error_texts [OF d(1) [unfolded disk_identity_def]]
  show ?thesis
  proof (cases "b \<and> dr_file_identity d \<noteq> None")
    case False
    then have "r = Ok () \<and> \<not> b \<or> (\<exists>e. r = Err e \<and> \<not> resource_is_absent e)" and h': "h' = h1"
      using run b texts(1) by (auto simp: delete_disk_def Let_def split: if_splits option.splits)
    then show ?thesis
      using e1 by (auto simp: hook_effect_def same_host_spares reports_gone_def fx same_host_simps split: option.splits)
  next
    case True
    then obtain i where i: "dr_file_identity d = Some i" and b1: b by auto
    obtain q h2 where q: "os_file_identity P ?p h1 = (q, h2)" by fastforce
    note e2 = os_okD(8) [OF P q]
    have h2: "same_host P h h2" using e1 e2 by (auto simp: same_host_def)
    obtain m h3 where m: "os_remove_file P ?p h2 = (m, h3)" by fastforce
    note e3 = os_okD(9) [OF P m]
    consider e where "q = Err e" "r = Err e" "h' = h2"
      | j where "q = Ok j" "j \<noteq> i" "\<exists>e. r = Err e \<and> \<not> resource_is_absent e" "h' = h2"
      | "q = Ok i" "m = Ok ()" "r = Ok ()" "h' = h3"
      | "q = Ok i" "m = Err IoNotFound" "r = Ok ()" "h' = h3"
      | t where "q = Ok i" "m = Err (IoOther t)" "\<exists>e. r = Err e \<and> \<not> resource_is_absent e" "h' = h3"
      using run b b1 i q m texts(2,3) e3
      by (cases q; cases m) (auto simp: delete_disk_def Let_def split: if_splits io_failure.splits)
    then show ?thesis
    proof cases
      case 1
      have "resource_is_absent e \<Longrightarrow> os_files P h ?p = None"
        using e1 e2 1 d(1) by (auto simp: disk_identity_def same_host_simps)
      with 1 h2 show ?thesis by (auto simp: hook_effect_def same_host_spares reports_gone_def fx i same_host_simps)
    next
      case 2
      with h2 show ?thesis by (auto simp: hook_effect_def same_host_spares reports_gone_def)
    next
      case 3
      have "os_files P h ?p = Some i" using e1 e2 3 by (auto simp: same_host_simps)
      with 3 h2 e3 show ?thesis
        by (auto simp: hook_effect_def spares_def fx i same_host_simps)
    next
      case 4
      with h2 e3 show ?thesis by (auto simp: hook_effect_def spares_def reports_gone_def fx i same_host_simps)
    next
      case 5
      with h2 e3 show ?thesis by (auto simp: hook_effect_def spares_def reports_gone_def same_host_simps)
    qed
  qed
qed

lemma remove_disk_effect:
  assumes P: "os_ok P" and d: "\<not> names_absence (disk_identity d)" "dr_state d = Planned \<longrightarrow> dr_file_identity d = None"
    and run: "remove_disk P u d h = (r, h')"
  shows "hook_effect P (RDisk (fixed_part d)) h r h'"
proof (cases "dr_state d = Planned")
  case True
  with d(2) run show ?thesis by (auto simp: remove_disk_def returnP_def hook_effect_def fixed_part_def)
next
  case False
  obtain q h1 where q: "revoke_disk_access P u d h = (q, h1)" by fastforce
  note e1 = revoke_effect [OF P q]
  show ?thesis
  proof (cases q)
    case (Inl e)
    with run False q have "r = Err e" "h' = h1" by (simp_all add: remove_disk_def bindP_def)
    with e1 Inl d(1) show ?thesis
      by (auto simp: hook_effect_def same_host_spares reports_gone_def fixed_part_def same_host_simps split: option.splits)
  next
    case (Inr x)
    show ?thesis
    proof (cases "removable d")
      case True
      then have "delete_disk P d h1 = (r, h')" using run False q Inr by (auto simp: remove_disk_def bindP_def removable_def)
      from delete_disk_effect [OF P d(1) True this] same_host_spares [OF e1(1)]
      show ?thesis by (auto simp: hook_effect_def intro: spares_trans)
    next
      case no: False
      then have "h' = h1" using run False q Inr
        by (cases "dr_origin d") (auto simp: remove_disk_def bindP_def removable_def returnP_def)
      moreover have "\<not> removable (fixed_part d)" using no by (simp add: fixed_part_def removable_def deletable_def)
      ultimately show ?thesis using same_host_spares [OF e1(1)] by (auto simp: hook_effect_def)
    qed
  qed
qed

definition async_hooks :: "('h, 's, 'n) os \<Rightarrow> ('h, 's, 'n) hooks" where
  "async_hooks P = \<lparr>hk_system = os_remove_system P, hk_compute = remove_compute_system_by_id P,
     hk_close_network = os_close_network P, hk_network = os_delete_network P, hk_disk = remove_disk P\<rparr>"

definition sync_hooks :: "('h, 's, 'n) os \<Rightarrow> ('h, 's, 'n) hooks" where
  "sync_hooks P = \<lparr>hk_system = os_remove_system_sync P, hk_compute = remove_compute_system_by_id_sync P,
     hk_close_network = os_close_network P, hk_network = os_delete_network P, hk_disk = remove_disk P\<rparr>"

interpretation async: cleanup_operations P "async_hooks P"
  by unfold_locales
    (auto simp: async_hooks_def remove_compute_system_by_id_def dest: os_okD remove_by_id_effect remove_disk_effect)

interpretation sync: cleanup_operations P "sync_hooks P"
  by unfold_locales
    (auto simp: sync_hooks_def remove_compute_system_by_id_sync_def dest: os_okD remove_by_id_effect remove_disk_effect)

lemma cleanup_pass_eqs:
  "cleanup_record_async_with R F P now u rs (remove_compute_system_by_id P) (os_delete_network P) (remove_disk P)
    = cleanup_pass R F (async_hooks P) now u rs"
  "cleanup_record_sync_with R F P now u rs (remove_compute_system_by_id_sync P) (os_delete_network P) (remove_disk P)
    = cleanup_pass R F (sync_hooks P) now u rs"
  by (simp_all add: cleanup_record_async_with_def cleanup_record_sync_with_def async_hooks_def sync_hooks_def)

section \<open>The invariant of the journal\<close>

definition inventory :: "jstate \<Rightarrow> uuid \<Rightarrow> (string \<times> string) set" where
  "inventory js u = (case js_abandoned js u of None \<Rightarrow> {} | Some a \<Rightarrow> entry_key ` set (ar_entries a))"

abbreviation skeleton :: "vm_record \<Rightarrow> resource list" where
  "skeleton r \<equiv> map fst (resources r)"

fun unidentified :: "resource \<Rightarrow> bool" where
  "unidentified (RDisk d) \<longleftrightarrow> dr_file_identity d = None"
| "unidentified _ \<longleftrightarrow> True"

text \<open>
  A resource marked as removed is gone, one marked as abandoned is in the inventory, and a disk that is
  only planned has no identity. A record is complete only when everything is removed, and the inventory
  of a VM lists resources of its record.
\<close>

definition record_ok :: "('h, 's, 'n) os \<Rightarrow> 'h \<Rightarrow> (string \<times> string) set \<Rightarrow> vm_record \<Rightarrow> bool" where
  "record_ok P h listed r \<longleftrightarrow>
    (\<forall>(x, st) \<in> set (resources r).
       (st = Removed \<longrightarrow> settled P h x) \<and> (st = Abandoned \<longrightarrow> resource_key x \<in> listed) \<and> (st = Planned \<longrightarrow> unidentified x))
    \<and> (vr_phase r = PhaseComplete \<longrightarrow> (\<forall>(x, st) \<in> set (resources r). st = Removed))
    \<and> listed \<subseteq> resource_key ` set (skeleton r)"

definition journal_ok :: "('h, 's, 'n) os \<Rightarrow> 'h \<Rightarrow> jstate \<Rightarrow> bool" where
  "journal_ok P h js \<longleftrightarrow> (\<forall>u r. js_vms js u = Some r \<longrightarrow> vr_vm_id r = u \<and> record_ok P h (inventory js u) r)"

text \<open>The resources of a VM are in its record, in the inventory, or settled.\<close>

definition accounted :: "('h, 's, 'n) os \<Rightarrow> 'h \<Rightarrow> jstate \<Rightarrow> uuid \<Rightarrow> resource list \<Rightarrow> bool" where
  "accounted P h js u xs \<longleftrightarrow>
    (case js_vms js u of
       Some r \<Rightarrow> skeleton r = xs
     | None \<Rightarrow> \<forall>x \<in> set xs. settled P h x \<or> resource_key x \<in> inventory js u)"

definition other_vms :: "uuid \<Rightarrow> jstate \<Rightarrow> jstate \<Rightarrow> bool" where
  "other_vms u js0 js \<longleftrightarrow>
    js_session js = js_session js0
    \<and> (\<forall>w. w \<noteq> u \<longrightarrow> js_vms js w = js_vms js0 w \<and> js_abandoned js w = js_abandoned js0 w)"

definition pass_inv ::
  "('h, 's, 'n) os \<Rightarrow> 'h \<Rightarrow> jstate \<Rightarrow> uuid \<Rightarrow> resource list \<Rightarrow> jstate \<Rightarrow> 'h \<Rightarrow> bool" where
  "pass_inv P h0 js0 u xs js h \<longleftrightarrow>
    journal_ok P h js \<and> other_vms u js0 js \<and> accounted P h js u xs \<and> spares P (set xs) h0 h"

lemma record_ok_spares: "spares P X h h' \<Longrightarrow> record_ok P h listed r \<Longrightarrow> record_ok P h' listed r"
  by (auto simp: record_ok_def intro: settled_spares)

lemma journal_ok_spares: "spares P X h h' \<Longrightarrow> journal_ok P h js \<Longrightarrow> journal_ok P h' js"
  by (auto simp: journal_ok_def intro: record_ok_spares)

lemma accounted_spares: "spares P X h h' \<Longrightarrow> accounted P h js u xs \<Longrightarrow> accounted P h' js u xs"
  by (auto simp: accounted_def split: option.splits intro: settled_spares)

lemma pass_inv_spares:
  assumes "pass_inv P h0 js0 u xs js h" "spares P {x} h h'" "x \<in> set xs"
  shows "pass_inv P h0 js0 u xs js h'"
  using assms spares_mono [OF assms(2), of "set xs"]
  by (auto simp: pass_inv_def intro: journal_ok_spares accounted_spares spares_trans)

lemma inventory_vms [simp]: "inventory (js\<lparr>js_vms := m\<rparr>) u = inventory js u"
  by (simp add: inventory_def)

text \<open>Changing the record of the VM.\<close>

lemma pass_inv_update:
  assumes "pass_inv P h0 js0 u xs js h" "js_vms js u = Some r"
    and "skeleton r' = skeleton r" "vr_vm_id r' = vr_vm_id r" "record_ok P h (inventory js u) r'"
  shows "pass_inv P h0 js0 u xs (js\<lparr>js_vms := (js_vms js)(u \<mapsto> r')\<rparr>) h"
proof -
  have "journal_ok P h (js\<lparr>js_vms := (js_vms js)(u \<mapsto> r')\<rparr>)"
    using assms by (auto simp: pass_inv_def journal_ok_def)
  with assms show ?thesis by (auto simp: pass_inv_def other_vms_def accounted_def)
qed

section \<open>Rules for programs of a pass\<close>

definition holds :: "('db, 'tx) redb \<Rightarrow> forms \<Rightarrow> (jstate \<Rightarrow> 'h \<Rightarrow> cleanup_failure list \<Rightarrow> bool) \<Rightarrow> ('db, 'h) pass \<Rightarrow> bool" where
  "holds R F \<phi> p \<longleftrightarrow> (\<exists>js. journal_rel R F (rd_tables R (w_db p)) js \<and> \<phi> js (w_host p) (ps_failures p))"

lemma holds_mono: "holds R F \<phi> p \<Longrightarrow> (\<And>js h fs. \<phi> js h fs \<Longrightarrow> \<psi> js h fs) \<Longrightarrow> holds R F \<psi> p"
  by (auto simp: holds_def)

lemma tick_cases:
  obtains "tick w = (Err Crashed, w)" | n where "tick w = (Ok (), w\<lparr>w_fuel := n\<rparr>)"
proof (cases "w_fuel w")
  case None
  then have "tick w = (Ok (), w\<lparr>w_fuel := None\<rparr>)" by (simp add: tick_def)
  then show thesis by (rule that(2))
next
  case (Some n)
  then show thesis by (cases n) (auto simp: tick_def intro: that)
qed

lemma wp_journal:
  assumes p: "holds R F \<phi> p"
    and op: "\<And>js. \<phi> js (w_host p) (ps_failures p) \<Longrightarrow> \<exists>r js'. db_runs R (journal_rel R F) journal_report op js r js'
      \<and> \<chi> js (w_host p) (ps_failures p) \<and> \<chi> js' (w_host p) (ps_failures p) \<and> (\<forall>e. r = Err e \<longrightarrow> e = Fail journal_report)
      \<and> (\<forall>a. r = Ok a \<longrightarrow> \<psi> a js' (w_host p) (ps_failures p))"
  shows "wp (on_journal op) (\<lambda>a. holds R F (\<psi> a)) (\<lambda>e p. holds R F \<chi> p \<and> e \<in> {Crashed, Failed journal_report}) p"
proof -
  from p obtain js where js: "journal_rel R F (rd_tables R (w_db p)) js" "\<phi> js (w_host p) (ps_failures p)"
    by (auto simp: holds_def)
  from op [OF js(2)] obtain r js' where r: "db_runs R (journal_rel R F) journal_report op js r js'"
      "\<chi> js (w_host p) (ps_failures p)" "\<chi> js' (w_host p) (ps_failures p)" "\<And>e. r = Err e \<Longrightarrow> e = Fail journal_report"
      "\<And>a. r = Ok a \<Longrightarrow> \<psi> a js' (w_host p) (ps_failures p)" by blast
  show ?thesis
  proof (cases p rule: tick_cases)
    case 1
    with js r(2) show ?thesis by (auto simp: wp_def on_journal_def bindP_def holds_def)
  next
    case (2 n)
    obtain q db where q: "op (w_db p) = (q, db)" by fastforce
    from db_runsD [OF r(1) js(1) q]
    have "(q = r \<and> journal_rel R F (rd_tables R db) js') \<or> (q = Err (Fail journal_report) \<and>
        (journal_rel R F (rd_tables R db) js \<or> journal_rel R F (rd_tables R db) js'))" .
    with r js(2) 2 q show ?thesis
      by (cases q) (auto simp: wp_def on_journal_def bindP_def holds_def stop_of_def)
  qed
qed

lemma wp_host:
  assumes p: "holds R F \<phi> p"
    and op: "\<And>js a h'. \<phi> js (w_host p) (ps_failures p) \<Longrightarrow> op (w_host p) = (a, h') \<Longrightarrow> \<psi> a js h' (ps_failures p)"
  shows "wp (on_host op) (\<lambda>a. holds R F (\<psi> a)) (\<lambda>e p. holds R F \<phi> p \<and> e \<in> {Crashed, Failed journal_report}) p"
proof (cases p rule: tick_cases)
  case 1
  with p show ?thesis by (simp add: wp_def on_host_def bindP_def)
next
  case (2 n)
  obtain a h' where "op (w_host p) = (a, h')" by fastforce
  with 2 p op [OF _ this] show ?thesis by (auto simp: wp_def on_host_def bindP_def holds_def)
qed

section \<open>The steps of a pass\<close>

text \<open>The resources before position \<open>k\<close> are done; the others are as they were read.\<close>

definition in_progress ::
  "('h, 's, 'n) os \<Rightarrow> 'h \<Rightarrow> jstate \<Rightarrow> uuid \<Rightarrow> vm_record \<Rightarrow> nat \<Rightarrow> jstate \<Rightarrow> 'h \<Rightarrow> cleanup_failure list \<Rightarrow> bool" where
  "in_progress P h0 js0 u r0 k js h fs \<longleftrightarrow>
    pass_inv P h0 js0 u (skeleton r0) js h
    \<and> (\<exists>r. js_vms js u = Some r \<and> wf_vm r \<and> vr_phase r = PhaseCleanupPending
        \<and> vr_cleanup_attempts r = vr_cleanup_attempts r0
        \<and> (\<forall>i. k \<le> i \<longrightarrow> i < length (resources r0) \<longrightarrow> resources r ! i = resources r0 ! i)
        \<and> (fs = [] \<longrightarrow> (\<forall>i < k. snd (resources r ! i) = Removed)))"

lemma in_progressD:
  "in_progress P h0 js0 u r0 k js h fs \<Longrightarrow> pass_inv P h0 js0 u (skeleton r0) js h"
  by (simp add: in_progress_def)

lemma pass_inv_skeleton: "pass_inv P h0 js0 u xs js h \<Longrightarrow> js_vms js u = Some r \<Longrightarrow> skeleton r = xs"
  by (simp add: pass_inv_def accounted_def)

lemma pass_inv_record: "pass_inv P h0 js0 u xs js h \<Longrightarrow> js_vms js u = Some r \<Longrightarrow>
  vr_vm_id r = u \<and> record_ok P h (inventory js u) r"
  by (simp add: pass_inv_def journal_ok_def)

text \<open>A function on records that sets the state of one resource.\<close>

definition sets_state :: "resource list \<Rightarrow> nat \<Rightarrow> (vm_record \<Rightarrow> resource_state \<Rightarrow> vm_record) \<Rightarrow> bool" where
  "sets_state xs k T \<longleftrightarrow>
    (\<forall>r st. skeleton r = xs \<longrightarrow>
       resources (T r st) = (resources r)[k := (xs ! k, st)] \<and> vr_phase (T r st) = vr_phase r
       \<and> vr_vm_id (T r st) = vr_vm_id r \<and> vr_cleanup_attempts (T r st) = vr_cleanup_attempts r
       \<and> vr_schema_version (T r st) = vr_schema_version r)"

lemma skeleton_shape:
  assumes "skeleton r = skeleton r0"
  shows "vr_network r = None \<longleftrightarrow> vr_network r0 = None" "length (vr_disks r) = length (vr_disks r0)"
proof -
  show n: "vr_network r = None \<longleftrightarrow> vr_network r0 = None"
    using assms by (auto simp: resources_def split: option.splits)
  show "length (vr_disks r) = length (vr_disks r0)"
    using arg_cong [OF assms, of length] n by (auto simp: resources_def split: option.splits)
qed

lemma sets_compute: "sets_state (skeleton r0) 0 set_compute"
  by (auto simp: sets_state_def set_compute_def resources_def)

lemma sets_network:
  assumes "vr_network r0 = Some n"
  shows "sets_state (skeleton r0) 1 set_network"
  unfolding sets_state_def
proof (intro allI impI)
  fix r st assume sk: "skeleton r = skeleton r0"
  then obtain m where m: "vr_network r = Some m" using skeleton_shape(1) [OF sk] assms by auto
  have x: "skeleton r0 ! 1 = RNetwork (nr_network_name m) (nr_endpoint_name m)"
  proof -
    have "skeleton r ! 1 = RNetwork (nr_network_name m) (nr_endpoint_name m)" by (simp add: resources_def m)
    then show ?thesis by (simp only: sk)
  qed
  show "resources (set_network r st) = (resources r)[1 := (skeleton r0 ! 1, st)] \<and> vr_phase (set_network r st) = vr_phase r
       \<and> vr_vm_id (set_network r st) = vr_vm_id r \<and> vr_cleanup_attempts (set_network r st) = vr_cleanup_attempts r
       \<and> vr_schema_version (set_network r st) = vr_schema_version r"
    unfolding x by (simp add: set_network_def resources_def m)
qed

definition disk_offset :: "vm_record \<Rightarrow> nat" where
  "disk_offset r = (case vr_network r of None \<Rightarrow> 1 | Some _ \<Rightarrow> 2)"

lemma nth_disk: "i < length (vr_disks r) \<Longrightarrow>
  resources r ! (disk_offset r + i) = (RDisk (fixed_part (vr_disks r ! i)), dr_state (vr_disks r ! i))"
  by (auto simp: disk_offset_def resources_def split: option.splits)

lemma fixed_set_state [simp]: "fixed_part (set_disk_state st d) = fixed_part d" "dr_state (set_disk_state st d) = st"
  by (simp_all add: fixed_part_def set_disk_state_def)

lemma sets_disk:
  assumes "i < length (vr_disks r0)"
  shows "sets_state (skeleton r0) (disk_offset r0 + i) (set_disk i)"
  unfolding sets_state_def
proof (intro allI impI)
  fix r st assume sk: "skeleton r = skeleton r0"
  have i: "i < length (vr_disks r)" using assms skeleton_shape(2) [OF sk] by simp
  have o: "disk_offset r0 = disk_offset r" using skeleton_shape(1) [OF sk] by (auto simp: disk_offset_def split: option.splits)
  have l: "disk_offset r + i < length (resources r)" using i by (auto simp: disk_offset_def resources_def split: option.splits)
  have x: "skeleton r0 ! (disk_offset r + i) = RDisk (fixed_part (vr_disks r ! i))"
  proof -
    have "skeleton r ! (disk_offset r + i) = RDisk (fixed_part (vr_disks r ! i))" using nth_disk [OF i] l by simp
    then show ?thesis by (simp only: sk)
  qed
  have "map (\<lambda>d. (RDisk (fixed_part d), dr_state d)) ((vr_disks r)[i := set_disk_state st (vr_disks r ! i)])
      = (map (\<lambda>d. (RDisk (fixed_part d), dr_state d)) (vr_disks r))[i := (RDisk (fixed_part (vr_disks r ! i)), st)]"
    by (simp add: map_update)
  then show "resources (set_disk i r st) = (resources r)[disk_offset r0 + i := (skeleton r0 ! (disk_offset r0 + i), st)]
       \<and> vr_phase (set_disk i r st) = vr_phase r
       \<and> vr_vm_id (set_disk i r st) = vr_vm_id r \<and> vr_cleanup_attempts (set_disk i r st) = vr_cleanup_attempts r
       \<and> vr_schema_version (set_disk i r st) = vr_schema_version r"
    unfolding o x using i
    by (auto simp: set_disk_def resources_def disk_offset_def split: option.splits)
qed

lemma record_ok_set_state:
  assumes ok: "record_ok P h listed r" and res: "resources r' = (resources r)[k := (skeleton r ! k, st)]"
    and k: "k < length (resources r)" and st: "st = Removed \<longrightarrow> settled P h (skeleton r ! k)" "st = Removed \<or> st = RemovalFailed"
    and phase: "vr_phase r' \<noteq> PhaseComplete"
  shows "record_ok P h listed r'" "skeleton r' = skeleton r"
proof -
  show sk: "skeleton r' = skeleton r" using k by (simp add: res map_update list_update_same_conv)
  have mem: "y \<in> set (resources r) \<or> y = (skeleton r ! k, st)" if "y \<in> set (resources r')" for y
    using that set_update_subset_insert [of "resources r" k "(skeleton r ! k, st)"] by (auto simp: res)
  have "(st' = Removed \<longrightarrow> settled P h x) \<and> (st' = Abandoned \<longrightarrow> resource_key x \<in> listed) \<and> (st' = Planned \<longrightarrow> unidentified x)"
    if "(x, st') \<in> set (resources r')" for x st'
  proof (cases "(x, st') \<in> set (resources r)")
    case True
    with ok show ?thesis unfolding record_ok_def by blast
  next
    case False
    with mem [OF that] st show ?thesis by auto
  qed
  with ok phase show "record_ok P h listed r'" unfolding record_ok_def sk by blast
qed

text \<open>Writing an outcome of the resource at position \<open>k\<close>.\<close>

lemma in_progress_update:
  assumes js: "in_progress P h0 js0 u r0 k js h fs" "js_vms js u = Some r" and T: "sets_state (skeleton r0) k T" and k: "k < length (resources r0)"
    and st: "st = Removed \<longrightarrow> settled P h (skeleton r0 ! k)" "st = Removed \<or> st = RemovalFailed"
    and r': "r' = T r st \<or> r' = (T r st)\<lparr>vr_last_error := le\<rparr>" and fs': "fs' = [] \<longrightarrow> fs = [] \<and> st = Removed"
  shows "wf_vm r'" "in_progress P h0 js0 u r0 (Suc k) (js\<lparr>js_vms := (js_vms js)(u \<mapsto> r')\<rparr>) h fs'"
proof -
  from js have inv: "pass_inv P h0 js0 u (skeleton r0) js h" and r: "wf_vm r" "vr_phase r = PhaseCleanupPending"
      "vr_cleanup_attempts r = vr_cleanup_attempts r0"
      "\<And>i. k \<le> i \<Longrightarrow> i < length (resources r0) \<Longrightarrow> resources r ! i = resources r0 ! i"
      "fs = [] \<Longrightarrow> i < k \<Longrightarrow> snd (resources r ! i) = Removed" for i
    by (auto simp: in_progress_def)
  have sk: "skeleton r = skeleton r0" by (rule pass_inv_skeleton [OF inv js(2)])
  have len: "length (resources r) = length (resources r0)" using arg_cong [OF sk, of length] by simp
  have res: "resources r' = (resources r)[k := (skeleton r ! k, st)]" and rest: "vr_phase r' = PhaseCleanupPending"
      "vr_vm_id r' = vr_vm_id r" "vr_cleanup_attempts r' = vr_cleanup_attempts r0" "vr_schema_version r' = vr_schema_version r"
    using T sk r' r(2,3) unfolding sets_state_def by (auto simp: resources_def)
  note rec = pass_inv_record [OF inv js(2)]
  from record_ok_set_state [OF rec [THEN conjunct2] res] k st sk rest(1) len
  have ok: "record_ok P h (inventory js u) r'" "skeleton r' = skeleton r" by simp_all
  show "wf_vm r'" using r(1) rest(4) by (simp add: wf_vm_def)
  moreover have "pass_inv P h0 js0 u (skeleton r0) (js\<lparr>js_vms := (js_vms js)(u \<mapsto> r')\<rparr>) h"
    by (rule pass_inv_update [OF inv js(2) ok(2) rest(2) ok(1)])
  moreover have "resources r' ! i = resources r0 ! i" if "Suc k \<le> i" "i < length (resources r0)" for i
    using that r(4) [of i] by (simp add: res)
  moreover have "snd (resources r' ! i) = Removed" if "fs' = []" "i < Suc k" for i
    using that fs' r(5) [of i] k by (auto simp: res len nth_list_update less_Suc_eq)
  ultimately show "in_progress P h0 js0 u r0 (Suc k) (js\<lparr>js_vms := (js_vms js)(u \<mapsto> r')\<rparr>) h fs'"
    using rest by (auto simp: in_progress_def)
qed

abbreviation stops_with :: "('db, 'tx) redb \<Rightarrow> forms \<Rightarrow> (jstate \<Rightarrow> 'h \<Rightarrow> bool) \<Rightarrow> stop \<Rightarrow> ('db, 'h) pass \<Rightarrow> bool" where
  "stops_with R F \<phi> e p \<equiv> holds R F (\<lambda>js h fs. \<phi> js h) p \<and> e \<in> {Crashed, Failed journal_report}"

lemma wp_update:
  assumes env: "journal_env R F"
    and p: "holds R F (\<lambda>js h fs. in_progress P h0 js0 u r0 k js h prev \<and> \<phi> js h fs) p"
    and f: "\<And>js r. in_progress P h0 js0 u r0 k js (w_host p) prev \<Longrightarrow> \<phi> js (w_host p) (ps_failures p) \<Longrightarrow> js_vms js u = Some r \<Longrightarrow>
      wf_vm (f r) \<and> in_progress P h0 js0 u r0 k' (js\<lparr>js_vms := (js_vms js)(u \<mapsto> f r)\<rparr>) (w_host p) (ps_failures p)"
  shows "wp (on_journal (update_vm R F u f)) (\<lambda>_. holds R F (in_progress P h0 js0 u r0 k'))
    (stops_with R F (pass_inv P h0 js0 u (skeleton r0))) p"
proof (rule wp_journal [OF p])
  fix js assume js: "in_progress P h0 js0 u r0 k js (w_host p) prev \<and> \<phi> js (w_host p) (ps_failures p)"
  then obtain r where r: "js_vms js u = Some r" by (auto simp: in_progress_def)
  from f [OF conjunct1 [OF js] conjunct2 [OF js] r] update_vm_runs [OF env r] js
  show "\<exists>q js'. db_runs R (journal_rel R F) journal_report (update_vm R F u f) js q js'
      \<and> pass_inv P h0 js0 u (skeleton r0) js (w_host p) \<and> pass_inv P h0 js0 u (skeleton r0) js' (w_host p)
      \<and> (\<forall>e. q = Err e \<longrightarrow> e = Fail journal_report)
      \<and> (\<forall>a. q = Ok a \<longrightarrow> in_progress P h0 js0 u r0 k' js' (w_host p) (ps_failures p))"
    by (intro exI [of _ "Ok ()"] exI [of _ "js\<lparr>js_vms := (js_vms js)(u \<mapsto> f r)\<rparr>"]) (auto dest: in_progressD)
qed

lemma holds_frame:
  "holds R F \<phi> p \<Longrightarrow> w_db p' = w_db p \<Longrightarrow> w_host p' = w_host p \<Longrightarrow> holds R F (\<lambda>js h fs. \<phi> js h (ps_failures p)) p'"
  by (simp add: holds_def)

lemma wp_outcome:
  assumes env: "journal_env R F" and T: "sets_state (skeleton r0) k T" and k: "k < length (resources r0)"
    and p: "holds R F (\<lambda>js h fs. in_progress P h0 js0 u r0 k js h fs \<and> (reports_gone res \<longrightarrow> settled P h (skeleton r0 ! k))) p"
  shows "wp (apply_resource_outcome R F u res kind opn ident T) (\<lambda>_. holds R F (in_progress P h0 js0 u r0 (Suc k)))
    (stops_with R F (pass_inv P h0 js0 u (skeleton r0))) p"
proof -
  have gone: "wp (on_journal (update_vm R F u (\<lambda>r. T r Removed))) (\<lambda>_. holds R F (in_progress P h0 js0 u r0 (Suc k)))
      (stops_with R F (pass_inv P h0 js0 u (skeleton r0))) p'"
    if "reports_gone res" "w_db p' = w_db p" "w_host p' = w_host p" "ps_failures p' = ps_failures p" for p'
  proof (rule wp_update [where \<phi> = "\<lambda>js h fs. reports_gone res \<longrightarrow> settled P h (skeleton r0 ! k)" and prev = "ps_failures p", OF env])
    show "holds R F (\<lambda>js h fs. in_progress P h0 js0 u r0 k js h (ps_failures p) \<and> (reports_gone res \<longrightarrow> settled P h (skeleton r0 ! k))) p'"
      using holds_frame [OF p that(2,3)] .
  next
    fix js r
    assume js: "in_progress P h0 js0 u r0 k js (w_host p') (ps_failures p)"
      and gone: "reports_gone res \<longrightarrow> settled P (w_host p') (skeleton r0 ! k)" and r: "js_vms js u = Some r"
    have st: "Removed = Removed \<longrightarrow> settled P (w_host p') (skeleton r0 ! k)" using gone that(1) by simp
    show "wf_vm (T r Removed) \<and>
        in_progress P h0 js0 u r0 (Suc k) (js\<lparr>js_vms := (js_vms js)(u \<mapsto> T r Removed)\<rparr>) (w_host p') (ps_failures p')"
      using in_progress_update [OF js r T k st, of "T r Removed" None "ps_failures p'"] that(4) by simp
  qed
  have failed: "wp (on_journal (update_vm R F u (\<lambda>r. (T r RemovalFailed)\<lparr>vr_last_error := le\<rparr>)))
      (\<lambda>_. holds R F (in_progress P h0 js0 u r0 (Suc k))) (stops_with R F (pass_inv P h0 js0 u (skeleton r0))) p'"
    if "w_db p' = w_db p" "w_host p' = w_host p" "ps_failures p' \<noteq> []" for p' le
  proof (rule wp_update [where \<phi> = "\<lambda>js h fs. reports_gone res \<longrightarrow> settled P h (skeleton r0 ! k)" and prev = "ps_failures p", OF env])
    show "holds R F (\<lambda>js h fs. in_progress P h0 js0 u r0 k js h (ps_failures p) \<and> (reports_gone res \<longrightarrow> settled P h (skeleton r0 ! k))) p'"
      using holds_frame [OF p that(1,2)] .
  next
    fix js r
    assume js: "in_progress P h0 js0 u r0 k js (w_host p') (ps_failures p)" and r: "js_vms js u = Some r"
    show "wf_vm ((T r RemovalFailed)\<lparr>vr_last_error := le\<rparr>) \<and>
        in_progress P h0 js0 u r0 (Suc k) (js\<lparr>js_vms := (js_vms js)(u \<mapsto> (T r RemovalFailed)\<lparr>vr_last_error := le\<rparr>)\<rparr>)
          (w_host p') (ps_failures p')"
      by (intro conjI in_progress_update [OF js r T k, of RemovalFailed _ le "ps_failures p'"] disjI2 refl) (simp_all add: that(3))
  qed
  show ?thesis
  proof (cases res)
    case (Inr x)
    then have "reports_gone res" by (simp add: reports_gone_def)
    with gone Inr show ?thesis by (simp add: apply_resource_outcome_def wp_simps count_recovered_def)
  next
    case (Inl e)
    show ?thesis
    proof (cases "resource_is_absent e")
      case True
      with Inl have "reports_gone res" by (simp add: reports_gone_def)
      with gone Inl True show ?thesis by (simp add: apply_resource_outcome_def wp_simps count_absent_def)
    next
      case False
      with failed Inl show ?thesis by (simp add: apply_resource_outcome_def wp_simps count_failed_def Let_def)
    qed
  qed
qed

lemma in_progress_skip:
  assumes "in_progress P h0 js0 u r0 k js h fs" "k < length (resources r0)" "snd (resources r0 ! k) = Removed"
  shows "in_progress P h0 js0 u r0 (Suc k) js h fs"
  using assms unfolding in_progress_def by (fastforce simp: less_Suc_eq)

text \<open>Running the operation of the resource at position \<open>k\<close>, then writing its outcome.\<close>

lemma wp_hook:
  assumes env: "journal_env R F" and T: "sets_state (skeleton r0) k T" and k: "k < length (resources r0)"
    and p: "holds R F (in_progress P h0 js0 u r0 k) p"
    and hook: "\<And>h q h'. op h = (q, h') \<Longrightarrow> hook_effect P (skeleton r0 ! k) h q h'"
  shows "wp (bindP (on_host op) (\<lambda>res. apply_resource_outcome R F u res kind opn ident T))
    (\<lambda>_. holds R F (in_progress P h0 js0 u r0 (Suc k))) (stops_with R F (pass_inv P h0 js0 u (skeleton r0))) p"
proof -
  have x: "skeleton r0 ! k \<in> set (skeleton r0)" using nth_mem [of k "skeleton r0"] k by (simp del: nth_map set_map)
  have "wp (on_host op) (\<lambda>res. holds R F (\<lambda>js h fs. in_progress P h0 js0 u r0 k js h fs
      \<and> (reports_gone res \<longrightarrow> settled P h (skeleton r0 ! k))))
      (\<lambda>e p. holds R F (in_progress P h0 js0 u r0 k) p \<and> e \<in> {Crashed, Failed journal_report}) p"
  proof (rule wp_host [OF p])
    fix js q h' assume js: "in_progress P h0 js0 u r0 k js (w_host p) (ps_failures p)" and q: "op (w_host p) = (q, h')"
    from hook [OF q] have e: "spares P {skeleton r0 ! k} (w_host p) h'" "reports_gone q \<longrightarrow> settled P h' (skeleton r0 ! k)"
      by (simp_all add: hook_effect_def)
    from js pass_inv_spares [OF in_progressD [OF js] e(1) x] e(2)
    show "in_progress P h0 js0 u r0 k js h' (ps_failures p) \<and> (reports_gone q \<longrightarrow> settled P h' (skeleton r0 ! k))"
      by (auto simp: in_progress_def)
  qed
  then show ?thesis
    unfolding wp_bind
  proof (rule wp_mono)
    fix e p assume "holds R F (in_progress P h0 js0 u r0 k) p \<and> e \<in> {Crashed, Failed journal_report}"
    then show "stops_with R F (pass_inv P h0 js0 u (skeleton r0)) e p" by (auto dest: in_progressD elim!: holds_mono)
  qed (rule wp_outcome [OF env T k])
qed

lemma resources_length: "length (resources r) = disk_offset r + length (vr_disks r)"
  by (simp add: resources_def disk_offset_def split: option.splits)

lemma in_progress_planned:
  assumes p: "holds R F (in_progress P h0 js0 u r0 k) p" and i: "i < length (vr_disks r0)" "k = disk_offset r0 + i"
  shows "dr_state (vr_disks r0 ! i) = Planned \<longrightarrow> dr_file_identity (vr_disks r0 ! i) = None"
proof
  assume pl: "dr_state (vr_disks r0 ! i) = Planned"
  have k: "k < length (resources r0)" using i by (simp add: resources_length)
  from p obtain js h fs where js: "in_progress P h0 js0 u r0 k js h fs" by (auto simp: holds_def)
  then obtain r where r: "js_vms js u = Some r" "resources r ! k = resources r0 ! k"
    using k by (auto simp: in_progress_def)
  note inv = in_progressD [OF js]
  have "length (resources r) = length (resources r0)"
    using arg_cong [OF pass_inv_skeleton [OF inv r(1)], of length] by simp
  then have "resources r0 ! k \<in> set (resources r)" using k r(2) nth_mem [of k "resources r"] by simp
  moreover have "resources r0 ! k = (RDisk (fixed_part (vr_disks r0 ! i)), Planned)" using nth_disk [OF i(1)] i(2) pl by simp
  ultimately have "unidentified (RDisk (fixed_part (vr_disks r0 ! i)))"
    using pass_inv_record [OF inv r(1)] unfolding record_ok_def by fastforce
  then show "dr_file_identity (vr_disks r0 ! i) = None" by (simp add: fixed_part_def)
qed

lemma holds_skip:
  assumes "holds R F (in_progress P h0 js0 u r0 k) p" "k < length (resources r0)" "snd (resources r0 ! k) = Removed"
  shows "holds R F (in_progress P h0 js0 u r0 (Suc k)) p"
  using assms(1) by (rule holds_mono) (rule in_progress_skip [OF _ assms(2,3)])

text \<open>Handles the caller still has belong to the record.\<close>

definition handles_match :: "('h, 's, 'n) os \<Rightarrow> ('s, 'n) cleanup_resources \<Rightarrow> vm_record \<Rightarrow> bool" where
  "handles_match P rs r \<longleftrightarrow>
    (\<forall>s. cl_system rs = Some s \<longrightarrow> os_system_of P s = cr_id (vr_compute_system r))
    \<and> (\<forall>c n. cl_network rs = Some c \<longrightarrow> vr_network r = Some n \<longrightarrow> os_network_of P c = (nr_network_name n, nr_endpoint_name n))"

definition quiet_disks :: "vm_record \<Rightarrow> bool" where
  "quiet_disks r \<longleftrightarrow> list_all (\<lambda>d. \<not> names_absence (disk_identity d)) (vr_disks r)"

context cleanup_operations
begin

lemma wp_compute:
  assumes P: "os_ok P" and env: "journal_env R F" and p: "holds R F (in_progress P h0 js0 u r0 0) p" and hs: "handles_match P rs r0"
  shows "wp (clean_compute R F K u (cl_system rs) r0) (\<lambda>_. holds R F (in_progress P h0 js0 u r0 1))
    (stops_with R F (pass_inv P h0 js0 u (skeleton r0))) p"
proof (cases "cr_state (vr_compute_system r0) = Removed")
  case True
  have "holds R F (in_progress P h0 js0 u r0 (Suc 0)) p" by (rule holds_skip [OF p]) (simp_all add: resources_def True)
  then show ?thesis by (simp add: clean_compute_def True wp_simps)
next
  case False
  have x: "skeleton r0 ! 0 = RCompute (cr_id (vr_compute_system r0))" by (simp add: resources_def)
  have l: "0 < length (resources r0)" by (simp add: resources_def)
  show ?thesis
    unfolding clean_compute_def One_nat_def using False
  proof (simp only: if_True not_False_eq_True, intro wp_hook [OF env sets_compute l p])
    fix h q h'
    assume "(case cl_system rs of Some s \<Rightarrow> hk_system K s | None \<Rightarrow> hk_compute K (cr_id (vr_compute_system r0))) h = (q, h')"
    then show "hook_effect P (skeleton r0 ! 0) h q h'"
      unfolding x using hs system_effect [OF P] compute_effect [OF P] by (fastforce simp: handles_match_def split: option.splits)
  qed
qed

lemma wp_network:
  assumes P: "os_ok P" and env: "journal_env R F" and p: "holds R F (in_progress P h0 js0 u r0 1) p" and hs: "handles_match P rs r0"
  shows "wp (clean_network R F K u (cl_network rs) r0) (\<lambda>_. holds R F (in_progress P h0 js0 u r0 (disk_offset r0)))
    (stops_with R F (pass_inv P h0 js0 u (skeleton r0))) p"
proof (cases "vr_network r0")
  case None
  with p show ?thesis by (simp add: clean_network_def wp_simps disk_offset_def)
next
  case (Some n)
  have x: "resources r0 ! 1 = (RNetwork (nr_network_name n) (nr_endpoint_name n), nr_state n)" by (simp add: resources_def Some)
  have l: "1 < length (resources r0)" by (simp add: resources_def Some)
  have x': "skeleton r0 ! 1 = RNetwork (nr_network_name n) (nr_endpoint_name n)" using x l by simp
  have o: "disk_offset r0 = Suc 1" by (simp add: disk_offset_def Some)
  show ?thesis
  proof (cases "nr_state n = Removed")
    case True
    have "holds R F (in_progress P h0 js0 u r0 (Suc 1)) p" by (rule holds_skip [OF p l]) (simp add: x True del: One_nat_def)
    then show ?thesis by (simp add: clean_network_def True Some wp_simps o del: One_nat_def)
  next
    case False
    show ?thesis
      unfolding clean_network_def o Some option.case using False
    proof (simp only: if_True not_False_eq_True, intro wp_hook [OF env sets_network [OF Some] l p])
      fix h q h'
      assume "(case cl_network rs of Some c \<Rightarrow> hk_close_network K c
        | None \<Rightarrow> hk_network K (nr_network_id n) (nr_network_name n) (nr_endpoint_id n) (nr_endpoint_name n)) h = (q, h')"
      then show "hook_effect P (skeleton r0 ! 1) h q h'"
        unfolding x' using hs Some close_effect [OF P] network_effect [OF P] by (fastforce simp: handles_match_def split: option.splits)
    qed
  qed
qed

lemma wp_disk:
  assumes P: "os_ok P" and env: "journal_env R F" and p: "holds R F (in_progress P h0 js0 u r0 (disk_offset r0 + i)) p"
    and q: "quiet_disks r0" and i: "i < length (vr_disks r0)"
  shows "wp (clean_disk R F K u (i, vr_disks r0 ! i)) (\<lambda>_. holds R F (in_progress P h0 js0 u r0 (disk_offset r0 + Suc i)))
    (stops_with R F (pass_inv P h0 js0 u (skeleton r0))) p"
proof -
  note x = nth_disk [OF i]
  have l: "disk_offset r0 + i < length (resources r0)" using i by (simp add: resources_length)
  have x': "skeleton r0 ! (disk_offset r0 + i) = RDisk (fixed_part (vr_disks r0 ! i))" using x l by simp
  have d: "\<not> names_absence (disk_identity (vr_disks r0 ! i))" using q i by (simp add: quiet_disks_def list_all_length)
  show ?thesis
  proof (cases "dr_state (vr_disks r0 ! i) = Removed")
    case True
    have "holds R F (in_progress P h0 js0 u r0 (Suc (disk_offset r0 + i))) p" by (rule holds_skip [OF p l]) (simp add: x True)
    then show ?thesis by (simp add: clean_disk_def True wp_simps)
  next
    case False
    show ?thesis
      unfolding clean_disk_def prod.case using False add_Suc_right
    proof (simp only: if_False, intro wp_hook [OF env sets_disk [OF i] l p])
      fix h q h' assume "hk_disk K u (vr_disks r0 ! i) h = (q, h')"
      from disk_effect [OF P d in_progress_planned [OF p i refl] this]
      show "hook_effect P (skeleton r0 ! (disk_offset r0 + i)) h q h'" unfolding x' .
    qed
  qed
qed

lemma wp_disks:
  assumes P: "os_ok P" and env: "journal_env R F" and p: "holds R F (in_progress P h0 js0 u r0 (disk_offset r0)) p" and q: "quiet_disks r0"
  shows "wp (forP (clean_disk R F K u) (enumerate 0 (vr_disks r0))) (\<lambda>_. holds R F (in_progress P h0 js0 u r0 (length (resources r0))))
    (stops_with R F (pass_inv P h0 js0 u (skeleton r0))) p"
proof (rule wp_for [where I = "\<lambda>ys p. \<exists>i. i \<le> length (vr_disks r0) \<and> ys = enumerate i (drop i (vr_disks r0)) \<and>
    holds R F (in_progress P h0 js0 u r0 (disk_offset r0 + i)) p"])
  show "\<exists>i. i \<le> length (vr_disks r0) \<and> enumerate 0 (vr_disks r0) = enumerate i (drop i (vr_disks r0)) \<and>
    holds R F (in_progress P h0 js0 u r0 (disk_offset r0 + i)) p"
    by (rule exI [of _ 0]) (simp add: p)
next
  fix x ys p
  assume "\<exists>i. i \<le> length (vr_disks r0) \<and> x # ys = enumerate i (drop i (vr_disks r0)) \<and>
    holds R F (in_progress P h0 js0 u r0 (disk_offset r0 + i)) p"
  then obtain i where i: "i \<le> length (vr_disks r0)" "x # ys = enumerate i (drop i (vr_disks r0))"
    and p: "holds R F (in_progress P h0 js0 u r0 (disk_offset r0 + i)) p" by blast
  have l: "i < length (vr_disks r0)" using i by (cases "i = length (vr_disks r0)") auto
  with i have x: "x = (i, vr_disks r0 ! i)" and ys: "ys = enumerate (Suc i) (drop (Suc i) (vr_disks r0))"
    by (simp_all add: Cons_nth_drop_Suc [symmetric])
  show "wp (clean_disk R F K u x) (\<lambda>_ p. \<exists>i. i \<le> length (vr_disks r0) \<and> ys = enumerate i (drop i (vr_disks r0)) \<and>
    holds R F (in_progress P h0 js0 u r0 (disk_offset r0 + i)) p) (stops_with R F (pass_inv P h0 js0 u (skeleton r0))) p"
    unfolding x by (rule wp_mono [OF wp_disk [OF P env p q l]]) (use l ys in \<open>auto intro!: exI [of _ "Suc i"]\<close>)
next
  fix p
  assume "\<exists>i. i \<le> length (vr_disks r0) \<and> [] = enumerate i (drop i (vr_disks r0)) \<and>
    holds R F (in_progress P h0 js0 u r0 (disk_offset r0 + i)) p"
  then obtain i where i: "i \<le> length (vr_disks r0)" "drop i (vr_disks r0) = []"
    and p: "holds R F (in_progress P h0 js0 u r0 (disk_offset r0 + i)) p" by (auto simp: enumerate_eq_zip)
  then show "holds R F (in_progress P h0 js0 u r0 (length (resources r0))) p" by (simp add: resources_length)
qed

end

section \<open>The end of a pass\<close>

text \<open>
  A pass that returns without an error removed everything, the record and the list of abandoned
  resources; or it used up the attempts, and what is left is marked as abandoned and listed.
\<close>

definition pass_done :: "('h, 's, 'n) os \<Rightarrow> uuid \<Rightarrow> resource list \<Rightarrow> jstate \<Rightarrow> 'h \<Rightarrow> bool" where
  "pass_done P u xs js h \<longleftrightarrow>
    js_vms js u = None \<and> js_abandoned js u = None \<and> list_all (settled P h) xs
    \<or> (\<exists>r. js_vms js u = Some r \<and> is_complete r \<and> MAX_CLEANUP_ATTEMPTS \<le> vr_cleanup_attempts r
         \<and> list_all (\<lambda>(x, st). st = Removed \<or> st = Abandoned) (resources r))"

text \<open>Errors: of the journal, the end of the process, or failed removals while attempts are left.\<close>

definition pass_stops ::
  "('db, 'tx) redb \<Rightarrow> forms \<Rightarrow> ('h, 's, 'n) os \<Rightarrow> 'h \<Rightarrow> jstate \<Rightarrow> uuid \<Rightarrow> u32 \<Rightarrow> resource list \<Rightarrow> stop \<Rightarrow> ('db, 'h) pass \<Rightarrow> bool" where
  "pass_stops R F P h0 js0 u n xs e p \<longleftrightarrow>
    holds R F (\<lambda>js h fs. pass_inv P h0 js0 u xs js h
      \<and> (e \<in> {Crashed, Failed journal_report}
         \<or> (\<exists>t r. e = Failed (report_new Cleanup [t]) \<and> js_vms js u = Some r \<and> vr_cleanup_attempts r = n \<and> n < MAX_CLEANUP_ATTEMPTS))) p"

lemma stops_pass: "stops_with R F (pass_inv P h0 js0 u xs) e p \<Longrightarrow> pass_stops R F P h0 js0 u n xs e p"
  by (auto simp: pass_stops_def elim!: holds_mono)

definition left_key :: "resource \<times> resource_state \<Rightarrow> (string \<times> string) set" where
  "left_key = (\<lambda>(x, st). if st = Removed then {} else {resource_key x})"

lemma consider_resource_keys:
  assumes "resource_key x = (kind, ident)"
  shows "entry_key ` set (fst (consider_resource now fs kind ident st ea)) = entry_key ` set (fst ea) \<union> left_key (x, st)"
proof -
  obtain as bs where "ea = (as, bs)" by (cases ea)
  then show ?thesis
    by (simp add: consider_resource_def Let_def merge_entry_keys left_key_def assms) (simp add: entry_key_def)
qed

lemma disk_identity_fixed [simp]: "disk_identity (fixed_part d) = disk_identity d"
  by (simp add: disk_identity_def fixed_part_def)

lemma consider_disks_keys:
  "entry_key ` set (fst (fold (\<lambda>d. consider_resource now fs ''disk'' (disk_identity d) (dr_state d)) ds ea))
    = entry_key ` set (fst ea) \<union> (\<Union>d \<in> set ds. left_key (RDisk (fixed_part d), dr_state d))"
proof (induction ds arbitrary: ea)
  case (Cons d ds)
  have k: "resource_key (RDisk (fixed_part d)) = (''disk'', disk_identity d)" by simp
  show ?case by (simp add: Cons.IH consider_resource_keys [OF k] Un_assoc)
qed simp

lemma consider_all_keys:
  "entry_key ` set (fst (consider_all now fs r entries)) = entry_key ` set entries \<union> (\<Union>y \<in> set (resources r). left_key y)"
proof -
  have c: "resource_key (RCompute (cr_id (vr_compute_system r))) = (''compute_system'', cr_id (vr_compute_system r))" by simp
  have n: "resource_key (RNetwork (nr_network_name n) (nr_endpoint_name n)) = (''network'', network_identity n)" for n
    by (simp add: network_identity_def)
  show ?thesis
    by (cases "vr_network r")
      (simp_all add: consider_all_def consider_disks_keys consider_resource_keys [OF c] consider_resource_keys [OF n] resources_def Un_assoc)
qed

lemma resources_abandon: "resources (abandon_record now r) = map (\<lambda>(x, st). (x, abandon_state st)) (resources r)"
  by (auto simp: abandon_record_def resources_def fixed_part_def split: option.splits)

lemma terminal_resources:
  "list_all (\<lambda>(x, st). st = Removed \<or> st = Abandoned) (resources r) \<Longrightarrow> is_complete r"
  by (auto simp: is_complete_def terminal_state_def resources_def list_all_iff split: option.splits)

lemma pass_inv_list:
  assumes inv: "pass_inv P h0 js0 u xs js h" and r: "js_vms js u = Some r"
    and k: "inventory js u \<subseteq> entry_key ` set (ar_entries a)" "entry_key ` set (ar_entries a) \<subseteq> resource_key ` set (skeleton r)"
  shows "pass_inv P h0 js0 u xs (js\<lparr>js_abandoned := (js_abandoned js)(u \<mapsto> a)\<rparr>) h"
proof -
  let ?js = "js\<lparr>js_abandoned := (js_abandoned js)(u \<mapsto> a)\<rparr>"
  have i: "inventory ?js w = (if w = u then entry_key ` set (ar_entries a) else inventory js w)" for w
    by (simp add: inventory_def)
  have "record_ok P h (entry_key ` set (ar_entries a)) r"
    using pass_inv_record [OF inv r] k unfolding record_ok_def by blast
  with inv r have "journal_ok P h ?js" unfolding pass_inv_def journal_ok_def i by auto
  with inv r show ?thesis by (auto simp: pass_inv_def other_vms_def accounted_def)
qed

lemma pass_inv_forget:
  assumes inv: "pass_inv P h0 js0 u xs js h" and s: "list_all (settled P h) xs"
  shows "pass_inv P h0 js0 u xs (js\<lparr>js_vms := (js_vms js)(u := None)\<rparr>) h"
    and "js_vms js u = None \<Longrightarrow> pass_inv P h0 js0 u xs (js\<lparr>js_abandoned := (js_abandoned js)(u := None)\<rparr>) h"
proof -
  have i: "inventory (js\<lparr>js_abandoned := (js_abandoned js)(u := None)\<rparr>) w = inventory js w" if "w \<noteq> u" for w
    using that by (simp add: inventory_def)
  from inv s show "pass_inv P h0 js0 u xs (js\<lparr>js_vms := (js_vms js)(u := None)\<rparr>) h"
    by (auto simp: pass_inv_def other_vms_def accounted_def list_all_iff journal_ok_def)
  assume u: "js_vms js u = None"
  have "journal_ok P h (js\<lparr>js_abandoned := (js_abandoned js)(u := None)\<rparr>)"
    unfolding journal_ok_def
  proof (intro allI impI)
    fix w r assume "js_vms (js\<lparr>js_abandoned := (js_abandoned js)(u := None)\<rparr>) w = Some r"
    then have w: "js_vms js w = Some r" "w \<noteq> u" using u by auto
    with inv show "vr_vm_id r = w \<and> record_ok P h (inventory (js\<lparr>js_abandoned := (js_abandoned js)(u := None)\<rparr>) w) r"
      by (simp add: i pass_inv_def journal_ok_def)
  qed
  with inv s u show "pass_inv P h0 js0 u xs (js\<lparr>js_abandoned := (js_abandoned js)(u := None)\<rparr>) h"
    by (auto simp: pass_inv_def other_vms_def accounted_def list_all_iff)
qed

lemma abandon_ok:
  assumes ok: "record_ok P h listed r" and ph: "vr_phase r = PhaseCleanupPending"
    and k: "\<And>x st. (x, st) \<in> set (resources r) \<Longrightarrow> st \<noteq> Removed \<Longrightarrow> resource_key x \<in> listed"
  shows "record_ok P h listed (abandon_record now r)" "skeleton (abandon_record now r) = skeleton r"
proof -
  show sk: "skeleton (abandon_record now r) = skeleton r"
    by (auto simp: resources_abandon)
  have p: "vr_phase (abandon_record now r) = PhaseCleanupPending" using ph by (simp add: abandon_record_def)
  from ok k show "record_ok P h listed (abandon_record now r)"
    unfolding record_ok_def sk p by (auto simp: resources_abandon abandon_state_def split: if_splits)
qed

abbreviation finishing :: "('h, 's, 'n) os \<Rightarrow> 'h \<Rightarrow> jstate \<Rightarrow> uuid \<Rightarrow> vm_record \<Rightarrow> jstate \<Rightarrow> 'h \<Rightarrow> cleanup_failure list \<Rightarrow> bool" where
  "finishing P h0 js0 u r0 \<equiv> in_progress P h0 js0 u r0 (length (resources r0))"

text \<open>One call on the journal that cannot fail in another way than the database.\<close>

lemma wp_call:
  assumes p: "holds R F \<phi> p"
    and op: "\<And>js. \<phi> js (w_host p) (ps_failures p) \<Longrightarrow> \<exists>a js'. db_runs R (journal_rel R F) journal_report op js (Ok a) js'
      \<and> pass_inv P h0 js0 u xs js (w_host p) \<and> pass_inv P h0 js0 u xs js' (w_host p) \<and> \<psi> a js' (w_host p) (ps_failures p)"
  shows "wp (on_journal op) (\<lambda>a. holds R F (\<psi> a)) (pass_stops R F P h0 js0 u n xs) p"
proof -
  have "wp (on_journal op) (\<lambda>a. holds R F (\<psi> a)) (stops_with R F (pass_inv P h0 js0 u xs)) p"
  proof (rule wp_journal [OF p])
    fix js assume "\<phi> js (w_host p) (ps_failures p)"
    from op [OF this] show "\<exists>r js'. db_runs R (journal_rel R F) journal_report op js r js' \<and> pass_inv P h0 js0 u xs js (w_host p)
        \<and> pass_inv P h0 js0 u xs js' (w_host p) \<and> (\<forall>e. r = Err e \<longrightarrow> e = Fail journal_report)
        \<and> (\<forall>a. r = Ok a \<longrightarrow> \<psi> a js' (w_host p) (ps_failures p))" by fastforce
  qed
  then show ?thesis by (rule wp_mono) (auto intro: stops_pass)
qed

lemma wp_require:
  assumes env: "journal_env R F" and u: "wf_uuid u" and p: "holds R F \<phi> p"
    and \<phi>: "\<And>js h fs. \<phi> js h fs \<Longrightarrow> pass_inv P h0 js0 u xs js h \<and> js_vms js u \<noteq> None"
    and Q: "\<And>r p'. holds R F (\<lambda>js h fs. \<phi> js h fs \<and> js_vms js u = Some r) p' \<Longrightarrow> ps_failures p' = ps_failures p \<Longrightarrow>
      wp (f r) Q (pass_stops R F P h0 js0 u n xs) p'"
  shows "wp (bindP (require_vm R F u) f) Q (pass_stops R F P h0 js0 u n xs) p"
proof -
  have c: "wp (on_journal (journal_vm R F u)) (\<lambda>a. holds R F (\<lambda>js h fs. \<phi> js h fs \<and> js_vms js u = a \<and> a \<noteq> None \<and> fs = ps_failures p))
      (pass_stops R F P h0 js0 u n xs) p"
    by (rule wp_call [OF p]) (use journal_vm_runs [OF env u] \<phi> in fastforce)
  show ?thesis
    unfolding require_vm_def wp_bind
  proof (rule wp_mono [OF c])
    fix a p' assume h: "holds R F (\<lambda>js h fs. \<phi> js h fs \<and> js_vms js u = a \<and> a \<noteq> None \<and> fs = ps_failures p) p'"
    then obtain r where r: "a = Some r" and f: "ps_failures p' = ps_failures p" by (auto simp: holds_def)
    have "holds R F (\<lambda>js h fs. \<phi> js h fs \<and> js_vms js u = Some r) p'"
      using h by (rule holds_mono) (simp add: r)
    from Q [OF this f] r show "wp (case a of None \<Rightarrow> failP (Failed journal_report) | Some r \<Rightarrow> returnP r)
        (\<lambda>a. wp (f a) Q (pass_stops R F P h0 js0 u n xs)) (pass_stops R F P h0 js0 u n xs) p'"
      by (simp add: wp_simps)
  qed
qed

lemma finishing_settled:
  assumes f: "finishing P h0 js0 u r0 js h []" and r: "js_vms js u = Some r"
  shows "record_ok P h (inventory js u) (complete_cleanup r)" "list_all (settled P h) (skeleton r0)"
proof -
  note inv = in_progressD [OF f]
  have sk: "skeleton r = skeleton r0" by (rule pass_inv_skeleton [OF inv r])
  have len: "length (resources r) = length (resources r0)" using arg_cong [OF sk, of length] by simp
  have all: "st = Removed" if "(x, st) \<in> set (resources r)" for x st
    using f r that by (auto simp: in_progress_def in_set_conv_nth len)
  have eq: "resources (complete_cleanup r) = resources r" by (simp add: resources_def complete_cleanup_def)
  note ok = pass_inv_record [OF inv r, THEN conjunct2]
  from ok all show "record_ok P h (inventory js u) (complete_cleanup r)"
    unfolding record_ok_def eq by blast
  have "list_all (settled P h) (skeleton r)"
    using ok all unfolding record_ok_def by (fastforce simp: list_all_iff)
  then show "list_all (settled P h) (skeleton r0)" by (simp add: sk)
qed

lemma wp_complete:
  assumes env: "journal_env R F" and u: "wf_uuid u" and p: "holds R F (finishing P h0 js0 u r0) p" and f: "ps_failures p = []"
  shows "wp (bindP (on_journal (update_vm R F u complete_cleanup)) (\<lambda>_. bindP (on_journal (remove_vm R F u)) (\<lambda>_.
      on_journal (remove_abandoned R F u))))
    (\<lambda>_. holds R F (\<lambda>js h fs. pass_inv P h0 js0 u (skeleton r0) js h \<and> pass_done P u (skeleton r0) js h))
    (pass_stops R F P h0 js0 u n (skeleton r0)) p"
proof -
  let ?inv = "pass_inv P h0 js0 u (skeleton r0)"
  have 1: "wp (on_journal (update_vm R F u complete_cleanup))
      (\<lambda>_. holds R F (\<lambda>js h fs. ?inv js h \<and> list_all (settled P h) (skeleton r0))) (pass_stops R F P h0 js0 u n (skeleton r0)) p"
  proof (rule wp_call [OF p])
    fix js assume js: "finishing P h0 js0 u r0 js (w_host p) (ps_failures p)"
    then obtain r where r: "js_vms js u = Some r" "wf_vm r" by (auto simp: in_progress_def)
    note s = finishing_settled [OF js [unfolded f] r(1)]
    have "skeleton (complete_cleanup r) = skeleton r" "vr_vm_id (complete_cleanup r) = vr_vm_id r" "wf_vm (complete_cleanup r)"
      using r(2) by (simp_all add: complete_cleanup_def resources_def wf_vm_def)
    with s pass_inv_update [OF in_progressD [OF js] r(1), of "complete_cleanup r"] update_vm_runs [OF env r(1)] in_progressD [OF js]
    show "\<exists>a js'. db_runs R (journal_rel R F) journal_report (update_vm R F u complete_cleanup) js (Ok a) js'
        \<and> ?inv js (w_host p) \<and> ?inv js' (w_host p) \<and> ?inv js' (w_host p) \<and> list_all (settled P (w_host p)) (skeleton r0)"
      by blast
  qed
  have 2: "wp (on_journal (remove_vm R F u))
      (\<lambda>_. holds R F (\<lambda>js h fs. ?inv js h \<and> list_all (settled P h) (skeleton r0) \<and> js_vms js u = None))
      (pass_stops R F P h0 js0 u n (skeleton r0)) p"
    if "holds R F (\<lambda>js h fs. ?inv js h \<and> list_all (settled P h) (skeleton r0)) p" for p
    by (rule wp_call [OF that]) (intro exI conjI, rule remove_vm_runs [OF env u], auto intro: pass_inv_forget)
  have 3: "wp (on_journal (remove_abandoned R F u)) (\<lambda>_. holds R F (\<lambda>js h fs. ?inv js h \<and> pass_done P u (skeleton r0) js h))
      (pass_stops R F P h0 js0 u n (skeleton r0)) p"
    if "holds R F (\<lambda>js h fs. ?inv js h \<and> list_all (settled P h) (skeleton r0) \<and> js_vms js u = None) p" for p
    by (rule wp_call [OF that]) (intro exI conjI, rule remove_abandoned_runs [OF env u], auto intro: pass_inv_forget simp: pass_done_def)
  show ?thesis
    unfolding wp_bind by (rule wp_mono [OF 1]) (rule wp_mono [OF 2], assumption, rule 3)
qed

lemma left_keys: "(\<Union>y \<in> set (resources r). left_key y) \<subseteq> resource_key ` set (skeleton r)"
  by (force simp: left_key_def split: if_splits)

text \<open>The list of abandoned resources is written before the record: what is marked is always listed.\<close>

lemma wp_list:
  assumes env: "journal_env R F" and u: "wf_uuid u"
    and p: "holds R F (\<lambda>js h fs. pass_inv P h0 js0 u xs js h \<and> js_vms js u = Some r \<and> js_abandoned js u = old) p"
    and k: "entry_key ` set entries = (case old of None \<Rightarrow> {} | Some a \<Rightarrow> entry_key ` set (ar_entries a)) \<union> (\<Union>y \<in> set (resources r). left_key y)"
  shows "wp (on_journal (put_abandoned R F \<lparr>ar_schema_version = JOURNAL_SCHEMA_VERSION, ar_vm_id = u, ar_entries = entries\<rparr>))
    (\<lambda>_. holds R F (\<lambda>js h fs. pass_inv P h0 js0 u xs js h \<and> js_vms js u = Some r \<and> (\<Union>y \<in> set (resources r). left_key y) \<subseteq> inventory js u))
    (pass_stops R F P h0 js0 u n xs) p"
proof (rule wp_call [OF p])
  fix js assume js: "pass_inv P h0 js0 u xs js (w_host p) \<and> js_vms js u = Some r \<and> js_abandoned js u = old"
  let ?new = "\<lparr>ar_schema_version = JOURNAL_SCHEMA_VERSION, ar_vm_id = u, ar_entries = entries\<rparr>"
  let ?a = "?new\<lparr>ar_entries := merge_entries (case js_abandoned js u of Some p \<Rightarrow> ar_entries p | None \<Rightarrow> []) entries\<rparr>"
  let ?js = "js\<lparr>js_abandoned := (js_abandoned js)(u \<mapsto> ?a)\<rparr>"
  have new: "wf_abandoned ?new" "wf_uuid (ar_vm_id ?new)" using u by (simp_all add: wf_abandoned_def)
  from put_abandoned_runs [OF env new, of js]
  have run: "db_runs R (journal_rel R F) journal_report (put_abandoned R F ?new) js (Ok ()) ?js" by simp
  have keys: "entry_key ` set (ar_entries ?a) = inventory js u \<union> (\<Union>y \<in> set (resources r). left_key y)"
    using js by (cases old) (auto simp: merge_entries_keys k inventory_def)
  have "inventory js u \<subseteq> resource_key ` set (skeleton r)"
    using js pass_inv_record [of P h0 js0 u xs js "w_host p" r] by (auto simp: record_ok_def)
  then have "pass_inv P h0 js0 u xs ?js (w_host p)"
    using js keys left_keys [of r] by (intro pass_inv_list) auto
  moreover have "(\<Union>y \<in> set (resources r). left_key y) \<subseteq> inventory ?js u"
    unfolding inventory_def using keys by simp
  ultimately show "\<exists>a js'. db_runs R (journal_rel R F) journal_report (put_abandoned R F ?new) js (Ok a) js'
      \<and> pass_inv P h0 js0 u xs js (w_host p) \<and> pass_inv P h0 js0 u xs js' (w_host p) \<and> pass_inv P h0 js0 u xs js' (w_host p)
      \<and> js_vms js' u = Some r \<and> (\<Union>y \<in> set (resources r). left_key y) \<subseteq> inventory js' u"
    using run js by (intro exI [of _ "()"] exI [of _ ?js]) simp
qed

lemma wp_mark:
  assumes env: "journal_env R F" and r: "wf_vm r" "vr_phase r = PhaseCleanupPending" "MAX_CLEANUP_ATTEMPTS \<le> vr_cleanup_attempts r"
    and p: "holds R F (\<lambda>js h fs. pass_inv P h0 js0 u xs js h \<and> js_vms js u = Some r \<and> (\<Union>y \<in> set (resources r). left_key y) \<subseteq> inventory js u) p"
  shows "wp (on_journal (update_vm R F u (abandon_record now)))
    (\<lambda>_. holds R F (\<lambda>js h fs. pass_inv P h0 js0 u xs js h \<and> pass_done P u xs js h)) (pass_stops R F P h0 js0 u n xs) p"
proof (rule wp_call [OF p])
  fix js assume js: "pass_inv P h0 js0 u xs js (w_host p) \<and> js_vms js u = Some r \<and> (\<Union>y \<in> set (resources r). left_key y) \<subseteq> inventory js u"
  then have inv: "pass_inv P h0 js0 u xs js (w_host p)" and u: "js_vms js u = Some r" by simp_all
  have k: "(x, st) \<in> set (resources r) \<Longrightarrow> st \<noteq> Removed \<Longrightarrow> resource_key x \<in> inventory js u" for x st
    using js by (force simp: left_key_def)
  have ok: "record_ok P (w_host p) (inventory js u) (abandon_record now r)" "skeleton (abandon_record now r) = skeleton r"
    by (rule abandon_ok [OF pass_inv_record [OF inv u, THEN conjunct2] r(2)], erule (1) k)+
  have w: "wf_vm (abandon_record now r)" "vr_vm_id (abandon_record now r) = vr_vm_id r"
    using r(1) by (simp_all add: abandon_record_def wf_vm_def)
  let ?js = "js\<lparr>js_vms := (js_vms js)(u \<mapsto> abandon_record now r)\<rparr>"
  have t: "list_all (\<lambda>(x, st). st = Removed \<or> st = Abandoned) (resources (abandon_record now r))"
    by (auto simp: resources_abandon abandon_state_def list_all_iff split: if_splits)
  have "vr_cleanup_attempts (abandon_record now r) = vr_cleanup_attempts r" by (simp add: abandon_record_def)
  with terminal_resources [OF t] t r(3) have "pass_done P u xs ?js (w_host p)" by (simp add: pass_done_def)
  with update_vm_runs [of R F js u r "abandon_record now", OF env u w(1)] inv pass_inv_update [OF inv u ok(2) w(2) ok(1)]
  show "\<exists>a js'. db_runs R (journal_rel R F) journal_report (update_vm R F u (abandon_record now)) js (Ok a) js'
      \<and> pass_inv P h0 js0 u xs js (w_host p) \<and> pass_inv P h0 js0 u xs js' (w_host p) \<and> pass_inv P h0 js0 u xs js' (w_host p)
      \<and> pass_done P u xs js' (w_host p)" by blast
qed

lemma holds_summary [simp]: "holds R F \<phi> (ps_summary_update f p) = holds R F \<phi> p"
  by (simp add: holds_def)

lemma wp_abandon:
  assumes env: "journal_env R F" and u: "wf_uuid u"
    and r: "wf_vm r" "vr_phase r = PhaseCleanupPending" "MAX_CLEANUP_ATTEMPTS \<le> vr_cleanup_attempts r"
    and p: "holds R F (\<lambda>js h fs. pass_inv P h0 js0 u xs js h \<and> js_vms js u = Some r) p"
  shows "wp (abandon_remaining R F now u r) (\<lambda>_. holds R F (\<lambda>js h fs. pass_inv P h0 js0 u xs js h \<and> pass_done P u xs js h))
    (pass_stops R F P h0 js0 u n xs) p"
proof -
  have c: "wp (on_journal (abandoned R F u)) (\<lambda>a. holds R F (\<lambda>js h fs. pass_inv P h0 js0 u xs js h \<and> js_vms js u = Some r \<and> js_abandoned js u = a))
      (pass_stops R F P h0 js0 u n xs) p"
    by (rule wp_call [OF p]) (use abandoned_runs [OF env u] in fastforce)
  show ?thesis
    unfolding abandon_remaining_def wp_bind
  proof (rule wp_mono [OF c])
    fix old p'
    assume p': "holds R F (\<lambda>js h fs. pass_inv P h0 js0 u xs js h \<and> js_vms js u = Some r \<and> js_abandoned js u = old) p'"
    obtain entries now' where e: "consider_all now (ps_failures p') r (case old of Some a \<Rightarrow> ar_entries a | None \<Rightarrow> []) = (entries, now')"
      by fastforce
    with consider_all_keys [of now "ps_failures p'" r "case old of Some a \<Rightarrow> ar_entries a | None \<Rightarrow> []"]
    have k: "entry_key ` set entries = (case old of None \<Rightarrow> {} | Some a \<Rightarrow> entry_key ` set (ar_entries a)) \<union> (\<Union>y \<in> set (resources r). left_key y)"
      by (cases old) simp_all
    show "wp (getsP ps_failures) (\<lambda>failures. wp (let (entries, abandoned_now) =
         consider_all now failures r (case old of Some a \<Rightarrow> ar_entries a | None \<Rightarrow> []) in
       bindP (on_journal (put_abandoned R F \<lparr>ar_schema_version = JOURNAL_SCHEMA_VERSION, ar_vm_id = u, ar_entries = entries\<rparr>)) (\<lambda>_.
       bindP (on_journal (update_vm R F u (abandon_record abandoned_now))) (\<lambda>_.
       modifyP (ps_summary_update (su_abandoned_update (\<lambda>n. n + length abandoned_now))))))
       (\<lambda>_. holds R F (\<lambda>js h fs. pass_inv P h0 js0 u xs js h \<and> pass_done P u xs js h)) (pass_stops R F P h0 js0 u n xs))
       (pass_stops R F P h0 js0 u n xs) p'"
      unfolding wp_gets e Let_def prod.case wp_bind wp_modify holds_summary
      by (rule wp_mono [OF wp_list [OF env u p' k]]) (rule wp_mark [OF env r], assumption)
  qed
qed

lemma wp_finish:
  assumes env: "journal_env R F" and u: "wf_uuid u" and p: "holds R F (finishing P h0 js0 u r0) p"
  shows "wp (finish_cleanup R F now u)
    (\<lambda>_. holds R F (\<lambda>js h fs. pass_inv P h0 js0 u (skeleton r0) js h \<and> pass_done P u (skeleton r0) js h))
    (pass_stops R F P h0 js0 u (vr_cleanup_attempts r0) (skeleton r0)) p"
proof (cases "ps_failures p = []")
  case True
  with wp_complete [OF env u p True] show ?thesis by (simp add: finish_cleanup_def wp_simps)
next
  case False
  have "wp (bindP (require_vm R F u) (\<lambda>r. if MAX_CLEANUP_ATTEMPTS \<le> vr_cleanup_attempts r then abandon_remaining R F now u r
      else failP (Failed (report_new Cleanup [join_str ''; '' (map cf_cause (ps_failures p))]))))
      (\<lambda>_. holds R F (\<lambda>js h fs. pass_inv P h0 js0 u (skeleton r0) js h \<and> pass_done P u (skeleton r0) js h))
      (pass_stops R F P h0 js0 u (vr_cleanup_attempts r0) (skeleton r0)) p"
  proof (rule wp_require [OF env u p])
    fix js h fs assume "finishing P h0 js0 u r0 js h fs"
    then show "pass_inv P h0 js0 u (skeleton r0) js h \<and> js_vms js u \<noteq> None" by (auto simp: in_progress_def)
  next
    fix r p' assume h: "holds R F (\<lambda>js h fs. finishing P h0 js0 u r0 js h fs \<and> js_vms js u = Some r) p'"
    then have r: "wf_vm r" "vr_phase r = PhaseCleanupPending" and n: "vr_cleanup_attempts r = vr_cleanup_attempts r0" by (auto simp: holds_def in_progress_def)
    have q: "holds R F (\<lambda>js h fs. pass_inv P h0 js0 u (skeleton r0) js h \<and> js_vms js u = Some r) p'"
      using h by (rule holds_mono) (auto dest: in_progressD)
    have "pass_stops R F P h0 js0 u (vr_cleanup_attempts r0) (skeleton r0) (Failed (report_new Cleanup [t])) p'"
      if "\<not> MAX_CLEANUP_ATTEMPTS \<le> vr_cleanup_attempts r" for t
      unfolding pass_stops_def using q by (rule holds_mono) (use that n in auto)
    with wp_abandon [OF env u r _ q, of now]
    show "wp (if MAX_CLEANUP_ATTEMPTS \<le> vr_cleanup_attempts r then abandon_remaining R F now u r
      else failP (Failed (report_new Cleanup [join_str ''; '' (map cf_cause (ps_failures p))])))
      (\<lambda>_. holds R F (\<lambda>js h fs. pass_inv P h0 js0 u (skeleton r0) js h \<and> pass_done P u (skeleton r0) js h))
      (pass_stops R F P h0 js0 u (vr_cleanup_attempts r0) (skeleton r0)) p'"
      by (simp only: wp_simps split: if_splits)  blast
  qed
  with False show ?thesis by (simp add: finish_cleanup_def wp_simps)
qed

section \<open>A whole pass\<close>

definition cleanup_outcome ::
  "('h, 's, 'n) os \<Rightarrow> uuid \<Rightarrow> vm_record \<Rightarrow> stop + unit \<Rightarrow> jstate \<Rightarrow> 'h \<Rightarrow> bool" where
  "cleanup_outcome P u r q js h =
    (case q of
       Inr _ \<Rightarrow> pass_done P u (skeleton r) js h
     | Inl e \<Rightarrow> e = Crashed \<or> e = Failed journal_report
         \<or> (\<exists>t r'. e = Failed (report_new Cleanup [t]) \<and> js_vms js u = Some r'
              \<and> vr_cleanup_attempts r' = saturating_succ (vr_cleanup_attempts r) \<and> vr_cleanup_attempts r' < MAX_CLEANUP_ATTEMPTS))"

lemma start_resources [simp]: "resources (start_cleanup r) = resources r"
  by (simp add: resources_def start_cleanup_def)

lemma start_in_progress:
  assumes js: "journal_ok P h js" "js_vms js u = Some r" "wf_vm r"
  shows "in_progress P h js u (start_cleanup r) 0 (js\<lparr>js_vms := (js_vms js)(u \<mapsto> start_cleanup r)\<rparr>) h fs" (is ?A)
    and "pass_inv P h js u (skeleton r) js h" (is ?B) and "wf_vm (start_cleanup r)" (is ?C)
proof -
  show w: ?C using js(3) by (simp add: wf_vm_def start_cleanup_def)
  show inv: ?B using js by (simp add: pass_inv_def other_vms_def accounted_def)
  have i: "vr_vm_id (start_cleanup r) = vr_vm_id r" "vr_phase (start_cleanup r) = PhaseCleanupPending"
    by (simp_all add: start_cleanup_def)
  have "record_ok P h (inventory js u) (start_cleanup r)"
    using pass_inv_record [OF inv js(2)] unfolding record_ok_def by (simp add: i)
  then have "pass_inv P h js u (skeleton r) (js\<lparr>js_vms := (js_vms js)(u \<mapsto> start_cleanup r)\<rparr>) h"
    by (intro pass_inv_update [OF inv js(2)]) (simp_all add: i)
  then show ?A by (simp add: in_progress_def w i)
qed

context cleanup_operations
begin

lemma wp_steps:
  assumes P: "os_ok P" and env: "journal_env R F" and u: "wf_uuid u" and p: "holds R F (in_progress P h0 js0 u r0 0) p"
    and r0: "handles_match P rs r0" "quiet_disks r0"
  shows "wp (bindP (clean_compute R F K u (cl_system rs) r0) (\<lambda>_. bindP (clean_network R F K u (cl_network rs) r0) (\<lambda>_.
      bindP (forP (clean_disk R F K u) (enumerate 0 (vr_disks r0))) (\<lambda>_. finish_cleanup R F now u))))
    (\<lambda>_. holds R F (\<lambda>js h fs. pass_inv P h0 js0 u (skeleton r0) js h \<and> pass_done P u (skeleton r0) js h))
    (pass_stops R F P h0 js0 u (vr_cleanup_attempts r0) (skeleton r0)) p"
  unfolding wp_bind
proof (rule wp_mono [OF wp_compute [OF P env p r0(1)]])
  fix p assume p: "holds R F (in_progress P h0 js0 u r0 1) p"
  show "wp (clean_network R F K u (cl_network rs) r0) (\<lambda>_. wp (forP (clean_disk R F K u) (enumerate 0 (vr_disks r0))) (\<lambda>_. wp (finish_cleanup R F now u)
      (\<lambda>_. holds R F (\<lambda>js h fs. pass_inv P h0 js0 u (skeleton r0) js h \<and> pass_done P u (skeleton r0) js h))
      (pass_stops R F P h0 js0 u (vr_cleanup_attempts r0) (skeleton r0))) (pass_stops R F P h0 js0 u (vr_cleanup_attempts r0) (skeleton r0)))
      (pass_stops R F P h0 js0 u (vr_cleanup_attempts r0) (skeleton r0)) p"
    by (rule wp_mono [OF wp_network [OF P env p r0(1)]])
      (rule wp_mono [OF wp_disks [OF P env _ r0(2)]], assumption, rule wp_finish [OF env u], assumption, (erule stops_pass)+)
qed (rule stops_pass)

lemma wp_pass:
  assumes P: "os_ok P" and env: "journal_env R F" and js: "journal_rel R F (rd_tables R (w_db p)) js0" "journal_ok P (w_host p) js0"
    and r: "js_vms js0 u = Some r" "handles_match P rs r" "quiet_disks r"
  shows "wp (cleanup_pass R F K now u rs)
    (\<lambda>_. holds R F (\<lambda>js h fs. pass_inv P (w_host p) js0 u (skeleton r) js h \<and> pass_done P u (skeleton r) js h))
    (pass_stops R F P (w_host p) js0 u (saturating_succ (vr_cleanup_attempts r)) (skeleton r)) p"
proof -
  from journal_rel_wf(1) [OF js(1) r(1)] have u: "wf_uuid u" and w: "wf_vm r" by simp_all
  note start = start_in_progress [OF js(2) r(1) w]
  let ?r = "start_cleanup r"
  let ?E = "pass_stops R F P (w_host p) js0 u (vr_cleanup_attempts ?r) (skeleton ?r)"
  let ?\<phi> = "\<lambda>js h fs. in_progress P (w_host p) js0 u ?r 0 js h fs \<and> js_vms js u = Some ?r"
  have p: "holds R F (\<lambda>js h fs. js = js0 \<and> h = w_host p) p" using js(1) by (simp add: holds_def)
  have 1: "wp (on_journal (update_vm R F u start_cleanup)) (\<lambda>_. holds R F (\<lambda>js h fs. \<forall>fs. ?\<phi> js h fs)) ?E p"
    by (rule wp_call [OF p])
      (use update_vm_runs [OF env r(1), of start_cleanup] start in_progressD [OF start(1)] in \<open>auto intro!: exI\<close>)
  have 2: "wp (bindP (modifyP (ps_failures_update (\<lambda>_. []))) (\<lambda>_. bindP (require_vm R F u) (\<lambda>r.
      bindP (clean_compute R F K u (cl_system rs) r) (\<lambda>_. bindP (clean_network R F K u (cl_network rs) r) (\<lambda>_.
      bindP (forP (clean_disk R F K u) (enumerate 0 (vr_disks r))) (\<lambda>_. finish_cleanup R F now u))))))
      (\<lambda>_. holds R F (\<lambda>js h fs. pass_inv P (w_host p) js0 u (skeleton ?r) js h \<and> pass_done P u (skeleton ?r) js h)) ?E p'"
    if p': "holds R F (\<lambda>js h fs. \<forall>fs. ?\<phi> js h fs) p'" for p'
    unfolding wp_bind [of "modifyP _"] wp_modify
  proof (rule wp_require [OF env u, of ?\<phi>])
    show "holds R F ?\<phi> (ps_failures_update (\<lambda>_. []) p')" using p' by (simp add: holds_def) blast
    fix r' q assume q: "holds R F (\<lambda>js h fs. ?\<phi> js h fs \<and> js_vms js u = Some r') q"
    then have e: "r' = ?r" by (auto simp: holds_def)
    have m: "handles_match P rs ?r" "quiet_disks ?r" using r(2,3) by (simp_all add: handles_match_def quiet_disks_def start_cleanup_def)
    have q': "holds R F (in_progress P (w_host p) js0 u ?r 0) q" using q by (rule holds_mono) simp
    show "wp (bindP (clean_compute R F K u (cl_system rs) r') (\<lambda>_. bindP (clean_network R F K u (cl_network rs) r') (\<lambda>_.
      bindP (forP (clean_disk R F K u) (enumerate 0 (vr_disks r'))) (\<lambda>_. finish_cleanup R F now u))))
      (\<lambda>_. holds R F (\<lambda>js h fs. pass_inv P (w_host p) js0 u (skeleton ?r) js h \<and> pass_done P u (skeleton ?r) js h)) ?E q"
      unfolding e by (rule wp_steps [OF P env u q' m])
  qed (auto dest: in_progressD)
  have n: "vr_cleanup_attempts ?r = saturating_succ (vr_cleanup_attempts r)" by (simp add: start_cleanup_def)
  show ?thesis
    unfolding cleanup_pass_def wp_bind [of "on_journal _"]
    by (rule wp_mono [OF 1 [unfolded n start_resources] 2 [unfolded n start_resources]])
qed

end

section \<open>The operations on records\<close>

definition world_holds :: "('db, 'tx) redb \<Rightarrow> forms \<Rightarrow> (jstate \<Rightarrow> 'h \<Rightarrow> bool) \<Rightarrow> ('db, 'h) world \<Rightarrow> bool" where
  "world_holds R F \<phi> w \<longleftrightarrow> (\<exists>js. journal_rel R F (rd_tables R (w_db w)) js \<and> \<phi> js (w_host w))"

lemma pass_frame:
  "w_db (world.truncate p) = w_db p" "w_host (world.truncate p) = w_host p"
  "w_db (world.extend w x) = w_db w" "w_host (world.extend w x) = w_host w"
  by (simp_all add: world.defs)

context cleanup_operations
begin

lemma pass_outcome:
  assumes P: "os_ok P" and env: "journal_env R F" and js: "journal_rel R F (rd_tables R (w_db w)) js" "journal_ok P (w_host w) js"
    and r: "js_vms js u = Some r" "handles_match P rs r" "quiet_disks r"
    and run: "in_pass (cleanup_pass R F K now u rs) w = (q, w')"
  shows "world_holds R F (\<lambda>js' h'. pass_inv P (w_host w) js u (skeleton r) js' h' \<and> cleanup_outcome P u r q js' h') w'"
proof -
  define p where "p = world.extend w \<lparr>ps_summary = empty_summary, ps_failures = []\<rparr>"
  have p: "w_db p = w_db w" "w_host p = w_host w" by (simp_all add: p_def pass_frame)
  obtain p' where p': "cleanup_pass R F K now u rs p = (q, p')" "w' = world.truncate p'"
    using run by (auto simp: in_pass_def p_def split: prod.splits)
  note wp = wp_pass [OF P env js [folded p] r]
  from wpD [OF wp p'(1)] show ?thesis
    unfolding p
    by (auto simp: holds_def pass_stops_def world_holds_def cleanup_outcome_def p'(2) pass_frame) metis
qed

end

lemma cleanup_outcomes:
  assumes "os_ok P" "journal_env R F" "journal_rel R F (rd_tables R (w_db w)) js" "journal_ok P (w_host w) js"
    and "js_vms js u = Some r" "handles_match P rs r" "quiet_disks r"
    and "cleanup_record_async R F P now u rs w = (q, w') \<or> cleanup_record_sync R F P now u rs w = (q, w')"
  shows "world_holds R F (\<lambda>js' h'. pass_inv P (w_host w) js u (skeleton r) js' h' \<and> cleanup_outcome P u r q js' h') w'"
  using assms(8) async.pass_outcome [OF assms(1-7)] sync.pass_outcome [OF assms(1-7)]
  unfolding cleanup_record_async_def cleanup_record_sync_def cleanup_pass_eqs by blast

text \<open>A pass for a VM without a record changes nothing.\<close>

lemma wp_missing:
  assumes env: "journal_env R F" and u: "wf_uuid u" "js_vms js u = None" and js: "journal_rel R F (rd_tables R (w_db p)) js"
  shows "wp (cleanup_pass R F K now u rs) (\<lambda>_. holds R F (\<lambda>js h fs. False)) (stops_with R F (\<lambda>js' h'. js' = js \<and> h' = w_host p)) p"
proof -
  have h: "holds R F (\<lambda>js' h' fs. js' = js \<and> h' = w_host p) p" using js by (simp add: holds_def)
  have "wp (on_journal (update_vm R F u start_cleanup)) (\<lambda>_. holds R F (\<lambda>js h fs. False))
      (stops_with R F (\<lambda>js' h'. js' = js \<and> h' = w_host p)) p"
    by (rule wp_journal [OF h]) (use update_vm_missing [OF env u] in fastforce)
  then show ?thesis
    unfolding cleanup_pass_def wp_bind [of "on_journal _"] by (rule wp_mono) (auto simp: holds_def)
qed

lemma pass_missing:
  assumes env: "journal_env R F" and js: "journal_rel R F (rd_tables R (w_db w)) js" and u: "wf_uuid u" "js_vms js u = None"
    and run: "in_pass (cleanup_pass R F K now u rs) w = (q, w')"
  shows "world_holds R F (\<lambda>js' h'. js' = js \<and> h' = w_host w \<and> (q = Err Crashed \<or> q = Err (Failed journal_report))) w'"
proof -
  define p where "p = world.extend w \<lparr>ps_summary = empty_summary, ps_failures = []\<rparr>"
  have p: "w_db p = w_db w" "w_host p = w_host w" by (simp_all add: p_def pass_frame)
  obtain p' where p': "cleanup_pass R F K now u rs p = (q, p')" "w' = world.truncate p'"
    using run by (auto simp: in_pass_def p_def split: prod.splits)
  from wpD [OF wp_missing [OF env u js [folded p]] p'(1)] show ?thesis unfolding p
    by (auto simp: holds_def world_holds_def p'(2) pass_frame)
qed

section \<open>Dropping and closing a handle\<close>

lemma quiet_skeleton: "quiet_disks r \<longleftrightarrow> list_all (\<lambda>x. case x of RDisk d \<Rightarrow> \<not> names_absence (disk_identity d) | _ \<Rightarrow> True) (skeleton r)"
  by (cases "vr_network r") (simp_all add: quiet_disks_def resources_def list.pred_map o_def)

lemma pass_inv_trans:
  assumes "pass_inv P h0 js0 u xs js h" "pass_inv P h js u xs js' h'"
  shows "pass_inv P h0 js0 u xs js' h'"
  using assms spares_trans [of P "set xs" h0 h h'] by (auto simp: pass_inv_def other_vms_def)

lemma pass_again:
  assumes P: "os_ok P" and env: "journal_env R F" and u: "wf_uuid u"
    and w: "world_holds R F (pass_inv P h0 js0 u (skeleton r)) w" and r: "quiet_disks r"
    and run: "cleanup_record_sync R F P now u empty_resources w = (q, w')"
  shows "world_holds R F (pass_inv P h0 js0 u (skeleton r)) w' \<and> q \<noteq> Err Panicked"
proof -
  from w obtain js where js: "journal_rel R F (rd_tables R (w_db w)) js" "pass_inv P h0 js0 u (skeleton r) js (w_host w)"
    by (auto simp: world_holds_def)
  show ?thesis
  proof (cases "js_vms js u")
    case None
    from pass_missing [OF env js(1) u None, of "sync_hooks P" now empty_resources] run js(2) show ?thesis
      by (auto simp: cleanup_record_sync_def cleanup_pass_eqs world_holds_def)
  next
    case (Some r')
    have sk: "skeleton r' = skeleton r" by (rule pass_inv_skeleton [OF js(2) Some])
    have q: "quiet_disks r'" using r unfolding quiet_skeleton sk .
    have m: "handles_match P empty_resources r'" by (simp add: handles_match_def empty_resources_def)
    have ok: "journal_ok P (w_host w) js" using js(2) by (simp add: pass_inv_def)
    from cleanup_outcomes [OF P env js(1) ok Some m q disjI2 [OF run]] sk pass_inv_trans [OF js(2)]
    show ?thesis by (auto simp: world_holds_def cleanup_outcome_def)
  qed
qed

lemma close_outcome:
  assumes P: "os_ok P" and env: "journal_env R F" and js: "journal_rel R F (rd_tables R (w_db w)) js" "journal_ok P (w_host w) js"
    and r: "js_vms js (vm_id v) = Some r" "handles_match P (take_cleanup_resources v) r" "quiet_disks r" and c: "\<not> vm_cleanup_completed v"
    and run: "vm_close R F P now now' v w = (q, w')"
  shows "world_holds R F (\<lambda>js' h'. pass_inv P (w_host w) js (vm_id v) (skeleton r) js' h'
      \<and> (q = Ok () \<longrightarrow> pass_done P (vm_id v) (skeleton r) js' h')) w' \<and> q \<noteq> Err Panicked"
proof -
  have u: "wf_uuid (vm_id v)" using journal_rel_wf(1) [OF js(1) r(1)] by simp
  obtain q1 w1 where q1: "cleanup_record_async R F P now (vm_id v) (take_cleanup_resources v) w = (q1, w1)" by fastforce
  note o = cleanup_outcomes [OF P env js r disjI1 [OF q1]]
  obtain q2 w2 where q2: "cleanup_record_sync R F P now' (vm_id v) empty_resources w1 = (q2, w2)" by fastforce
  have w1: "world_holds R F (pass_inv P (w_host w) js (vm_id v) (skeleton r)) w1" using o by (auto simp: world_holds_def)
  note again = pass_again [OF P env u w1 r(3) q2]
  consider "q1 = Ok ()" "q = Ok ()" "w' = w1" | "q1 = Err Crashed" "q = Err Crashed" "w' = w1"
    | e where "q1 = Err (Failed e)" "q = Err (Failed e) \<or> q = Err Crashed" "w' = w2"
  proof (cases q1)
    case (Inr x)
    have "q = Ok () \<and> w' = w1"
      using run q1 by (simp add: vm_close_def vm_drop_def bindP_def tryP_def returnP_def ofResult_def Inr)
    with Inr show ?thesis by (intro that(1)) simp_all
  next
    case (Inl e)
    show ?thesis
    proof (cases e)
      case Crashed
      have "q = Err Crashed \<and> w' = w1" using run q1 by (simp add: vm_close_def bindP_def tryP_def failP_def Inl Crashed)
      with Inl Crashed show ?thesis by (intro that(2)) simp_all
    next
      case Panicked
      with o Inl show ?thesis by (auto simp: world_holds_def cleanup_outcome_def)
    next
      case (Failed x)
      have e: "take_cleanup_resources (v\<lparr>vm_system := None, vm_network := None, vm_cleanup_completed := False\<rparr>) = empty_resources"
        by (simp add: take_cleanup_resources_def empty_resources_def)
      have d: "vm_drop R F P now' (v\<lparr>vm_system := None, vm_network := None, vm_cleanup_completed := False\<rparr>) w1
          = (if q2 = Err Crashed then Err Crashed else Ok (), w2)"
        using again [THEN conjunct2] q2 unfolding vm_drop_def
        by (simp add: e bindP_def tryP_def) (auto simp: returnP_def ofResult_def split: sum.split stop.split)
      have "(q, w') = (if q2 = Err Crashed then Err Crashed else Err (Failed x), w2)"
        using run q1 c d by (simp add: vm_close_def bindP_def tryP_def ofResult_def [abs_def] Inl Failed split: if_splits)
      then show ?thesis using that(3) [of x] Inl Failed by (auto split: if_splits)
    qed
  qed
  then show ?thesis
  proof cases
    case 1
    with o show ?thesis by (simp add: cleanup_outcome_def)
  next
    case 2
    with w1 show ?thesis by (simp add: world_holds_def)
  next
    case (3 e)
    with again show ?thesis by (auto simp: world_holds_def)
  qed
qed

section \<open>A host in memory\<close>

text \<open>A host with the documented behaviour: systems on the list of stuck ones cannot be removed.\<close>

record mem_host =
  mh_files :: "(os_string \<times> file_identity) list"
  mh_systems :: "string list"
  mh_networks :: "(string \<times> string) list"
  mh_stuck :: "string list"

definition mem_remove_system :: "string \<Rightarrow> (mem_host, report, unit) prog" where
  "mem_remove_system i h =
    (if i \<in> set (mh_stuck h) then (Err (report_new ComputeSystemTerminate [''busy'']), h)
     else (Ok (), h\<lparr>mh_systems := removeAll i (mh_systems h)\<rparr>))"

definition mem_delete_network :: "string \<times> string \<Rightarrow> (mem_host, report, unit) prog" where
  "mem_delete_network n h = (Ok (), h\<lparr>mh_networks := removeAll n (mh_networks h)\<rparr>)"

definition mem_os :: "(mem_host, string, string \<times> string) os" where
  "mem_os = \<lparr>
    os_open_system = (\<lambda>i h. (if i \<in> set (mh_systems h) then Ok i else Err (report_new ComputeSystemOpen [''0x80070490'']), h)),
    os_remove_system = mem_remove_system,
    os_remove_system_sync = mem_remove_system,
    os_start_system = (\<lambda>s h. (Ok (), h)),
    os_delete_network = (\<lambda>ni n ei e. mem_delete_network (n, e)),
    os_close_network = mem_delete_network,
    os_exists = (\<lambda>p h. (map_of (mh_files h) p \<noteq> None, h)),
    os_file_identity = (\<lambda>p h. (case map_of (mh_files h) p of
        None \<Rightarrow> Err (report_new DiskInvalidPath [''0x80070002'']) | Some i \<Rightarrow> Ok i, h)),
    os_remove_file = (\<lambda>p h. (case map_of (mh_files h) p of
        None \<Rightarrow> (Err IoNotFound, h) | Some i \<Rightarrow> (Ok (), h\<lparr>mh_files := filter (\<lambda>(p', _). p' \<noteq> p) (mh_files h)\<rparr>))),
    os_revoke_access = (\<lambda>p sid h. (Ok (), h)),
    os_bytes_le = id,
    os_validate_sddl = (\<lambda>s. Ok ()),
    os_files = (\<lambda>h. map_of (mh_files h)),
    os_systems = (\<lambda>h. set (mh_systems h)),
    os_networks = (\<lambda>h. set (mh_networks h)),
    os_system_of = id,
    os_network_of = id\<rparr>"

lemma map_of_without: "map_of (filter (\<lambda>(k', _). k' \<noteq> k) kvs) = (map_of kvs)(k := None)"
  by (induction kvs) auto

lemma mem_os_ok: "os_ok mem_os"
proof -
  have busy: "\<not> resource_is_absent (report_new ComputeSystemTerminate [''busy''])" by code_simp
  have sys: "hook_effect mem_os (RCompute i) h r h'" if "mem_remove_system i h = (r, h')" for i h r h'
    using that busy
    by (auto simp: mem_remove_system_def hook_effect_def spares_def mem_os_def reports_gone_def split: if_splits)
  have net: "hook_effect mem_os (RNetwork (fst n) (snd n)) h r h'" if "mem_delete_network n h = (r, h')" for n h r h'
    using that by (auto simp: mem_delete_network_def hook_effect_def spares_def mem_os_def)
  show ?thesis
    unfolding os_ok_def
    by (intro conjI; use sys net net [of "(_, _)"] in
      \<open>auto simp: mem_os_def same_host_def map_of_without split: if_splits option.splits\<close>)
qed

text \<open>The journal in memory.\<close>

definition journal_db :: "(uuid \<times> vm_record) list \<Rightarrow> rows \<Rightarrow> mem_db" where
  "journal_db vms ab = \<lparr>md_tables = [''session'' \<mapsto> [], ''vm_records'' \<mapsto> map (map_prod id (fst vm_coder)) vms, ''abandoned'' \<mapsto> ab,
     ''journal_schema'' \<mapsto> [(str_bytes ''version'', le_bytes 4 1)]], md_script = []\<rparr>"

lemma sample_db_journal: "sample_db r = journal_db [(vr_vm_id r, r)] []"
  by (simp add: sample_db_def journal_db_def)

lemmas mem_defs = journal_write_def write_tx_def journal_read_def read_tx_def bindT_def callT_def open_table_def json_get_def
  table_remove_def json_insert_def returnT_def checkT_def mem_redb_def mem_begin_def mem_call_def mem_commit_def mem_drop_def
  journal_tables sample_forms_def coder_reads [OF record_coders_ok(2)]

lemma mem_vm_rows: "map_of (map (map_prod id (fst vm_coder)) vms) u = map_option (fst vm_coder) (map_of vms u)"
  by (induction vms) auto

lemma mem_journal:
  assumes "map_of vms u = Some r" "wf_vm r"
  shows "update_vm mem_redb sample_forms u f (journal_db vms ab) = (Ok (), journal_db ((u, f r) # vms) ab)"
    and "journal_vm mem_redb sample_forms u (journal_db vms ab) = (Ok (Some r), journal_db vms ab)"
  using assms check_ok(1) [OF assms(2)]
  by (auto simp: update_vm_def update_vm_tx_def journal_vm_def mem_defs journal_db_def mem_vm_rows fun_eq_iff)

lemma mem_filter_rows:
  "filter (\<lambda>(w, _). w \<noteq> u) (map (map_prod id g) vms) = map (map_prod id g) (filter (\<lambda>(w, _). w \<noteq> u) vms)"
  by (induction vms) auto

lemma mem_journal_remove:
  "remove_vm mem_redb sample_forms u (journal_db vms ab) = (Ok (), journal_db (filter (\<lambda>(w, _). w \<noteq> u) vms) ab)"
  "remove_abandoned mem_redb sample_forms u (journal_db vms ab) = (Ok (), journal_db vms (filter (\<lambda>(w, _). w \<noteq> u) ab))"
  by (auto simp: remove_vm_def remove_abandoned_def mem_defs journal_db_def fun_eq_iff mem_filter_rows)

definition sample_host :: "string list \<Rightarrow> mem_host" where
  "sample_host stuck = \<lparr>mh_files = [([100], \<lparr>fi_volume_serial = 1, fi_file_id = 2\<rparr>), ([101], \<lparr>fi_volume_serial = 1, fi_file_id = 3\<rparr>)],
     mh_systems = [''vm'', ''other''], mh_networks = [(''net'', ''ep'')], mh_stuck = stuck\<rparr>"

definition sample_world :: "string list \<Rightarrow> (mem_db, mem_host) world" where
  "sample_world stuck = \<lparr>w_db = sample_db sample_vm, w_host = sample_host stuck, w_fuel = None\<rparr>"

lemma sample_journal_ok: "journal_ok mem_os h (sample_state sample_vm)"
  by (auto simp: journal_ok_def sample_state_def record_ok_def inventory_def sample_vm_def resources_def)

lemma short_quiet: "length txt < 10 \<Longrightarrow> \<not> names_absence txt"
  by (auto simp: names_absence_def contains_iff to_ascii_lowercase_def dest!: arg_cong [of _ _ length])

lemma sample_vm_matches: "handles_match mem_os empty_resources sample_vm" "quiet_disks sample_vm"
  "js_vms (sample_state sample_vm) (vr_vm_id sample_vm) = Some sample_vm"
proof -
  have "length (to_string_lossy [100]) < 10"
    by (simp add: to_string_lossy_def chars_string_def utf8_encode_char_def high_surrogate_def low_surrogate_def)
  then have "\<not> names_absence (to_string_lossy [100])" by (rule short_quiet)
  then show "quiet_disks sample_vm" by (simp add: quiet_disks_def sample_vm_def disk_identity_def)
  show "handles_match mem_os empty_resources sample_vm" by (simp add: handles_match_def empty_resources_def)
  show "js_vms (sample_state sample_vm) (vr_vm_id sample_vm) = Some sample_vm" by (simp add: sample_state_def)
qed

lemmas run_defs = bindP_def returnP_def failP_def modifyP_def getsP_def tryP_def ofResult_def on_journal_def on_host_def tick_def

lemma sample_vm_id: "vr_vm_id sample_vm = replicate 16 7"
  by (simp add: sample_vm_def)

lemma mem_os_simps:
  "os_exists mem_os p h = (map_of (mh_files h) p \<noteq> None, h)"
  "os_file_identity mem_os p h = (case map_of (mh_files h) p of None \<Rightarrow> Err (report_new DiskInvalidPath [''0x80070002'']) | Some i \<Rightarrow> Ok i, h)"
  "os_remove_file mem_os p h = (case map_of (mh_files h) p of
     None \<Rightarrow> (Err IoNotFound, h) | Some i \<Rightarrow> (Ok (), h\<lparr>mh_files := filter (\<lambda>(p', _). p' \<noteq> p) (mh_files h)\<rparr>))"
  by (simp_all add: mem_os_def)

lemma mem_hooks:
  "hk_compute (async_hooks mem_os) i h = (if i \<in> set (mh_systems h) then mem_remove_system i h else (Ok (), h))"
  "hk_network (async_hooks mem_os) ni n ei e = mem_delete_network (n, e)"
  "hk_disk (async_hooks mem_os) = remove_disk mem_os"
proof -
  have "resource_is_absent (report_new ComputeSystemOpen [''0x80070490''])" by code_simp
  then show "hk_compute (async_hooks mem_os) i h = (if i \<in> set (mh_systems h) then mem_remove_system i h else (Ok (), h))"
    by (simp add: async_hooks_def remove_compute_system_by_id_def remove_by_id_def mem_os_def)
qed (simp_all add: async_hooks_def mem_os_def)

lemma sample_wf_vm: "wf_vm r \<longleftrightarrow> vr_schema_version r = 1"
  by (simp add: wf_vm_def JOURNAL_SCHEMA_VERSION_def)

lemma sample_cleanup:
  "cleanup_record_async mem_redb sample_forms mem_os now (vr_vm_id sample_vm) empty_resources (sample_world [])
    = (Ok (), \<lparr>w_db = journal_db [] [], w_host = \<lparr>mh_files = [([101], \<lparr>fi_volume_serial = 1, fi_file_id = 3\<rparr>)],
        mh_systems = [''other''], mh_networks = [], mh_stuck = []\<rparr>, w_fuel = None\<rparr>)"
  unfolding sample_vm_id cleanup_record_async_def cleanup_pass_eqs in_pass_def cleanup_pass_def sample_world_def
  by (simp add: world.defs sample_db_journal sample_vm_def run_defs mem_journal sample_wf_vm start_cleanup_def require_vm_def
      clean_compute_def clean_network_def clean_disk_def empty_resources_def mem_hooks mem_os_simps sample_host_def
      mem_remove_system_def mem_delete_network_def remove_disk_def revoke_disk_access_def delete_disk_def deletable_def
      apply_resource_outcome_def count_recovered_def set_compute_def set_network_def set_disk_def set_disk_state_def
      finish_cleanup_def mem_journal_remove complete_cleanup_def stop_of_def)

section \<open>Properties\<close>




definition sample_handle :: "(string, string \<times> string) vm" where
  "sample_handle = \<lparr>vm_id = vr_vm_id sample_vm, vm_system = Some ''vm'', vm_network = Some (''net'', ''ep''), vm_cleanup_completed = False\<rparr>"



definition coded_disk :: disk_resource where
  "coded_disk = (hd (vr_disks sample_vm))\<lparr>dr_path := [48, 120, 56, 48, 48, 55, 48, 48, 48, 50]\<rparr>"

lemma coded_path: "names_absence (disk_identity coded_disk)"
proof -
  have c: "char_of (48 :: nat) = CHR ''0''" "char_of (120 :: nat) = CHR ''x''" "char_of (56 :: nat) = CHR ''8''"
      "char_of (55 :: nat) = CHR ''7''" "char_of (50 :: nat) = CHR ''2''"
    by code_simp+
  have "to_string_lossy [48, 120, 56, 48, 48, 55, 48, 48, 48, 50] = ''0x80070002''"
    by (simp add: to_string_lossy_def chars_string_def utf8_encode_char_def high_surrogate_def low_surrogate_def bytes_str_def
        byte_char_def c)
  moreover have "names_absence ''0x80070002''" by code_simp
  ultimately show ?thesis by (simp add: disk_identity_def coded_disk_def)
qed


end
