(* ===== verification/SessionRecovery.thy ===== *)
theory SessionRecovery
  imports ResourceCleanup
begin

text \<open>
  Recovery of the sessions of processes that are gone: \<open>Session::open\<close> and \<open>reconcile_stale_sessions\<close> of
  \<open>vm.rs\<close>, the scan of the state directory and the query of abandoned resources of \<open>journal.rs\<close>. The
  state directory holds one database for each session; the calls on directories are parameters.
\<close>

section \<open>The state directory\<close>

text \<open>
  An entry of the directory: its name and its file type, when it could be read. The calls are
  \<open>Path::exists\<close> on the root, \<open>fs::read_dir\<close>, \<open>is_reparse_point\<close> and \<open>fs::remove_file\<close> on a session.
\<close>

record dir_entry =
  de_name :: os_string
  de_is_file :: "string + bool"

record 'h state_dir =
  sd_root :: os_string
  sd_exists :: "'h \<Rightarrow> bool \<times> 'h"
  sd_entries :: "('h, string, (string + dir_entry) list) prog"
  sd_is_reparse :: "os_string \<Rightarrow> ('h, report, bool) prog"
  sd_remove :: "os_string \<Rightarrow> ('h, io_failure, unit) prog"

text \<open>\<open>PathBuf::join\<close> of a root and a name without separators.\<close>

definition is_separator :: "u16 \<Rightarrow> bool" where
  "is_separator c \<longleftrightarrow> c = 92 \<or> c = 47"

definition path_join :: "os_string \<Rightarrow> os_string \<Rightarrow> os_string" where
  "path_join root name =
    (if root = [] \<or> is_separator (last root) \<or> length root = 2 \<and> root ! 1 = 58 then root @ name
     else root @ [92] @ name)"

definition session_path :: "forms \<Rightarrow> os_string \<Rightarrow> uuid \<Rightarrow> os_string" where
  "session_path F root session_id = path_join root (encode_utf16 (fm_uuid F session_id @ ''.redb''))"

text \<open>\<open>Path::extension\<close> of a file name: what follows the last dot, unless the name starts with it.\<close>

definition file_extension :: "os_string \<Rightarrow> os_string option" where
  "file_extension name =
    (let after = takeWhile (\<lambda>c. c \<noteq> 46) (rev name); rest = drop (length after) (rev name) in
     if name = [46, 46] \<or> rest = [] \<or> tl rest = [] then None else Some (rev after))"

text \<open>The code points of a name, with unpaired surrogates, and the bytes the order of names is that of.\<close>

fun wide_points :: "os_string \<Rightarrow> nat list" where
  "wide_points [] = []"
| "wide_points (u # us) =
    (case us of
       v # vs \<Rightarrow>
         if high_surrogate u \<and> low_surrogate v
         then (65536 + (unat u - 55296) * 1024 + (unat v - 56320)) # wide_points vs
         else unat u # wide_points us
     | [] \<Rightarrow> [unat u])"

definition name_bytes :: "os_string \<Rightarrow> byte list" where
  "name_bytes name = concat (map utf8_encode_char (wide_points name))"

definition journal_failure :: "string + 'a \<Rightarrow> ('s, report, 'a) prog" where
  "journal_failure r = ofResult (mapErr (\<lambda>_. journal_report) r)"

fun collect_sessions :: "'h state_dir \<Rightarrow> (string + dir_entry) list \<Rightarrow> ('h, report, os_string list) prog" where
  "collect_sessions D [] = returnP []"
| "collect_sessions D (entry # entries) =
    bindP (journal_failure entry) (\<lambda>entry.
    bindP (journal_failure (de_is_file entry)) (\<lambda>is_file.
    let path = path_join (sd_root D) (de_name entry) in
    bindP (if is_file \<and> file_extension (de_name entry) = Some (encode_utf16 ''redb'')
           then bindP (sd_is_reparse D path) (\<lambda>r. returnP (\<not> r)) else returnP False) (\<lambda>wanted.
    bindP (collect_sessions D entries) (\<lambda>names.
    returnP (if wanted then de_name entry # names else names)))))"

definition session_paths :: "'h state_dir \<Rightarrow> ('h, report, os_string list) prog" where
  "session_paths D =
    bindP (\<lambda>h. case sd_exists D h of (b, h) \<Rightarrow> (Ok b, h)) (\<lambda>found.
    if \<not> found then returnP []
    else
      bindP (\<lambda>h. case sd_entries D h of (r, h) \<Rightarrow> (mapErr (\<lambda>_. journal_report) r, h)) (\<lambda>entries.
      bindP (collect_sessions D entries) (\<lambda>names.
      returnP (map (path_join (sd_root D)) (sort_key name_bytes names)))))"

section \<open>Recovery\<close>

text \<open>The databases of the sessions by path, the host and the summary of the pass.\<close>

record ('db, 'h) site =
  si_files :: "os_string \<rightharpoonup> 'db"
  si_host :: 'h
  si_fuel :: "nat option"
  si_summary :: cleanup_summary

type_synonym ('db, 'h, 'a) site_prog = "(('db, 'h) site, stop, 'a) prog"

text \<open>A call with the journal of one session; a database that is not there cannot be opened.\<close>

definition on_session :: "os_string \<Rightarrow> ('db, 'h, 'a) pass_prog \<Rightarrow> ('db, 'h, 'a) site_prog" where
  "on_session path m s =
    (case si_files s path of
       None \<Rightarrow> (Err (Failed journal_report), s)
     | Some db \<Rightarrow>
         (case m \<lparr>w_db = db, w_host = si_host s, w_fuel = si_fuel s, ps_summary = si_summary s, ps_failures = []\<rparr> of
            (r, p) \<Rightarrow> (r, s\<lparr>si_files := (si_files s)(path \<mapsto> w_db p), si_host := w_host p, si_fuel := w_fuel p,
                            si_summary := ps_summary p\<rparr>)))"

text \<open>A call on the state directory.\<close>

definition on_dir :: "('h, report, 'a) prog \<Rightarrow> ('db, 'h, 'a) site_prog" where
  "on_dir op s =
    (case si_fuel s of
       Some 0 \<Rightarrow> (Err Crashed, s)
     | fuel \<Rightarrow>
         (case op (si_host s) of
            (r, h) \<Rightarrow> (mapErr Failed r, s\<lparr>si_host := h, si_fuel := map_option (\<lambda>n. n - 1) fuel\<rparr>)))"

text \<open>Removing the database of a recovered session.\<close>

definition remove_session :: "'h state_dir \<Rightarrow> os_string \<Rightarrow> ('db, 'h, unit) site_prog" where
  "remove_session D path =
    bindP (on_dir (\<lambda>h. case sd_remove D path h of (r, h) \<Rightarrow> (mapErr (\<lambda>_. journal_report) r, h))) (\<lambda>_.
    modifyP (\<lambda>s. s\<lparr>si_files := (si_files s)(path := None)\<rparr>))"

definition recover_record ::
  "('db, 'tx) redb \<Rightarrow> forms \<Rightarrow> ('h, 's, 'n) os \<Rightarrow> (vm_record \<Rightarrow> u64) \<Rightarrow> os_string \<Rightarrow> vm_record \<Rightarrow> ('db, 'h, unit) site_prog" where
  "recover_record R F P clock path r =
    (if is_complete r then on_session path (on_journal (remove_vm R F (vr_vm_id r)))
     else
       bindP (tryP (on_session path (cleanup_record_async_with R F P (clock r) (vr_vm_id r) empty_resources
         (remove_compute_system_by_id P) (os_delete_network P) (remove_disk P)))) (\<lambda>outcome.
       case outcome of Inl (Failed _) \<Rightarrow> returnP () | q \<Rightarrow> ofResult q))"

definition recover_session ::
  "('db, 'tx) redb \<Rightarrow> forms \<Rightarrow> ('h, 's, 'n) os \<Rightarrow> 'h state_dir \<Rightarrow> (vm_record \<Rightarrow> u64) \<Rightarrow> os_string \<Rightarrow> ('db, 'h, unit) site_prog" where
  "recover_session R F P D clock path =
    bindP (on_session path (on_journal (try_open_existing R F))) (\<lambda>stale.
    case stale of
      None \<Rightarrow> returnP ()
    | Some _ \<Rightarrow>
        bindP (on_session path (on_journal (all_vms R F))) (\<lambda>records.
        bindP (forP (recover_record R F P clock path) records) (\<lambda>_.
        bindP (on_session path (on_journal (all_vms R F))) (\<lambda>rest.
        let incomplete = list_ex (\<lambda>r. \<not> is_complete r) rest in
        bindP (on_session path (on_journal (has_abandoned R F))) (\<lambda>retains_inventory.
        if \<not> incomplete \<and> \<not> retains_inventory then remove_session D path else returnP ())))))"

definition reconcile_stale_sessions ::
  "('db, 'tx) redb \<Rightarrow> forms \<Rightarrow> ('h, 's, 'n) os \<Rightarrow> 'h state_dir \<Rightarrow> (vm_record \<Rightarrow> u64) \<Rightarrow> os_string \<Rightarrow> ('db, 'h, unit) site_prog" where
  "reconcile_stale_sessions R F P D clock current_path =
    bindP (modifyP (\<lambda>s. s\<lparr>si_summary := empty_summary\<rparr>)) (\<lambda>_.
    bindP (on_dir (session_paths D)) (\<lambda>paths.
    forP (\<lambda>path. if path = current_path then returnP () else recover_session R F P D clock path) paths))"

text \<open>
  \<open>Session::open\<close>: \<open>prepared\<close> is the outcome of creating and checking the root, \<open>checked\<close> that of the
  same steps in \<open>create_current\<close> with the SID of the user, \<open>fresh\<close> an empty database file.
\<close>

definition session_open ::
  "('db, 'tx) redb \<Rightarrow> forms \<Rightarrow> ('h, 's, 'n) os \<Rightarrow> 'h state_dir \<Rightarrow> (vm_record \<Rightarrow> u64) \<Rightarrow> report + unit \<Rightarrow> report + string \<Rightarrow>
   'db \<Rightarrow> uuid \<Rightarrow> u32 \<Rightarrow> u64 \<Rightarrow> ('db, 'h, session_record) site_prog" where
  "session_open R F P D clock prepared checked fresh session_id process_id now =
    bindP (ofResult (mapErr Failed prepared)) (\<lambda>_.
    let current_path = session_path F (sd_root D) session_id in
    bindP (reconcile_stale_sessions R F P D clock current_path) (\<lambda>_.
    bindP (modifyP (\<lambda>s. if isOk checked \<and> si_files s current_path = None
      then s\<lparr>si_files := (si_files s)(current_path \<mapsto> fresh)\<rparr> else s)) (\<lambda>_.
    on_session current_path (on_journal (create_current R F checked session_id process_id now)))))"

section \<open>The inventory of abandoned resources\<close>

fun decode_abandoned :: "forms \<Rightarrow> byte list list \<Rightarrow> report + abandoned_record list" where
  "decode_abandoned F [] = Ok []"
| "decode_abandoned F (bytes # values) =
    (case fm_abandoned_dec F bytes of
       None \<Rightarrow> Err journal_report
     | Some r \<Rightarrow> bindR (decode_abandoned F values) (\<lambda>rs.
         Ok (if ar_schema_version r = JOURNAL_SCHEMA_VERSION then r # rs else rs)))"

text \<open>The rows of one database; \<open>ro_open\<close> is \<open>ReadOnlyDatabase::open\<close>.\<close>

definition session_inventory ::
  "('db, 'tx) redb \<Rightarrow> forms \<Rightarrow> ('db \<Rightarrow> (redb_error + unit) \<times> 'db) \<Rightarrow> ('db, report fault, abandoned_record list) prog" where
  "session_inventory R F ro_open db =
    (case ro_open db of
       (Inl _, db) \<Rightarrow> (Ok [], db)
     | (Inr _, db) \<Rightarrow>
         journal_read R (read_inventory R F []
           (bindT (callT journal_report (rd_iter R (tb_name (ABANDONED R F)))) (\<lambda>rows.
            checkT (decode_abandoned F (map snd rows))))) db)"

primrec inventory_scan ::
  "('db, 'tx) redb \<Rightarrow> forms \<Rightarrow> ('db \<Rightarrow> (redb_error + unit) \<times> 'db) \<Rightarrow> os_string list \<Rightarrow> ('db, 'h, abandoned_record list) site_prog" where
  "inventory_scan R F ro_open [] = returnP []"
| "inventory_scan R F ro_open (path # paths) =
    bindP (\<lambda>s. case si_files s path of
        None \<Rightarrow> (Ok [], s)
      | Some _ \<Rightarrow> on_session path (on_journal (session_inventory R F ro_open)) s) (\<lambda>rs.
    bindP (inventory_scan R F ro_open paths) (\<lambda>more. returnP (rs @ more)))"

definition abandoned_inventory ::
  "('db, 'tx) redb \<Rightarrow> forms \<Rightarrow> 'h state_dir \<Rightarrow> ('db \<Rightarrow> (redb_error + unit) \<times> 'db) \<Rightarrow> ('db, 'h, abandoned_record list) site_prog" where
  "abandoned_inventory R F D ro_open =
    bindP (on_dir (session_paths D)) (inventory_scan R F ro_open)"

section \<open>One session\<close>

text \<open>
  What recovery keeps of a journal: every resource of every VM it had is in the record, listed or gone,
  and VMs it had no record of keep their lists.
\<close>

definition recovered :: "('h, 's, 'n) os \<Rightarrow> jstate \<Rightarrow> jstate \<Rightarrow> 'h \<Rightarrow> bool" where
  "recovered P js0 js h \<longleftrightarrow>
    journal_ok P h js \<and> js_session js = js_session js0
    \<and> (\<forall>u r. js_vms js0 u = Some r \<longrightarrow> accounted P h js u (skeleton r))
    \<and> (\<forall>u. js_vms js0 u = None \<longrightarrow> js_vms js u = None \<and> js_abandoned js u = js_abandoned js0 u)"

text \<open>A session may be deleted when nothing of it is left.\<close>

definition session_gone :: "('h, 's, 'n) os \<Rightarrow> jstate \<Rightarrow> 'h \<Rightarrow> bool" where
  "session_gone P js0 h \<longleftrightarrow>
    (\<forall>u r. js_vms js0 u = Some r \<longrightarrow> list_all (settled P h) (skeleton r))
    \<and> (\<forall>u. js_vms js0 u = None \<longrightarrow> js_abandoned js0 u = None)"

definition session_resources :: "jstate \<Rightarrow> resource set" where
  "session_resources js = (\<Union>r \<in> ran (js_vms js). set (skeleton r))"

lemma recoveredD:
  assumes "recovered P js0 js h"
  shows "journal_ok P h js" "js_session js = js_session js0" "js_vms js0 u = Some r \<Longrightarrow> accounted P h js u (skeleton r)"
    "js_vms js0 u = None \<Longrightarrow> js_vms js u = None" "js_vms js0 u = None \<Longrightarrow> js_abandoned js u = js_abandoned js0 u"
  using assms by (simp_all add: recovered_def)

lemma recoveredI:
  assumes "journal_ok P h js" "js_session js = js_session js0" "\<And>u r. js_vms js0 u = Some r \<Longrightarrow> accounted P h js u (skeleton r)"
    "\<And>u. js_vms js0 u = None \<Longrightarrow> js_vms js u = None" "\<And>u. js_vms js0 u = None \<Longrightarrow> js_abandoned js u = js_abandoned js0 u"
  shows "recovered P js0 js h"
  using assms by (simp add: recovered_def)

lemma accounted_some: "js_vms js u = Some r \<Longrightarrow> accounted P h js u xs \<longleftrightarrow> skeleton r = xs"
  by (simp add: accounted_def)

lemma accounted_none: "js_vms js u = None \<Longrightarrow> accounted P h js u xs \<longleftrightarrow> (\<forall>x \<in> set xs. settled P h x \<or> resource_key x \<in> inventory js u)"
  by (simp add: accounted_def)

lemma accounted_cong:
  "js_vms js' u = js_vms js u \<Longrightarrow> js_abandoned js' u = js_abandoned js u \<Longrightarrow> accounted P h js' u xs \<longleftrightarrow> accounted P h js u xs"
proof -
  assume "js_vms js' u = js_vms js u" "js_abandoned js' u = js_abandoned js u"
  moreover from this have "inventory js' u = inventory js u" by (simp add: inventory_def)
  ultimately show ?thesis by (simp add: accounted_def split: option.split)
qed

lemma record_okD:
  assumes "record_ok P h listed r" "(x, st) \<in> set (resources r)"
  shows "st = Removed \<Longrightarrow> settled P h x" "st = Abandoned \<Longrightarrow> resource_key x \<in> listed" "vr_phase r = PhaseComplete \<Longrightarrow> st = Removed"
  using assms unfolding record_ok_def by fast+

lemma recovered_refl: "journal_ok P h js \<Longrightarrow> recovered P js js h"
  by (auto simp: recovered_def accounted_def)

lemma recovered_spares: "spares P X h h' \<Longrightarrow> recovered P js0 js h \<Longrightarrow> recovered P js0 js h'"
  by (auto simp: recovered_def intro: journal_ok_spares accounted_spares)

lemma session_gone_spares: "spares P X h h' \<Longrightarrow> session_gone P js0 h \<Longrightarrow> session_gone P js0 h'"
  by (auto simp: session_gone_def list_all_iff intro: settled_spares)

lemma recovered_skeleton:
  assumes "recovered P js0 js h" "js_vms js u = Some r"
  shows "\<exists>r0. js_vms js0 u = Some r0 \<and> skeleton r = skeleton r0"
proof -
  from assms obtain r0 where "js_vms js0 u = Some r0" by (cases "js_vms js0 u") (auto simp: recovered_def)
  moreover have "skeleton r = skeleton r0" using recoveredD(3) [OF assms(1) calculation] by (simp add: accounted_some [OF assms(2)])
  ultimately show ?thesis by blast
qed

lemma recovered_pass:
  assumes rc: "recovered P js0 js h" and r: "js_vms js u = Some r" and p: "pass_inv P h js u (skeleton r) js' h'"
  shows "recovered P js0 js' h'"
proof -
  from recovered_skeleton [OF rc r] obtain r0 where r0: "js_vms js0 u = Some r0" "skeleton r = skeleton r0" by blast
  from p have sp: "spares P (set (skeleton r)) h h'" and ok: "journal_ok P h' js'" and o: "other_vms u js js'"
    and a: "accounted P h' js' u (skeleton r)" by (simp_all add: pass_inv_def)
  have "accounted P h' js' w (skeleton s)" if "js_vms js0 w = Some s" for w s
  proof (cases "w = u")
    case True
    with that r0 a show ?thesis by simp
  next
    case False
    have "accounted P h' js w (skeleton s)" by (rule accounted_spares [OF sp recoveredD(3) [OF rc that]])
    with o False accounted_cong [of js' w js P h' "skeleton s"] show ?thesis by (simp add: other_vms_def)
  qed
  moreover have "js_vms js' w = js_vms js w \<and> js_abandoned js' w = js_abandoned js w" if "js_vms js0 w = None" for w
    using that o r0 unfolding other_vms_def by (cases "w = u") auto
  moreover have "js_session js' = js_session js0" using o recoveredD(2) [OF rc] by (simp add: other_vms_def)
  ultimately show ?thesis using ok recoveredD(4,5) [OF rc] by (intro recoveredI) simp_all
qed

lemma complete_settled:
  assumes "record_ok P h listed r" "is_complete r" "x \<in> set (skeleton r)"
  shows "settled P h x \<or> resource_key x \<in> listed"
proof -
  from assms(3) obtain st where x: "(x, st) \<in> set (resources r)" by auto
  have "st = Removed \<or> st = Abandoned"
  proof (cases "vr_phase r = PhaseComplete")
    case True
    with record_okD(3) [OF assms(1) x] show ?thesis by simp
  next
    case False
    with assms(2) x show ?thesis
      by (auto simp: is_complete_def terminal_state_def resources_def list_all_iff split: option.splits)
  qed
  with record_okD(1,2) [OF assms(1) x] show ?thesis by auto
qed

lemma recovered_remove:
  assumes rc: "recovered P js0 js h" and r: "js_vms js u = None \<or> js_vms js u = Some r" "is_complete r"
  shows "recovered P js0 (js\<lparr>js_vms := (js_vms js)(u := None)\<rparr>) h"
proof (cases "js_vms js u")
  case None
  then have "(js_vms js)(u := None) = js_vms js" by (simp add: fun_eq_iff)
  with rc show ?thesis by simp
next
  case (Some r')
  with r have u: "js_vms js u = Some r" by simp
  let ?js = "js\<lparr>js_vms := (js_vms js)(u := None)\<rparr>"
  from recovered_skeleton [OF rc u] obtain r0 where r0: "js_vms js0 u = Some r0" "skeleton r = skeleton r0" by blast
  have ok: "record_ok P h (inventory js u) r" using rc u by (simp add: recovered_def journal_ok_def)
  have "accounted P h ?js u (skeleton r)" using complete_settled [OF ok r(2)] by (simp add: accounted_none)
  then have "accounted P h ?js w (skeleton s)" if "js_vms js0 w = Some s" for w s
    using recoveredD(3) [OF rc that] that r0 accounted_cong [of ?js w js P h "skeleton s"] by (cases "w = u") simp_all
  moreover have "journal_ok P h ?js" using recoveredD(1) [OF rc] by (auto simp: journal_ok_def)
  moreover have "w \<noteq> u" if "js_vms js0 w = None" for w using that r0 by auto
  ultimately show ?thesis using recoveredD(2,4,5) [OF rc] by (intro recoveredI) simp_all
qed

lemma recovered_gone:
  assumes rc: "recovered P js0 js h" and c: "\<forall>r \<in> ran (js_vms js). is_complete r" and a: "js_abandoned js = Map.empty"
  shows "session_gone P js0 h"
proof -
  have i: "inventory js u = {}" for u using a by (simp add: inventory_def)
  have "list_all (settled P h) (skeleton s)" if s: "js_vms js0 u = Some s" for u s
  proof (cases "js_vms js u")
    case None
    with recoveredD(3) [OF rc s] i show ?thesis by (simp add: accounted_none list_all_iff)
  next
    case (Some r)
    have ok: "record_ok P h (inventory js u) r" using rc Some by (simp add: recovered_def journal_ok_def)
    have sk: "skeleton r = skeleton s" using recoveredD(3) [OF rc s] by (simp add: accounted_some [OF Some])
    have "is_complete r" using c Some by (auto simp: ran_def)
    then have "list_all (settled P h) (skeleton r)" using complete_settled [OF ok] i unfolding list_all_iff by blast
    then show ?thesis by (simp only: sk)
  qed
  moreover have "js_abandoned js0 u = None" if "js_vms js0 u = None" for u using recoveredD(5) [OF rc that] a by simp
  ultimately show ?thesis by (simp add: session_gone_def)
qed

section \<open>All sessions\<close>

text \<open>A session that is still there is recovered as far as it got; one that is not left nothing.\<close>

definition file_inv :: "('db, 'tx) redb \<Rightarrow> forms \<Rightarrow> ('h, 's, 'n) os \<Rightarrow> 'h \<Rightarrow> jstate option \<Rightarrow> 'db option \<Rightarrow> bool" where
  "file_inv R F P h before file =
    (case before of
       None \<Rightarrow> file = None
     | Some js0 \<Rightarrow>
         (case file of
            None \<Rightarrow> session_gone P js0 h
          | Some db \<Rightarrow> \<exists>js. journal_rel R F (rd_tables R db) js \<and> recovered P js0 js h))"

lemma file_inv_spares: "spares P X h h' \<Longrightarrow> file_inv R F P h before file \<Longrightarrow> file_inv R F P h' before file"
  by (auto simp: file_inv_def split: option.splits intro: session_gone_spares recovered_spares)

definition fleet_inv ::
  "('db, 'tx) redb \<Rightarrow> forms \<Rightarrow> ('h, 's, 'n) os \<Rightarrow> (os_string \<rightharpoonup> jstate) \<Rightarrow> 'h \<Rightarrow> ('db, 'h) site \<Rightarrow> bool" where
  "fleet_inv R F P fs0 h0 s \<longleftrightarrow>
    spares P (\<Union>js \<in> ran fs0. session_resources js) h0 (si_host s)
    \<and> (\<forall>p. file_inv R F P (si_host s) (fs0 p) (si_files s p))"

definition focus ::
  "('db, 'tx) redb \<Rightarrow> forms \<Rightarrow> ('h, 's, 'n) os \<Rightarrow> (os_string \<rightharpoonup> jstate) \<Rightarrow> 'h \<Rightarrow> os_string \<Rightarrow> jstate \<Rightarrow>
   (jstate \<Rightarrow> 'h \<Rightarrow> bool) \<Rightarrow> ('db, 'h) site \<Rightarrow> bool" where
  "focus R F P fs0 h0 p js0 \<phi> s \<longleftrightarrow>
    fleet_inv R F P fs0 h0 s \<and> fs0 p = Some js0
    \<and> (\<exists>db js. si_files s p = Some db \<and> journal_rel R F (rd_tables R db) js \<and> recovered P js0 js (si_host s) \<and> \<phi> js (si_host s))"

lemma focusD: "focus R F P fs0 h0 p js0 \<phi> s \<Longrightarrow> fleet_inv R F P fs0 h0 s"
  by (simp add: focus_def)

lemma focus_mono: "focus R F P fs0 h0 p js0 \<phi> s \<Longrightarrow> (\<And>js h. \<phi> js h \<Longrightarrow> \<psi> js h) \<Longrightarrow> focus R F P fs0 h0 p js0 \<psi> s"
  by (auto simp: focus_def)

lemma fleet_update:
  assumes inv: "fleet_inv R F P fs0 h0 s" and p: "fs0 p = Some js0"
    and sp: "spares P (session_resources js0) (si_host s) h" and js: "journal_rel R F (rd_tables R db) js" "recovered P js0 js h"
  shows "fleet_inv R F P fs0 h0 (s\<lparr>si_files := (si_files s)(p \<mapsto> db), si_host := h, si_fuel := fuel, si_summary := sm\<rparr>)"
proof -
  have sub: "session_resources js0 \<subseteq> (\<Union>js \<in> ran fs0. session_resources js)" using p by (auto simp: ran_def)
  have "spares P (\<Union>js \<in> ran fs0. session_resources js) h0 h"
    using inv spares_trans [OF _ spares_mono [OF sp sub]] by (simp add: fleet_inv_def)
  moreover have "file_inv R F P h (fs0 q) (((si_files s)(p \<mapsto> db)) q)" for q
    using inv js p file_inv_spares [OF sp, of R F "fs0 q" "si_files s q"]
    by (cases "q = p") (auto simp: fleet_inv_def file_inv_def [of _ _ _ _ "Some _" "Some _"])
  ultimately show ?thesis by (simp add: fleet_inv_def)
qed

text \<open>A call with the journal of a session keeps the others.\<close>

lemma wp_session:
  assumes s: "focus R F P fs0 h0 p js0 \<phi> s"
    and m: "\<And>ps js. journal_rel R F (rd_tables R (w_db ps)) js \<Longrightarrow> w_host ps = si_host s \<Longrightarrow> recovered P js0 js (w_host ps) \<Longrightarrow>
      \<phi> js (w_host ps) \<Longrightarrow>
      wp m (\<lambda>a. holds R F (\<lambda>js' h fs. recovered P js0 js' h \<and> spares P (session_resources js0) (w_host ps) h \<and> \<psi> a js' h))
        (\<lambda>e. holds R F (\<lambda>js' h fs. recovered P js0 js' h \<and> spares P (session_resources js0) (w_host ps) h \<and> \<chi> e js' h)) ps"
  shows "wp (on_session p m) (\<lambda>a. focus R F P fs0 h0 p js0 (\<psi> a)) (\<lambda>e. focus R F P fs0 h0 p js0 (\<chi> e)) s"
proof -
  from s obtain db js where f: "fleet_inv R F P fs0 h0 s" "fs0 p = Some js0" "si_files s p = Some db"
    "journal_rel R F (rd_tables R db) js" "recovered P js0 js (si_host s)" "\<phi> js (si_host s)" by (auto simp: focus_def)
  define ps where "ps = \<lparr>w_db = db, w_host = si_host s, w_fuel = si_fuel s, ps_summary = si_summary s, ps_failures = []\<rparr>"
  obtain r ps' where run: "m ps = (r, ps')" by fastforce
  let ?s = "s\<lparr>si_files := (si_files s)(p \<mapsto> w_db ps'), si_host := w_host ps', si_fuel := w_fuel ps', si_summary := ps_summary ps'\<rparr>"
  have on: "on_session p m s = (r, ?s)" using f(3) run by (simp add: on_session_def ps_def)
  have w: "wp m (\<lambda>a. holds R F (\<lambda>js' h fs. recovered P js0 js' h \<and> spares P (session_resources js0) (w_host ps) h \<and> \<psi> a js' h))
        (\<lambda>e. holds R F (\<lambda>js' h fs. recovered P js0 js' h \<and> spares P (session_resources js0) (w_host ps) h \<and> \<chi> e js' h)) ps"
    by (rule m [of ps js]) (use f in \<open>simp_all add: ps_def\<close>)
  have kept: "focus R F P fs0 h0 p js0 \<theta> ?s"
    if h: "holds R F (\<lambda>js' h fs. recovered P js0 js' h \<and> spares P (session_resources js0) (w_host ps) h \<and> \<theta> js' h) ps'" for \<theta>
  proof -
    from h obtain js' where js': "journal_rel R F (rd_tables R (w_db ps')) js'" "recovered P js0 js' (w_host ps')"
      "spares P (session_resources js0) (si_host s) (w_host ps')" "\<theta> js' (w_host ps')" by (auto simp: holds_def ps_def)
    from fleet_update [OF f(1,2) js'(3,1,2)] js' f(2) show ?thesis by (auto simp: focus_def)
  qed
  from wpD [OF w run] show ?thesis
  proof (elim disjE exE conjE)
    fix a assume "r = Ok a" "holds R F (\<lambda>js' h fs. recovered P js0 js' h \<and> spares P (session_resources js0) (w_host ps) h \<and> \<psi> a js' h) ps'"
    with kept [of "\<psi> a"] on show ?thesis by (simp add: wp_def)
  next
    fix e assume "r = Err e" "holds R F (\<lambda>js' h fs. recovered P js0 js' h \<and> spares P (session_resources js0) (w_host ps) h \<and> \<chi> e js' h) ps'"
    with kept [of "\<chi> e"] on show ?thesis by (simp add: wp_def)
  qed
qed

text \<open>A call on the journal alone.\<close>

lemma wp_session_journal:
  assumes s: "focus R F P fs0 h0 p js0 \<phi> s"
    and op: "\<And>js h. recovered P js0 js h \<Longrightarrow> \<phi> js h \<Longrightarrow> \<exists>r js'. db_runs R (journal_rel R F) journal_report op js r js'
      \<and> recovered P js0 js' h \<and> \<chi> js h \<and> \<chi> js' h \<and> (\<forall>e. r = Err e \<longrightarrow> e = Fail journal_report) \<and> (\<forall>a. r = Ok a \<longrightarrow> \<psi> a js' h)"
  shows "wp (on_session p (on_journal op)) (\<lambda>a. focus R F P fs0 h0 p js0 (\<psi> a))
    (\<lambda>e. focus R F P fs0 h0 p js0 (\<lambda>js h. \<chi> js h \<and> e \<noteq> Panicked)) s"
proof (rule wp_session [OF s])
  fix ps :: "('a, 'c) pass" and js
  assume a: "journal_rel R F (rd_tables R (w_db ps)) js" "recovered P js0 js (w_host ps)" "\<phi> js (w_host ps)"
  have "wp (on_journal op) (\<lambda>a. holds R F (\<lambda>js' h fs. recovered P js0 js' h \<and> spares P (session_resources js0) (w_host ps) h \<and> \<psi> a js' h))
      (\<lambda>e q. holds R F (\<lambda>js' h fs. recovered P js0 js' h \<and> spares P (session_resources js0) (w_host ps) h \<and> \<chi> js' h) q
        \<and> e \<in> {Crashed, Failed journal_report}) ps"
  proof (rule wp_journal)
    show "holds R F (\<lambda>js' h fs. js' = js \<and> h = w_host ps) ps" using a by (simp add: holds_def)
  qed (use op [OF a(2,3)] a(2) in fastforce)
  then show "wp (on_journal op) (\<lambda>a. holds R F (\<lambda>js' h fs. recovered P js0 js' h \<and> spares P (session_resources js0) (w_host ps) h \<and> \<psi> a js' h))
      (\<lambda>e. holds R F (\<lambda>js' h fs. recovered P js0 js' h \<and> spares P (session_resources js0) (w_host ps) h \<and> \<chi> js' h \<and> e \<noteq> Panicked)) ps"
    by (rule wp_mono) (auto elim!: holds_mono)
qed

text \<open>A call on the journal that only reads.\<close>

lemma wp_session_read:
  assumes s: "focus R F P fs0 h0 p js0 \<phi> s"
    and op: "\<And>js db q db'. journal_rel R F (rd_tables R db) js \<Longrightarrow> op db = (q, db') \<Longrightarrow>
      journal_rel R F (rd_tables R db') js \<and> q \<noteq> Err Panic \<and> (\<forall>a. q = Ok a \<longrightarrow> \<psi> a js)"
  shows "wp (on_session p (on_journal op)) (\<lambda>a. focus R F P fs0 h0 p js0 (\<lambda>js h. \<phi> js h \<and> \<psi> a js))
    (\<lambda>e. focus R F P fs0 h0 p js0 (\<lambda>js h. \<phi> js h \<and> e \<noteq> Panicked)) s"
proof (rule wp_session [OF s])
  fix ps :: "('a, 'c) pass" and js
  assume a: "journal_rel R F (rd_tables R (w_db ps)) js" "recovered P js0 js (w_host ps)" "\<phi> js (w_host ps)"
  show "wp (on_journal op)
      (\<lambda>a. holds R F (\<lambda>js' h fs. recovered P js0 js' h \<and> spares P (session_resources js0) (w_host ps) h \<and> \<phi> js' h \<and> \<psi> a js'))
      (\<lambda>e. holds R F (\<lambda>js' h fs. recovered P js0 js' h \<and> spares P (session_resources js0) (w_host ps) h \<and> \<phi> js' h \<and> e \<noteq> Panicked)) ps"
  proof (cases ps rule: tick_cases)
    case 1
    with a show ?thesis by (auto simp: wp_def on_journal_def bindP_def holds_def)
  next
    case (2 n)
    obtain q db where q: "op (w_db ps) = (q, db)" by fastforce
    from op [OF a(1) q] a 2 q show ?thesis
      by (cases q) (auto simp: wp_def on_journal_def bindP_def holds_def stop_of_def split: fault.splits)
  qed
qed

text \<open>One record. A record that was complete when it was read is unchanged or gone.\<close>

definition complete_kept :: "jstate \<Rightarrow> jstate \<Rightarrow> bool" where
  "complete_kept js1 js \<longleftrightarrow> (\<forall>u r. js_vms js1 u = Some r \<longrightarrow> is_complete r \<longrightarrow> js_vms js u = None \<or> js_vms js u = Some r)"

lemma complete_kept_other:
  assumes "complete_kept js1 js" "js_vms js1 u = Some r" "\<not> is_complete r" "\<And>w. w \<noteq> u \<Longrightarrow> js_vms js' w = js_vms js w"
  shows "complete_kept js1 js'"
  unfolding complete_kept_def
proof (intro allI impI)
  fix w s assume w: "js_vms js1 w = Some s" "is_complete s"
  then have "w \<noteq> u" using assms(2,3) by auto
  with assms(4) [of w] assms(1) w show "js_vms js' w = None \<or> js_vms js' w = Some s" by (simp add: complete_kept_def)
qed

lemma wp_recover_pass:
  assumes P: "os_ok P" and env: "journal_env R F" and q0: "\<forall>r \<in> ran (js_vms js0). quiet_disks r"
    and ps: "journal_rel R F (rd_tables R (w_db ps)) js" "recovered P js0 js (w_host ps)" "complete_kept js1 js"
    and u: "js_vms js1 u = Some r" "\<not> is_complete r" "wf_uuid u"
  shows "wp (cleanup_pass R F (async_hooks P) now u empty_resources)
    (\<lambda>a. holds R F (\<lambda>js' h fs. recovered P js0 js' h \<and> spares P (session_resources js0) (w_host ps) h \<and> complete_kept js1 js'))
    (\<lambda>e. holds R F (\<lambda>js' h fs. recovered P js0 js' h \<and> spares P (session_resources js0) (w_host ps) h \<and> complete_kept js1 js' \<and> e \<noteq> Panicked)) ps"
proof (cases "js_vms js u")
  case None
  have h: "holds R F (\<lambda>js' h' fs. js' = js \<and> h' = w_host ps) ps" using ps(1) by (simp add: holds_def)
  have "wp (cleanup_pass R F (async_hooks P) now u empty_resources) (\<lambda>_. holds R F (\<lambda>js h fs. False))
      (stops_with R F (\<lambda>js' h'. js' = js \<and> h' = w_host ps)) ps"
    by (rule wp_missing [OF env u(3) None ps(1)])
  then show ?thesis
    by (rule wp_mono) (use ps(2,3) in \<open>auto simp: holds_def\<close>)
next
  case (Some r')
  from recovered_skeleton [OF ps(2) Some] obtain r0 where r0: "js_vms js0 u = Some r0" "skeleton r' = skeleton r0" by blast
  have "quiet_disks r0" using q0 r0(1) by (auto simp: ran_def)
  then have q: "quiet_disks r'" unfolding quiet_skeleton r0(2) .
  have m: "handles_match P empty_resources r'" by (simp add: handles_match_def empty_resources_def)
  have keep: "recovered P js0 js' h \<and> spares P (session_resources js0) (w_host ps) h \<and> complete_kept js1 js'"
    if "pass_inv P (w_host ps) js u (skeleton r') js' h" for js' h
  proof -
    have sp: "spares P (set (skeleton r')) (w_host ps) h" and o: "other_vms u js js'" using that by (simp_all add: pass_inv_def)
    have "set (skeleton r') \<subseteq> session_resources js0" using r0 by (auto simp: session_resources_def ran_def)
    moreover have "complete_kept js1 js'"
      by (rule complete_kept_other [OF ps(3) u(1,2)]) (use o in \<open>simp add: other_vms_def\<close>)
    ultimately show ?thesis using recovered_pass [OF ps(2) Some that] spares_mono [OF sp] by blast
  qed
  show ?thesis
    by (rule wp_mono [OF async.wp_pass [OF P env ps(1) recoveredD(1) [OF ps(2)] Some m q]])
      (auto simp: pass_stops_def elim!: holds_mono dest: keep)
qed

lemma focus_stop: "focus R F P fs0 h0 p js0 (\<lambda>js h. \<phi> js h \<and> e \<noteq> Panicked) s \<Longrightarrow> fleet_inv R F P fs0 h0 s \<and> e \<noteq> Panicked"
  by (auto simp: focus_def)

abbreviation recovery_stops ::
  "('db, 'tx) redb \<Rightarrow> forms \<Rightarrow> ('h, 's, 'n) os \<Rightarrow> (os_string \<rightharpoonup> jstate) \<Rightarrow> 'h \<Rightarrow> stop \<Rightarrow> ('db, 'h) site \<Rightarrow> bool" where
  "recovery_stops R F P fs0 h0 e s \<equiv> fleet_inv R F P fs0 h0 s \<and> e \<noteq> Panicked"

lemma wp_record:
  assumes P: "os_ok P" and env: "journal_env R F" and q0: "\<forall>r \<in> ran (js_vms js0). quiet_disks r"
    and s: "focus R F P fs0 h0 p js0 (\<lambda>js h. complete_kept js1 js) s" and r: "js_vms js1 (vr_vm_id r) = Some r" "wf_uuid (vr_vm_id r)"
  shows "wp (recover_record R F P clock p r) (\<lambda>_. focus R F P fs0 h0 p js0 (\<lambda>js h. complete_kept js1 js)) (recovery_stops R F P fs0 h0) s"
proof (cases "is_complete r")
  case True
  have "wp (on_session p (on_journal (remove_vm R F (vr_vm_id r)))) (\<lambda>_. focus R F P fs0 h0 p js0 (\<lambda>js h. complete_kept js1 js))
      (\<lambda>e. focus R F P fs0 h0 p js0 (\<lambda>js h. True \<and> e \<noteq> Panicked)) s"
  proof (rule wp_session_journal [OF s])
    fix js h assume rc: "recovered P js0 js h" and c: "complete_kept js1 js"
    let ?js = "js\<lparr>js_vms := (js_vms js)(vr_vm_id r := None)\<rparr>"
    have "recovered P js0 ?js h" by (rule recovered_remove [OF rc _ True]) (use c r True in \<open>auto simp: complete_kept_def\<close>)
    moreover have "complete_kept js1 ?js" using c by (auto simp: complete_kept_def)
    ultimately show "\<exists>q js'. db_runs R (journal_rel R F) journal_report (remove_vm R F (vr_vm_id r)) js q js' \<and> recovered P js0 js' h \<and> True \<and> True
        \<and> (\<forall>e. q = Err e \<longrightarrow> e = Fail journal_report) \<and> (\<forall>a. q = Ok a \<longrightarrow> complete_kept js1 js')"
      using remove_vm_runs [OF env r(2), of js] by blast
  qed
  then show ?thesis unfolding recover_record_def if_P [OF True] by (rule wp_mono) (assumption, rule focus_stop)
next
  case False
  have "wp (on_session p (cleanup_pass R F (async_hooks P) (clock r) (vr_vm_id r) empty_resources))
      (\<lambda>_. focus R F P fs0 h0 p js0 (\<lambda>js h. complete_kept js1 js))
      (\<lambda>e. focus R F P fs0 h0 p js0 (\<lambda>js h. complete_kept js1 js \<and> e \<noteq> Panicked)) s"
    by (rule wp_session [OF s], rule wp_recover_pass [OF P env q0 _ _ _ r(1) False r(2)]) simp_all
  then show ?thesis
    unfolding recover_record_def cleanup_pass_eqs using False
    by (auto simp: wp_simps elim!: wp_mono dest: focus_stop split: stop.splits intro: focus_mono)
qed

lemma wp_records:
  assumes P: "os_ok P" and env: "journal_env R F" and q0: "\<forall>r \<in> ran (js_vms js0). quiet_disks r"
    and s: "focus R F P fs0 h0 p js0 (\<lambda>js h. complete_kept js1 js) s"
    and rs: "\<And>r. r \<in> set rs \<Longrightarrow> js_vms js1 (vr_vm_id r) = Some r \<and> wf_uuid (vr_vm_id r)"
  shows "wp (forP (recover_record R F P clock p) rs) (\<lambda>_. focus R F P fs0 h0 p js0 (\<lambda>js h. True)) (recovery_stops R F P fs0 h0) s"
proof (rule wp_for [where I = "\<lambda>ys s. focus R F P fs0 h0 p js0 (\<lambda>js h. complete_kept js1 js) s \<and> set ys \<subseteq> set rs"])
  fix r ys s assume i: "focus R F P fs0 h0 p js0 (\<lambda>js h. complete_kept js1 js) s \<and> set (r # ys) \<subseteq> set rs"
  then have "r \<in> set rs" by simp
  from wp_record [OF P env q0 conjunct1 [OF i] conjunct1 [OF rs [OF this]] conjunct2 [OF rs [OF this]], of clock] i
  show "wp (recover_record R F P clock p r) (\<lambda>_ s. focus R F P fs0 h0 p js0 (\<lambda>js h. complete_kept js1 js) s \<and> set ys \<subseteq> set rs)
      (recovery_stops R F P fs0 h0) s" by (auto elim!: wp_mono)
qed (use s in \<open>auto intro: focus_mono\<close>)

section \<open>The state directory\<close>

text \<open>Calls on the state directory leave the resources of VMs alone: disks are outside of it.\<close>

definition dir_ok :: "('h, 's, 'n) os \<Rightarrow> 'h state_dir \<Rightarrow> bool" where
  "dir_ok P D \<longleftrightarrow>
    (\<forall>h b h'. sd_exists D h = (b, h') \<longrightarrow> same_host P h h')
    \<and> (\<forall>h r h'. sd_entries D h = (r, h') \<longrightarrow> same_host P h h')
    \<and> (\<forall>p h r h'. sd_is_reparse D p h = (r, h') \<longrightarrow> same_host P h h')
    \<and> (\<forall>p h r h'. sd_remove D p h = (r, h') \<longrightarrow> same_host P h h')"

lemma dir_okD:
  assumes "dir_ok P D"
  shows "sd_exists D h = (b, h') \<Longrightarrow> same_host P h h'" "sd_entries D h = (r, h') \<Longrightarrow> same_host P h h'"
    "sd_is_reparse D p h = (q, h') \<Longrightarrow> same_host P h h'" "sd_remove D p h = (t, h') \<Longrightarrow> same_host P h h'"
  using assms unfolding dir_ok_def by blast+

lemma keeps_host: "(\<And>h r h'. m h = (r, h') \<Longrightarrow> same_host P h h') \<Longrightarrow> keeps (same_host P h0) m"
  unfolding keeps_def by (metis prod.collapse same_host_trans)

lemma collect_keeps:
  assumes "dir_ok P D"
  shows "keeps (same_host P h0) (collect_sessions D entries)"
proof (induction entries)
  case Nil
  then show ?case by (simp add: keeps_return)
next
  case (Cons e es)
  have "keeps (same_host P h0) (sd_is_reparse D p)" for p by (rule keeps_host) (rule dir_okD(3) [OF assms])
  with Cons.IH show ?case
    unfolding collect_sessions.simps Let_def journal_failure_def by (intro keeps_rules)
qed

lemma session_paths_host:
  assumes "dir_ok P D" "session_paths D h = (r, h')"
  shows "same_host P h h'"
proof -
  have 1: "keeps (same_host P h) (\<lambda>h. case sd_exists D h of (b, h) \<Rightarrow> (Ok b, h))"
    by (rule keeps_host) (auto dest: dir_okD(1) [OF assms(1)] split: prod.splits)
  have 2: "keeps (same_host P h) (\<lambda>h. case sd_entries D h of (r, h) \<Rightarrow> (mapErr (\<lambda>_. journal_report) r, h))"
    by (rule keeps_host) (auto dest: dir_okD(2) [OF assms(1)] split: prod.splits)
  have "keeps (same_host P h) (session_paths D)"
    unfolding session_paths_def by (intro keeps_rules 1 2 collect_keeps [OF assms(1)])
  from keepsD [OF this assms(2)] show ?thesis by (simp add: same_host_refl)
qed

lemma fleet_host:
  assumes "fleet_inv R F P fs0 h0 s" "same_host P (si_host s) h"
  shows "fleet_inv R F P fs0 h0 (s\<lparr>si_host := h, si_fuel := fuel\<rparr>)"
proof -
  note sp = same_host_spares [OF assms(2)]
  have "file_inv R F P h (fs0 p) (si_files s p)" for p
    using assms(1) by (intro file_inv_spares [OF sp]) (simp add: fleet_inv_def)
  with assms(1) spares_trans [OF _ sp] show ?thesis by (simp add: fleet_inv_def)
qed

lemma wp_dir:
  assumes s: "fleet_inv R F P fs0 h0 s" and op: "\<And>r h'. op (si_host s) = (r, h') \<Longrightarrow> same_host P (si_host s) h'"
  shows "wp (on_dir op) (\<lambda>_ s'. fleet_inv R F P fs0 h0 s' \<and> si_files s' = si_files s \<and> same_host P (si_host s) (si_host s'))
    (recovery_stops R F P fs0 h0) s"
proof -
  obtain r h' where "op (si_host s) = (r, h')" by fastforce
  with fleet_host [OF s op [OF this]] op [OF this] s show ?thesis
    by (cases r) (auto simp: wp_def on_dir_def same_host_refl split: option.splits nat.splits)
qed

section \<open>Recovery forgets nothing\<close>

lemma wp_remove_session:
  assumes D: "dir_ok P D" and s: "fleet_inv R F P fs0 h0 s" and p: "fs0 p = Some js0" "session_gone P js0 (si_host s)"
  shows "wp (remove_session D p) (\<lambda>_. fleet_inv R F P fs0 h0) (recovery_stops R F P fs0 h0) s"
proof -
  have "wp (on_dir (\<lambda>h. case sd_remove D p h of (r, h) \<Rightarrow> (mapErr (\<lambda>_. journal_report) r, h)))
      (\<lambda>_ s'. fleet_inv R F P fs0 h0 s' \<and> si_files s' = si_files s \<and> same_host P (si_host s) (si_host s')) (recovery_stops R F P fs0 h0) s"
    by (rule wp_dir [OF s]) (auto dest: dir_okD(4) [OF D] split: prod.splits)
  then show ?thesis
    unfolding remove_session_def wp_bind wp_modify
  proof (rule wp_mono)
    fix s' assume s': "fleet_inv R F P fs0 h0 s' \<and> si_files s' = si_files s \<and> same_host P (si_host s) (si_host s')"
    then have "session_gone P js0 (si_host s')" using session_gone_spares [OF same_host_spares p(2)] by blast
    then have "file_inv R F P (si_host s') (fs0 p) None" using p(1) by (simp add: file_inv_def)
    with conjunct1 [OF s'] show "fleet_inv R F P fs0 h0 (s'\<lparr>si_files := (si_files s')(p := None)\<rparr>)" by (simp add: fleet_inv_def)
  qed
qed

lemma wp_sweep:
  assumes D: "dir_ok P D" and env: "journal_env R F" and s: "focus R F P fs0 h0 p js0 (\<lambda>js h. True) s"
  shows "wp (bindP (on_session p (on_journal (all_vms R F))) (\<lambda>rest.
      let incomplete = list_ex (\<lambda>r. \<not> is_complete r) rest in
      bindP (on_session p (on_journal (has_abandoned R F))) (\<lambda>retains_inventory.
      if \<not> incomplete \<and> \<not> retains_inventory then remove_session D p else returnP ())))
    (\<lambda>_. fleet_inv R F P fs0 h0) (recovery_stops R F P fs0 h0) s"
  unfolding wp_bind Let_def
proof (rule wp_mono [OF wp_session_read [OF s, where \<psi> = "\<lambda>rs js. set rs = ran (js_vms js)"]])
  fix js db q db' assume a: "journal_rel R F (rd_tables R db) js" "all_vms R F db = (q, db')"
  from all_vms_runs [OF env a] show "journal_rel R F (rd_tables R db') js \<and> q \<noteq> Err Panic \<and> (\<forall>rs. q = Ok rs \<longrightarrow> set rs = ran (js_vms js))"
    by auto
next
  fix rs s assume s: "focus R F P fs0 h0 p js0 (\<lambda>js h. True \<and> set rs = ran (js_vms js)) s"
  show "wp (on_session p (on_journal (has_abandoned R F)))
      (\<lambda>a. wp (if \<not> list_ex (\<lambda>r. \<not> is_complete r) rs \<and> \<not> a then remove_session D p else returnP ()) (\<lambda>_. fleet_inv R F P fs0 h0)
        (recovery_stops R F P fs0 h0)) (recovery_stops R F P fs0 h0) s"
  proof (rule wp_mono [OF wp_session_read [OF s, where \<psi> = "\<lambda>b js. b = (js_abandoned js \<noteq> Map.empty)"]])
    fix js db q db' assume a: "journal_rel R F (rd_tables R db) js" "has_abandoned R F db = (q, db')"
    from db_runsD [OF has_abandoned_runs [OF env] a]
    show "journal_rel R F (rd_tables R db') js \<and> q \<noteq> Err Panic \<and> (\<forall>b. q = Ok b \<longrightarrow> b = (js_abandoned js \<noteq> Map.empty))" by auto
  next
    fix b s
    assume f: "focus R F P fs0 h0 p js0 (\<lambda>js h. (True \<and> set rs = ran (js_vms js)) \<and> b = (js_abandoned js \<noteq> Map.empty)) s"
    then obtain js where js: "recovered P js0 js (si_host s)" "set rs = ran (js_vms js)" "b = (js_abandoned js \<noteq> Map.empty)"
      and p: "fs0 p = Some js0" by (auto simp: focus_def)
    have "session_gone P js0 (si_host s)" if "\<not> list_ex (\<lambda>r. \<not> is_complete r) rs" "\<not> b"
      by (rule recovered_gone [OF js(1)]) (use that js(2,3) in \<open>auto simp: list_ex_iff\<close>)
    then show "wp (if \<not> list_ex (\<lambda>r. \<not> is_complete r) rs \<and> \<not> b then remove_session D p else returnP ()) (\<lambda>_. fleet_inv R F P fs0 h0)
        (recovery_stops R F P fs0 h0) s"
      using wp_remove_session [OF D focusD [OF f] p] focusD [OF f] by (simp add: wp_simps)
  qed (rule focus_stop)
qed (rule focus_stop)

lemma wp_recover_session:
  assumes P: "os_ok P" and D: "dir_ok P D" and env: "journal_env R F" and q0: "\<forall>js \<in> ran fs0. \<forall>r \<in> ran (js_vms js). quiet_disks r"
    and s: "fleet_inv R F P fs0 h0 s"
  shows "wp (recover_session R F P D clock p) (\<lambda>_. fleet_inv R F P fs0 h0) (recovery_stops R F P fs0 h0) s"
proof (cases "si_files s p")
  case None
  with s show ?thesis by (simp add: recover_session_def wp_def bindP_def on_session_def)
next
  case (Some db)
  have fi: "file_inv R F P (si_host s) (fs0 p) (Some db)" using s Some unfolding fleet_inv_def by metis
  then obtain js0 where p: "fs0 p = Some js0" by (cases "fs0 p") (auto simp: file_inv_def)
  have f: "focus R F P fs0 h0 p js0 (\<lambda>js h. True) s" using s p Some fi by (auto simp: focus_def file_inv_def)
  have q: "\<forall>r \<in> ran (js_vms js0). quiet_disks r" using q0 p by (auto simp: ran_def)
  have rest: "wp (bindP (on_session p (on_journal (all_vms R F))) (\<lambda>records.
        bindP (forP (recover_record R F P clock p) records) (\<lambda>_.
        bindP (on_session p (on_journal (all_vms R F))) (\<lambda>rest.
        let incomplete = list_ex (\<lambda>r. \<not> is_complete r) rest in
        bindP (on_session p (on_journal (has_abandoned R F))) (\<lambda>retains_inventory.
        if \<not> incomplete \<and> \<not> retains_inventory then remove_session D p else returnP ())))))
      (\<lambda>_. fleet_inv R F P fs0 h0) (recovery_stops R F P fs0 h0) s" if f: "focus R F P fs0 h0 p js0 (\<lambda>js h. True) s" for s
    unfolding wp_bind [of "on_session p (on_journal (all_vms R F))" "\<lambda>records. bindP (forP _ records) _"]
  proof (rule wp_mono [OF wp_session_read [OF f, where \<psi> = "\<lambda>rs js. set rs = ran (js_vms js)"]])
    fix js db q db' assume a: "journal_rel R F (rd_tables R db) js" "all_vms R F db = (q, db')"
    from all_vms_runs [OF env a] show "journal_rel R F (rd_tables R db') js \<and> q \<noteq> Err Panic \<and> (\<forall>rs. q = Ok rs \<longrightarrow> set rs = ran (js_vms js))"
      by auto
  next
    fix rs s assume f: "focus R F P fs0 h0 p js0 (\<lambda>js h. True \<and> set rs = ran (js_vms js)) s"
    then obtain db js1 where js1: "si_files s p = Some db" "journal_rel R F (rd_tables R db) js1" "recovered P js0 js1 (si_host s)"
      "set rs = ran (js_vms js1)" by (auto simp: focus_def)
    have f1: "focus R F P fs0 h0 p js0 (\<lambda>js h. complete_kept js1 js) s"
      using f js1 by (auto simp: focus_def complete_kept_def)
    have rs: "js_vms js1 (vr_vm_id r) = Some r \<and> wf_uuid (vr_vm_id r)" if "r \<in> set rs" for r
      using that js1(2-4) journal_rel_wf(1) [OF js1(2)] recoveredD(1) [OF js1(3)] by (fastforce simp: ran_def journal_ok_def)
    show "wp (bindP (forP (recover_record R F P clock p) rs) (\<lambda>_.
        bindP (on_session p (on_journal (all_vms R F))) (\<lambda>rest.
        let incomplete = list_ex (\<lambda>r. \<not> is_complete r) rest in
        bindP (on_session p (on_journal (has_abandoned R F))) (\<lambda>retains_inventory.
        if \<not> incomplete \<and> \<not> retains_inventory then remove_session D p else returnP ()))))
      (\<lambda>_. fleet_inv R F P fs0 h0) (recovery_stops R F P fs0 h0) s"
      unfolding wp_bind [of "forP _ _"]
      by (rule wp_mono [OF wp_records [OF P env q f1 rs]], assumption, rule wp_sweep [OF D env])
  qed (rule focus_stop)
  show ?thesis
    unfolding recover_session_def wp_bind [of "on_session p (on_journal (try_open_existing R F))"]
  proof (rule wp_mono [OF wp_session_read [OF f, where \<psi> = "\<lambda>a js. True"]])
    fix js db q db' assume a: "journal_rel R F (rd_tables R db) js" "try_open_existing R F db = (q, db')"
    from try_open_keeps(1,2) [OF env a] show "journal_rel R F (rd_tables R db') js \<and> q \<noteq> Err Panic \<and> (\<forall>a. q = Ok a \<longrightarrow> True)" by simp
  next
    fix a s assume f: "focus R F P fs0 h0 p js0 (\<lambda>js h. True \<and> True) s"
    then have f': "focus R F P fs0 h0 p js0 (\<lambda>js h. True) s" by simp
    show "wp (case a of None \<Rightarrow> returnP () | Some _ \<Rightarrow>
        bindP (on_session p (on_journal (all_vms R F))) (\<lambda>records.
        bindP (forP (recover_record R F P clock p) records) (\<lambda>_.
        bindP (on_session p (on_journal (all_vms R F))) (\<lambda>rest.
        let incomplete = list_ex (\<lambda>r. \<not> is_complete r) rest in
        bindP (on_session p (on_journal (has_abandoned R F))) (\<lambda>retains_inventory.
        if \<not> incomplete \<and> \<not> retains_inventory then remove_session D p else returnP ())))))
      (\<lambda>_. fleet_inv R F P fs0 h0) (recovery_stops R F P fs0 h0) s"
      using rest [OF f'] focusD [OF f'] by (cases a) (simp_all add: wp_return)
  qed (rule focus_stop)
qed

lemma wp_reconcile:
  assumes P: "os_ok P" and D: "dir_ok P D" and env: "journal_env R F" and q0: "\<forall>js \<in> ran fs0. \<forall>r \<in> ran (js_vms js). quiet_disks r"
    and s: "fleet_inv R F P fs0 h0 s"
  shows "wp (reconcile_stale_sessions R F P D clock current) (\<lambda>_. fleet_inv R F P fs0 h0) (recovery_stops R F P fs0 h0) s"
proof -
  have s0: "fleet_inv R F P fs0 h0 (s\<lparr>si_summary := empty_summary\<rparr>)" using s by (simp add: fleet_inv_def)
  have 1: "wp (on_dir (session_paths D)) (\<lambda>_ s'. fleet_inv R F P fs0 h0 s') (recovery_stops R F P fs0 h0) (s\<lparr>si_summary := empty_summary\<rparr>)"
    by (rule wp_mono [OF wp_dir [OF s0]]) (auto intro: session_paths_host [OF D])
  have 2: "wp (forP (\<lambda>path. if path = current then returnP () else recover_session R F P D clock path) paths) (\<lambda>_. fleet_inv R F P fs0 h0)
      (recovery_stops R F P fs0 h0) s'" if "fleet_inv R F P fs0 h0 s'" for paths s'
    by (rule wp_for [where I = "\<lambda>_. fleet_inv R F P fs0 h0"]) (use that wp_recover_session [OF P D env q0] in \<open>auto simp: wp_simps\<close>)
  show ?thesis
    unfolding reconcile_stale_sessions_def wp_bind wp_modify by (rule wp_mono [OF 1 2])
qed

definition sites_ok :: "('db, 'tx) redb \<Rightarrow> forms \<Rightarrow> (os_string \<rightharpoonup> 'db) \<Rightarrow> (os_string \<rightharpoonup> jstate) \<Rightarrow> bool" where
  "sites_ok R F files fs0 \<longleftrightarrow>
    (\<forall>p. case files p of None \<Rightarrow> fs0 p = None | Some db \<Rightarrow> \<exists>js. fs0 p = Some js \<and> journal_rel R F (rd_tables R db) js)"

lemma fleet_start:
  assumes "sites_ok R F (si_files s) fs0" "\<forall>js \<in> ran fs0. journal_ok P (si_host s) js"
  shows "fleet_inv R F P fs0 (si_host s) s"
proof -
  have "file_inv R F P (si_host s) (fs0 p) (si_files s p)" for p
  proof (cases "si_files s p")
    case None
    have "case si_files s p of None \<Rightarrow> fs0 p = None | Some db \<Rightarrow> \<exists>js. fs0 p = Some js \<and> journal_rel R F (rd_tables R db) js"
      using assms(1) by (simp add: sites_ok_def)
    with None show ?thesis by (simp add: file_inv_def)
  next
    case (Some db)
    have "case si_files s p of None \<Rightarrow> fs0 p = None | Some db \<Rightarrow> \<exists>js. fs0 p = Some js \<and> journal_rel R F (rd_tables R db) js"
      using assms(1) by (simp add: sites_ok_def)
    with Some obtain js where js: "fs0 p = Some js" "journal_rel R F (rd_tables R db) js" by auto
    have "journal_ok P (si_host s) js" using assms(2) js(1) by (auto simp: ran_def)
    from recovered_refl [OF this] js Some show ?thesis by (auto simp: file_inv_def)
  qed
  then show ?thesis by (simp add: fleet_inv_def)
qed

text \<open>Sessions in use stay as they are.\<close>

lemma on_session_other: "path \<noteq> p \<Longrightarrow> keeps (\<lambda>s. si_files s p = x) (on_session path m)"
  by (auto simp: keeps_def on_session_def split: option.splits prod.splits)

lemma on_dir_keeps: "keeps (\<lambda>s. si_files s p = x) (on_dir op)"
  by (auto simp: keeps_def on_dir_def split: option.splits prod.splits nat.splits)

lemma remove_other: "path \<noteq> p \<Longrightarrow> keeps (\<lambda>s. si_files s p = x) (remove_session D path)"
  unfolding remove_session_def by (intro keeps_rules on_dir_keeps keeps_modify) simp

lemma recover_other:
  assumes "path \<noteq> p"
  shows "keeps (\<lambda>s. si_files s p = x) (recover_session R F P D clock path)"
proof -
  have r: "keeps (\<lambda>s. si_files s p = x) (recover_record R F P clock path r)" for r
  proof -
    have q: "keeps (\<lambda>s. si_files s p = x) (case q of Inl (Failed _) \<Rightarrow> returnP () | q \<Rightarrow> ofResult q)" for q
      by (auto split: sum.splits stop.splits simp: keeps_return keeps_of_result)
    show ?thesis
      unfolding recover_record_def
      by (rule keeps_if, rule on_session_other [OF assms], rule keeps_bind, rule keeps_try, rule on_session_other [OF assms], rule q)
  qed
  show ?thesis
    unfolding recover_session_def Let_def by (intro keeps_rules on_session_other [OF assms] remove_other [OF assms] r)
qed

lemma recover_locked:
  assumes "rd_open R db = (Err DatabaseAlreadyOpen, db)"
  shows "keeps (\<lambda>s. si_files s p = Some db) (recover_session R F P D clock p)"
proof -
  have "recover_session R F P D clock p s = (Err Crashed, s)
      \<or> (\<exists>fuel. recover_session R F P D clock p s = (Ok (), s\<lparr>si_fuel := fuel\<rparr>))" if f: "si_files s p = Some db" for s
  proof -
    define ps where "ps = \<lparr>w_db = db, w_host = si_host s, w_fuel = si_fuel s, ps_summary = si_summary s, ps_failures = []\<rparr>"
    have o: "try_open_existing R F db = (Ok None, db)" using assms by (simp add: try_open_existing_def)
    have same: "s\<lparr>si_files := (si_files s)(p \<mapsto> db), si_host := si_host s, si_fuel := fuel, si_summary := si_summary s\<rparr> = s\<lparr>si_fuel := fuel\<rparr>" for fuel
      using f by (simp add: fun_upd_idem)
    show ?thesis
    proof (cases ps rule: tick_cases)
      case 1
      then show ?thesis using f same [of "si_fuel s"]
        by (simp add: recover_session_def bindP_def on_session_def on_journal_def ps_def)
    next
      case (2 n)
      then have "recover_session R F P D clock p s = (Ok (), s\<lparr>si_fuel := n\<rparr>)" using f o same [of n]
        by (simp add: recover_session_def bindP_def on_session_def on_journal_def ps_def returnP_def)
      then show ?thesis by blast
    qed
  qed
  then show ?thesis unfolding keeps_def by fastforce
qed

lemma reconcile_live:
  assumes "p = current \<or> rd_open R db = (Err DatabaseAlreadyOpen, db)"
  shows "keeps (\<lambda>s. si_files s p = Some db) (reconcile_stale_sessions R F P D clock current)"
proof -
  have k: "keeps (\<lambda>s. si_files s p = Some db) (if path = current then returnP () else recover_session R F P D clock path)" for path
    using assms recover_other [of path p] recover_locked by (cases "path = p") (auto simp: keeps_return)
  show ?thesis
    unfolding reconcile_stale_sessions_def
    by (rule keeps_bind, rule keeps_modify, simp, rule keeps_bind, rule on_dir_keeps, rule keeps_for, rule k)
qed

section \<open>Properties\<close>


text \<open>A state directory with one session.\<close>

definition sample_dir :: "mem_host state_dir" where
  "sample_dir = \<lparr>sd_root = [67, 58, 92, 115], sd_exists = (\<lambda>h. (True, h)),
     sd_entries = (\<lambda>h. (Ok [Ok \<lparr>de_name = encode_utf16 ''a.redb'', de_is_file = Ok True\<rparr>], h)),
     sd_is_reparse = (\<lambda>_ h. (Ok False, h)), sd_remove = (\<lambda>_ h. (Ok (), h))\<rparr>"

definition sample_path :: os_string where
  "sample_path = path_join (sd_root sample_dir) (encode_utf16 ''a.redb'')"

definition sample_site :: "(mem_db, mem_host) site" where
  "sample_site = \<lparr>si_files = [sample_path \<mapsto> sample_db sample_vm], si_host = sample_host [], si_fuel = None, si_summary = empty_summary\<rparr>"

lemma sample_dir_ok: "dir_ok mem_os sample_dir"
  by (simp add: dir_ok_def sample_dir_def same_host_def)

lemma sample_sites: "sites_ok mem_redb sample_forms (si_files sample_site) [sample_path \<mapsto> sample_state sample_vm]"
  using sample_db_rel [OF sample_vm_wf] by (simp add: sites_ok_def sample_site_def)


section \<open>The inventory query\<close>

lemma decode_abandoned_ok:
  assumes "\<And>b. b \<in> set values \<Longrightarrow> \<exists>r. fm_abandoned_dec F b = Some r \<and> wf_abandoned r"
  shows "decode_abandoned F values = Ok (map (\<lambda>b. the (fm_abandoned_dec F b)) values)"
  using assms
proof (induction "values")
  case (Cons b bs)
  from Cons.prems [of b] obtain r where "fm_abandoned_dec F b = Some r" "wf_abandoned r" by auto
  with Cons show ?case by (simp add: wf_abandoned_def)
qed simp

lemma session_inventory_runs:
  assumes env: "journal_env R F" and js: "journal_rel R F (rd_tables R db) js" and run: "session_inventory R F ro_open db = (q, db')"
    and ro: "\<forall>db r db'. ro_open db = (r, db') \<longrightarrow> rd_tables R db' = rd_tables R db"
  shows "rd_tables R db' = rd_tables R db"
    and "q = Err (Fail journal_report) \<or> (\<exists>rs. q = Ok rs \<and> set rs = (if isOk (fst (ro_open db)) then ran (js_abandoned js) else {}))"
proof -
  note R = journal_envD(1) [OF env]
  obtain o1 db1 where o1: "ro_open db = (o1, db1)" by fastforce
  let ?T = "ABANDONED R F"
  let ?g = "\<lambda>rows. checkT (decode_abandoned F (map snd rows)) :: ('b, report, abandoned_record list) txm"
  obtain raw where raw: "rd_tables R db (tb_name ?T) = Some raw" "table_rel ?T wf_uuid wf_abandoned raw (js_abandoned js)"
    using js by (auto simp: journal_rel_def holds_table_def)
  have "rd_tables R db' = rd_tables R db \<and>
      (q = Err (Fail journal_report) \<or> (\<exists>rs. q = Ok rs \<and> set rs = (if isOk (fst (ro_open db)) then ran (js_abandoned js) else {})))"
  proof (cases o1)
    case (Inl e)
    with run o1 ro [rule_format, OF o1] show ?thesis by (simp add: session_inventory_def)
  next
    case (Inr u)
    have run1: "journal_read R (read_inventory R F [] (bindT (callT journal_report (rd_iter R (tb_name ?T))) ?g)) db1 = (q, db')"
      using run o1 Inr by (simp add: session_inventory_def)
    show ?thesis
    proof (cases "rd_begin_read R db1")
      case (Inl db2)
      with run1 redb_begin(2) [OF R Inl] ro [rule_format, OF o1] show ?thesis by (simp add: journal_read_def read_tx_def)
    next
      case (Inr tx)
      have v: "rd_base R tx = rd_tables R db" "rd_view R tx = rd_tables R db" using redb_begin(4) [OF R Inr] ro [rule_format, OF o1] by simp_all
      obtain t1 tx1 where t1: "rd_open_table R (tb_name ?T) tx = (t1, tx1)" by fastforce
      obtain it tx2 where it: "rd_iter R (tb_name ?T) tx1 = (it, tx2)" by fastforce
      have c1: "rd_base R tx1 = rd_tables R db" "t1 = Ok () \<Longrightarrow> rd_view R tx1 = rd_tables R db" "t1 \<noteq> Err TableDoesNotExist"
        using tx_callD [OF redb_tx_call(1) [OF R] t1] v raw(1) by auto
      have c2: "rd_base R tx2 = rd_base R tx1" "it = Ok rows \<Longrightarrow> rd_view R tx1 (tb_name ?T) = Some m \<Longrightarrow> is_rows m rows" for rows m
        using tx_callD [OF redb_tx_call(5) [OF R] it] by auto
      obtain r tx3 where r: "read_inventory R F [] (bindT (callT journal_report (rd_iter R (tb_name ?T))) ?g) tx = (r, tx3)" by fastforce
      have q: "q = r" "db' = rd_drop R tx3" using run1 Inr r by (simp_all add: journal_read_def read_tx_def)
      show ?thesis
      proof (cases "isOk t1 \<and> isOk it")
        case True
        then obtain rows where ok: "t1 = Ok ()" "it = Ok rows" by (auto simp: isOk_iff)
        have rows: "is_rows raw rows" by (rule c2(2) [OF ok(2)]) (simp add: c1(2) [OF ok(1)] raw(1))
        have codec: "\<exists>b. tb_enc ?T x = Some b \<and> tb_dec ?T b = Some x" for x
          using journal_envD(7) [OF env] by (simp add: ABANDONED_def)
        note d = rows_decode [OF raw(2) rows codec]
        have "decode_abandoned F (map snd rows) = Ok (map (\<lambda>b. the (fm_abandoned_dec F b)) (map snd rows))"
          by (rule decode_abandoned_ok) (use d(1) in \<open>simp add: ABANDONED_def\<close>)
        moreover have "set (map (\<lambda>b. the (fm_abandoned_dec F b)) (map snd rows)) = ran (js_abandoned js)"
          using d(2) by (simp add: ABANDONED_def image_image)
        ultimately show ?thesis
          using r ok t1 it q o1 \<open>o1 = Inr u\<close> redb_end(4) [OF R, of tx3] c1(1) c2(1)
          by (auto simp: read_inventory_def bindT_def callT_def checkT_def returnT_def)
      next
        case False
        then show ?thesis
          using r t1 it q redb_end(4) [OF R, of tx3] c1(1,3) c2(1)
          by (auto simp: read_inventory_def bindT_def callT_def isOk_iff split: sum.splits redb_error.splits)
      qed
    qed
  qed
  then show "rd_tables R db' = rd_tables R db"
    and "q = Err (Fail journal_report) \<or> (\<exists>rs. q = Ok rs \<and> set rs = (if isOk (fst (ro_open db)) then ran (js_abandoned js) else {}))" by auto
qed

text \<open>The records a scan of some sessions finds, and that it leaves the databases as they are.\<close>

definition same_tables :: "('db, 'tx) redb \<Rightarrow> ('db, 'h) site \<Rightarrow> ('db, 'h) site \<Rightarrow> bool" where
  "same_tables R s s' \<longleftrightarrow> (\<forall>p. map_option (rd_tables R) (si_files s' p) = map_option (rd_tables R) (si_files s p))"

definition readable :: "('db, 'tx) redb \<Rightarrow> ('db \<Rightarrow> (redb_error + unit) \<times> 'db) \<Rightarrow> tables \<Rightarrow> bool" where
  "readable R ro_open t \<longleftrightarrow> (\<forall>db. rd_tables R db = t \<longrightarrow> isOk (fst (ro_open db)))"

lemma sites_tables: "sites_ok R F (si_files s) fs0 \<Longrightarrow> same_tables R s s' \<Longrightarrow> sites_ok R F (si_files s') fs0"
  unfolding sites_ok_def same_tables_def
proof (intro allI)
  fix p
  assume a: "\<forall>p. case si_files s p of None \<Rightarrow> fs0 p = None | Some db \<Rightarrow> \<exists>js. fs0 p = Some js \<and> journal_rel R F (rd_tables R db) js"
    and b: "\<forall>p. map_option (rd_tables R) (si_files s' p) = map_option (rd_tables R) (si_files s p)"
  from a [rule_format, of p] b [rule_format, of p]
  show "case si_files s' p of None \<Rightarrow> fs0 p = None | Some db \<Rightarrow> \<exists>js. fs0 p = Some js \<and> journal_rel R F (rd_tables R db) js"
    by (cases "si_files s p"; cases "si_files s' p") auto
qed

lemma same_tables_trans: "same_tables R s s1 \<Longrightarrow> same_tables R s1 s2 \<Longrightarrow> same_tables R s s2"
  by (simp add: same_tables_def)

text \<open>What a scan returns: records that are listed, and all those of the sessions that can be read.\<close>

definition scan_found ::
  "('db, 'tx) redb \<Rightarrow> ('db \<Rightarrow> (redb_error + unit) \<times> 'db) \<Rightarrow> (os_string \<rightharpoonup> jstate) \<Rightarrow> (os_string \<rightharpoonup> 'db) \<Rightarrow> os_string list \<Rightarrow>
   abandoned_record list \<Rightarrow> bool" where
  "scan_found R ro_open fs0 files paths rs \<longleftrightarrow>
    (\<forall>a \<in> set rs. \<exists>p \<in> set paths. \<exists>js. fs0 p = Some js \<and> a \<in> ran (js_abandoned js))
    \<and> (\<forall>p db js. p \<in> set paths \<longrightarrow> files p = Some db \<longrightarrow> fs0 p = Some js \<longrightarrow> readable R ro_open (rd_tables R db) \<longrightarrow>
         ran (js_abandoned js) \<subseteq> set rs)"

lemma scan_found_append:
  assumes "scan_found R ro_open fs0 files ps rs" "scan_found R ro_open fs0 files qs rs'"
  shows "scan_found R ro_open fs0 files (ps @ qs) (rs @ rs')"
  using assms unfolding scan_found_def by (simp add: ball_Un bex_Un) blast

lemma scan_found_tables:
  assumes "scan_found R ro_open fs0 (si_files s1) ps rs" "same_tables R s s1"
  shows "scan_found R ro_open fs0 (si_files s) ps rs"
  unfolding scan_found_def
proof (intro conjI allI impI)
  show "\<forall>a \<in> set rs. \<exists>p \<in> set ps. \<exists>js. fs0 p = Some js \<and> a \<in> ran (js_abandoned js)" using assms(1) by (simp add: scan_found_def)
  fix p db js assume a: "p \<in> set ps" "si_files s p = Some db" "fs0 p = Some js" "readable R ro_open (rd_tables R db)"
  have "map_option (rd_tables R) (si_files s1 p) = Some (rd_tables R db)" using assms(2) a(2) by (simp add: same_tables_def)
  then obtain db1 where "si_files s1 p = Some db1" "rd_tables R db1 = rd_tables R db" by (cases "si_files s1 p") auto
  with assms(1) a show "ran (js_abandoned js) \<subseteq> set rs" by (simp add: scan_found_def)
qed

lemma scan_one:
  assumes env: "journal_env R F" and s: "sites_ok R F (si_files s) fs0"
    and ro: "\<forall>db r db'. ro_open db = (r, db') \<longrightarrow> rd_tables R db' = rd_tables R db"
    and run: "(case si_files s path of None \<Rightarrow> (Ok [], s)
      | Some _ \<Rightarrow> on_session path (on_journal (session_inventory R F ro_open)) s) = (q, s')"
  shows "same_tables R s s' \<and> q \<noteq> Err Panicked \<and> (\<forall>rs. q = Ok rs \<longrightarrow> scan_found R ro_open fs0 (si_files s) [path] rs)"
proof (cases "si_files s path")
  case None
  with run have "q = Ok []" "s' = s" by auto
  with None show ?thesis by (simp add: same_tables_def scan_found_def)
next
  case (Some db)
  have "case si_files s path of None \<Rightarrow> fs0 path = None | Some db \<Rightarrow> \<exists>js. fs0 path = Some js \<and> journal_rel R F (rd_tables R db) js"
    using s by (simp add: sites_ok_def)
  with Some obtain js where js: "fs0 path = Some js" "journal_rel R F (rd_tables R db) js" by auto
  define ps where "ps = \<lparr>w_db = db, w_host = si_host s, w_fuel = si_fuel s, ps_summary = si_summary s, ps_failures = []\<rparr>"
  obtain r db' where r: "session_inventory R F ro_open db = (r, db')" by fastforce
  note i = session_inventory_runs [OF env js(2) r ro]
  show ?thesis
  proof (cases ps rule: tick_cases)
    case 1
    with run Some have "q = Err Crashed" "si_files s' = (si_files s)(path \<mapsto> db)"
      by (auto simp: on_session_def on_journal_def bindP_def ps_def)
    then show ?thesis using Some by (simp add: same_tables_def)
  next
    case (2 n)
    with run Some r have q: "q = mapErr stop_of r" and s': "si_files s' = (si_files s)(path \<mapsto> db')"
      by (auto simp: on_session_def on_journal_def bindP_def ps_def)
    have t: "same_tables R s s'" using s' Some i(1) by (simp add: same_tables_def)
    from i(2) show ?thesis
    proof (elim disjE exE conjE)
      assume "r = Err (Fail journal_report)"
      with q t show ?thesis by (simp add: stop_of_def)
    next
      fix rs assume rs: "r = Ok rs" "set rs = (if isOk (fst (ro_open db)) then ran (js_abandoned js) else {})"
      then have "scan_found R ro_open fs0 (si_files s) [path] rs" using Some js(1) by (auto simp: scan_found_def readable_def)
      with q t rs(1) show ?thesis by simp
    qed
  qed
qed

lemma scan_runs:
  assumes env: "journal_env R F" and ro: "\<forall>db r db'. ro_open db = (r, db') \<longrightarrow> rd_tables R db' = rd_tables R db"
    and s: "sites_ok R F (si_files s) fs0" and run: "inventory_scan R F ro_open paths s = (q, s')"
  shows "same_tables R s s' \<and> q \<noteq> Err Panicked \<and> (\<forall>rs. q = Ok rs \<longrightarrow> scan_found R ro_open fs0 (si_files s) paths rs)"
  using s run
proof (induction paths arbitrary: s q s')
  case Nil
  then have "q = Ok []" "s' = s" by (auto simp: returnP_def)
  then show ?case by (simp add: same_tables_def scan_found_def)
next
  case (Cons path paths)
  let ?m = "\<lambda>s. case si_files s path of None \<Rightarrow> (Ok [], s) | Some _ \<Rightarrow> on_session path (on_journal (session_inventory R F ro_open)) s"
  obtain q1 s1 where q1: "?m s = (q1, s1)" by fastforce
  note one = scan_one [OF env Cons.prems(1) ro q1]
  show ?case
  proof (cases q1)
    case (Inl e)
    have "inventory_scan R F ro_open (path # paths) s = (Err e, s1)"
      unfolding inventory_scan.simps bindP_def using q1 Inl by simp
    with Cons.prems(2) have "q = Err e" "s' = s1" by simp_all
    with one Inl show ?thesis by simp
  next
    case (Inr as)
    obtain q2 s2 where q2: "inventory_scan R F ro_open paths s1 = (q2, s2)" by fastforce
    have t1: "same_tables R s s1" using one by simp
    note rest = Cons.IH [OF sites_tables [OF Cons.prems(1) t1] q2]
    have "inventory_scan R F ro_open (path # paths) s = (case q2 of Inl e \<Rightarrow> (Err e, s2) | Inr bs \<Rightarrow> (Ok (as @ bs), s2))"
      unfolding inventory_scan.simps bindP_def using q1 Inr q2 by (simp add: returnP_def split: sum.split)
    with Cons.prems(2) have q: "(q, s') = (case q2 of Inl e \<Rightarrow> (Err e, s2) | Inr bs \<Rightarrow> (Ok (as @ bs), s2))" by simp
    have t: "same_tables R s s2" using same_tables_trans [OF t1] rest by blast
    show ?thesis
    proof (cases q2)
      case e: (Inl e)
      with q rest t show ?thesis by simp
    next
      case bs: (Inr bs)
      have "scan_found R ro_open fs0 (si_files s) ([path] @ paths) (as @ bs)"
        by (rule scan_found_append) (use one Inr rest bs scan_found_tables [OF _ t1] in auto)
      with q bs t show ?thesis by simp
    qed
  qed
qed



end
