(* ===== verification/Spec2Isabelle.thy ===== *)
theory Spec2Isabelle
  imports Handshake Scheduler Flatten ImageIndex SessionRecovery
begin

text \<open>
  Verification of jyth.
\<close>

end
